(* ===== verification/Prelude.thy ===== *)
theory Prelude
  imports Main "HOL-Library.Char_ord" "HOL-Library.List_Lexorder" "HOL-Library.Sublist"
begin

text \<open>
  The vocabulary every other theory shares. A Go \<open>string\<close> or \<open>[]byte\<close> is a list of
  bytes (\<open>char\<close> is the 8-bit type), ordered lexicographically by byte value as Go's
  \<open>strings.Compare\<close> and \<open>sort.Strings\<close> order them. The helpers are the pieces of Go's
  standard library the repository calls: decimal printing (\<open>strconv.Itoa\<close>), splitting on
  one byte (\<open>strings.Split\<close>), hexadecimal digits, and the loop shape ``return the first
  error a row of a list has''.
\<close>

type_synonym bytes = string

named_theorems shrinks \<open>facts that a scanning step leaves less input than it was given\<close>
named_theorems byte_defs \<open>definitions of byte classes, unfolded to byte ranges\<close>

section \<open>Byte classes\<close>

definition is_digit :: "char \<Rightarrow> bool" where
  [byte_defs]: "is_digit c \<longleftrightarrow> CHR ''0'' \<le> c \<and> c \<le> CHR ''9''"

definition is_lower :: "char \<Rightarrow> bool" where
  [byte_defs]: "is_lower c \<longleftrightarrow> CHR ''a'' \<le> c \<and> c \<le> CHR ''z''"

definition is_upper :: "char \<Rightarrow> bool" where
  [byte_defs]: "is_upper c \<longleftrightarrow> CHR ''A'' \<le> c \<and> c \<le> CHR ''Z''"

definition byte_val :: "char \<Rightarrow> nat" where
  "byte_val c = of_char c"

definition byte_of :: "nat \<Rightarrow> char" where
  "byte_of n = char_of n"

lemma byte_val_less [simp]: "byte_val c < 256"
  by (simp add: byte_val_def)

lemma byte_of_val [simp]: "byte_of (byte_val c) = c"
  by (simp add: byte_of_def byte_val_def)

lemma byte_val_of [simp]: "byte_val (byte_of n) = n mod 256"
  by (simp add: byte_of_def byte_val_def)

lemma byte_le_iff: "c \<le> d \<longleftrightarrow> byte_val c \<le> byte_val d"
  by (simp add: less_eq_char_def byte_val_def)

lemma byte_less_iff: "c < d \<longleftrightarrow> byte_val c < byte_val d"
  by (simp add: less_char_def byte_val_def)

lemma byte_val_inject [simp]: "byte_val c = byte_val d \<longleftrightarrow> c = d"
  by (simp add: byte_val_def)

lemma byte_val_Char [simp]:
  "byte_val (Char b0 b1 b2 b3 b4 b5 b6 b7) = of_char (Char b0 b1 b2 b3 b4 b5 b6 b7)"
  by (simp add: byte_val_def)

section \<open>Decimal digits\<close>

definition digit_val :: "char \<Rightarrow> nat" where
  "digit_val c = byte_val c - 48"

definition digit_char :: "nat \<Rightarrow> char" where
  "digit_char n = byte_of (48 + n)"

lemma is_digit_val: "is_digit c \<longleftrightarrow> 48 \<le> byte_val c \<and> byte_val c \<le> 57"
  by (simp add: is_digit_def byte_le_iff)

lemma is_digit_char [simp]: "n < 10 \<Longrightarrow> is_digit (digit_char n)"
  by (simp add: is_digit_val digit_char_def)

lemma digit_val_char [simp]: "n < 10 \<Longrightarrow> digit_val (digit_char n) = n"
  by (simp add: digit_val_def digit_char_def)

lemma digit_char_val [simp]: "is_digit c \<Longrightarrow> digit_char (digit_val c) = c"
proof -
  assume "is_digit c"
  then have "48 + (byte_val c - 48) = byte_val c" by (simp add: is_digit_val)
  then show ?thesis by (simp add: digit_char_def digit_val_def)
qed

lemma digit_val_less: "is_digit c \<Longrightarrow> digit_val c < 10"
  by (auto simp: is_digit_val digit_val_def)

lemma digit_char_0_iff: "n < 10 \<Longrightarrow> digit_char n = CHR ''0'' \<longleftrightarrow> n = 0"
proof -
  assume n: "n < 10"
  have "digit_char n = CHR ''0'' \<longleftrightarrow> byte_val (digit_char n) = byte_val (CHR ''0'')"
    by (simp only: byte_val_inject)
  with n show ?thesis by (simp add: digit_char_def)
qed

text \<open>\<open>strconv.Itoa\<close> and \<open>strconv.FormatInt(v, 10)\<close>.\<close>

fun itoa_nat :: "nat \<Rightarrow> bytes" where
  "itoa_nat n = (if n < 10 then [digit_char n]
                 else itoa_nat (n div 10) @ [digit_char (n mod 10)])"

declare itoa_nat.simps [simp del]

definition itoa :: "int \<Rightarrow> bytes" where
  "itoa i = (if i < 0 then CHR ''-'' # itoa_nat (nat (- i)) else itoa_nat (nat i))"

definition digits_value :: "bytes \<Rightarrow> nat" where
  "digits_value ds = foldl (\<lambda>v c. v * 10 + digit_val c) 0 ds"

lemma itoa_nat_nonempty [simp]: "itoa_nat n \<noteq> []"
  by (subst itoa_nat.simps) simp

lemma itoa_nat_digits: "list_all is_digit (itoa_nat n)"
proof (induction n rule: itoa_nat.induct)
  case (1 n)
  then show ?case
    by (cases "n < 10") (simp_all add: itoa_nat.simps [of n])
qed

lemma digits_value_snoc: "digits_value (ds @ [c]) = digits_value ds * 10 + digit_val c"
  by (simp add: digits_value_def)

lemma digits_value_foldl: "foldl (\<lambda>v c. v * 10 + digit_val c) a ds = a * 10 ^ length ds + digits_value ds"
proof (induction ds arbitrary: a)
  case Nil
  then show ?case by (simp add: digits_value_def)
next
  case (Cons c cs)
  have "digits_value (c # cs) = digit_val c * 10 ^ length cs + digits_value cs"
    using Cons [of "digit_val c"] by (simp add: digits_value_def)
  with Cons [of "a * 10 + digit_val c"] show ?case by (simp add: algebra_simps)
qed

lemma digits_value_Nil [simp]: "digits_value [] = 0"
  by (simp add: digits_value_def)

lemma digits_value_Cons:
  "digits_value (c # cs) = digit_val c * 10 ^ length cs + digits_value cs"
  using digits_value_foldl [of "digit_val c" cs] by (simp add: digits_value_def)

lemma digits_value_append:
  "digits_value (a @ b) = digits_value a * 10 ^ length b + digits_value b"
  using digits_value_foldl [of "digits_value a" b] by (simp add: digits_value_def)

lemma digit_val_0 [simp]: "digit_val (CHR ''0'') = 0"
  by (simp add: digit_val_def)

lemma digit_val_0_iff: "is_digit c \<Longrightarrow> digit_val c = 0 \<longleftrightarrow> c = CHR ''0''"
  using digit_char_0_iff [of "digit_val c"] digit_val_less [of c] digit_char_val [of c] by auto

lemma digits_value_zeros [simp]: "digits_value (replicate n (CHR ''0'')) = 0"
  by (induction n) (simp_all add: digits_value_Cons)

lemma digits_value_less: "list_all is_digit ds \<Longrightarrow> digits_value ds < 10 ^ length ds"
proof (induction ds)
  case (Cons c cs)
  then have "digit_val c \<le> 9" and l: "digits_value cs < 10 ^ length cs"
    using digit_val_less [of c] by auto
  then have m: "digit_val c * 10 ^ length cs \<le> 9 * 10 ^ length cs" by (intro mult_right_mono) auto
  have "(10::nat) ^ length (c # cs) = 10 * 10 ^ length cs" by simp
  with l m show ?case unfolding digits_value_Cons by linarith
qed simp

lemma digits_value_itoa [simp]: "digits_value (itoa_nat n) = n"
proof (induction n rule: itoa_nat.induct)
  case (1 n)
  then show ?case
    by (cases "n < 10")
      (simp_all add: itoa_nat.simps [of n] digits_value_snoc, simp add: digits_value_def)
qed

lemma itoa_nat_inject [simp]: "itoa_nat m = itoa_nat n \<longleftrightarrow> m = n"
  by (metis digits_value_itoa)

lemma itoa_nat_length_le:
  assumes "n < 10 ^ k" "0 < k"
  shows "length (itoa_nat n) \<le> k"
  using assms
proof (induction n arbitrary: k rule: itoa_nat.induct)
  case (1 n)
  show ?case
  proof (cases "n < 10")
    case True
    with "1.prems" show ?thesis by (simp add: itoa_nat.simps [of n])
  next
    case False
    with "1.prems"(1) have "1 < k" by (cases "k = 1") (use "1.prems"(2) in auto)
    then obtain j where k: "k = Suc j" and "0 < j" by (cases k) auto
    with "1.prems"(1) have "n div 10 < 10 ^ j"
      by (simp add: less_mult_imp_div_less mult.commute)
    with "1.IH" [OF False] \<open>0 < j\<close> have "length (itoa_nat (n div 10)) \<le> j" by blast
    with False k show ?thesis by (simp add: itoa_nat.simps [of n])
  qed
qed

lemma itoa_nat_length_ge:
  assumes "10 ^ k \<le> n"
  shows "k < length (itoa_nat n)"
  using assms
proof (induction n arbitrary: k rule: itoa_nat.induct)
  case (1 n)
  show ?case
  proof (cases "n < 10")
    case True
    have "k = 0"
    proof (rule ccontr)
      assume "k \<noteq> 0"
      then have "(10::nat) ^ 1 \<le> 10 ^ k" by (intro power_increasing) auto
      with "1.prems" True show False by simp
    qed
    then show ?thesis by simp
  next
    case False
    show ?thesis
    proof (cases k)
      case 0
      then show ?thesis by simp
    next
      case (Suc j)
      with "1.prems" have "10 ^ j \<le> n div 10"
        by (simp add: less_eq_div_iff_mult_less_eq mult.commute)
      with "1.IH" [OF False] have "j < length (itoa_nat (n div 10))" by blast
      with False Suc show ?thesis by (simp add: itoa_nat.simps [of n])
    qed
  qed
qed

lemma itoa_nat_length_mono: "m \<le> n \<Longrightarrow> length (itoa_nat m) \<le> length (itoa_nat n)"
proof -
  assume mn: "m \<le> n"
  have pos: "0 < length (itoa_nat n)" by simp
  have "n < 10 ^ length (itoa_nat n)"
    using itoa_nat_length_ge [of "length (itoa_nat n)" n] by (meson linorder_not_le less_irrefl)
  with mn have "m < 10 ^ length (itoa_nat n)" by (rule le_less_trans)
  then show ?thesis using pos by (rule itoa_nat_length_le)
qed

section \<open>Hexadecimal digits\<close>

definition hex_val :: "char \<Rightarrow> nat option" where
  "hex_val c =
     (if CHR ''0'' \<le> c \<and> c \<le> CHR ''9'' then Some (byte_val c - 48)
      else if CHR ''a'' \<le> c \<and> c \<le> CHR ''f'' then Some (byte_val c - 97 + 10)
      else if CHR ''A'' \<le> c \<and> c \<le> CHR ''F'' then Some (byte_val c - 65 + 10)
      else None)"

lemma hex_val_less: "hex_val c = Some n \<Longrightarrow> n < 16"
  by (auto simp: hex_val_def byte_le_iff split: if_splits)

definition hex_digit :: "nat \<Rightarrow> char" where
  "hex_digit n = ''0123456789abcdef'' ! n"

lemma hex_val_digit [simp]: "n < 16 \<Longrightarrow> hex_val (hex_digit n) = Some n"
proof -
  assume n: "n < 16"
  have "\<forall>k \<in> set [0..<16]. hex_val (hex_digit k) = Some k" by code_simp
  with n show ?thesis by simp
qed

section \<open>The first error of a list\<close>

text \<open>
  Go's validation loops \<open>for _, x := range xs { if err := f(x); err != nil { return err } }\<close>.
\<close>

fun first_error :: "('a \<Rightarrow> 'e option) \<Rightarrow> 'a list \<Rightarrow> 'e option" where
  "first_error f [] = None"
| "first_error f (x # xs) = (case f x of Some e \<Rightarrow> Some e | None \<Rightarrow> first_error f xs)"

lemma first_error_None [simp]: "first_error f xs = None \<longleftrightarrow> (\<forall>x \<in> set xs. f x = None)"
  by (induction xs) (auto split: option.splits)

lemma first_error_Some: "first_error f xs = Some e \<Longrightarrow> \<exists>x \<in> set xs. f x = Some e"
  by (induction xs) (auto split: option.splits)

section \<open>Splitting on one byte\<close>

text \<open>\<open>strings.Split(s, sep)\<close> for a one-byte separator, and \<open>strings.Join\<close>.\<close>

fun split_on :: "char \<Rightarrow> bytes \<Rightarrow> bytes list" where
  "split_on sep [] = [[]]"
| "split_on sep (c # s) =
     (if c = sep then [] # split_on sep s
      else (case split_on sep s of [] \<Rightarrow> [[c]] | p # ps \<Rightarrow> (c # p) # ps))"

fun join_with :: "bytes \<Rightarrow> bytes list \<Rightarrow> bytes" where
  "join_with sep [] = []"
| "join_with sep [p] = p"
| "join_with sep (p # q # ps) = p @ sep @ join_with sep (q # ps)"

lemma split_on_nonempty [simp]: "split_on sep s \<noteq> []"
  by (induction s) (auto split: list.splits)

lemma join_split_on [simp]: "join_with [sep] (split_on sep s) = s"
proof (induction s)
  case Nil
  then show ?case by simp
next
  case (Cons c s)
  obtain p ps where ps: "split_on sep s = p # ps"
    using split_on_nonempty [of sep s] by (cases "split_on sep s") auto
  show ?case
    using Cons ps by (cases ps) auto
qed

lemma split_on_parts: "p \<in> set (split_on sep s) \<Longrightarrow> sep \<notin> set p"
  by (induction s arbitrary: p) (fastforce split: if_splits list.splits)+

lemma split_on_set: "p \<in> set (split_on sep s) \<Longrightarrow> set p \<subseteq> set s"
  by (induction s arbitrary: p) (fastforce split: if_splits list.splits)+

lemma split_on_no_sep: "sep \<notin> set s \<Longrightarrow> split_on sep s = [s]"
  by (induction s) auto

lemma split_on_append_sep: "split_on sep (s @ sep # t) = split_on sep s @ split_on sep t"
  by (induction s) (auto split: list.splits)

section \<open>Suffixes and lengths\<close>

lemma length_dropWhile_le' [shrinks]: "length (dropWhile P xs) \<le> length xs"
  by (rule length_dropWhile_le)

lemma dropWhile_prefix: "\<exists>p. xs = p @ dropWhile P xs \<and> list_all P p"
  using takeWhile_dropWhile_id [of P xs]
  by (metis list_all_iff set_takeWhileD)

lemma takeWhile_append_stop:
  assumes "list_all P p" "s = [] \<or> \<not> P (hd s)"
  shows "takeWhile P (p @ s) = p" "dropWhile P (p @ s) = s"
  using assms by (induction p; cases s; simp)+

end
