(* ===== verification/Utf8.thy ===== *)
theory Utf8
  imports Prelude
begin

text \<open>
  Go's \<open>unicode/utf8\<close> and \<open>unicode/utf16\<close> as the repository uses them: \<open>utf8.Valid\<close>
  (\<open>utf8_valid\<close>), the first rune of a byte string (\<open>decode_rune\<close>, \<open>None\<close> where the
  leading bytes are not a well-formed sequence), \<open>utf8.AppendRune\<close> (\<open>encode_rune\<close>) and
  the surrogate arithmetic of \<open>utf16.IsSurrogate\<close> and \<open>utf16.DecodeRune\<close>. The lemmas
  show that decoding inverts encoding, that valid strings are closed under append, and that a
  valid string may be cut on either side of an ASCII byte.
\<close>

definition ascii :: "char \<Rightarrow> bool" where
  "ascii c \<longleftrightarrow> byte_val c < 128"

definition cont :: "char \<Rightarrow> bool" where
  "cont c \<longleftrightarrow> 128 \<le> byte_val c \<and> byte_val c \<le> 191"

definition cont_bits :: "char \<Rightarrow> nat" where
  "cont_bits c = byte_val c - 128"

definition scalar :: "nat \<Rightarrow> bool" where
  "scalar r \<longleftrightarrow> r < 0xD800 \<or> (0xDFFF < r \<and> r \<le> 0x10FFFF)"

definition encode_rune :: "nat \<Rightarrow> bytes" where
  "encode_rune r =
     (if r < 0x80 then [byte_of r]
      else if r < 0x800 then [byte_of (0xC0 + r div 64), byte_of (0x80 + r mod 64)]
      else if \<not> scalar r then [CHR 0xEF, CHR 0xBF, CHR 0xBD]
      else if r < 0x10000 then
        [byte_of (0xE0 + r div 4096), byte_of (0x80 + r div 64 mod 64), byte_of (0x80 + r mod 64)]
      else
        [byte_of (0xF0 + r div 262144), byte_of (0x80 + r div 4096 mod 64),
         byte_of (0x80 + r div 64 mod 64), byte_of (0x80 + r mod 64)])"

definition decode_rune :: "bytes \<Rightarrow> (nat \<times> bytes) option" where
  "decode_rune s =
     (case s of
        [] \<Rightarrow> None
      | c0 # s1 \<Rightarrow>
         (let b = byte_val c0 in
          if b < 0x80 then Some (b, s1)
          else if 0xC2 \<le> b \<and> b \<le> 0xDF then
            (case s1 of
               c1 # t \<Rightarrow> if cont c1 then Some ((b - 0xC0) * 64 + cont_bits c1, t) else None
             | _ \<Rightarrow> None)
          else if 0xE0 \<le> b \<and> b \<le> 0xEF then
            (case s1 of
               c1 # c2 # t \<Rightarrow>
                 if cont c1 \<and> cont c2 \<and> (b = 0xE0 \<longrightarrow> 0xA0 \<le> byte_val c1)
                    \<and> (b = 0xED \<longrightarrow> byte_val c1 \<le> 0x9F)
                 then Some ((b - 0xE0) * 4096 + cont_bits c1 * 64 + cont_bits c2, t) else None
             | _ \<Rightarrow> None)
          else if 0xF0 \<le> b \<and> b \<le> 0xF4 then
            (case s1 of
               c1 # c2 # c3 # t \<Rightarrow>
                 if cont c1 \<and> cont c2 \<and> cont c3 \<and> (b = 0xF0 \<longrightarrow> 0x90 \<le> byte_val c1)
                    \<and> (b = 0xF4 \<longrightarrow> byte_val c1 \<le> 0x8F)
                 then Some ((b - 0xF0) * 262144 + cont_bits c1 * 4096 + cont_bits c2 * 64
                            + cont_bits c3, t) else None
             | _ \<Rightarrow> None)
          else None))"

lemma decode_rune_Nil [simp]: "decode_rune [] = None"
  by (simp add: decode_rune_def)

lemma decode_rune_ascii: "ascii c \<Longrightarrow> decode_rune (c # s) = Some (byte_val c, s)"
  by (simp add: decode_rune_def ascii_def)

lemma decode_rune_shrinks [shrinks]: "decode_rune s = Some (r, t) \<Longrightarrow> length t < length s"
  by (auto simp: decode_rune_def Let_def split: list.splits if_splits)

function utf8_valid :: "bytes \<Rightarrow> bool" where
  "utf8_valid s =
     (case s of [] \<Rightarrow> True
      | _ \<Rightarrow> (case decode_rune s of None \<Rightarrow> False | Some (r, t) \<Rightarrow> utf8_valid t))"
  by pat_completeness auto
termination
  by (relation "measure length") (auto dest: decode_rune_shrinks)

declare utf8_valid.simps [simp del]

lemma utf8_valid_Nil [simp]: "utf8_valid []"
  by (simp add: utf8_valid.simps)

lemma utf8_valid_Cons:
  "utf8_valid (c # s) \<longleftrightarrow>
     (case decode_rune (c # s) of None \<Rightarrow> False | Some (r, t) \<Rightarrow> utf8_valid t)"
  by (subst utf8_valid.simps) simp

lemma utf8_valid_decode:
  "decode_rune s = Some (r, t) \<Longrightarrow> utf8_valid s \<longleftrightarrow> utf8_valid t"
  by (cases s) (simp_all add: utf8_valid_Cons)

lemma utf8_valid_ascii [simp]: "ascii c \<Longrightarrow> utf8_valid (c # s) \<longleftrightarrow> utf8_valid s"
  by (rule utf8_valid_decode) (rule decode_rune_ascii)

lemma utf8_valid_all_ascii: "list_all ascii s \<Longrightarrow> utf8_valid s"
  by (induction s) simp_all

section \<open>Decoding inverts encoding\<close>

lemma digits64:
  fixes r :: nat
  shows "r div 4096 * 4096 + r div 64 mod 64 * 64 + r mod 64 = r"
    and "r div 262144 * 262144 + r div 4096 mod 64 * 4096 + r div 64 mod 64 * 64 + r mod 64 = r"
proof -
  have 1: "r div 4096 = r div 64 div 64" "r div 262144 = r div 4096 div 64"
    by (simp_all add: div_mult2_eq [symmetric])
  have "r div 64 div 64 * 64 + r div 64 mod 64 = r div 64" "r div 64 * 64 + r mod 64 = r"
    "r div 4096 div 64 * 64 + r div 4096 mod 64 = r div 4096"
    by (rule div_mult_mod_eq)+
  with 1 show "r div 4096 * 4096 + r div 64 mod 64 * 64 + r mod 64 = r"
    and "r div 262144 * 262144 + r div 4096 mod 64 * 4096 + r div 64 mod 64 * 64 + r mod 64 = r"
    by linarith+
qed

lemma scalar_le: "scalar r \<Longrightarrow> r \<le> 0x10FFFF"
  by (auto simp: scalar_def)

lemma decode2:
  assumes "2 \<le> a" "a < 32" "b < 64"
  shows "decode_rune (byte_of (192 + a) # byte_of (128 + b) # t) = Some (a * 64 + b, t)"
  using assms by (simp add: decode_rune_def cont_def cont_bits_def)

lemma decode3:
  assumes "a < 16" "b < 64" "c < 64" "a = 0 \<longrightarrow> 32 \<le> b" "a = 13 \<longrightarrow> b \<le> 31"
  shows "decode_rune (byte_of (224 + a) # byte_of (128 + b) # byte_of (128 + c) # t) =
           Some (a * 4096 + b * 64 + c, t)"
  using assms by (simp add: decode_rune_def cont_def cont_bits_def)

lemma decode4:
  assumes "a \<le> 4" "b < 64" "c < 64" "d < 64" "a = 0 \<longrightarrow> 16 \<le> b" "a = 4 \<longrightarrow> b \<le> 15"
  shows "decode_rune (byte_of (240 + a) # byte_of (128 + b) # byte_of (128 + c)
           # byte_of (128 + d) # t) = Some (a * 262144 + b * 4096 + c * 64 + d, t)"
  using assms by (simp add: decode_rune_def Let_def cont_def cont_bits_def)

lemma encode2:
  assumes "0x80 \<le> r" "r < 0x800"
  shows "decode_rune (encode_rune r @ t) = Some (r, t)"
proof -
  have "2 \<le> r div 64" "r div 64 < 32" using assms by auto
  with assms show ?thesis by (simp add: encode_rune_def decode2)
qed

lemma encode3:
  assumes "0x800 \<le> r" "r < 0x10000" "scalar r"
  shows "decode_rune (encode_rune r @ t) = Some (r, t)"
proof -
  note r = digits64(1) [of r]
  have "r div 4096 < 16" using assms by auto
  moreover have "r div 4096 = 0 \<longrightarrow> 32 \<le> r div 64 mod 64" using assms r by auto
  moreover have "r div 4096 = 13 \<longrightarrow> r div 64 mod 64 \<le> 31"
    using assms r by (auto simp: scalar_def)
  ultimately show ?thesis
    using assms r by (simp add: encode_rune_def decode3)
qed

lemma encode4:
  assumes "0x10000 \<le> r" "scalar r"
  shows "decode_rune (encode_rune r @ t) = Some (r, t)"
proof -
  note r = digits64(2) [of r]
  have "r div 262144 \<le> 4" using scalar_le [OF assms(2)] by auto
  moreover have "r div 262144 = 0 \<longrightarrow> 16 \<le> r div 4096 mod 64" using assms r by auto
  moreover have "r div 262144 = 4 \<longrightarrow> r div 4096 mod 64 \<le> 15"
    using scalar_le [OF assms(2)] r by auto
  ultimately show ?thesis
    using assms r by (simp add: encode_rune_def decode4)
qed

lemma decode_encode_rune:
  assumes "scalar r"
  shows "decode_rune (encode_rune r @ t) = Some (r, t)"
proof -
  consider "r < 0x80" | "0x80 \<le> r" "r < 0x800" | "0x800 \<le> r" "r < 0x10000" | "0x10000 \<le> r"
    by linarith
  then show ?thesis
    by cases (simp_all add: assms encode2 encode3 encode4, simp add: encode_rune_def
        decode_rune_ascii ascii_def)
qed

lemma utf8_valid_encode_rune: "utf8_valid (encode_rune r @ t) \<longleftrightarrow> utf8_valid t"
proof (cases "scalar r")
  case True
  then show ?thesis by (rule utf8_valid_decode [OF decode_encode_rune])
next
  case False
  have "CHR 0xEF = byte_of 239" "CHR 0xBF = byte_of 191" "CHR 0xBD = byte_of 189"
    using byte_of_val [of "CHR 0xEF"] byte_of_val [of "CHR 0xBF"] byte_of_val [of "CHR 0xBD"]
    by simp_all
  with False have "encode_rune r = encode_rune 0xFFFD"
    by (simp add: encode_rune_def scalar_def)
  then show ?thesis
    by (simp add: utf8_valid_decode [OF decode_encode_rune] scalar_def)
qed

lemma encode_rune_nonempty [simp]: "encode_rune r \<noteq> []"
  by (simp add: encode_rune_def)

section \<open>Appending and cutting\<close>

lemma decode_rune_append:
  assumes "decode_rune s = Some (r, t)"
  shows "decode_rune (s @ u) = Some (r, t @ u)"
proof -
  obtain c0 s1 where s: "s = c0 # s1" using assms by (cases s) auto
  show ?thesis
  proof (cases s1)
    case Nil
    with s assms show ?thesis by (simp add: decode_rune_def Let_def split: if_splits)
  next
    case s1: (Cons c1 s2)
    show ?thesis
    proof (cases s2)
      case Nil
      with s s1 assms show ?thesis by (simp add: decode_rune_def Let_def split: if_splits)
    next
      case (Cons c2 s3)
      with s s1 assms show ?thesis
        by (cases s3) (simp_all add: decode_rune_def Let_def split: if_splits)
    qed
  qed
qed

lemma utf8_valid_append: "utf8_valid s \<Longrightarrow> utf8_valid (s @ t) \<longleftrightarrow> utf8_valid t"
proof (induction s rule: utf8_valid.induct)
  case (1 s)
  show ?case
  proof (cases s)
    case Nil
    then show ?thesis by simp
  next
    case (Cons c s')
    with "1.prems" obtain r u where d: "decode_rune s = Some (r, u)" and u: "utf8_valid u"
      by (auto simp: utf8_valid_Cons split: option.splits)
    have "utf8_valid (u @ t) \<longleftrightarrow> utf8_valid t"
      using "1.IH" [OF Cons d refl u] .
    with utf8_valid_decode [OF decode_rune_append [OF d]] show ?thesis by simp
  qed
qed

lemma decode_rune_before_ascii:
  assumes "decode_rune (a @ c # b) = Some (r, t)" "a \<noteq> []" "ascii c"
  shows "\<exists>a'. decode_rune a = Some (r, a') \<and> t = a' @ c # b"
proof -
  have nc: "\<not> cont c" using assms(3) by (simp add: ascii_def cont_def)
  obtain c0 a1 where a: "a = c0 # a1" using assms(2) by (cases a) auto
  show ?thesis
  proof (cases a1)
    case Nil
    with assms(1) a nc show ?thesis
      by (auto simp: decode_rune_def Let_def split: list.splits if_splits)
  next
    case (Cons c1 a2)
    show ?thesis
    proof (cases a2)
      case Nil
      with assms(1) a Cons nc show ?thesis
        by (auto simp: decode_rune_def Let_def split: list.splits if_splits)
    next
      case c2: (Cons c2 a3)
      show ?thesis
        using assms(1) a Cons c2 nc
        by (cases a3) (auto simp: decode_rune_def Let_def split: list.splits if_splits)
    qed
  qed
qed

lemma utf8_valid_cut:
  assumes "utf8_valid (a @ c # b)" "ascii c"
  shows "utf8_valid a" "utf8_valid b"
proof -
  have "utf8_valid a \<and> utf8_valid b"
    using assms
  proof (induction a rule: utf8_valid.induct)
    case (1 a)
    show ?case
    proof (cases a)
      case Nil
      with "1.prems" show ?thesis by simp
    next
      case (Cons c0 a1)
      with "1.prems"(1) obtain r t where d: "decode_rune (a @ c # b) = Some (r, t)"
        and t: "utf8_valid t"
        by (auto simp: utf8_valid_Cons split: option.splits)
      obtain a' where d': "decode_rune a = Some (r, a')" and ta: "t = a' @ c # b"
        using decode_rune_before_ascii [OF d _ "1.prems"(2)] Cons by auto
      have "utf8_valid a' \<and> utf8_valid b"
        using "1.IH" [OF Cons d' refl] t ta "1.prems"(2) by simp
      with utf8_valid_decode [OF d'] show ?thesis by simp
    qed
  qed
  then show "utf8_valid a" "utf8_valid b" by simp_all
qed

text \<open>The bytes of one rune: alone when the first is ASCII, all non-ASCII otherwise.\<close>

lemma decode_rune_split:
  assumes "decode_rune s = Some (r, t)" "s = c # s'" "\<not> ascii c"
  shows "\<exists>p. s = p @ t \<and> list_all (\<lambda>c. \<not> ascii c) p \<and> decode_rune (p @ u) = Some (r, u)"
proof -
  have na: "cont x \<Longrightarrow> \<not> ascii x" for x by (simp add: cont_def ascii_def)
  have b: "\<not> byte_val c < 128" using assms(3) by (simp add: ascii_def)
  consider (2) c1 where "s = [c, c1] @ t" "cont c1" "byte_val c \<le> 0xDF"
    | (3) c1 c2 where "s = [c, c1, c2] @ t" "cont c1" "cont c2" "0xE0 \<le> byte_val c"
        "byte_val c \<le> 0xEF"
    | (4) c1 c2 c3 where "s = [c, c1, c2, c3] @ t" "cont c1" "cont c2" "cont c3"
        "0xF0 \<le> byte_val c"
    using assms(1,2) b by (auto simp: decode_rune_def Let_def split: list.splits if_splits)
  then show ?thesis
  proof cases
    case 2
    with assms(1) b have "decode_rune ([c, c1] @ u) = Some (r, u)"
      by (simp add: decode_rune_def Let_def split: if_splits)
    with 2 assms(3) na show ?thesis by (intro exI [of _ "[c, c1]"]) simp
  next
    case 3
    with assms(1) b have "decode_rune ([c, c1, c2] @ u) = Some (r, u)"
      by (simp add: decode_rune_def Let_def split: if_splits)
    with 3 assms(3) na show ?thesis by (intro exI [of _ "[c, c1, c2]"]) simp
  next
    case 4
    with assms(1) b have "decode_rune ([c, c1, c2, c3] @ u) = Some (r, u)"
      by (simp add: decode_rune_def Let_def split: if_splits)
    with 4 assms(3) na show ?thesis by (intro exI [of _ "[c, c1, c2, c3]"]) simp
  qed
qed

text \<open>
  Rewriting byte by byte keeps validity when ASCII bytes become ASCII and the others stay.
\<close>

lemma utf8_valid_concat_map:
  assumes f: "\<And>c. ascii c \<Longrightarrow> list_all ascii (f c)" "\<And>c. \<not> ascii c \<Longrightarrow> f c = [c]"
  shows "utf8_valid s \<Longrightarrow> utf8_valid (concat (map f s))"
proof (induction s rule: utf8_valid.induct)
  case (1 s)
  show ?case
  proof (cases s)
    case Nil
    then show ?thesis by simp
  next
    case (Cons c s')
    with "1.prems" obtain r t where d: "decode_rune s = Some (r, t)" and t: "utf8_valid t"
      by (auto simp: utf8_valid_Cons split: option.splits)
    have IH: "utf8_valid (concat (map f t))" using "1.IH" [OF Cons d refl t] .
    show ?thesis
    proof (cases "ascii c")
      case True
      then have "t = s'" using d Cons by (simp add: decode_rune_ascii)
      then show ?thesis
        using IH Cons utf8_valid_append [OF utf8_valid_all_ascii [OF f(1) [OF True]]] by simp
    next
      case False
      obtain p where p: "s = p @ t" "list_all (\<lambda>c. \<not> ascii c) p"
        "decode_rune (p @ concat (map f t)) = Some (r, concat (map f t))"
        using decode_rune_split [OF d Cons False] by blast
      have "concat (map f p) = p" using p(2) f(2) by (induction p) auto
      then show ?thesis using p(1) IH utf8_valid_decode [OF p(3)] by simp
    qed
  qed
qed

section \<open>Surrogates\<close>

definition is_surrogate :: "nat \<Rightarrow> bool" where
  "is_surrogate u \<longleftrightarrow> 0xD800 \<le> u \<and> u \<le> 0xDFFF"

definition decode_surrogates :: "nat \<Rightarrow> nat \<Rightarrow> nat" where
  "decode_surrogates hi lo =
     (if 0xD800 \<le> hi \<and> hi < 0xDC00 \<and> 0xDC00 \<le> lo \<and> lo < 0xE000
      then (hi - 0xD800) * 1024 + (lo - 0xDC00) + 0x10000 else 0xFFFD)"

lemma decode_surrogates_scalar: "scalar (decode_surrogates hi lo)"
  by (auto simp: decode_surrogates_def scalar_def)

end
