(* ===== verification/StrictJson.thy ===== *)
theory StrictJson
  imports Utf8
begin

text \<open>
  The strict JSON scanner of \<open>pkg/aiiosdk/strictjson.go\<close>. Go keeps a buffer \<open>b\<close> that is
  never written and an index \<open>i\<close> that only grows; the model keeps the remaining input, the
  suffix of \<open>b\<close> at \<open>i\<close>, so \<open>s.i >= len(s.b)\<close> is the empty list and a slice
  \<open>b[from:i]\<close> is the difference of two suffixes. A scanning method that returns
  \<open>false\<close> is \<open>None\<close>; one that succeeds returns the suffix it stopped at. The nesting
  counter \<open>depth\<close> is an argument, as \<open>nested\<close> restores it.
\<close>

section \<open>White space, literals and strings\<close>

definition is_ws :: "char \<Rightarrow> bool" where
  "is_ws c \<longleftrightarrow> c = CHR '' '' \<or> c = CHR 0x09 \<or> c = CHR 0x0A \<or> c = CHR 0x0D"

definition ws :: "bytes \<Rightarrow> bytes" where
  "ws s = dropWhile is_ws s"

definition literal :: "bytes \<Rightarrow> bytes \<Rightarrow> bytes option" where
  "literal lit s =
     (if length s < length lit \<or> take (length lit) s \<noteq> lit then None
      else Some (drop (length lit) s))"

fun hex4_loop :: "nat \<Rightarrow> bytes \<Rightarrow> nat option" where
  "hex4_loop v [] = Some v"
| "hex4_loop v (c # cs) =
     (case hex_val c of None \<Rightarrow> None | Some n \<Rightarrow> hex4_loop (v * 16 + n) cs)"

definition hex4 :: "bytes \<Rightarrow> nat option" where
  "hex4 s = (if length s < 4 then None else hex4_loop 0 (take 4 s))"

definition escape :: "bytes \<Rightarrow> (nat \<times> bytes) option" where
  "escape s =
     (if length s < 2 then None
      else if s ! 1 = CHR 0x22 then Some (34, drop 2 s)
      else if s ! 1 = CHR 0x5C then Some (92, drop 2 s)
      else if s ! 1 = CHR ''/'' then Some (47, drop 2 s)
      else if s ! 1 = CHR ''b'' then Some (8, drop 2 s)
      else if s ! 1 = CHR ''f'' then Some (12, drop 2 s)
      else if s ! 1 = CHR ''n'' then Some (10, drop 2 s)
      else if s ! 1 = CHR ''r'' then Some (13, drop 2 s)
      else if s ! 1 = CHR ''t'' then Some (9, drop 2 s)
      else if s ! 1 = CHR ''u'' then
        (case hex4 (drop 2 s) of
           None \<Rightarrow> None
         | Some u \<Rightarrow>
             if u = 0 then None
             else if is_surrogate u \<and> 0xDC00 \<le> u then None
             else if is_surrogate u then
               (if length s < 12 \<or> s ! 6 \<noteq> CHR 0x5C \<or> s ! 7 \<noteq> CHR ''u'' then None
                else (case hex4 (drop 8 s) of
                        None \<Rightarrow> None
                      | Some lo \<Rightarrow>
                          if lo < 0xDC00 \<or> 0xDFFF < lo then None
                          else Some (decode_surrogates u lo, drop 12 s)))
             else Some (u, drop 6 s))
      else None)"

lemma escape_shrinks [shrinks]: "escape s = Some (r, t) \<Longrightarrow> length t < length s"
  by (auto simp: escape_def split: if_splits option.splits)

function string_loop :: "bytes \<Rightarrow> bytes \<Rightarrow> (bytes \<times> bytes) option" where
  "string_loop out s =
     (case s of
        [] \<Rightarrow> None
      | c # t \<Rightarrow>
          if c = CHR 0x22 then Some (out, t)
          else if c = CHR 0x5C then
            (case escape s of
               None \<Rightarrow> None
             | Some (r, t') \<Rightarrow> string_loop (out @ encode_rune r) t')
          else if c < CHR 0x20 then None
          else string_loop (out @ [c]) t)"
  by pat_completeness auto
termination
  by (relation "measure (\<lambda>(out, s). length s)") (auto dest: escape_shrinks)

declare string_loop.simps [simp del]

definition scan_string :: "bytes \<Rightarrow> (bytes \<times> bytes) option" where
  "scan_string s =
     (case s of c # t \<Rightarrow> if c = CHR 0x22 then string_loop [] t else None | [] \<Rightarrow> None)"

lemma string_loop_shrinks [shrinks]: "string_loop out s = Some (k, t) \<Longrightarrow> length t < length s"
proof (induction out s rule: string_loop.induct)
  case (1 out s)
  then show ?case
    by (subst (asm) (3) string_loop.simps)
      (fastforce split: list.splits if_splits option.splits dest: escape_shrinks)
qed

lemma scan_string_shrinks [shrinks]: "scan_string s = Some (k, t) \<Longrightarrow> length t < length s"
  by (auto simp: scan_string_def split: list.splits if_splits dest: string_loop_shrinks)

section \<open>Numbers\<close>

text \<open>
  Go's \<open>int\<close> is 64 bits wide on the native targets; \<open>wrap_int\<close> is its two's-complement
  wrap-around and \<open>atoi\<close> is \<open>strconv.Atoi\<close>, which refuses a value outside that range.
\<close>

definition wrap_int :: "int \<Rightarrow> int" where
  "wrap_int i = (i + 2 ^ 63) mod 2 ^ 64 - 2 ^ 63"

definition int_range :: "int \<Rightarrow> bool" where
  "int_range i \<longleftrightarrow> - (2 ^ 63) \<le> i \<and> i < 2 ^ 63"

lemma wrap_int_id [simp]: "int_range i \<Longrightarrow> wrap_int i = i"
  by (simp add: wrap_int_def int_range_def)

lemma wrap_int_range: "int_range (wrap_int i)"
proof -
  have "0 \<le> (i + 2 ^ 63) mod 2 ^ 64" "(i + 2 ^ 63) mod 2 ^ 64 < (2::int) ^ 64" by simp_all
  then show ?thesis by (simp add: wrap_int_def int_range_def)
qed

definition atoi :: "bytes \<Rightarrow> int option" where
  "atoi s =
     (let neg = (s \<noteq> [] \<and> hd s = CHR ''-'');
          ds = (if s \<noteq> [] \<and> (hd s = CHR ''-'' \<or> hd s = CHR ''+'') then tl s else s);
          v = (if neg then - int (digits_value ds) else int (digits_value ds))
      in if ds = [] \<or> \<not> list_all is_digit ds \<or> \<not> int_range v then None else Some v)"

text \<open>
  \<open>strconv.ParseFloat(tok, 64)\<close> on a JSON number token: its value is
  \<open>digits_value ds * 10 ^ e\<close> and the nearest double is an infinity exactly when the magnitude
  reaches the midpoint between the largest double and \<open>2 ^ 1024\<close>. That is the one thing
  \<open>numberDomainOK\<close> asks of it (the returned error is then \<open>ErrRange\<close>).
\<close>

definition float64_overflows :: "nat \<Rightarrow> int \<Rightarrow> bool" where
  "float64_overflows m e \<longleftrightarrow>
     (if 0 \<le> e then 2 ^ 1024 - 2 ^ 970 \<le> m * 10 ^ nat e
      else (2 ^ 1024 - 2 ^ 970) * 10 ^ nat (- e) \<le> m)"

definition split_number :: "bytes \<Rightarrow> (bytes \<times> bytes \<times> int) option" where
  "split_number tok =
     (let t0 = (if tok \<noteq> [] \<and> hd tok = CHR ''-'' then tl tok else tok);
          ints = takeWhile is_digit t0;
          t1 = dropWhile is_digit t0;
          dot = (t1 \<noteq> [] \<and> hd t1 = CHR ''.'');
          fracs = (if dot then takeWhile is_digit (tl t1) else []);
          t2 = (if dot then dropWhile is_digit (tl t1) else t1)
      in if t2 \<noteq> [] \<and> (hd t2 = CHR ''e'' \<or> hd t2 = CHR ''E'')
         then (case atoi (tl t2) of None \<Rightarrow> None | Some e \<Rightarrow> Some (ints, fracs, e))
         else if t2 = [] then Some (ints, fracs, 0) else None)"

fun strip_trailing :: "bytes \<Rightarrow> int \<Rightarrow> bytes \<times> int" where
  "strip_trailing rev_digits pointExp =
     (case rev_digits of
        c # cs \<Rightarrow> if c = CHR ''0'' then strip_trailing cs (wrap_int (pointExp + 1))
                  else (rev_digits, pointExp)
      | [] \<Rightarrow> ([], pointExp))"

declare strip_trailing.simps [simp del]

definition normalize_decimal :: "bytes \<Rightarrow> int \<Rightarrow> bytes \<times> int" where
  "normalize_decimal digits pointExp =
     (let ds = dropWhile (\<lambda>c. c = CHR ''0'') digits;
          (rds, p) = strip_trailing (rev ds) pointExp
      in (rev rds, p))"

definition safe_integer_digits :: bytes where
  "safe_integer_digits = ''9007199254740991''"

text \<open>
  \<open>token_exp\<close> is the decimal exponent of the token's mathematical value, with no
  wrap-around: what \<open>ParseFloat\<close> is documented to round. \<open>number_run\<close> is \<open>numberDomainOK\<close>; its
  padding loop \<open>for i := 0; i < pointExp; i++ { mag += "0" }\<close> is \<open>replicate\<close>, and the number of its
  rounds is kept beside the result.
\<close>

definition token_exp :: "bytes \<Rightarrow> int" where
  "token_exp tok =
     (let e = tl (dropWhile (\<lambda>c. c \<noteq> CHR ''e'' \<and> c \<noteq> CHR ''E'') tok);
          ds = (if e \<noteq> [] \<and> (hd e = CHR ''-'' \<or> hd e = CHR ''+'') then tl e else e);
          v = int (digits_value ds)
      in if e \<noteq> [] \<and> hd e = CHR ''-'' then - v else v)"

definition parse_float_is_inf :: "bytes \<Rightarrow> bool" where
  "parse_float_is_inf tok =
     (let t0 = (if tok \<noteq> [] \<and> hd tok = CHR ''-'' then tl tok else tok);
          ints = takeWhile is_digit t0;
          t1 = dropWhile is_digit t0;
          fracs = (if t1 \<noteq> [] \<and> hd t1 = CHR ''.'' then takeWhile is_digit (tl t1) else [])
      in float64_overflows (digits_value (ints @ fracs)) (token_exp tok - int (length fracs)))"

text \<open>The result, and the rounds of the padding loop.\<close>

definition number_run :: "bytes \<Rightarrow> bool \<times> nat" where
  "number_run tok =
     (if parse_float_is_inf tok then (False, 0)
      else case split_number tok of
        None \<Rightarrow> (False, 0)
      | Some (ints, fracs, e) \<Rightarrow>
          (let (digits, pointExp) =
                 normalize_decimal (ints @ fracs) (wrap_int (e - int (length fracs)))
           in if digits = [] then (True, 0)
              else if pointExp < 0 then (True, 0)
              else if int (length safe_integer_digits) < wrap_int (int (length digits) + pointExp)
              then (False, 0)
              else (let rounds = nat pointExp; mag = digits @ replicate rounds (CHR ''0'')
                    in (if length mag < length safe_integer_digits then True
                        else mag \<le> safe_integer_digits, rounds))))"

definition number_domain :: "bytes \<Rightarrow> bool" where
  "number_domain tok = fst (number_run tok)"

definition digits_required :: "bytes \<Rightarrow> bytes option" where
  "digits_required s =
     (if s = [] \<or> \<not> is_digit (hd s) then None else Some (dropWhile is_digit s))"

definition scan_int :: "bytes \<Rightarrow> bytes option" where
  "scan_int s =
     (case s of
        [] \<Rightarrow> None
      | c # t \<Rightarrow>
          if c = CHR ''0'' then (if t \<noteq> [] \<and> is_digit (hd t) then None else Some t)
          else if CHR ''1'' \<le> c \<and> c \<le> CHR ''9'' then Some (dropWhile is_digit s)
          else None)"

definition scan_frac :: "bytes \<Rightarrow> bytes option" where
  "scan_frac s =
     (if s \<noteq> [] \<and> hd s = CHR ''.'' then digits_required (tl s) else Some s)"

definition skip_sign :: "bytes \<Rightarrow> bytes" where
  "skip_sign t = (if t \<noteq> [] \<and> (hd t = CHR ''+'' \<or> hd t = CHR ''-'') then tl t else t)"

definition scan_exp :: "bytes \<Rightarrow> bytes option" where
  "scan_exp s =
     (if s \<noteq> [] \<and> (hd s = CHR ''e'' \<or> hd s = CHR ''E'') then digits_required (skip_sign (tl s))
      else Some s)"

definition number_end :: "bytes \<Rightarrow> bytes option" where
  "number_end s =
     (case scan_int (if s \<noteq> [] \<and> hd s = CHR ''-'' then tl s else s) of
        None \<Rightarrow> None
      | Some s1 \<Rightarrow> (case scan_frac s1 of None \<Rightarrow> None | Some s2 \<Rightarrow> scan_exp s2))"

definition scan_number :: "bytes \<Rightarrow> bytes option" where
  "scan_number s =
     (case number_end s of
        None \<Rightarrow> None
      | Some t \<Rightarrow> if number_domain (take (length s - length t) s) then Some t else None)"

lemma digits_required_shrinks [shrinks]: "digits_required s = Some t \<Longrightarrow> length t < length s"
  using length_dropWhile_le [of is_digit "tl s"]
  by (cases s) (auto simp: digits_required_def split: if_splits)

lemma scan_int_shrinks [shrinks]: "scan_int s = Some t \<Longrightarrow> length t < length s"
proof -
  assume a: "scan_int s = Some t"
  obtain c u where s: "s = c # u" using a by (cases s) (auto simp: scan_int_def)
  have "is_digit c" if "CHR ''1'' \<le> c" "c \<le> CHR ''9''"
    using that by (simp add: is_digit_def byte_le_iff)
  with a s show ?thesis
    using length_dropWhile_le [of is_digit u]
    by (auto simp: scan_int_def split: if_splits)
qed

lemma scan_frac_shrinks [shrinks]: "scan_frac s = Some t \<Longrightarrow> length t \<le> length s"
  by (cases s) (auto simp: scan_frac_def split: if_splits dest: digits_required_shrinks)

lemma scan_exp_shrinks [shrinks]: "scan_exp s = Some t \<Longrightarrow> length t \<le> length s"
proof (cases s)
  case (Cons c u)
  assume "scan_exp s = Some t"
  with Cons show ?thesis
    by (cases u) (auto simp: scan_exp_def skip_sign_def split: if_splits dest!: digits_required_shrinks)
qed (simp add: scan_exp_def)

lemma number_end_shrinks [shrinks]: "number_end s = Some t \<Longrightarrow> length t < length s"
  by (cases s) (fastforce simp: number_end_def split: option.splits if_splits
      dest: scan_int_shrinks scan_frac_shrinks scan_exp_shrinks)+

lemma scan_number_shrinks [shrinks]: "scan_number s = Some t \<Longrightarrow> length t < length s"
  by (auto simp: scan_number_def split: option.splits if_splits dest: number_end_shrinks)

lemma literal_shrinks [shrinks]: "literal lit s = Some t \<Longrightarrow> lit \<noteq> [] \<Longrightarrow> length t < length s"
  by (cases lit) (auto simp: literal_def split: if_splits)

lemma ws_shrinks [shrinks]: "length (ws s) \<le> length s"
  by (simp add: ws_def length_dropWhile_le)

section \<open>Values, objects and arrays\<close>

definition max_scan_depth :: nat where
  "max_scan_depth = 64"

function (sequential) scan_value :: "nat \<Rightarrow> bytes \<Rightarrow> bytes option"
  and scan_object :: "nat \<Rightarrow> bytes \<Rightarrow> bytes option"
  and object_loop :: "nat \<Rightarrow> bytes list \<Rightarrow> bytes \<Rightarrow> bytes option"
  and scan_array :: "nat \<Rightarrow> bytes \<Rightarrow> bytes option"
  and array_loop :: "nat \<Rightarrow> bytes \<Rightarrow> bytes option" where
  "scan_value depth s =
     (case s of
        [] \<Rightarrow> None
      | c # t \<Rightarrow>
          if c = CHR ''{'' then
            (if max_scan_depth \<le> depth then None else scan_object (Suc depth) t)
          else if c = CHR ''['' then
            (if max_scan_depth \<le> depth then None else scan_array (Suc depth) t)
          else if c = CHR 0x22 then
            (case scan_string s of None \<Rightarrow> None | Some (k, u) \<Rightarrow> Some u)
          else if c = CHR ''-'' \<or> is_digit c then scan_number s
          else if c = CHR ''t'' then literal ''true'' s
          else if c = CHR ''f'' then literal ''false'' s
          else if c = CHR ''n'' then literal ''null'' s
          else None)"
| "scan_object depth s =
     (case ws s of
        [] \<Rightarrow> object_loop depth [] (ws s)
      | c # t \<Rightarrow> if c = CHR ''}'' then Some t else object_loop depth [] (ws s))"
| "object_loop depth seen s =
     (case scan_string (ws s) of
        None \<Rightarrow> None
      | Some (key, s1) \<Rightarrow>
          if key \<in> set seen then None
          else (case ws s1 of
                  [] \<Rightarrow> None
                | c # s2 \<Rightarrow>
                    if c \<noteq> CHR '':'' then None
                    else (case scan_value depth (ws s2) of
                            None \<Rightarrow> None
                          | Some s3 \<Rightarrow>
                              (case ws s3 of
                                 [] \<Rightarrow> None
                               | d # s4 \<Rightarrow>
                                   if d = CHR '','' then object_loop depth (key # seen) s4
                                   else if d = CHR ''}'' then Some s4
                                   else None))))"
| "scan_array depth s =
     (case ws s of
        [] \<Rightarrow> array_loop depth (ws s)
      | c # t \<Rightarrow> if c = CHR '']'' then Some t else array_loop depth (ws s))"
| "array_loop depth s =
     (case scan_value depth (ws s) of
        None \<Rightarrow> None
      | Some s1 \<Rightarrow>
          (case ws s1 of
             [] \<Rightarrow> None
           | d # s2 \<Rightarrow>
               if d = CHR '','' then array_loop depth s2
               else if d = CHR '']'' then Some s2
               else None))"
  by pat_completeness auto

text \<open>
  The loops call themselves on what \<open>scan_value\<close> left, so the termination argument needs to
  know that it leaves less. That is proved on the functions' domain first.
\<close>

abbreviation scan_dom ::
  "(nat \<times> bytes + nat \<times> bytes) + (nat \<times> bytes list \<times> bytes) + (nat \<times> bytes + nat \<times> bytes) \<Rightarrow> bool"
  where "scan_dom \<equiv> scan_value_scan_object_object_loop_scan_array_array_loop_dom"

lemma ws_Cons_shrinks [shrinks]: "ws s = c # t \<Longrightarrow> length t < length s"
  using ws_shrinks [of s] by simp

lemma scan_shrinks_dom:
  "scan_dom (Inl (Inl (d, s))) \<Longrightarrow> \<forall>t. scan_value d s = Some t \<longrightarrow> length t < length s"
  "scan_dom (Inl (Inr (d, s))) \<Longrightarrow> \<forall>t. scan_object d s = Some t \<longrightarrow> length t < length s"
  "scan_dom (Inr (Inl (d, seen, s))) \<Longrightarrow>
     \<forall>t. object_loop d seen s = Some t \<longrightarrow> length t < length s"
  "scan_dom (Inr (Inr (Inl (d, s)))) \<Longrightarrow> \<forall>t. scan_array d s = Some t \<longrightarrow> length t < length s"
  "scan_dom (Inr (Inr (Inr (d, s)))) \<Longrightarrow> \<forall>t. array_loop d s = Some t \<longrightarrow> length t < length s"
proof (induction d s and d s and d seen s and d s and d s
    rule: scan_value_scan_object_object_loop_scan_array_array_loop.pinduct)
  case (1 depth s)
  show ?case
  proof (cases s)
    case Nil
    with scan_value.psimps [OF "1.hyps"] show ?thesis by simp
  next
    case (Cons c u)
    note IH = "1.IH" [OF Cons]
    show ?thesis
      using IH scan_string_shrinks [of s] scan_number_shrinks [of s] literal_shrinks [of _ s]
        scan_value.psimps [OF "1.hyps"] Cons
      by (simp add: less_SucI split: option.splits)
  qed
next
  case (2 depth s)
  show ?case
    using 2 ws_shrinks [of s]
    by (fastforce simp: scan_object.psimps split: list.splits if_splits)
next
  case (3 depth seen s)
  show ?case
  proof (intro allI impI)
    fix t
    assume "object_loop depth seen s = Some t"
    then obtain key s1 s2 s3 d s4 where a: "scan_string (ws s) = Some (key, s1)"
      "ws s1 = CHR '':'' # s2" "scan_value depth (ws s2) = Some s3" "ws s3 = d # s4"
      and key: "key \<notin> set seen"
      and b: "d = CHR '','' \<and> object_loop depth (key # seen) s4 = Some t \<or> t = s4"
      by (auto simp: object_loop.psimps [OF "3.hyps"] split: list.splits if_splits option.splits)
    have "length s3 < length (ws s2)"
      using "3.IH"(1) [OF a(1) refl key a(2)] a(3) by simp
    then have len: "length s4 < length s"
      using scan_string_shrinks [OF a(1)] ws_Cons_shrinks [OF a(2)] ws_Cons_shrinks [OF a(4)]
        ws_shrinks [of s] ws_shrinks [of s2] by linarith
    show "length t < length s"
      using b
    proof
      assume c: "d = CHR '','' \<and> object_loop depth (key # seen) s4 = Some t"
      then have "length t < length s4"
        using "3.IH"(2) [OF a(1) refl key a(2) _ a(3) a(4)] by simp
      with len show ?thesis by simp
    next
      assume "t = s4"
      with len show ?thesis by simp
    qed
  qed
next
  case (4 depth s)
  show ?case
    using 4 ws_shrinks [of s]
    by (fastforce simp: scan_array.psimps split: list.splits if_splits)
next
  case (5 depth s)
  show ?case
  proof (intro allI impI)
    fix t
    assume "array_loop depth s = Some t"
    then obtain s1 d s2 where a: "scan_value depth (ws s) = Some s1" "ws s1 = d # s2"
      and b: "d = CHR '','' \<and> array_loop depth s2 = Some t \<or> t = s2"
      by (auto simp: array_loop.psimps [OF "5.hyps"] split: list.splits if_splits option.splits)
    have "length s1 < length (ws s)" using "5.IH"(1) a(1) by simp
    then have len: "length s2 < length s"
      using ws_Cons_shrinks [OF a(2)] ws_shrinks [of s] by linarith
    show "length t < length s"
      using b
    proof
      assume c: "d = CHR '','' \<and> array_loop depth s2 = Some t"
      then have "length t < length s2" using "5.IH"(2) [OF a(1) a(2)] by simp
      with len show ?thesis by simp
    next
      assume "t = s2"
      with len show ?thesis by simp
    qed
  qed
qed

definition scan_measure ::
  "(nat \<times> bytes + nat \<times> bytes) + (nat \<times> bytes list \<times> bytes) + (nat \<times> bytes + nat \<times> bytes) \<Rightarrow> nat"
  where "scan_measure x =
    (case x of
        Inl (Inl (d, s)) \<Rightarrow> 3 * length s
      | Inl (Inr (d, s)) \<Rightarrow> 3 * length s + 2
      | Inr (Inl (d, seen, s)) \<Rightarrow> 3 * length s + 1
      | Inr (Inr (Inl (d, s))) \<Rightarrow> 3 * length s + 2
      | Inr (Inr (Inr (d, s))) \<Rightarrow> 3 * length s + 1)"

lemma ws_measure: "3 * length (ws s) \<le> 3 * length s"
  using ws_shrinks [of s] by simp

lemma scan_all_dom: "All scan_dom"
proof (relation "measure scan_measure", goal_cases)
  case (6 depth seen s k key s1 c s2)
  then show ?case
    using scan_string_shrinks [of "ws s" key s1] ws_Cons_shrinks [of s1 c s2] ws_shrinks [of s]
      ws_shrinks [of s2]
    by (simp add: scan_measure_def)
next
  case (7 depth seen s k key s1 c s2 s3 d s4)
  have "length s3 < length (ws s2)"
    using scan_shrinks_dom(1) [OF 7(9)] 7(6) by simp
  then show ?case
    using scan_string_shrinks [of "ws s" key s1] 7 ws_Cons_shrinks [of s1 c s2] ws_shrinks [of s]
      ws_shrinks [of s2] ws_Cons_shrinks [of s3 d s4]
    by (simp add: scan_measure_def)
next
  case (11 depth s s1 d s2)
  have "length s1 < length (ws s)"
    using scan_shrinks_dom(1) [OF 11(4)] 11(1) by simp
  then show ?case
    using ws_Cons_shrinks [OF 11(2)] ws_shrinks [of s] by (simp add: scan_measure_def)
qed (use ws_measure in \<open>auto simp: scan_measure_def intro: le_imp_less_Suc dest!: ws_Cons_shrinks\<close>)

termination scan_value
  by (rule scan_all_dom)

declare scan_value.simps [simp del] scan_object.simps [simp del] object_loop.simps [simp del]
  scan_array.simps [simp del] array_loop.simps [simp del]

lemma scan_shrinks [shrinks]:
  "scan_value d s = Some t \<Longrightarrow> length t < length s"
  "scan_object d s = Some t \<Longrightarrow> length t < length s"
  "object_loop d seen s = Some t \<Longrightarrow> length t < length s"
  "scan_array d s = Some t \<Longrightarrow> length t < length s"
  "array_loop d s = Some t \<Longrightarrow> length t < length s"
proof -
  note T = scan_all_dom [THEN spec]
  show "scan_value d s = Some t \<Longrightarrow> length t < length s"
    using scan_shrinks_dom(1) [OF T] by simp
  show "scan_object d s = Some t \<Longrightarrow> length t < length s"
    using scan_shrinks_dom(2) [OF T] by simp
  show "object_loop d seen s = Some t \<Longrightarrow> length t < length s"
    using scan_shrinks_dom(3) [OF T] by simp
  show "scan_array d s = Some t \<Longrightarrow> length t < length s"
    using scan_shrinks_dom(4) [OF T] by simp
  show "array_loop d s = Some t \<Longrightarrow> length t < length s"
    using scan_shrinks_dom(5) [OF T] by simp
qed

section \<open>The entry points\<close>

definition validate_strict :: "bytes \<Rightarrow> bool" where
  "validate_strict payload =
     (if payload = [] then False
      else if \<not> utf8_valid payload then False
      else (case scan_value 0 (ws payload) of
              None \<Rightarrow> False
            | Some t \<Rightarrow> ws t = []))"

type_synonym member = "bytes \<times> bytes"

text \<open>
  \<open>objectMembers\<close> returns the members of an object in order, each with the raw bytes of its
  value; the empty list for Go's nil slice with \<open>ok\<close> true.
\<close>

function members_loop :: "member list \<Rightarrow> bytes \<Rightarrow> member list option" where
  "members_loop out s =
     (case scan_string (ws s) of
        None \<Rightarrow> None
      | Some (key, s1) \<Rightarrow>
          (case ws s1 of
             [] \<Rightarrow> None
           | c # s2 \<Rightarrow>
               if c \<noteq> CHR '':'' then None
               else (case scan_value 0 (ws s2) of
                       None \<Rightarrow> None
                     | Some s3 \<Rightarrow>
                         (let out' = out @ [(key, take (length (ws s2) - length s3) (ws s2))]
                          in case ws s3 of
                               [] \<Rightarrow> None
                             | d # s4 \<Rightarrow>
                                 if d = CHR '','' then members_loop out' s4
                                 else if d = CHR ''}'' then Some out'
                                 else None))))"
  by pat_completeness auto
termination
proof (relation "measure (\<lambda>(out, s). length s)", goal_cases)
  case (2 out s k key s1 c s2 s3 out' d s4)
  then show ?case
    using scan_string_shrinks [of "ws s" key s1] ws_Cons_shrinks [of s1 c s2] ws_shrinks [of s]
      ws_shrinks [of s2] ws_Cons_shrinks [of s3 d s4] scan_shrinks(1) [of 0 "ws s2" s3]
    by simp
qed simp

declare members_loop.simps [simp del]

definition object_members :: "bytes \<Rightarrow> member list option" where
  "object_members payload =
     (case ws payload of
        [] \<Rightarrow> None
      | c # s \<Rightarrow>
          if c \<noteq> CHR ''{'' then None
          else (case ws s of
                  [] \<Rightarrow> members_loop [] (ws s)
                | d # t \<Rightarrow> if d = CHR ''}'' then Some [] else members_loop [] (ws s)))"

fun member_by_key :: "member list \<Rightarrow> bytes \<Rightarrow> bytes option" where
  "member_by_key [] key = None"
| "member_by_key ((k, v) # ms) key = (if k = key then Some v else member_by_key ms key)"

lemma member_by_key_map_of: "member_by_key ms key = map_of ms key"
  by (induction ms) auto

text \<open>
  \<open>decodeJSONString\<close>; Go hands it a nil slice for an absent member, which it refuses like any
  text that does not start with a quote.
\<close>

definition decode_json_string :: "bytes \<Rightarrow> bytes option" where
  "decode_json_string raw =
     (case scan_string raw of
        None \<Rightarrow> None
      | Some (str, t) \<Rightarrow> if t \<noteq> [] then None else Some str)"

definition decode_json_string_opt :: "bytes option \<Rightarrow> bytes option" where
  "decode_json_string_opt raw = (case raw of None \<Rightarrow> None | Some r \<Rightarrow> decode_json_string r)"

end
