(* ===== verification/StrictGrammar.thy ===== *)
theory StrictGrammar
  imports StrictJson
begin

text \<open>
  A declarative grammar of the strict JSON domain (RFC 8259 texts with unique member names, no
  NUL escape, paired surrogates, at most 64 nested containers, integers within
  \<open>2 ^ 53 - 1\<close>), and the proof that the scanner of \<open>StrictJson\<close> accepts exactly it.
  Later theories argue about what the plugin writes with the grammar, never with the scanner.
\<close>

section \<open>The grammar\<close>

definition simple_escapes :: "(char \<times> nat) list" where
  "simple_escapes =
     [(CHR 0x22, 34), (CHR 0x5C, 92), (CHR ''/'', 47), (CHR ''b'', 8), (CHR ''f'', 12),
      (CHR ''n'', 10), (CHR ''r'', 13), (CHR ''t'', 9)]"

inductive esc_text :: "bytes \<Rightarrow> nat \<Rightarrow> bool" where
  esc_simple: "(c, r) \<in> set simple_escapes \<Longrightarrow> esc_text [CHR 0x5C, c] r"
| esc_unit: "length h = 4 \<Longrightarrow> hex4 h = Some u \<Longrightarrow> u \<noteq> 0 \<Longrightarrow> \<not> is_surrogate u \<Longrightarrow>
     esc_text (CHR 0x5C # CHR ''u'' # h) u"
| esc_pair: "length h = 4 \<Longrightarrow> length l = 4 \<Longrightarrow> hex4 h = Some hi \<Longrightarrow> hex4 l = Some lo \<Longrightarrow>
     0xD800 \<le> hi \<Longrightarrow> hi < 0xDC00 \<Longrightarrow> 0xDC00 \<le> lo \<Longrightarrow> lo < 0xE000 \<Longrightarrow>
     esc_text (CHR 0x5C # CHR ''u'' # h @ CHR 0x5C # CHR ''u'' # l)
       ((hi - 0xD800) * 1024 + (lo - 0xDC00) + 0x10000)"

text \<open>\<open>str_body b k\<close>: the text \<open>b\<close> between two quotes denotes the bytes \<open>k\<close>.\<close>

inductive str_body :: "bytes \<Rightarrow> bytes \<Rightarrow> bool" where
  str_end: "str_body [] []"
| str_plain: "c \<noteq> CHR 0x22 \<Longrightarrow> c \<noteq> CHR 0x5C \<Longrightarrow> \<not> c < CHR 0x20 \<Longrightarrow> str_body b k \<Longrightarrow>
     str_body (c # b) (c # k)"
| str_esc: "esc_text e r \<Longrightarrow> str_body b k \<Longrightarrow> str_body (e @ b) (encode_rune r @ k)"

definition ws_text :: "bytes \<Rightarrow> bool" where
  "ws_text w \<longleftrightarrow> list_all is_ws w"

definition int_text :: "bytes \<Rightarrow> bool" where
  "int_text i \<longleftrightarrow> i = ''0'' \<or> (i \<noteq> [] \<and> list_all is_digit i \<and> hd i \<noteq> CHR ''0'')"

definition frac_text :: "bytes \<Rightarrow> bool" where
  "frac_text f \<longleftrightarrow> f = [] \<or> (\<exists>ds. f = CHR ''.'' # ds \<and> ds \<noteq> [] \<and> list_all is_digit ds)"

definition exp_text :: "bytes \<Rightarrow> bool" where
  "exp_text e \<longleftrightarrow> e = [] \<or>
     (\<exists>m sg ds. e = m # sg @ ds \<and> (m = CHR ''e'' \<or> m = CHR ''E'')
        \<and> (sg = [] \<or> sg = ''+'' \<or> sg = ''-'') \<and> ds \<noteq> [] \<and> list_all is_digit ds)"

definition number_text :: "bytes \<Rightarrow> bool" where
  "number_text n \<longleftrightarrow>
     (\<exists>sg i f e. n = sg @ i @ f @ e \<and> (sg = [] \<or> sg = ''-'')
        \<and> int_text i \<and> frac_text f \<and> exp_text e)"

inductive vtext :: "nat \<Rightarrow> bytes \<Rightarrow> bool"
  and mem_text :: "nat \<Rightarrow> bytes \<Rightarrow> bytes \<Rightarrow> bool"
  and mems_text :: "nat \<Rightarrow> bytes list \<Rightarrow> bytes \<Rightarrow> bool"
  and elems_text :: "nat \<Rightarrow> bytes \<Rightarrow> bool" where
  v_true: "vtext d ''true''"
| v_false: "vtext d ''false''"
| v_null: "vtext d ''null''"
| v_string: "str_body b k \<Longrightarrow> vtext d (CHR 0x22 # b @ [CHR 0x22])"
| v_number: "number_text n \<Longrightarrow> number_domain n \<Longrightarrow> vtext d n"
| v_object0: "d < max_scan_depth \<Longrightarrow> ws_text w \<Longrightarrow> vtext d (CHR ''{'' # w @ ''}'')"
| v_object: "d < max_scan_depth \<Longrightarrow> mems_text (Suc d) ks m \<Longrightarrow> distinct ks \<Longrightarrow>
     vtext d (CHR ''{'' # m @ ''}'')"
| v_array0: "d < max_scan_depth \<Longrightarrow> ws_text w \<Longrightarrow> vtext d (CHR ''['' # w @ '']'')"
| v_array: "d < max_scan_depth \<Longrightarrow> elems_text (Suc d) m \<Longrightarrow> vtext d (CHR ''['' # m @ '']'')"
| m_pair: "ws_text w1 \<Longrightarrow> str_body b k \<Longrightarrow> ws_text w2 \<Longrightarrow> ws_text w3 \<Longrightarrow> vtext d v \<Longrightarrow> ws_text w4 \<Longrightarrow>
     mem_text d k (w1 @ CHR 0x22 # b @ CHR 0x22 # w2 @ CHR '':'' # w3 @ v @ w4)"
| ms_one: "mem_text d k m \<Longrightarrow> mems_text d [k] m"
| ms_more: "mem_text d k m \<Longrightarrow> mems_text d ks ms \<Longrightarrow> mems_text d (k # ks) (m @ CHR '','' # ms)"
| e_one: "ws_text w1 \<Longrightarrow> vtext d v \<Longrightarrow> ws_text w2 \<Longrightarrow> elems_text d (w1 @ v @ w2)"
| e_more: "ws_text w1 \<Longrightarrow> vtext d v \<Longrightarrow> ws_text w2 \<Longrightarrow> elems_text d es \<Longrightarrow>
     elems_text d (w1 @ v @ w2 @ CHR '','' # es)"

definition strict_text :: "bytes \<Rightarrow> bool" where
  "strict_text p \<longleftrightarrow> utf8_valid p \<and>
     (\<exists>w1 v w2. p = w1 @ v @ w2 \<and> ws_text w1 \<and> vtext 0 v \<and> ws_text w2)"

section \<open>White space\<close>

lemma ws_text_Nil [simp]: "ws_text []"
  by (simp add: ws_text_def)

lemma ws_split: "\<exists>w. s = w @ ws s \<and> ws_text w"
  using dropWhile_prefix [of s is_ws] by (simp add: ws_def ws_text_def)

lemma ws_skip [simp]: "ws_text w \<Longrightarrow> ws (w @ s) = ws s"
  by (induction w) (auto simp: ws_text_def ws_def)

lemma ws_text_all [simp]: "ws_text w \<Longrightarrow> ws w = []"
  using ws_skip [of w "[]"] by (simp add: ws_def)

lemma ws_hd [simp]: "\<not> is_ws c \<Longrightarrow> ws (c # s) = c # s"
  by (simp add: ws_def)

lemma ws_ws [simp]: "ws (ws s) = ws s"
  by (simp add: ws_def)

lemma ws_nil_iff: "ws s = [] \<longleftrightarrow> ws_text s"
  by (simp add: ws_def ws_text_def list_all_iff)

lemma not_ws [simp]:
  "\<not> is_ws (CHR ''{'')" "\<not> is_ws (CHR ''}'')" "\<not> is_ws (CHR ''['')" "\<not> is_ws (CHR '']'')"
  "\<not> is_ws (CHR '':'')" "\<not> is_ws (CHR '','')" "\<not> is_ws (CHR 0x22)" "\<not> is_ws (CHR ''t'')"
  "\<not> is_ws (CHR ''f'')" "\<not> is_ws (CHR ''n'')" "\<not> is_ws (CHR ''-'')"
  by (simp_all add: is_ws_def)

lemma digit_not_ws: "is_digit c \<Longrightarrow> \<not> is_ws c"
  by (auto simp: is_digit_def is_ws_def)

section \<open>Escapes and strings\<close>

lemma hex4_length: "hex4 s = Some u \<Longrightarrow> 4 \<le> length s"
  by (simp add: hex4_def split: if_splits)

lemma hex4_take: "4 \<le> length s \<Longrightarrow> hex4 (take 4 s) = hex4 s"
  by (simp add: hex4_def)

lemma hex4_append: "length h = 4 \<Longrightarrow> hex4 (h @ t) = hex4 h"
  by (simp add: hex4_def)

lemma escape_complete: "esc_text e r \<Longrightarrow> escape (e @ t) = Some (r, t)"
proof (induction rule: esc_text.induct)
  case (esc_simple c r)
  then show ?case by (auto simp: simple_escapes_def escape_def)
next
  case (esc_unit h u)
  then show ?case
    by (cases h) (simp_all add: escape_def hex4_append del: append_Cons, simp_all)
next
  case (esc_pair h l hi lo)
  have "is_surrogate hi" "\<not> 0xDC00 \<le> hi"
    using esc_pair by (auto simp: is_surrogate_def)
  then show ?case
    using esc_pair
    by (simp add: escape_def hex4_append nth_append decode_surrogates_def)
qed

lemma escape_sound:
  assumes e: "escape s = Some (r, t)" and s: "s = CHR 0x5C # s'"
  shows "\<exists>e. s = e @ t \<and> esc_text e r"
proof -
  obtain c q where s': "s' = c # q"
    using e s by (cases s') (auto simp: escape_def)
  show ?thesis
  proof (cases "c = CHR ''u''")
    case False
    then have "(c, r) \<in> set simple_escapes \<and> t = q"
      using e s s' by (auto simp: escape_def simple_escapes_def split: if_splits)
    then have "s = [CHR 0x5C, c] @ t" "esc_text [CHR 0x5C, c] r"
      using s s' by (auto intro: esc_simple)
    then show ?thesis by blast
  next
    case True
    with e s s' obtain u where u: "hex4 q = Some u" "u \<noteq> 0" "\<not> (is_surrogate u \<and> 0xDC00 \<le> u)"
      by (auto simp: escape_def split: option.splits if_splits)
    define h where "h = take 4 q"
    have h: "length h = 4" "hex4 h = Some u" "q = h @ drop 4 q"
      using hex4_length [OF u(1)] u(1) by (auto simp: h_def hex4_take)
    show ?thesis
    proof (cases "is_surrogate u")
      case False
      with e s s' True u have "r = u" "t = drop 4 q"
        by (simp_all add: escape_def)
      moreover have "esc_text (CHR 0x5C # CHR ''u'' # h) u"
        using h u False by (intro esc_unit)
      ultimately show ?thesis
        using s s' True h(3) by (intro exI [of _ "CHR 0x5C # CHR ''u'' # h"]) simp
    next
      case surr: True
      with e s s' True u obtain lo where lo: "hex4 (drop 6 q) = Some lo" "0xDC00 \<le> lo" "lo \<le> 0xDFFF"
        "10 \<le> length q" "q ! 4 = CHR 0x5C" "q ! 5 = CHR ''u''"
        "r = decode_surrogates u lo" "t = drop 10 q"
        by (auto simp: escape_def split: option.splits if_splits)
      define l where "l = take 4 (drop 6 q)"
      have l: "length l = 4" "hex4 l = Some lo"
        using hex4_length [OF lo(1)] lo(1) by (auto simp: l_def hex4_take)
      have "drop 4 q = q ! 4 # q ! 5 # drop 6 q"
        using lo(4) by (simp add: Cons_nth_drop_Suc numeral_eq_Suc)
      also have "drop 6 q = l @ t"
        unfolding l_def lo(8) using append_take_drop_id [of 4 "drop 6 q"] by simp
      finally have "q = h @ CHR 0x5C # CHR ''u'' # l @ t"
        using h(3) lo(5,6) by simp
      moreover have "u < 0xDC00" "0xD800 \<le> u" using surr u(3) by (auto simp: is_surrogate_def)
      ultimately show ?thesis
        using esc_pair [OF h(1) l(1) h(2) l(2)] lo s s' True
        by (intro exI [of _ "CHR 0x5C # CHR ''u'' # h @ CHR 0x5C # CHR ''u'' # l"])
          (simp add: decode_surrogates_def)
    qed
  qed
qed

lemma esc_text_hd: "esc_text e r \<Longrightarrow> \<exists>e'. e = CHR 0x5C # e'"
  by (induction rule: esc_text.induct) auto

lemma string_loop_complete:
  "str_body b k \<Longrightarrow> string_loop out (b @ CHR 0x22 # t) = Some (out @ k, t)"
proof (induction arbitrary: out rule: str_body.induct)
  case str_end
  then show ?case by (simp add: string_loop.simps)
next
  case (str_plain c b k)
  then show ?case by (subst string_loop.simps) simp
next
  case (str_esc e r b k)
  obtain e' where "e = CHR 0x5C # e'" using esc_text_hd [OF str_esc(1)] by blast
  with escape_complete [OF str_esc(1)] str_esc.IH show ?case
    by (subst string_loop.simps) simp
qed

lemma string_loop_sound:
  "string_loop out s = Some (k, t) \<Longrightarrow> \<exists>b d. s = b @ CHR 0x22 # t \<and> str_body b d \<and> k = out @ d"
proof (induction out s rule: string_loop.induct)
  case (1 out s)
  obtain c u where s: "s = c # u" using "1.prems" by (cases s) (auto simp: string_loop.simps)
  consider (q) "c = CHR 0x22" | (e) "c = CHR 0x5C" | (p) "c \<noteq> CHR 0x22" "c \<noteq> CHR 0x5C" by blast
  then show ?case
  proof cases
    case q
    with "1.prems" s string_loop.simps [of out s] show ?thesis
      by (intro exI [of _ "[]"]) (simp add: str_end)
  next
    case e
    with "1.prems" s string_loop.simps [of out s]
    obtain r t' where r: "escape s = Some (r, t')"
      "string_loop (out @ encode_rune r) t' = Some (k, t)"
      by (auto split: option.splits)
    obtain b d where b: "t' = b @ CHR 0x22 # t" "str_body b d" "k = (out @ encode_rune r) @ d"
      using "1.IH"(1) [OF s _ e r(1) refl r(2)] e by auto
    obtain x where x: "s = x @ t'" "esc_text x r"
      using escape_sound [OF r(1)] s e by blast
    show ?thesis
      using str_esc [OF x(2) b(2)] x(1) b
      by (intro exI [of _ "x @ b"] exI [of _ "encode_rune r @ d"]) simp
  next
    case p
    with "1.prems" s string_loop.simps [of out s]
    have c: "\<not> c < CHR 0x20" and l: "string_loop (out @ [c]) u = Some (k, t)"
      by (auto split: if_splits)
    obtain b d where b: "u = b @ CHR 0x22 # t" "str_body b d" "k = (out @ [c]) @ d"
      using "1.IH"(2) [OF s p c l] by blast
    show ?thesis
      using str_plain [OF p c b(2)] b s by (intro exI [of _ "c # b"] exI [of _ "c # d"]) simp
  qed
qed

lemma scan_string_complete:
  "str_body b k \<Longrightarrow> scan_string (CHR 0x22 # b @ CHR 0x22 # t) = Some (k, t)"
  by (simp add: scan_string_def string_loop_complete)

lemma scan_string_sound:
  "scan_string s = Some (k, t) \<Longrightarrow> \<exists>b. s = CHR 0x22 # b @ CHR 0x22 # t \<and> str_body b k"
  using string_loop_sound by (force simp: scan_string_def split: list.splits if_splits)

section \<open>Numbers\<close>

definition stop :: "bytes \<Rightarrow> bool" where
  "stop t \<longleftrightarrow> t = [] \<or>
     (\<not> is_digit (hd t) \<and> hd t \<noteq> CHR ''.'' \<and> hd t \<noteq> CHR ''e'' \<and> hd t \<noteq> CHR ''E'')"

lemma not_digit [simp]:
  "\<not> is_digit (CHR ''.'')" "\<not> is_digit (CHR ''e'')" "\<not> is_digit (CHR ''E'')"
  "\<not> is_digit (CHR ''-'')" "\<not> is_digit (CHR ''+'')" "\<not> is_digit (CHR '','')"
  "\<not> is_digit (CHR ''}'')" "\<not> is_digit (CHR '']'')" "\<not> is_digit (CHR ''{'')"
  "\<not> is_digit (CHR ''['')" "\<not> is_digit (CHR 0x22)" "\<not> is_digit (CHR ''t'')"
  "\<not> is_digit (CHR ''f'')" "\<not> is_digit (CHR ''n'')" "is_digit (CHR ''0'')"
  by (simp_all add: is_digit_def)

lemma is_digit_nonzero: "is_digit c \<Longrightarrow> c \<noteq> CHR ''0'' \<longleftrightarrow> CHR ''1'' \<le> c \<and> c \<le> CHR ''9''"
proof -
  assume "is_digit c"
  moreover have "c = CHR ''0'' \<longleftrightarrow> byte_val c = byte_val (CHR ''0'')" by (simp only: byte_val_inject)
  ultimately show ?thesis by (auto simp: is_digit_def byte_le_iff)
qed

lemma one_nine_digit: "CHR ''1'' \<le> c \<Longrightarrow> c \<le> CHR ''9'' \<Longrightarrow> is_digit c \<and> c \<noteq> CHR ''0''"
  by (auto simp: is_digit_def byte_le_iff)

lemma digits_split: "\<exists>ds. s = ds @ dropWhile is_digit s \<and> list_all is_digit ds"
  by (rule dropWhile_prefix)

lemma drop_digits:
  "list_all is_digit ds \<Longrightarrow> t = [] \<or> \<not> is_digit (hd t) \<Longrightarrow> dropWhile is_digit (ds @ t) = t"
  by (rule takeWhile_append_stop(2))

lemma digits_required_complete:
  "list_all is_digit ds \<Longrightarrow> ds \<noteq> [] \<Longrightarrow> t = [] \<or> \<not> is_digit (hd t) \<Longrightarrow>
     digits_required (ds @ t) = Some t"
  using drop_digits [of ds t] by (cases ds) (auto simp: digits_required_def)

lemma digits_required_sound:
  "digits_required s = Some t \<Longrightarrow> \<exists>ds. s = ds @ t \<and> ds \<noteq> [] \<and> list_all is_digit ds"
proof -
  assume a: "digits_required s = Some t"
  then have t: "t = dropWhile is_digit s" and h: "s \<noteq> []" "is_digit (hd s)"
    by (auto simp: digits_required_def split: if_splits)
  obtain ds where "s = ds @ t" "list_all is_digit ds" using digits_split t by blast
  moreover have "ds \<noteq> []"
  proof
    assume "ds = []"
    with \<open>s = ds @ t\<close> t have "dropWhile is_digit s = s" by simp
    with h length_dropWhile_le [of is_digit "tl s"] show False by (cases s) auto
  qed
  ultimately show ?thesis by blast
qed

lemma scan_int_complete:
  assumes "int_text i" "t = [] \<or> \<not> is_digit (hd t)"
  shows "scan_int (i @ t) = Some t"
proof (cases "i = ''0''")
  case True
  with assms(2) show ?thesis by (auto simp: scan_int_def)
next
  case False
  then obtain c u where i: "i = c # u" "is_digit c" "list_all is_digit u" "c \<noteq> CHR ''0''"
    using assms(1) by (cases i) (auto simp: int_text_def)
  then have "dropWhile is_digit (i @ t) = t"
    using drop_digits [of i t] assms(2) by simp
  with i show ?thesis using is_digit_nonzero [of c] by (simp add: scan_int_def)
qed

lemma scan_int_sound: "scan_int s = Some t \<Longrightarrow> \<exists>i. s = i @ t \<and> int_text i"
proof -
  assume a: "scan_int s = Some t"
  then obtain c u where s: "s = c # u" by (cases s) (auto simp: scan_int_def)
  show ?thesis
  proof (cases "c = CHR ''0''")
    case True
    with a s show ?thesis
      by (intro exI [of _ "''0''"]) (auto simp: scan_int_def int_text_def split: if_splits)
  next
    case False
    with a s have c: "CHR ''1'' \<le> c" "c \<le> CHR ''9''" and t: "t = dropWhile is_digit s"
      by (auto simp: scan_int_def split: if_splits)
    have "digits_required s = Some t" using c t s one_nine_digit by (simp add: digits_required_def)
    then obtain ds where "s = ds @ t" "ds \<noteq> []" "list_all is_digit ds"
      using digits_required_sound by blast
    with s False show ?thesis
      by (cases ds) (auto simp: int_text_def intro!: exI [of _ ds])
  qed
qed

lemma frac_complete:
  "frac_text f \<Longrightarrow> t = [] \<or> (\<not> is_digit (hd t) \<and> hd t \<noteq> CHR ''.'') \<Longrightarrow> scan_frac (f @ t) = Some t"
  using digits_required_complete [of _ t] by (auto simp: frac_text_def scan_frac_def)

lemma frac_sound: "scan_frac s = Some t \<Longrightarrow> \<exists>f. s = f @ t \<and> frac_text f"
proof (cases "s \<noteq> [] \<and> hd s = CHR ''.''")
  case True
  assume "scan_frac s = Some t"
  with True obtain ds where "tl s = ds @ t" "ds \<noteq> []" "list_all is_digit ds"
    using digits_required_sound [of "tl s" t] by (auto simp: scan_frac_def)
  with True show ?thesis
    by (intro exI [of _ "CHR ''.'' # ds"]) (cases s, auto simp: frac_text_def)
next
  case False
  assume "scan_frac s = Some t"
  with False show ?thesis by (intro exI [of _ "[]"]) (auto simp: scan_frac_def frac_text_def)
qed

lemma exp_complete: "exp_text e \<Longrightarrow> stop t \<Longrightarrow> scan_exp (e @ t) = Some t"
proof -
  assume e: "exp_text e" and t: "stop t"
  show ?thesis
  proof (cases "e = []")
    case True
    with t show ?thesis by (auto simp: scan_exp_def stop_def)
  next
    case False
    with e obtain m sg ds where e': "e = m # sg @ ds" "m = CHR ''e'' \<or> m = CHR ''E''"
      "sg = [] \<or> sg = ''+'' \<or> sg = ''-''" "ds \<noteq> []" "list_all is_digit ds"
      by (auto simp: exp_text_def)
    obtain c cs where ds: "ds = c # cs" "is_digit c" using e'(4,5) by (cases ds) auto
    then have "c \<noteq> CHR ''+''" "c \<noteq> CHR ''-''" by auto
    with ds e'(3) have "skip_sign (sg @ ds @ t) = ds @ t" by (auto simp: skip_sign_def)
    moreover have "digits_required (ds @ t) = Some t"
      using e' t by (intro digits_required_complete) (auto simp: stop_def)
    ultimately show ?thesis
      using e'(1,2) by (simp add: scan_exp_def)
  qed
qed

lemma skip_sign_split: "\<exists>sg. u = sg @ skip_sign u \<and> (sg = [] \<or> sg = ''+'' \<or> sg = ''-'')"
proof (cases "u \<noteq> [] \<and> (hd u = CHR ''+'' \<or> hd u = CHR ''-'')")
  case True
  then show ?thesis by (intro exI [of _ "[hd u]"]) (auto simp: skip_sign_def)
next
  case False
  then show ?thesis by (intro exI [of _ "[]"]) (auto simp: skip_sign_def)
qed

lemma exp_sound: "scan_exp s = Some t \<Longrightarrow> \<exists>e. s = e @ t \<and> exp_text e"
proof (cases "s \<noteq> [] \<and> (hd s = CHR ''e'' \<or> hd s = CHR ''E'')")
  case False
  assume "scan_exp s = Some t"
  with False show ?thesis by (intro exI [of _ "[]"]) (auto simp: scan_exp_def exp_text_def)
next
  case True
  assume a: "scan_exp s = Some t"
  define u where "u = tl s"
  have s: "s = hd s # u" using True by (simp add: u_def)
  obtain sg where u: "u = sg @ skip_sign u" and sg: "sg = [] \<or> sg = ''+'' \<or> sg = ''-''"
    using skip_sign_split [of u] by blast
  from a True obtain ds where ds: "skip_sign u = ds @ t" "ds \<noteq> []" "list_all is_digit ds"
    using digits_required_sound [of "skip_sign u" t] by (auto simp: scan_exp_def u_def)
  have "s = (hd s # sg @ ds) @ t" using s u ds(1) by simp
  moreover have "exp_text (hd s # sg @ ds)"
    unfolding exp_text_def using True ds sg by blast
  ultimately show ?thesis by blast
qed

lemma exp_hd: "exp_text e \<Longrightarrow> e = [] \<or> hd e = CHR ''e'' \<or> hd e = CHR ''E''"
  by (auto simp: exp_text_def)

lemma frac_hd: "frac_text f \<Longrightarrow> f = [] \<or> hd f = CHR ''.''"
  by (auto simp: frac_text_def)

lemma int_text_hd: "int_text i \<Longrightarrow> i \<noteq> [] \<and> is_digit (hd i)"
  by (cases i) (auto simp: int_text_def)

lemma number_end_complete:
  assumes "number_text n" "stop t"
  shows "number_end (n @ t) = Some t"
proof -
  obtain sg i f e where n: "n = sg @ i @ f @ e" "sg = [] \<or> sg = ''-''"
    "int_text i" "frac_text f" "exp_text e"
    using assms(1) by (auto simp: number_text_def)
  have i: "i \<noteq> []" "hd i \<noteq> CHR ''-''" using int_text_hd [OF n(3)] by auto
  have et: "e @ t = [] \<or> (\<not> is_digit (hd (e @ t)) \<and> hd (e @ t) \<noteq> CHR ''.'')"
    using exp_hd [OF n(5)] assms(2) by (cases e) (auto simp: stop_def)
  have fet: "f @ e @ t = [] \<or> \<not> is_digit (hd (f @ e @ t))"
    using frac_hd [OF n(4)] et by (cases f) auto
  have "(if n @ t \<noteq> [] \<and> hd (n @ t) = CHR ''-'' then tl (n @ t) else n @ t) = i @ f @ e @ t"
    using n(1,2) i by (cases i) auto
  then show ?thesis
    using scan_int_complete [OF n(3) fet] frac_complete [OF n(4) et] exp_complete [OF n(5) assms(2)]
    by (simp add: number_end_def)
qed

lemma number_end_sound: "number_end s = Some t \<Longrightarrow> \<exists>n. s = n @ t \<and> number_text n"
proof -
  assume a: "number_end s = Some t"
  define sg where "sg = (if s \<noteq> [] \<and> hd s = CHR ''-'' then ''-'' else [])"
  define u where "u = (if s \<noteq> [] \<and> hd s = CHR ''-'' then tl s else s)"
  have s: "s = sg @ u" by (cases s) (auto simp: sg_def u_def)
  from a obtain s1 s2 where b: "scan_int u = Some s1" "scan_frac s1 = Some s2" "scan_exp s2 = Some t"
    by (auto simp: number_end_def u_def split: option.splits)
  obtain i f e where "u = i @ s1" "int_text i" "s1 = f @ s2" "frac_text f" "s2 = e @ t" "exp_text e"
    using scan_int_sound [OF b(1)] frac_sound [OF b(2)] exp_sound [OF b(3)] by blast
  moreover have "sg = [] \<or> sg = ''-''" by (simp add: sg_def)
  ultimately have "s = (sg @ i @ f @ e) @ t" "number_text (sg @ i @ f @ e)"
    using s unfolding number_text_def by (simp, blast)
  then show ?thesis by blast
qed

lemma scan_number_complete:
  "number_text n \<Longrightarrow> number_domain n \<Longrightarrow> stop t \<Longrightarrow> scan_number (n @ t) = Some t"
  by (simp add: scan_number_def number_end_complete)

lemma scan_number_sound:
  "scan_number s = Some t \<Longrightarrow> \<exists>n. s = n @ t \<and> number_text n \<and> number_domain n"
  using number_end_sound by (fastforce simp: scan_number_def split: option.splits if_splits)

lemma number_text_hd: "number_text n \<Longrightarrow> n \<noteq> [] \<and> (hd n = CHR ''-'' \<or> is_digit (hd n))"
  using int_text_hd by (auto simp: number_text_def)

section \<open>Values: the scanner accepts every text of the grammar\<close>

lemma vtext_hd:
  "vtext d v \<Longrightarrow> \<exists>c u. v = c # u \<and> \<not> is_ws c \<and> c \<noteq> CHR '']'' \<and> c \<noteq> CHR ''}''"
proof (induction rule: vtext_mem_text_mems_text_elems_text.inducts(1)
    [where ?P2.0 = "\<lambda>_ _ _. True" and ?P3.0 = "\<lambda>_ _ _. True" and ?P4.0 = "\<lambda>_ _. True"])
  case (v_number n d)
  then show ?case
    using number_text_hd [of n] digit_not_ws [of "hd n"] by (cases n) auto
qed simp_all

lemma stop_simps [simp]:
  "stop []" "stop (CHR '','' # t)" "stop (CHR ''}'' # t)" "stop (CHR '']'' # t)"
  by (simp_all add: stop_def)

lemma is_ws_not_digit: "is_ws c \<Longrightarrow> \<not> is_digit c \<and> c \<noteq> CHR ''.'' \<and> c \<noteq> CHR ''e'' \<and> c \<noteq> CHR ''E''"
  by (auto simp: is_ws_def is_digit_def)

lemma stop_ws [simp]: "ws_text w \<Longrightarrow> stop t \<Longrightarrow> stop (w @ t)"
  by (cases w) (auto simp: stop_def ws_text_def dest: is_ws_not_digit)

lemma literal_complete [simp]: "literal lit (lit @ t) = Some t"
  by (simp add: literal_def)

lemma literal_sound: "literal lit s = Some t \<Longrightarrow> s = lit @ t"
  by (auto simp: literal_def split: if_splits) (metis append_take_drop_id)

lemma scan_literals [simp]:
  "scan_value d (CHR ''t'' # CHR ''r'' # CHR ''u'' # CHR ''e'' # t) = Some t"
  "scan_value d (CHR ''f'' # CHR ''a'' # CHR ''l'' # CHR ''s'' # CHR ''e'' # t) = Some t"
  "scan_value d (CHR ''n'' # CHR ''u'' # CHR ''l'' # CHR ''l'' # t) = Some t"
  using literal_complete [of "''true''" t] literal_complete [of "''false''" t]
    literal_complete [of "''null''" t]
  by (simp_all add: scan_value.simps)

lemma scan_value_open:
  "scan_value d (CHR ''{'' # s) = (if max_scan_depth \<le> d then None else scan_object (Suc d) s)"
  "scan_value d (CHR ''['' # s) = (if max_scan_depth \<le> d then None else scan_array (Suc d) s)"
  "scan_value d (CHR 0x22 # s) = map_option snd (scan_string (CHR 0x22 # s))"
  by (auto simp: scan_value.simps [of d "_ # s"] split: option.splits)

lemma scan_value_number:
  "c = CHR ''-'' \<or> is_digit c \<Longrightarrow> scan_value d (c # s) = scan_number (c # s)"
  by (auto simp: scan_value.simps [of d "c # s"])

lemma object_loop_ws [simp]: "object_loop d seen (ws s) = object_loop d seen s"
  by (simp add: object_loop.simps [of d seen "ws s"] object_loop.simps [of d seen s])

lemma array_loop_ws [simp]: "array_loop d (ws s) = array_loop d s"
  by (simp add: array_loop.simps [of d "ws s"] array_loop.simps [of d s])

lemma scan_object_close: "ws s = CHR ''}'' # t \<Longrightarrow> scan_object d s = Some t"
  by (simp add: scan_object.simps)

lemma scan_object_open: "ws s = c # t \<Longrightarrow> c \<noteq> CHR ''}'' \<Longrightarrow> scan_object d s = object_loop d [] s"
  using object_loop_ws [of d "[]" s] by (simp add: scan_object.simps)

lemma scan_array_close: "ws s = CHR '']'' # t \<Longrightarrow> scan_array d s = Some t"
  by (simp add: scan_array.simps)

lemma scan_array_open: "ws s = c # t \<Longrightarrow> c \<noteq> CHR '']'' \<Longrightarrow> scan_array d s = array_loop d s"
  using array_loop_ws [of d s] by (simp add: scan_array.simps)

text \<open>One member followed by a comma or the closing brace.\<close>

lemma object_loop_member:
  assumes "ws_text w1" "str_body b k" "ws_text w2" "ws_text w3" "ws_text w4" "k \<notin> set seen"
    and v: "v = c # u" "\<not> is_ws c" and scan: "scan_value d (v @ w4 @ e # t) = Some (w4 @ e # t)"
    and e: "\<not> is_ws e"
  shows "object_loop d seen ((w1 @ CHR 0x22 # b @ CHR 0x22 # w2 @ CHR '':'' # w3 @ v @ w4) @ e # t) =
    (if e = CHR '','' then object_loop d (k # seen) t else if e = CHR ''}'' then Some t else None)"
  using assms by (subst object_loop.simps) (simp add: scan_string_complete)

lemma mem_text_hd:
  assumes "mem_text d k m"
  shows "\<exists>m'. ws (m @ t) = CHR 0x22 # m'"
  using assms by (cases rule: mem_text.cases) auto

lemma mems_text_hd:
  assumes "mems_text d ks m"
  shows "\<exists>m'. ws (m @ t) = CHR 0x22 # m'"
  using assms
proof (cases rule: mems_text.cases)
  case (ms_one k)
  then show ?thesis by (auto dest: mem_text_hd)
next
  case (ms_more k m0 ks' ms)
  then show ?thesis using mem_text_hd [of d k m0 "CHR '','' # ms @ t"] by simp
qed

lemma elems_text_hd:
  assumes "elems_text d m"
  shows "\<exists>c m'. ws (m @ t) = c # m' \<and> c \<noteq> CHR '']''"
  using assms
proof (cases rule: elems_text.cases)
  case (e_one w1 v w2)
  then show ?thesis using vtext_hd [of d v] by auto
next
  case (e_more w1 v w2 es)
  then show ?thesis using vtext_hd [of d v] by auto
qed

lemma scan_complete:
  "vtext d v \<Longrightarrow> (\<And>t. stop t \<Longrightarrow> scan_value d (v @ t) = Some t)"
  "mem_text d k m \<Longrightarrow> (\<And>seen e t. \<not> is_ws e \<Longrightarrow> stop (e # t) \<Longrightarrow> k \<notin> set seen \<Longrightarrow>
     object_loop d seen (m @ e # t) =
       (if e = CHR '','' then object_loop d (k # seen) t else if e = CHR ''}'' then Some t else None))"
  "mems_text d ks m' \<Longrightarrow> (\<And>seen t. distinct ks \<Longrightarrow> set ks \<inter> set seen = {} \<Longrightarrow>
     object_loop d seen (m' @ CHR ''}'' # t) = Some t)"
  "elems_text d es \<Longrightarrow> (\<And>t. array_loop d (es @ CHR '']'' # t) = Some t)"
proof (induction rule: vtext_mem_text_mems_text_elems_text.inducts)
  case (v_string b k d)
  then show ?case by (simp add: scan_value_open scan_string_complete)
next
  case (v_number n d)
  have "n \<noteq> [] \<and> (hd n = CHR ''-'' \<or> is_digit (hd n))" using v_number(1) by (rule number_text_hd)
  with scan_number_complete [OF v_number(1,2,3)] show ?case
    by (cases n) (auto simp: scan_value_number)
next
  case (v_object0 d w)
  then show ?case by (simp add: scan_value_open scan_object_close)
next
  case (v_object d ks m)
  obtain m' where "ws (m @ CHR ''}'' # t) = CHR 0x22 # m'" using mems_text_hd [OF v_object(2)] by blast
  with v_object show ?case by (simp add: scan_value_open scan_object_open)
next
  case (v_array0 d w)
  then show ?case by (simp add: scan_value_open scan_array_close)
next
  case (v_array d m)
  obtain c m' where "ws (m @ CHR '']'' # t) = c # m'" "c \<noteq> CHR '']''"
    using elems_text_hd [OF v_array(2)] by blast
  with v_array show ?case by (simp add: scan_value_open scan_array_open)
next
  case (m_pair w1 b k w2 w3 d v w4)
  obtain c u where v: "v = c # u" "\<not> is_ws c" using vtext_hd [OF m_pair(5)] by blast
  have "scan_value d (v @ w4 @ e # t) = Some (w4 @ e # t)"
    using m_pair by (intro m_pair.IH) simp
  then show ?case
    using object_loop_member [OF m_pair(1-4) m_pair(6) _ v, of seen d e t] m_pair.prems by simp
next
  case (e_one w1 d v w2)
  obtain c u where v: "v = c # u" "\<not> is_ws c" using vtext_hd [OF e_one(2)] by blast
  with e_one show ?case by (subst array_loop.simps) simp
next
  case (e_more w1 d v w2 es)
  obtain c u where v: "v = c # u" "\<not> is_ws c" using vtext_hd [OF e_more(2)] by blast
  with e_more show ?case by (subst array_loop.simps) simp
qed simp_all

section \<open>Values: what the scanner accepts is a text of the grammar\<close>

lemma mem_text_ws:
  assumes "mem_text d k m" "ws_text w"
  shows "mem_text d k (w @ m)"
  using assms(1)
proof (cases rule: mem_text.cases)
  case (m_pair w1 b w2 w3 v w4)
  have "ws_text (w @ w1)" using assms(2) m_pair(2) by (simp add: ws_text_def)
  from vtext_mem_text_mems_text_elems_text.m_pair [OF this m_pair(3-7)] show ?thesis
    by (simp add: m_pair(1))
qed

lemma mems_text_ws:
  assumes "mems_text d ks m" "ws_text w"
  shows "mems_text d ks (w @ m)"
  using assms(1)
proof (cases rule: mems_text.cases)
  case (ms_one k)
  then show ?thesis
    using mem_text_ws [OF _ assms(2)] vtext_mem_text_mems_text_elems_text.ms_one by blast
next
  case (ms_more k m0 ks' ms)
  then show ?thesis
    using vtext_mem_text_mems_text_elems_text.ms_more [OF mem_text_ws [OF ms_more(3) assms(2)] ms_more(4)]
    by simp
qed

lemma elems_text_ws:
  assumes "elems_text d m" "ws_text w"
  shows "elems_text d (w @ m)"
  using assms(1)
proof (cases rule: elems_text.cases)
  case (e_one w1 v w2)
  have "ws_text (w @ w1)" using assms(2) e_one by (simp add: ws_text_def)
  with e_one show ?thesis
    using vtext_mem_text_mems_text_elems_text.e_one [of "w @ w1" d v w2] by simp
next
  case (e_more w1 v w2 es)
  have "ws_text (w @ w1)" using assms(2) e_more by (simp add: ws_text_def)
  with e_more show ?thesis
    using vtext_mem_text_mems_text_elems_text.e_more [of "w @ w1" d v w2 es] by simp
qed

lemma scan_sound:
  "\<forall>t. scan_value d s = Some t \<longrightarrow> (\<exists>v. s = v @ t \<and> vtext d v)"
  "\<forall>t. scan_object d s = Some t \<longrightarrow>
     (\<exists>m. s = m @ CHR ''}'' # t \<and> (ws_text m \<or> (\<exists>ks. mems_text d ks m \<and> distinct ks)))"
  "\<forall>t. object_loop d seen s = Some t \<longrightarrow>
     (\<exists>m ks. s = m @ CHR ''}'' # t \<and> mems_text d ks m \<and> distinct ks \<and> set ks \<inter> set seen = {})"
  "\<forall>t. scan_array d s = Some t \<longrightarrow>
     (\<exists>m. s = m @ CHR '']'' # t \<and> (ws_text m \<or> elems_text d m))"
  "\<forall>t. array_loop d s = Some t \<longrightarrow> (\<exists>m. s = m @ CHR '']'' # t \<and> elems_text d m)"
proof (induction d s and d s and d seen s and d s and d s
    rule: scan_value_scan_object_object_loop_scan_array_array_loop.induct)
  case (1 d s)
  show ?case
  proof (intro allI impI)
    fix t
    assume a: "scan_value d s = Some t"
    then obtain c u where s: "s = c # u" by (cases s) (auto simp: scan_value.simps)
    note eq = scan_value.simps [of d s]
    consider (obj) "c = CHR ''{''" | (arr) "c = CHR ''[''" | (str) "c = CHR 0x22"
      | (num) "c = CHR ''-'' \<or> is_digit c" | (lit) "c \<noteq> CHR ''{''" "c \<noteq> CHR ''[''" "c \<noteq> CHR 0x22"
        "\<not> (c = CHR ''-'' \<or> is_digit c)"
      by blast
    then show "\<exists>v. s = v @ t \<and> vtext d v"
    proof cases
      case obj
      with a s eq have d: "\<not> max_scan_depth \<le> d" and o: "scan_object (Suc d) u = Some t"
        by (auto split: if_splits)
      obtain m where m: "u = m @ CHR ''}'' # t"
        "ws_text m \<or> (\<exists>ks. mems_text (Suc d) ks m \<and> distinct ks)"
        using "1.IH"(1) [OF s obj d] o by blast
      then have "vtext d (CHR ''{'' # m @ ''}'')"
        using d v_object0 [of d m] v_object [of d _ m] by force
      then show ?thesis using m(1) s obj by (intro exI [of _ "CHR ''{'' # m @ ''}''"]) simp
    next
      case arr
      with a s eq have d: "\<not> max_scan_depth \<le> d" and o: "scan_array (Suc d) u = Some t"
        by (auto split: if_splits)
      obtain m where m: "u = m @ CHR '']'' # t" "ws_text m \<or> elems_text (Suc d) m"
        using "1.IH"(2) [OF s _ arr d] o arr by auto
      then have "vtext d (CHR ''['' # m @ '']'')"
        using d v_array0 [of d m] v_array [of d m] by force
      then show ?thesis using m(1) s arr by (intro exI [of _ "CHR ''['' # m @ '']''"]) simp
    next
      case str
      with a s eq obtain k where k: "scan_string s = Some (k, t)" by (auto split: option.splits)
      obtain b where "s = CHR 0x22 # b @ CHR 0x22 # t" "str_body b k"
        using scan_string_sound [OF k] by blast
      then show ?thesis by (intro exI [of _ "CHR 0x22 # b @ [CHR 0x22]"]) (simp add: v_string)
    next
      case num
      with a s have "scan_number s = Some t" by (simp add: scan_value_number)
      then show ?thesis using scan_number_sound v_number by blast
    next
      case lit
      with a s eq have "s = ''true'' @ t \<or> s = ''false'' @ t \<or> s = ''null'' @ t"
        by (auto split: if_splits dest!: literal_sound [OF sym] literal_sound)
      then show ?thesis using v_true v_false v_null by blast
    qed
  qed
next
  case (2 d s)
  show ?case
  proof (intro allI impI)
    fix t
    assume a: "scan_object d s = Some t"
    obtain w where w: "s = w @ ws s" "ws_text w" using ws_split by blast
    show "\<exists>m. s = m @ CHR ''}'' # t \<and> (ws_text m \<or> (\<exists>ks. mems_text d ks m \<and> distinct ks))"
    proof (cases "ws s = CHR ''}'' # t")
      case True
      with w show ?thesis by metis
    next
      case False
      with a have l: "object_loop d [] (ws s) = Some t"
        and c: "ws s = [] \<or> (\<exists>c u. ws s = c # u \<and> c \<noteq> CHR ''}'')"
        by (auto simp: scan_object.simps [of d s] simp del: object_loop_ws
            split: list.splits if_splits)
      have "\<forall>t. object_loop d [] (ws s) = Some t \<longrightarrow> (\<exists>m ks. ws s = m @ CHR ''}'' # t
          \<and> mems_text d ks m \<and> distinct ks \<and> set ks \<inter> set [] = {})"
        using "2.IH" c by blast
      with l obtain m0 ks where m0: "ws s = m0 @ CHR ''}'' # t" "mems_text d ks m0" "distinct ks"
        by blast
      then show ?thesis using w mems_text_ws [OF m0(2) w(2)]
        by (intro exI [of _ "w @ m0"]) auto
    qed
  qed
next
  case (3 d seen s)
  show ?case
  proof (intro allI impI)
    fix t
    assume "object_loop d seen s = Some t"
    then obtain key s1 s2 s3 e s4 where a: "scan_string (ws s) = Some (key, s1)"
      "ws s1 = CHR '':'' # s2" "scan_value d (ws s2) = Some s3" "ws s3 = e # s4"
      and key: "key \<notin> set seen"
      and b: "e = CHR '','' \<and> object_loop d (key # seen) s4 = Some t \<or> e = CHR ''}'' \<and> t = s4"
      by (auto simp: object_loop.simps [of d seen s] split: list.splits if_splits option.splits)
    obtain v where v: "ws s2 = v @ s3" "vtext d v" using "3.IH"(1) [OF a(1) refl key a(2)] a(3) by auto
    obtain b0 where b0: "ws s = CHR 0x22 # b0 @ CHR 0x22 # s1" "str_body b0 key"
      using scan_string_sound [OF a(1)] by blast
    obtain w1 w2 w3 w4 where w: "s = w1 @ ws s" "ws_text w1" "s1 = w2 @ ws s1" "ws_text w2"
      "s2 = w3 @ ws s2" "ws_text w3" "s3 = w4 @ ws s3" "ws_text w4"
      using ws_split by metis
    define m where "m = w1 @ CHR 0x22 # b0 @ CHR 0x22 # w2 @ CHR '':'' # w3 @ v @ w4"
    have m: "mem_text d key m" unfolding m_def using w v b0 by (intro m_pair)
    have s: "s = m @ e # s4" unfolding m_def using w a v b0 by (metis append.assoc append_Cons)
    from b show "\<exists>m ks. s = m @ CHR ''}'' # t \<and> mems_text d ks m \<and> distinct ks \<and> set ks \<inter> set seen = {}"
    proof
      assume c: "e = CHR '','' \<and> object_loop d (key # seen) s4 = Some t"
      obtain ms ks where ms: "s4 = ms @ CHR ''}'' # t" "mems_text d ks ms" "distinct ks"
        "set ks \<inter> set (key # seen) = {}"
        using "3.IH"(2) [OF a(1) refl key a(2) _ a(3,4)] c by auto
      have "mems_text d (key # ks) (m @ CHR '','' # ms)" using m ms(2) by (rule ms_more)
      moreover have "s = (m @ CHR '','' # ms) @ CHR ''}'' # t" using s ms(1) c by simp
      moreover have "distinct (key # ks) \<and> set (key # ks) \<inter> set seen = {}" using ms key by auto
      ultimately show ?thesis by blast
    next
      assume "e = CHR ''}'' \<and> t = s4"
      then show ?thesis using s key ms_one [OF m] by (intro exI [of _ m] exI [of _ "[key]"]) simp
    qed
  qed
next
  case (4 d s)
  show ?case
  proof (intro allI impI)
    fix t
    assume a: "scan_array d s = Some t"
    obtain w where w: "s = w @ ws s" "ws_text w" using ws_split by blast
    show "\<exists>m. s = m @ CHR '']'' # t \<and> (ws_text m \<or> elems_text d m)"
    proof (cases "ws s = CHR '']'' # t")
      case True
      with w show ?thesis by metis
    next
      case False
      with a have l: "array_loop d (ws s) = Some t"
        and c: "ws s = [] \<or> (\<exists>c u. ws s = c # u \<and> c \<noteq> CHR '']'')"
        by (auto simp: scan_array.simps [of d s] simp del: array_loop_ws
            split: list.splits if_splits)
      have "\<forall>t. array_loop d (ws s) = Some t \<longrightarrow> (\<exists>m. ws s = m @ CHR '']'' # t \<and> elems_text d m)"
        using "4.IH" c by blast
      with l obtain m0 where m0: "ws s = m0 @ CHR '']'' # t" "elems_text d m0" by blast
      then show ?thesis using w elems_text_ws [OF m0(2) w(2)]
        by (intro exI [of _ "w @ m0"]) auto
    qed
  qed
next
  case (5 d s)
  show ?case
  proof (intro allI impI)
    fix t
    assume "array_loop d s = Some t"
    then obtain s1 e s2 where a: "scan_value d (ws s) = Some s1" "ws s1 = e # s2"
      and b: "e = CHR '','' \<and> array_loop d s2 = Some t \<or> e = CHR '']'' \<and> t = s2"
      by (auto simp: array_loop.simps [of d s] split: list.splits if_splits option.splits)
    obtain v where v: "ws s = v @ s1" "vtext d v" using "5.IH"(1) a(1) by blast
    obtain w1 w2 where w: "s = w1 @ ws s" "ws_text w1" "s1 = w2 @ ws s1" "ws_text w2"
      using ws_split by metis
    have s: "s = w1 @ v @ w2 @ e # s2" using w a v by (metis append.assoc)
    from b show "\<exists>m. s = m @ CHR '']'' # t \<and> elems_text d m"
    proof
      assume c: "e = CHR '','' \<and> array_loop d s2 = Some t"
      obtain es where es: "s2 = es @ CHR '']'' # t" "elems_text d es"
        using "5.IH"(2) [OF a] c by auto
      have "elems_text d (w1 @ v @ w2 @ CHR '','' # es)" using w v es by (intro e_more)
      moreover have "s = (w1 @ v @ w2 @ CHR '','' # es) @ CHR '']'' # t" using s es(1) c by simp
      ultimately show ?thesis by blast
    next
      assume "e = CHR '']'' \<and> t = s2"
      then show ?thesis using s e_one [OF w(2) v(2) w(4)]
        by (intro exI [of _ "w1 @ v @ w2"]) simp
    qed
  qed
qed

theorem validate_strict_iff: "validate_strict p \<longleftrightarrow> strict_text p"
proof
  assume v: "validate_strict p"
  then obtain t where t: "utf8_valid p" "scan_value 0 (ws p) = Some t" "ws t = []"
    by (auto simp: validate_strict_def split: if_splits option.splits)
  obtain w1 where w1: "p = w1 @ ws p" "ws_text w1" using ws_split by blast
  obtain v where "ws p = v @ t" "vtext 0 v" using scan_sound(1) t(2) by blast
  with w1 t show "strict_text p" unfolding strict_text_def ws_nil_iff by metis
next
  assume "strict_text p"
  then obtain w1 v w2 where p: "utf8_valid p" "p = w1 @ v @ w2" "ws_text w1" "vtext 0 v" "ws_text w2"
    by (auto simp: strict_text_def)
  obtain c u where v: "v = c # u" "\<not> is_ws c" using vtext_hd [OF p(4)] by blast
  have "stop w2" using stop_ws [OF p(5), of "[]"] by simp
  then have "scan_value 0 (v @ w2) = Some w2" by (rule scan_complete(1) [OF p(4)])
  with p v show "validate_strict p" by (simp add: validate_strict_def)
qed

section \<open>The property of the scanner\<close>

text \<open>C2: \<open>ValidateStrict\<close> accepts a payload exactly when it is valid UTF-8 and one JSON value
  of the strict grammar between white space: no duplicate member name at any depth, at most
  64 open containers, every escape valid, no NUL, no lone surrogate, every number in the safe
  domain. The scanner neither accepts anything else nor refuses any such text.\<close>

theorem scanner_decides_the_grammar: "validate_strict payload \<longleftrightarrow> strict_text payload"
  by (rule validate_strict_iff)

end
