(* ===== verification/NumberDomain.thy ===== *)
theory NumberDomain
  imports StrictGrammar
begin

text \<open>
  What \<open>numberDomainOK\<close> decides. A JSON number token denotes \<open>N * 10 ^ E\<close> up to its sign,
  where \<open>N\<close> is read off all its digits. When the exponent arithmetic does not wrap around,
  the code accepts exactly the tokens that do not round to an infinity and whose value, if it
  is an integer, is at most \<open>2 ^ 53 - 1\<close>.
\<close>

section \<open>Digit strings as numbers\<close>

lemma digits_value_ge:
  assumes "list_all is_digit ds" "ds \<noteq> []" "hd ds \<noteq> CHR ''0''"
  shows "10 ^ (length ds - 1) \<le> digits_value ds"
proof -
  obtain c cs where ds: "ds = c # cs" using assms(2) by (cases ds) auto
  have "digit_val c \<noteq> 0" using assms ds digit_val_0_iff [of c] by simp
  then have "1 * 10 ^ length cs \<le> digit_val c * 10 ^ length cs" by (intro mult_right_mono) auto
  then have "10 ^ length cs \<le> digits_value (c # cs)" unfolding digits_value_Cons by linarith
  with ds show ?thesis by simp
qed

lemma digit_val_mono: "is_digit c \<Longrightarrow> is_digit d \<Longrightarrow> c < d \<longleftrightarrow> digit_val c < digit_val d"
  by (auto simp: is_digit_val digit_val_def byte_less_iff)

lemma digit_val_inj: "is_digit c \<Longrightarrow> is_digit d \<Longrightarrow> digit_val c = digit_val d \<longleftrightarrow> c = d"
  by (metis digit_char_val)

text \<open>On digit strings of equal length Go's string comparison is the numeric one.\<close>

lemma digits_le_iff:
  assumes "length a = length b" "list_all is_digit a" "list_all is_digit b"
  shows "a \<le> b \<longleftrightarrow> digits_value a \<le> digits_value b"
  using assms
proof (induction a b rule: list_induct2)
  case Nil
  then show ?case by simp
next
  case (Cons x xs y ys)
  have d: "is_digit x" "is_digit y" "digits_value xs < 10 ^ length xs" "digits_value ys < 10 ^ length xs"
    using Cons digits_value_less [of xs] digits_value_less [of ys] by auto
  consider "x < y" | "x = y" | "y < x" by (rule linorder_cases)
  then show ?case
  proof cases
    case 1
    then have "Suc (digit_val x) \<le> digit_val y" using digit_val_mono d by simp
    then have "Suc (digit_val x) * 10 ^ length xs \<le> digit_val y * 10 ^ length xs"
      by (rule mult_right_mono) simp
    with 1 d Cons.hyps show ?thesis by (simp add: digits_value_Cons)
  next
    case 2
    with Cons show ?thesis by (simp add: digits_value_Cons)
  next
    case 3
    then have "Suc (digit_val y) \<le> digit_val x" using digit_val_mono d by simp
    then have "Suc (digit_val y) * 10 ^ length xs \<le> digit_val x * 10 ^ length xs"
      by (rule mult_right_mono) simp
    with 3 d Cons.hyps show ?thesis by (auto simp: digits_value_Cons)
  qed
qed

section \<open>Normalisation\<close>

lemma strip_trailing_eq:
  assumes "strip_trailing r p = (r', p')" "int_range p" "int_range (p + int (length r))"
  shows "\<exists>k. r = replicate k (CHR ''0'') @ r' \<and> p' = p + int k \<and> (r' = [] \<or> hd r' \<noteq> CHR ''0'')"
  using assms
proof (induction r arbitrary: p)
  case Nil
  then show ?case by (auto simp: strip_trailing.simps)
next
  case (Cons c r)
  show ?case
  proof (cases "c = CHR ''0''")
    case False
    with Cons.prems strip_trailing.simps [of "c # r" p] show ?thesis by auto
  next
    case True
    have p1: "int_range (p + 1)" using Cons.prems by (simp add: int_range_def)
    have "strip_trailing r (p + 1) = (r', p')"
      using Cons.prems(1) True p1 strip_trailing.simps [of "c # r" p] by simp
    moreover have "int_range ((p + 1) + int (length r))"
      using Cons.prems(3) by (simp add: algebra_simps)
    ultimately obtain k where "r = replicate k (CHR ''0'') @ r'" "p' = p + 1 + int k"
      "r' = [] \<or> hd r' \<noteq> CHR ''0''"
      using Cons.IH [OF _ p1] by blast
    with True show ?thesis by (intro exI [of _ "Suc k"]) simp
  qed
qed

lemma normalize_decimal_eq:
  assumes n: "normalize_decimal ds p = (d, p')" and ds: "list_all is_digit ds"
    and r: "int_range p" "int_range (p + int (length ds))"
  shows "\<exists>k. p' = p + int k \<and> digits_value ds = digits_value d * 10 ^ k \<and> list_all is_digit d
    \<and> length d + k \<le> length ds
    \<and> (d \<noteq> [] \<longrightarrow> hd d \<noteq> CHR ''0'' \<and> last d \<noteq> CHR ''0'')"
proof -
  define u where "u = dropWhile (\<lambda>c. c = CHR ''0'') ds"
  obtain z where z: "ds = z @ u" "list_all (\<lambda>c. c = CHR ''0'') z"
    using dropWhile_prefix [of ds "\<lambda>c. c = CHR ''0''"] by (auto simp: u_def)
  have zr: "z = replicate (length z) (CHR ''0'')"
    using z(2) by (intro replicate_eqI) (auto simp: list_all_iff)
  have lu: "length u \<le> length ds" using z(1) by simp
  obtain r' where st: "strip_trailing (rev u) p = (r', p')" and d: "d = rev r'"
    using n by (auto simp: normalize_decimal_def u_def split: prod.splits)
  have "int_range (p + int (length (rev u)))" using r lu by (auto simp: int_range_def)
  then obtain k where k: "rev u = replicate k (CHR ''0'') @ r'" "p' = p + int k"
    "r' = [] \<or> hd r' \<noteq> CHR ''0''"
    using strip_trailing_eq [OF st r(1)] by blast
  have u: "u = d @ replicate k (CHR ''0'')"
    using arg_cong [OF k(1), of rev] d by simp
  have "digits_value ds = digits_value d * 10 ^ k"
    using z(1) zr u by (metis add_cancel_right_left digits_value_append digits_value_zeros
        length_replicate mult_zero_left add.right_neutral)
  moreover have "list_all is_digit d" using ds z u by simp
  moreover have "d \<noteq> [] \<Longrightarrow> hd d \<noteq> CHR ''0''"
  proof -
    assume "d \<noteq> []"
    then have "u \<noteq> []" "hd u = hd d" using u by auto
    moreover have "hd u \<noteq> CHR ''0''" using \<open>u \<noteq> []\<close> hd_dropWhile unfolding u_def by blast
    ultimately show ?thesis by simp
  qed
  moreover have "d \<noteq> [] \<Longrightarrow> last d \<noteq> CHR ''0''" using k(3) d by (auto simp: last_rev)
  moreover have "length d + k \<le> length ds" using lu u by simp
  ultimately show ?thesis using k(2) by blast
qed

lemma last_digit_not_dvd:
  assumes "list_all is_digit d" "d \<noteq> []" "last d \<noteq> CHR ''0''"
  shows "\<not> 10 dvd digits_value d"
proof -
  have d: "d = butlast d @ [last d]" using assms(2) by simp
  have "is_digit (last d)" using assms(1,2) by (simp add: list_all_iff)
  then have "digit_val (last d) \<noteq> 0" "digit_val (last d) < 10"
    using assms(3) digit_val_0_iff digit_val_less by auto
  moreover have "digits_value d mod 10 = digit_val (last d) mod 10"
    by (subst d, subst digits_value_append) (simp add: digits_value_Cons)
  ultimately show ?thesis by (simp add: dvd_eq_mod_eq_0)
qed

section \<open>The decision\<close>

definition max_safe :: nat where
  "max_safe = 2 ^ 53 - 1"

lemma safe_digits:
  "list_all is_digit safe_integer_digits" "digits_value safe_integer_digits = max_safe"
  "length safe_integer_digits = 16"
  by (simp_all add: safe_integer_digits_def digits_value_Cons digit_val_def max_safe_def is_digit_def)

text \<open>\<open>N * 10 ^ E\<close> is an integer, and that integer.\<close>

definition integral :: "nat \<Rightarrow> int \<Rightarrow> bool" where
  "integral m e \<longleftrightarrow> 0 \<le> e \<or> 10 ^ nat (- e) dvd m"

definition magnitude :: "nat \<Rightarrow> int \<Rightarrow> nat" where
  "magnitude m e = (if 0 \<le> e then m * 10 ^ nat e else m div 10 ^ nat (- e))"

definition domain_spec :: "nat \<Rightarrow> int \<Rightarrow> bool" where
  "domain_spec m e \<longleftrightarrow> \<not> float64_overflows m e \<and> (integral m e \<longrightarrow> magnitude m e \<le> max_safe)"

lemma pad_compare:
  assumes d: "list_all is_digit d" "d \<noteq> []" "hd d \<noteq> CHR ''0''" and p: "length d + p \<le> 16"
  shows "(if length (d @ replicate p (CHR ''0'')) < length safe_integer_digits then True
          else d @ replicate p (CHR ''0'') \<le> safe_integer_digits) \<longleftrightarrow> digits_value d * 10 ^ p \<le> max_safe"
proof -
  let ?m = "d @ replicate p (CHR ''0'')"
  have v: "digits_value ?m = digits_value d * 10 ^ p" by (simp add: digits_value_append)
  have m: "list_all is_digit ?m" using d(1) by (auto simp: list_all_iff)
  show ?thesis
  proof (cases "length ?m < 16")
    case True
    have "digits_value ?m < 10 ^ length ?m" using m by (rule digits_value_less)
    also have "(10::nat) ^ length ?m \<le> 10 ^ 15" using True by (intro power_increasing) auto
    finally show ?thesis using True v by (simp add: safe_digits max_safe_def)
  next
    case False
    then have "length ?m = length safe_integer_digits" using p by (simp add: safe_digits)
    then show ?thesis using digits_le_iff [OF _ m safe_digits(1)] False v
      by (simp add: safe_digits)
  qed
qed

lemma number_decision:
  assumes ds: "list_all is_digit ds" and r: "int_range E" "int_range (E + int (length ds) + 20)"
    and n: "normalize_decimal ds E = (d, p)"
  shows "(if d = [] then True else if p < 0 then True
          else if int (length safe_integer_digits) < wrap_int (int (length d) + p) then False
          else (let mag = d @ replicate (nat p) (CHR ''0'')
                in if length mag < length safe_integer_digits then True
                   else mag \<le> safe_integer_digits))
     \<longleftrightarrow> (integral (digits_value ds) E \<longrightarrow> magnitude (digits_value ds) E \<le> max_safe)"
proof -
  have r': "int_range (E + int (length ds))" using r by (auto simp: int_range_def)
  obtain k where k: "p = E + int k" "digits_value ds = digits_value d * 10 ^ k" "list_all is_digit d"
    "length d + k \<le> length ds" "d \<noteq> [] \<longrightarrow> hd d \<noteq> CHR ''0'' \<and> last d \<noteq> CHR ''0''"
    using normalize_decimal_eq [OF n ds r(1) r'] by blast
  show ?thesis
  proof (cases "d = []")
    case True
    then show ?thesis using k(2) by (simp add: magnitude_def)
  next
    case dne: False
    show ?thesis
    proof (cases "p < 0")
      case True
      define q where "q = nat (- p)"
      have q: "nat (- E) = k + q" "0 < q" "E < 0" using True k(1) by (auto simp: q_def)
      have "\<not> 10 dvd digits_value d" using last_digit_not_dvd k(3,5) dne by blast
      moreover have "(10::nat) dvd 10 ^ q" using q(2) by simp
      ultimately have "\<not> 10 ^ q dvd digits_value d" using dvd_trans by blast
      then have "\<not> 10 ^ (k + q) dvd digits_value ds"
        using k(2) by (simp add: power_add mult.commute)
      then have "\<not> integral (digits_value ds) E" using q by (simp add: integral_def)
      with True show ?thesis by simp
    next
      case False
      define q where "q = nat p"
      have p: "p = int q" using False by (simp add: q_def)
      have w: "wrap_int (int (length d) + p) = int (length d + q)"
      proof -
        have "0 \<le> int (length d) + p" "int (length d) + p \<le> E + int (length ds)"
          using False k(1,4) by auto
        with r' have "int_range (int (length d) + p)" by (auto simp: int_range_def)
        then show ?thesis using p by simp
      qed
      have v: "integral (digits_value ds) E \<and> magnitude (digits_value ds) E = digits_value d * 10 ^ q"
      proof (cases "0 \<le> E")
        case True
        then have "q = k + nat E" using p k(1) by simp
        with True k(2) show ?thesis by (simp add: integral_def magnitude_def power_add)
      next
        case False
        then have "k = q + nat (- E)" using p k(1) by simp
        with False k(2) show ?thesis by (simp add: integral_def magnitude_def power_add)
      qed
      show ?thesis
      proof (cases "16 < length d + q")
        case True
        have "(10::nat) ^ 16 \<le> 10 ^ (length d - 1 + q)" using True dne
          by (intro power_increasing) (auto simp: Suc_le_eq)
        also have "\<dots> \<le> digits_value d * 10 ^ q"
          using digits_value_ge [OF k(3) dne] k(5) dne by (simp add: power_add)
        finally have "\<not> digits_value d * 10 ^ q \<le> max_safe" by (simp add: max_safe_def)
        with True w v dne False show ?thesis by (simp add: safe_digits)
      next
        case False
        have "nat p = q" using p by simp
        with False dne w v \<open>\<not> p < 0\<close> pad_compare [OF k(3) dne _, of q] k(5) show ?thesis
          by (simp add: safe_digits Let_def)
      qed
    qed
  qed
qed

section \<open>The parts of a token\<close>

lemma takeWhile_digits:
  "list_all is_digit ds \<Longrightarrow> t = [] \<or> \<not> is_digit (hd t) \<Longrightarrow> takeWhile is_digit (ds @ t) = ds"
  by (rule takeWhile_append_stop(1))

text \<open>The decomposition every number token has, with the pieces the code cuts out of it.\<close>

lemma number_pieces:
  assumes sg: "sg = [] \<or> sg = ''-''" and i: "int_text i" and fs: "list_all is_digit fs"
    and fr: "fr = [] \<and> fs = [] \<or> fr = CHR ''.'' # fs" and ex: "exp_text ex"
  defines "tok \<equiv> sg @ i @ fr @ ex"
  shows "(if tok \<noteq> [] \<and> hd tok = CHR ''-'' then tl tok else tok) = i @ fr @ ex"
    "list_all is_digit i"
    "takeWhile is_digit (i @ fr @ ex) = i" "dropWhile is_digit (i @ fr @ ex) = fr @ ex"
    "fr = [] \<and> fs = [] \<and> (ex = [] \<or> hd ex \<noteq> CHR ''.'') \<or>
     fr = CHR ''.'' # fs \<and> takeWhile is_digit (fs @ ex) = fs \<and> dropWhile is_digit (fs @ ex) = ex"
    "dropWhile (\<lambda>c. c \<noteq> CHR ''e'' \<and> c \<noteq> CHR ''E'') tok = ex"
proof -
  have i': "i \<noteq> []" "is_digit (hd i)" "list_all is_digit i"
    using int_text_hd [OF i] i by (auto simp: int_text_def)
  show "(if tok \<noteq> [] \<and> hd tok = CHR ''-'' then tl tok else tok) = i @ fr @ ex"
    unfolding tok_def using sg i' by (cases i) auto
  show "list_all is_digit i" by (rule i'(3))
  have ex: "ex = [] \<or> (hd ex = CHR ''e'' \<or> hd ex = CHR ''E'')" using exp_hd [OF ex] by blast
  then have exd: "ex = [] \<or> \<not> is_digit (hd ex)" "ex = [] \<or> hd ex \<noteq> CHR ''.''" by auto
  have "fr @ ex = [] \<or> \<not> is_digit (hd (fr @ ex))" using fr exd by auto
  then show "takeWhile is_digit (i @ fr @ ex) = i" "dropWhile is_digit (i @ fr @ ex) = fr @ ex"
    using takeWhile_digits [OF i'(3)] drop_digits [OF i'(3)] by blast+
  show "fr = [] \<and> fs = [] \<and> (ex = [] \<or> hd ex \<noteq> CHR ''.'') \<or>
     fr = CHR ''.'' # fs \<and> takeWhile is_digit (fs @ ex) = fs \<and> dropWhile is_digit (fs @ ex) = ex"
    using takeWhile_digits [OF fs exd(1)] drop_digits [OF fs exd(1)] fr exd(2) by blast
  have noe: "\<And>ds. list_all is_digit ds \<Longrightarrow> list_all (\<lambda>c. c \<noteq> CHR ''e'' \<and> c \<noteq> CHR ''E'') ds"
    by (auto simp: list_all_iff)
  have "list_all (\<lambda>c. c \<noteq> CHR ''e'' \<and> c \<noteq> CHR ''E'') (sg @ i @ fr)"
    using sg noe [OF i'(3)] noe [OF fs] fr by auto
  then have "dropWhile (\<lambda>c. c \<noteq> CHR ''e'' \<and> c \<noteq> CHR ''E'') ((sg @ i @ fr) @ ex) = ex"
    using ex by (intro takeWhile_append_stop(2)) auto
  then show "dropWhile (\<lambda>c. c \<noteq> CHR ''e'' \<and> c \<noteq> CHR ''E'') tok = ex" unfolding tok_def by simp
qed

lemma number_parts:
  assumes "number_text tok"
  obtains sg i fr ex fs where "tok = sg @ i @ fr @ ex" "sg = [] \<or> sg = ''-''" "int_text i"
    "list_all is_digit fs" "fr = [] \<and> fs = [] \<or> fr = CHR ''.'' # fs" "exp_text ex"
proof -
  obtain sg i fr ex where t: "tok = sg @ i @ fr @ ex" "sg = [] \<or> sg = ''-''"
    "int_text i" "frac_text fr" "exp_text ex"
    using assms by (auto simp: number_text_def)
  have "fr = [] \<and> tl fr = [] \<or> fr = CHR ''.'' # tl fr" "list_all is_digit (tl fr)"
    using t(4) by (auto simp: frac_text_def)
  with t show thesis using that by blast
qed

lemma split_number_pieces:
  assumes "sg = [] \<or> sg = ''-''" "int_text i" "list_all is_digit fs"
    "fr = [] \<and> fs = [] \<or> fr = CHR ''.'' # fs" "exp_text ex"
  shows "split_number (sg @ i @ fr @ ex) =
    (if ex = [] then Some (i, fs, 0) else (case atoi (tl ex) of None \<Rightarrow> None | Some e \<Rightarrow> Some (i, fs, e)))"
proof -
  note t = number_pieces [OF assms]
  have fracs: "(if fr @ ex \<noteq> [] \<and> hd (fr @ ex) = CHR ''.'' then takeWhile is_digit (tl (fr @ ex)) else []) = fs"
    "(if fr @ ex \<noteq> [] \<and> hd (fr @ ex) = CHR ''.'' then dropWhile is_digit (tl (fr @ ex)) else fr @ ex) = ex"
    using t(5) by auto
  show ?thesis
    unfolding split_number_def Let_def t(1,3,4) fracs using exp_hd [OF assms(5)] by auto
qed

lemma atoi_value:
  assumes "exp_text ex" "ex \<noteq> []" "atoi (tl ex) = Some e"
  shows "e = (let u = tl ex; ds = (if u \<noteq> [] \<and> (hd u = CHR ''-'' \<or> hd u = CHR ''+'') then tl u else u);
           v = int (digits_value ds) in if u \<noteq> [] \<and> hd u = CHR ''-'' then - v else v)"
  using assms(3) by (auto simp: atoi_def Let_def split: if_splits)

lemma split_number_spec:
  assumes "number_text tok" "split_number tok = Some (ints, fracs, e)"
  shows "list_all is_digit (ints @ fracs)"
    "parse_float_is_inf tok \<longleftrightarrow> float64_overflows (digits_value (ints @ fracs)) (e - int (length fracs))"
proof -
  obtain sg i fr ex fs where d: "tok = sg @ i @ fr @ ex" "sg = [] \<or> sg = ''-''" "int_text i"
    "list_all is_digit fs" "fr = [] \<and> fs = [] \<or> fr = CHR ''.'' # fs" "exp_text ex"
    using number_parts [OF assms(1)] by blast
  note t = number_pieces [OF d(2-6), folded d(1)]
  have fracs: "(if fr @ ex \<noteq> [] \<and> hd (fr @ ex) = CHR ''.'' then takeWhile is_digit (tl (fr @ ex)) else []) = fs"
    using t(5) by auto
  have te: "token_exp tok = (let u = tl ex;
      ds = (if u \<noteq> [] \<and> (hd u = CHR ''-'' \<or> hd u = CHR ''+'') then tl u else u);
      v = int (digits_value ds) in if u \<noteq> [] \<and> hd u = CHR ''-'' then - v else v)"
    unfolding token_exp_def t(6) ..
  have sn: "split_number tok = (if ex = [] then Some (i, fs, 0)
      else (case atoi (tl ex) of None \<Rightarrow> None | Some e \<Rightarrow> Some (i, fs, e)))"
    unfolding d(1) by (rule split_number_pieces [OF d(2-6)])
  have sp: "ints = i" "fracs = fs" "e = token_exp tok"
  proof -
    show "ints = i" "fracs = fs" using sn assms(2) by (auto split: if_splits option.splits)
    show "e = token_exp tok"
    proof (cases "ex = []")
      case True
      then show ?thesis using sn assms(2) te by simp
    next
      case False
      then have "atoi (tl ex) = Some e" using sn assms(2) by (auto split: option.splits)
      from atoi_value [OF d(6) False this] te show ?thesis by simp
    qed
  qed
  show "list_all is_digit (ints @ fracs)" using sp t(2) d(4) by simp
  show "parse_float_is_inf tok \<longleftrightarrow> float64_overflows (digits_value (ints @ fracs)) (e - int (length fracs))"
    unfolding parse_float_is_inf_def Let_def t(1,3,4) fracs sp by simp
qed

lemma number_domain_pieces_eq:
  "number_domain tok =
     (if parse_float_is_inf tok then False
      else case split_number tok of
        None \<Rightarrow> False
      | Some (ints, fracs, e) \<Rightarrow>
          (case normalize_decimal (ints @ fracs) (wrap_int (e - int (length fracs))) of
             (d, p) \<Rightarrow>
               if d = [] then True
               else if p < 0 then True
               else if int (length safe_integer_digits) < wrap_int (int (length d) + p) then False
               else (let mag = d @ replicate (nat p) (CHR ''0'')
                     in if length mag < length safe_integer_digits then True
                        else mag \<le> safe_integer_digits)))"
  by (simp add: number_domain_def number_run_def Let_def split: option.split prod.split)

lemma number_domain_iff:
  assumes "number_text tok" "split_number tok = Some (ints, fracs, e)"
    and "int_range (e - int (length fracs))"
    and "int_range (e - int (length fracs) + int (length (ints @ fracs)) + 20)"
  shows "number_domain tok \<longleftrightarrow> domain_spec (digits_value (ints @ fracs)) (e - int (length fracs))"
proof -
  obtain d p where n: "normalize_decimal (ints @ fracs) (e - int (length fracs)) = (d, p)"
    by (cases "normalize_decimal (ints @ fracs) (e - int (length fracs))")
  note sp = split_number_spec [OF assms(1,2)]
  show ?thesis
    using number_decision [OF sp(1) assms(3,4) n] sp(2) assms(2,3) n
    by (simp add: number_domain_pieces_eq domain_spec_def)
qed

text \<open>Decimal integers, as \<open>strconv.AppendInt\<close> prints them.\<close>

lemma itoa_nat_hd: "0 < n \<Longrightarrow> hd (itoa_nat n) \<noteq> CHR ''0''"
proof (induction n rule: itoa_nat.induct)
  case (1 n)
  then show ?case
    by (cases "n < 10") (simp_all add: itoa_nat.simps [of n] digit_char_0_iff)
qed

lemma int_text_itoa_nat: "int_text (itoa_nat n)"
proof (cases "n = 0")
  case True
  have "itoa_nat 0 = ''0''"
    using digit_char_val [of "CHR ''0''"] by (simp add: itoa_nat.simps)
  with True show ?thesis by (simp add: int_text_def)
next
  case False
  then show ?thesis using itoa_nat_hd [of n] itoa_nat_digits [of n] by (simp add: int_text_def)
qed

lemma number_text_itoa: "number_text (itoa i)"
proof -
  have "number_text (sg @ itoa_nat n)" if "sg = [] \<or> sg = ''-''" for sg n
    unfolding number_text_def using that int_text_itoa_nat [of n]
    by (intro exI [of _ sg] exI [of _ "itoa_nat n"] exI [of _ "[]"])
      (simp add: frac_text_def exp_text_def)
  from this [of "[]"] this [of "''-''"] show ?thesis by (simp add: itoa_def)
qed

lemma split_number_itoa: "split_number (itoa i) = Some (itoa_nat (nat \<bar>i\<bar>), [], 0)"
proof -
  have "is_digit (hd (itoa_nat n))" for n
    using itoa_nat_digits [of n] by (cases "itoa_nat n") auto
  then have m: "hd (itoa_nat n) \<noteq> CHR ''-''" for n by (metis not_digit(4))
  have t: "takeWhile is_digit (itoa_nat n) = itoa_nat n" "dropWhile is_digit (itoa_nat n) = []" for n
    using takeWhile_digits [of "itoa_nat n" "[]"] drop_digits [of "itoa_nat n" "[]"] itoa_nat_digits [of n]
    by simp_all
  show ?thesis by (simp add: split_number_def itoa_def Let_def m t)
qed

lemma domain_spec_nat: "n \<le> max_safe \<Longrightarrow> domain_spec n 0"
proof -
  assume n: "n \<le> max_safe"
  have "max_safe < 2 ^ 1024 - 2 ^ 970" by (simp add: max_safe_def)
  with n show ?thesis by (simp add: domain_spec_def float64_overflows_def magnitude_def)
qed

lemma number_domain_itoa:
  assumes "nat \<bar>i\<bar> \<le> max_safe"
  shows "number_domain (itoa i)"
proof -
  have "nat \<bar>i\<bar> < 10 ^ 16" using assms by (simp add: max_safe_def)
  then have "length (itoa_nat (nat \<bar>i\<bar>)) \<le> 16" by (rule itoa_nat_length_le) simp
  then have "int_range (int (length (itoa_nat (nat \<bar>i\<bar>))) + 20)" by (simp add: int_range_def)
  then show ?thesis
    using number_domain_iff [OF number_text_itoa split_number_itoa] domain_spec_nat [OF assms]
    by (simp add: int_range_def)
qed

section \<open>Exponents that wrap\<close>

lemma wrap_int_low: "- (2 ^ 64) \<le> i \<Longrightarrow> i < - (2 ^ 63) \<Longrightarrow> wrap_int i = i + 2 ^ 64"
proof -
  assume i: "- (2 ^ 64) \<le> i" "i < - (2 ^ 63)"
  have "(i + 2 ^ 63) mod 2 ^ 64 = (i + 2 ^ 63 + 2 ^ 64) mod 2 ^ 64" by (simp only: mod_add_self2)
  also have "\<dots> = i + 2 ^ 63 + 2 ^ 64" using i by (intro mod_pos_pos_trivial) simp_all
  finally show ?thesis by (simp add: wrap_int_def)
qed

lemma wrap_int_high: "2 ^ 63 \<le> i \<Longrightarrow> i \<le> 2 ^ 64 \<Longrightarrow> wrap_int i = i - 2 ^ 64"
proof -
  assume i: "2 ^ 63 \<le> i" "i \<le> 2 ^ 64"
  have "(i + 2 ^ 63) mod 2 ^ 64 = (i + 2 ^ 63 - 2 ^ 64) mod 2 ^ 64"
    by (simp only: minus_mod_self2)
  also have "\<dots> = i + 2 ^ 63 - 2 ^ 64" using i by (intro mod_pos_pos_trivial) simp_all
  finally show ?thesis by (simp add: wrap_int_def)
qed

lemma wrapping_token:
  assumes "list_all is_digit fs" "fs \<noteq> []" "list_all is_digit xs" "xs \<noteq> []" "digits_value xs \<le> 2 ^ 63"
  shows "number_text (''0.'' @ fs @ ''e-'' @ xs)"
    "split_number (''0.'' @ fs @ ''e-'' @ xs) = Some (''0'', fs, - int (digits_value xs))"
proof -
  have ex: "exp_text (''e-'' @ xs)" using assms(3,4) unfolding exp_text_def by (intro disjI2 exI [of _ "CHR ''e''"] exI [of _ "''-''"] exI [of _ xs]) simp
  have i: "int_text ''0''" by (simp add: int_text_def)
  have fr: "frac_text (CHR ''.'' # fs)" using assms(1,2) by (simp add: frac_text_def)
  have eq: "''0.'' @ fs @ ''e-'' @ xs = [] @ ''0'' @ (CHR ''.'' # fs) @ (''e-'' @ xs)" by simp
  show "number_text (''0.'' @ fs @ ''e-'' @ xs)"
    unfolding number_text_def eq using ex i fr by blast
  have "atoi (tl (''e-'' @ xs)) = Some (- int (digits_value xs))"
    using assms(3-5) by (auto simp: atoi_def int_range_def)
  then show "split_number (''0.'' @ fs @ ''e-'' @ xs) = Some (''0'', fs, - int (digits_value xs))"
    unfolding eq using split_number_pieces [of "[]" "''0''" fs "CHR ''.'' # fs" "''e-'' @ xs"] i ex assms(1) by simp
qed

lemma tiny_fraction:
  assumes "m < 10 ^ n" "m \<noteq> 0" "0 < n"
  shows "\<not> float64_overflows m (- int N - int n)" "\<not> integral m (- int N - int n)"
proof -
  have e: "nat (- (- int N - int n)) = N + n" by simp
  have "m < 10 ^ (N + n)" using assms(1) by (simp add: power_add trans_less_add1 order_less_le_trans)
  moreover have "(10::nat) ^ (N + n) \<le> (2 ^ 1024 - 2 ^ 970) * 10 ^ (N + n)" by simp
  ultimately have "m < (2 ^ 1024 - 2 ^ 970) * 10 ^ (N + n)" by linarith
  then show "\<not> float64_overflows m (- int N - int n)" using assms(3) unfolding float64_overflows_def e by simp
  have "\<not> 10 ^ (N + n) dvd m" using \<open>m < 10 ^ (N + n)\<close> assms(2) by (simp add: nat_dvd_not_less)
  then show "\<not> integral m (- int N - int n)" using assms(3) unfolding integral_def e by simp
qed

lemma normal_fraction:
  assumes "fs \<noteq> []" "hd fs \<noteq> CHR ''0''" "last fs \<noteq> CHR ''0''"
  shows "normalize_decimal (''0'' @ fs) p = (fs, p)"
proof -
  have "dropWhile (\<lambda>c. c = CHR ''0'') (''0'' @ fs) = fs" using assms(1,2) by (cases fs) auto
  moreover have "strip_trailing (rev fs) p = (rev fs, p)"
    using assms(1,3) by (cases "rev fs") (auto simp: strip_trailing.simps)
  ultimately show ?thesis by (simp add: normalize_decimal_def)
qed

section \<open>The properties of the number domain\<close>

text \<open>C6: for a number token whose exponent leaves the machine's integer range alone,
  \<open>numberDomainOK\<close> holds exactly when the number is below the overflow threshold of a
  float64 and, if it is an integer (however it is written: \<open>1e3\<close>, \<open>10.0\<close>), its magnitude is
  at most \<open>2 ^ 53 - 1\<close>.\<close>

theorem number_domain_is_the_safe_domain:
  assumes "number_text tok" "split_number tok = Some (ints, fracs, e)"
    and "int_range (e - int (length fracs))"
    and "int_range (e - int (length fracs) + int (length (ints @ fracs)) + 20)"
  shows "number_domain tok \<longleftrightarrow> domain_spec (digits_value (ints @ fracs)) (e - int (length fracs))"
  by (rule number_domain_iff [OF assms])

theorem number_domain_is_the_safe_domain_witness:
  "number_domain (itoa 4500) \<longleftrightarrow> domain_spec (digits_value (itoa_nat 4500 @ [])) 0"
  using number_domain_is_the_safe_domain [OF number_text_itoa [of 4500] split_number_itoa [of 4500]]
    itoa_nat_length_le [of 4500 4]
  by (simp add: int_range_def)

text \<open>C40: outside that range the exponent wraps. The token \<open>0.<fs>e-<xs>\<close>, with a fraction \<open>fs\<close> of \<open>n\<close>
  digits that neither starts nor ends in zero and an exponent \<open>N\<close> that an \<open>int\<close> holds but \<open>N + n\<close> does
  not, is a number the scanner hands to \<open>numberDomainOK\<close>, and a tiny fraction its domain admits; yet
  \<open>numberDomainOK\<close> passes every test before the loop that appends zeros, and runs that loop
  \<open>2 ^ 64 - N - n\<close> rounds (for \<open>0.5e-9223372036854775808\<close>, \<open>2 ^ 63 - 1\<close>).\<close>

theorem exponent_wraps_into_the_padding_loop:
  assumes "list_all is_digit fs" "fs \<noteq> []" "hd fs \<noteq> CHR ''0''" "last fs \<noteq> CHR ''0''" "length fs < 2 ^ 62"
    "list_all is_digit xs" "xs \<noteq> []" "digits_value xs \<le> 2 ^ 63" "2 ^ 63 < digits_value xs + length fs"
  shows "number_end (''0.'' @ fs @ ''e-'' @ xs) = Some []
    \<and> domain_spec (digits_value fs) (- int (digits_value xs) - int (length fs))
    \<and> snd (number_run (''0.'' @ fs @ ''e-'' @ xs)) = 2 ^ 64 - digits_value xs - length fs"
proof -
  define n where "n = length fs"
  define N where "N = digits_value xs"
  have nN: "0 < n" "n < 2 ^ 62" "N \<le> 2 ^ 63" "2 ^ 63 < N + n" using assms by (simp_all add: n_def N_def)
  have t: "number_text (''0.'' @ fs @ ''e-'' @ xs)" "split_number (''0.'' @ fs @ ''e-'' @ xs) = Some (''0'', fs, - int N)"
    using wrapping_token [OF assms(1,2,6,7)] nN(3) by (simp_all add: N_def)
  have v: "digits_value (''0'' @ fs) = digits_value fs" by (simp add: digits_value_def digit_val_def)
  have "0 < (10::nat) ^ (length fs - 1)" by simp
  then have "0 < digits_value fs" using digits_value_ge [OF assms(1,2,3)] by (rule less_le_trans)
  then have m: "digits_value fs < 10 ^ n" "digits_value fs \<noteq> 0"
    using digits_value_less [OF assms(1)] by (simp_all add: n_def)
  have tiny: "\<not> float64_overflows (digits_value fs) (- int N - int n)" "\<not> integral (digits_value fs) (- int N - int n)"
    using tiny_fraction [OF m, of N] nN by simp_all
  have d: "normalize_decimal (''0'' @ fs) (wrap_int (- int N - int n)) = (fs, 2 ^ 64 - int N - int n)"
    using normal_fraction [OF assms(2,3,4)] nN wrap_int_low [of "- int N - int n"] by simp
  have "wrap_int (int n + (2 ^ 64 - int N - int n)) = - int N"
    using nN wrap_int_high [of "2 ^ 64 - int N"] by simp
  moreover have "0 \<le> 2 ^ 64 - int N - int n" "nat (2 ^ 64 - int N - int n) = 2 ^ 64 - N - n" using nN by simp_all
  moreover have "\<not> parse_float_is_inf (''0.'' @ fs @ ''e-'' @ xs)"
    using split_number_spec(2) [OF t] tiny(1) v by (simp add: n_def)
  ultimately have "snd (number_run (''0.'' @ fs @ ''e-'' @ xs)) = 2 ^ 64 - N - n"
    using t(2) d assms(2) by (simp add: number_run_def n_def Let_def)
  moreover have "number_end ((''0.'' @ fs @ ''e-'' @ xs) @ []) = Some []"
    by (rule number_end_complete [OF t(1)]) (simp add: stop_def)
  ultimately show ?thesis using tiny by (simp add: domain_spec_def N_def n_def)
qed

theorem exponent_wraps_into_the_padding_loop_witness:
  "snd (number_run ''0.5e-9223372036854775808'') = 2 ^ 63 - 1"
proof -
  have "list_all is_digit ''9223372036854775808''" "list_all is_digit ''5''" by code_simp+
  moreover have "digits_value ''9223372036854775808'' = 9223372036854775808"
    by (simp add: digits_value_def digit_val_def)
  ultimately show ?thesis
    using exponent_wraps_into_the_padding_loop [of "''5''" "''9223372036854775808''"] by simp
qed

end
