(* ===== verification/JsonWrite.thy ===== *)
theory JsonWrite
  imports NumberDomain "HOL-Library.Multiset"
begin

text \<open>
  What the plugin library writes: \<open>appendJSONString\<close> of \<open>pkg/aiiosdk/plugin.go\<close> and the
  result encoder of \<open>pkg/aiiosdk/marshal.go\<close>. The functions return the bytes they append;
  Go's \<open>append(out, ...)\<close> puts them after what is already in \<open>out\<close>.
\<close>

section \<open>Strings\<close>

definition escape_byte :: "char \<Rightarrow> bytes" where
  "escape_byte c =
     (if c = CHR 0x22 then [CHR 0x5C, CHR 0x22]
      else if c = CHR 0x5C then [CHR 0x5C, CHR 0x5C]
      else if c < CHR 0x20 then
        (if c = CHR 0x0A then [CHR 0x5C, CHR ''n'']
         else if c = CHR 0x0D then [CHR 0x5C, CHR ''r'']
         else if c = CHR 0x09 then [CHR 0x5C, CHR ''t'']
         else [CHR 0x5C, CHR ''u'', CHR ''0'', CHR ''0'',
               hex_digit (byte_val c div 16), hex_digit (byte_val c mod 16)])
      else [c])"

definition append_json_string :: "bytes \<Rightarrow> bytes" where
  "append_json_string s = CHR 0x22 # concat (map escape_byte s) @ [CHR 0x22]"

section \<open>Floats\<close>

text \<open>
  A \<open>float64\<close> as \<open>strconv\<close> sees it when asked for the shortest text (precision -1): a
  finite value is its sign, its shortest decimal digits \<open>d\<^sub>1 d\<^sub>2 \<dots> d\<^sub>n\<close> (no leading
  and no trailing zero, none at all for zero) and the position \<open>dp\<close> of the decimal point,
  meaning \<open>0.d\<^sub>1d\<^sub>2\<dots>d\<^sub>n * 10 ^ dp\<close>. The digits determine the value, so the tests
  \<open>f == math.Trunc(f)\<close> (no digit after the point) and the comparisons with \<open>2 ^ 53 - 1\<close>,
  \<open>1e-6\<close> and \<open>1e21\<close> are tests on them.
\<close>

datatype float64 = FNaN | FInf bool | FFin bool bytes int

definition float_ok :: "bytes \<Rightarrow> int \<Rightarrow> bool" where
  "float_ok ds dp \<longleftrightarrow> list_all is_digit ds \<and> length ds \<le> 17 \<and> \<bar>dp\<bar> \<le> 400
     \<and> (ds \<noteq> [] \<longrightarrow> hd ds \<noteq> CHR ''0'' \<and> last ds \<noteq> CHR ''0'') \<and> (ds = [] \<longrightarrow> dp = 0)"

definition float_integral :: "bytes \<Rightarrow> int \<Rightarrow> bool" where
  "float_integral ds dp \<longleftrightarrow> int (length ds) \<le> dp"

definition float_magnitude :: "bytes \<Rightarrow> int \<Rightarrow> nat" where
  "float_magnitude ds dp = digits_value ds * 10 ^ nat (dp - int (length ds))"

text \<open>\<open>strconv\<close>'s \<open>%f\<close> and \<open>%e\<close> formatting of the shortest digits.\<close>

definition fmt_f :: "bytes \<Rightarrow> int \<Rightarrow> bytes" where
  "fmt_f ds dp =
     (let n = length ds;
          whole = (if 0 < dp then take (nat dp) ds @ replicate (nat dp - n) (CHR ''0'') else ''0'');
          prec = nat (int n - dp)
      in whole @
         (if 0 < prec
          then CHR ''.'' # (if dp < 0 then replicate (nat (- dp)) (CHR ''0'') @ ds
                            else drop (nat dp) ds)
          else []))"

definition fmt_exp :: "int \<Rightarrow> bytes" where
  "fmt_exp e =
     (let a = nat \<bar>e\<bar>
      in (if e < 0 then CHR ''-'' else CHR ''+'')
         # (if a < 10 then CHR ''0'' # itoa_nat a else itoa_nat a))"

definition fmt_e :: "bytes \<Rightarrow> int \<Rightarrow> bytes" where
  "fmt_e ds dp =
     (case ds of [] \<Rightarrow> ''0'' | d # _ \<Rightarrow> [d])
     @ (if 1 < length ds then CHR ''.'' # tl ds else [])
     @ CHR ''e'' # fmt_exp (if ds = [] then 0 else dp - 1)"

definition trim_exponent :: "bytes \<Rightarrow> bytes" where
  "trim_exponent out =
     (let n = length out
      in if 4 \<le> n \<and> out ! (n - 4) = CHR ''e'' \<and> out ! (n - 3) = CHR ''-'' \<and> out ! (n - 2) = CHR ''0''
         then take (n - 2) out @ [out ! (n - 1)] else out)"

datatype marshal_error =
    MarshalUnsupported | MarshalDepth | MarshalInteger | MarshalFloat | MarshalerFailed

definition append_float :: "float64 \<Rightarrow> marshal_error + bytes" where
  "append_float f =
     (case f of
        FNaN \<Rightarrow> Inl MarshalFloat
      | FInf neg \<Rightarrow> Inl MarshalFloat
      | FFin neg ds dp \<Rightarrow>
          if float_integral ds dp \<and> max_safe < float_magnitude ds dp then Inl MarshalInteger
          else (let sg = (if neg then ''-'' else '''');
                    e_format = (ds \<noteq> [] \<and> (dp \<le> -6 \<or> 22 \<le> dp))
                in Inr (if e_format then trim_exponent (sg @ fmt_e ds dp) else sg @ fmt_f ds dp)))"

section \<open>Values\<close>

text \<open>
  The cases of \<open>appendValue\<close>'s type switch. The signed and unsigned widths are one
  constructor each (the code widens them to \<open>int64\<close> and \<open>uint64\<close>); the typed maps and
  slices are lifted to \<open>any\<close> by the code, so they share a constructor. A map is its
  entries, in the unspecified order Go iterates them, with distinct keys. \<open>GMarshaler\<close> is a
  value with a \<open>MarshalJSON\<close> method, given by what that method returns.
\<close>

datatype goval =
    GNil
  | GRaw bytes
  | GBool bool
  | GString bytes
  | GInt int
  | GUint nat
  | GFloat float64
  | GMap "(bytes \<times> goval) list"
  | GSlice "goval list"
  | GMarshaler "bytes option"
  | GUnsupported

definition append_safe_int :: "int \<Rightarrow> marshal_error + bytes" where
  "append_safe_int v =
     (if 9007199254740991 < v \<or> v < - 9007199254740991 then Inl MarshalInteger else Inr (itoa v))"

definition append_safe_uint :: "nat \<Rightarrow> marshal_error + bytes" where
  "append_safe_uint v = (if 9007199254740991 < v then Inl MarshalInteger else Inr (itoa_nat v))"

definition max_marshal_depth :: nat where
  "max_marshal_depth = 64"

lemma sort_key_sum:
  "sum_list (map f (sort_key g xs)) = sum_list (map f xs :: nat list)"
proof -
  have "mset (map f (sort_key g xs)) = mset (map f xs)" by simp
  then show ?thesis by (metis sum_mset_sum_list)
qed

function (sequential) append_value :: "nat \<Rightarrow> goval \<Rightarrow> marshal_error + bytes"
  and append_members :: "nat \<Rightarrow> bool \<Rightarrow> (bytes \<times> goval) list \<Rightarrow> marshal_error + bytes"
  and append_elems :: "nat \<Rightarrow> bool \<Rightarrow> goval list \<Rightarrow> marshal_error + bytes" where
  "append_value depth v =
     (if max_marshal_depth < depth then Inl MarshalDepth
      else case v of
        GNil \<Rightarrow> Inr ''null''
      | GRaw x \<Rightarrow> if x = [] then Inr ''null'' else Inr x
      | GBool x \<Rightarrow> if x then Inr ''true'' else Inr ''false''
      | GString x \<Rightarrow> Inr (append_json_string x)
      | GInt x \<Rightarrow> append_safe_int x
      | GUint x \<Rightarrow> append_safe_uint x
      | GFloat x \<Rightarrow> append_float x
      | GMap m \<Rightarrow>
          (case append_members depth True (sort_key fst m) of
             Inl e \<Rightarrow> Inl e
           | Inr t \<Rightarrow> Inr (CHR ''{'' # t @ ''}''))
      | GSlice s \<Rightarrow>
          (case append_elems depth True s of
             Inl e \<Rightarrow> Inl e
           | Inr t \<Rightarrow> Inr (CHR ''['' # t @ '']''))
      | GMarshaler r \<Rightarrow> (case r of None \<Rightarrow> Inl MarshalerFailed | Some raw \<Rightarrow> Inr raw)
      | GUnsupported \<Rightarrow> Inl MarshalUnsupported)"
| "append_members depth is_first [] = Inr []"
| "append_members depth is_first ((k, v) # ms) =
     (case append_value (depth + 1) v of
        Inl e \<Rightarrow> Inl e
      | Inr t \<Rightarrow>
          (case append_members depth False ms of
             Inl e \<Rightarrow> Inl e
           | Inr u \<Rightarrow> Inr ((if is_first then [] else '','') @ append_json_string k @ '':'' @ t @ u)))"
| "append_elems depth is_first [] = Inr []"
| "append_elems depth is_first (v # vs) =
     (case append_value (depth + 1) v of
        Inl e \<Rightarrow> Inl e
      | Inr t \<Rightarrow>
          (case append_elems depth False vs of
             Inl e \<Rightarrow> Inl e
           | Inr u \<Rightarrow> Inr ((if is_first then [] else '','') @ t @ u)))"
  by pat_completeness auto
termination
proof (relation "measure (\<lambda>x. case x of
      Inl (d, v) \<Rightarrow> size v
    | Inr (Inl (d, f, ms)) \<Rightarrow> sum_list (map (\<lambda>kv. Suc (size (snd kv))) ms)
    | Inr (Inr (d, f, vs)) \<Rightarrow> sum_list (map (\<lambda>v. Suc (size v)) vs))", goal_cases)
  case (2 depth v m)
  have "sum_list (map (\<lambda>kv. Suc (size (snd kv))) m) < size (GMap m)"
    by (induction m) (auto split: prod.splits)
  with 2 show ?case by (simp add: sort_key_sum)
next
  case (3 depth v s)
  have "sum_list (map (\<lambda>v. Suc (size v)) s) < size (GSlice s)"
    by (induction s) auto
  with 3 show ?case by simp
qed simp_all

declare append_value.simps [simp del]

definition marshal_value :: "goval \<Rightarrow> marshal_error + bytes" where
  "marshal_value v = append_value 0 v"

definition result_size :: "goval \<Rightarrow> marshal_error + nat" where
  "result_size v = (case marshal_value v of Inl e \<Rightarrow> Inl e | Inr raw \<Rightarrow> Inr (length raw))"

section \<open>Strings round trip\<close>

lemma byte_split: "byte_val c div 16 < 16" "byte_val c mod 16 < 16"
  using byte_val_less [of c] by (auto simp: less_mult_imp_div_less)

lemma hex4_control:
  assumes "c < CHR 0x20"
  shows "hex4 [CHR ''0'', CHR ''0'', hex_digit (byte_val c div 16), hex_digit (byte_val c mod 16)]
    = Some (byte_val c)"
proof -
  have "hex_val (CHR ''0'') = Some 0" by (simp add: hex_val_def)
  then show ?thesis using byte_split [of c] by (simp add: hex4_def)
qed

lemma encode_rune_byte: "ascii c \<Longrightarrow> encode_rune (byte_val c) = [c]"
  by (simp add: encode_rune_def ascii_def)

lemma control_ascii: "c < CHR 0x20 \<Longrightarrow> ascii c"
  by (simp add: byte_less_iff ascii_def)

lemma byte_val_0_iff: "byte_val c = 0 \<longleftrightarrow> c = CHR 0x00"
  using byte_val_inject [of c "CHR 0x00"] by simp

lemma esc_text_escape_byte:
  assumes "c \<noteq> CHR 0x00" "c = CHR 0x22 \<or> c = CHR 0x5C \<or> c < CHR 0x20"
  shows "esc_text (escape_byte c) (byte_val c) \<and> encode_rune (byte_val c) = [c]"
proof -
  have asc: "ascii c" using assms(2) control_ascii [of c] by (auto simp: ascii_def)
  consider (named) "c = CHR 0x22 \<or> c = CHR 0x5C \<or> c = CHR 0x0A \<or> c = CHR 0x0D \<or> c = CHR 0x09"
    | (ctl) "c < CHR 0x20" "c \<noteq> CHR 0x22" "c \<noteq> CHR 0x5C" "c \<noteq> CHR 0x0A" "c \<noteq> CHR 0x0D" "c \<noteq> CHR 0x09"
    using assms(2) by blast
  then have "esc_text (escape_byte c) (byte_val c)"
  proof cases
    case named
    then show ?thesis
      by (elim disjE) (auto simp: escape_byte_def simple_escapes_def intro!: esc_simple)
  next
    case ctl
    have "\<not> is_surrogate (byte_val c)"
      unfolding is_surrogate_def using byte_val_less [of c] by linarith
    then show ?thesis
      using ctl esc_unit [OF _ hex4_control [OF ctl(1)]] assms(1) byte_val_0_iff [of c]
      by (simp add: escape_byte_def)
  qed
  then show ?thesis using encode_rune_byte [OF asc] by simp
qed

definition no_nul :: "bytes \<Rightarrow> bool" where
  "no_nul s \<longleftrightarrow> CHR 0x00 \<notin> set s"

lemma str_body_escape: "no_nul s \<Longrightarrow> str_body (concat (map escape_byte s)) s"
proof (induction s)
  case Nil
  then show ?case by (simp add: str_end)
next
  case (Cons c s)
  have IH: "str_body (concat (map escape_byte s)) s" using Cons by (simp add: no_nul_def)
  show ?case
  proof (cases "c = CHR 0x22 \<or> c = CHR 0x5C \<or> c < CHR 0x20")
    case True
    have "c \<noteq> CHR 0x00" using Cons.prems by (auto simp: no_nul_def)
    then show ?thesis using str_esc [OF _ IH] esc_text_escape_byte [of c] True by fastforce
  next
    case False
    then have "escape_byte c = [c]" by (simp add: escape_byte_def)
    then show ?thesis using str_plain [OF _ _ _ IH, of c] False by simp
  qed
qed

lemma vtext_string: "no_nul s \<Longrightarrow> vtext d (append_json_string s)"
  unfolding append_json_string_def by (intro v_string [OF str_body_escape])

lemma escape_byte_ascii: "ascii c \<Longrightarrow> list_all ascii (escape_byte c)"
proof -
  assume "ascii c"
  moreover have "ascii (hex_digit n)" if "n < 16" for n
  proof -
    have "\<forall>k \<in> set [0..<16]. byte_val (hex_digit k) < 128"
      by (simp add: hex_digit_def upt_rec)
    with that show ?thesis by (simp add: ascii_def)
  qed
  ultimately show ?thesis
    using byte_split [of c] by (simp add: escape_byte_def ascii_def)
qed

lemma escape_byte_id: "\<not> ascii c \<Longrightarrow> escape_byte c = [c]"
  using control_ascii [of c] by (auto simp: escape_byte_def ascii_def)

lemma utf8_valid_string: "utf8_valid s \<Longrightarrow> utf8_valid (append_json_string s)"
  using utf8_valid_concat_map [of escape_byte s, OF escape_byte_ascii escape_byte_id]
  by (simp add: append_json_string_def utf8_valid_append ascii_def)

text \<open>
  A NUL byte is written as an escape the scanner refuses, so it is the one byte that does not
  survive the trip.
\<close>

lemma escape_nul: "escape (escape_byte (CHR 0x00) @ t) = None"
  by (simp add: escape_byte_def escape_def hex4_def hex_val_def hex_digit_def)

lemma string_loop_escape_nul:
  "CHR 0x00 \<in> set s \<Longrightarrow> string_loop out (concat (map escape_byte s) @ t) = None"
proof (induction s arbitrary: out)
  case (Cons c s)
  show ?case
  proof (cases "c = CHR 0x00")
    case True
    have "hd (escape_byte (CHR 0x00)) = CHR 0x5C" "escape_byte (CHR 0x00) \<noteq> []"
      by (simp_all add: escape_byte_def)
    then obtain e where e: "escape_byte (CHR 0x00) = CHR 0x5C # e"
      by (cases "escape_byte (CHR 0x00)") auto
    with True escape_nul [of "concat (map escape_byte s) @ t"] show ?thesis
      by (simp add: string_loop.simps)
  next
    case False
    then have IH: "string_loop out (concat (map escape_byte s) @ t) = None" for out
      using Cons by simp
    show ?thesis
    proof (cases "c = CHR 0x22 \<or> c = CHR 0x5C \<or> c < CHR 0x20")
      case True
      have e: "esc_text (escape_byte c) (byte_val c)" using esc_text_escape_byte [OF False True] by simp
      obtain x where "escape_byte c = CHR 0x5C # x" using esc_text_hd [OF e] by blast
      with escape_complete [OF e] IH show ?thesis by (simp add: string_loop.simps)
    next
      case False
      then have "escape_byte c = [c]" by (simp add: escape_byte_def)
      with False IH show ?thesis
        by (simp add: string_loop.simps [of out "c # concat (map escape_byte s) @ t"])
    qed
  qed
qed simp

lemma decode_append_json_string:
  "decode_json_string (append_json_string s) = (if no_nul s then Some s else None)"
proof (cases "no_nul s")
  case True
  then show ?thesis
    using scan_string_complete [OF str_body_escape [OF True], of "[]"]
    by (simp add: decode_json_string_def append_json_string_def)
next
  case False
  then show ?thesis
    using string_loop_escape_nul [of s "[]" "[CHR 0x22]"]
    by (simp add: decode_json_string_def append_json_string_def scan_string_def no_nul_def)
qed

section \<open>Floats are number tokens of the domain\<close>

lemma pow10_overflow: "n < 10 ^ 40 * 10 ^ k \<Longrightarrow> n < (2 ^ 1024 - 2 ^ 970) * (10 ^ k :: nat)"
proof -
  assume n: "n < 10 ^ 40 * 10 ^ k"
  have "(10::nat) ^ 40 \<le> 2 ^ 1024 - 2 ^ 970" by simp
  then have "10 ^ 40 * 10 ^ k \<le> (2 ^ 1024 - 2 ^ 970) * (10 ^ k :: nat)" by (rule mult_right_mono) simp
  with n show ?thesis by (rule less_le_trans)
qed

text \<open>A token with digits after the point, the last of them not zero, is in the domain.\<close>

lemma domain_spec_fraction:
  assumes ds: "list_all is_digit ds" "ds \<noteq> []" "last ds \<noteq> CHR ''0''"
    and e: "e < 0" "int (length ds) \<le> 40 - e"
  shows "domain_spec (digits_value ds) e"
proof -
  define k where "k = nat (- e)"
  have k: "e = - int k" "0 < k" using e by (simp_all add: k_def)
  have "digits_value ds < 10 ^ length ds" using ds(1) by (rule digits_value_less)
  also have "(10::nat) ^ length ds \<le> 10 ^ (40 + k)" using e(2) k by (intro power_increasing) auto
  finally have "digits_value ds < 10 ^ 40 * 10 ^ k" by (simp add: power_add)
  then have ov: "\<not> float64_overflows (digits_value ds) e"
    using pow10_overflow [of "digits_value ds" k] k
    unfolding float64_overflows_def by (simp only: linorder_not_le) simp
  have "\<not> 10 dvd digits_value ds" using last_digit_not_dvd ds by blast
  moreover have "(10::nat) dvd 10 ^ k" using k(2) by simp
  ultimately have "\<not> 10 ^ k dvd digits_value ds" using dvd_trans by blast
  then have "\<not> integral (digits_value ds) e" using k by (simp add: integral_def)
  with ov show ?thesis by (simp add: domain_spec_def)
qed

lemma number_domain_pieces:
  assumes "sg = [] \<or> sg = ''-''" "int_text i" "list_all is_digit fs"
    "fr = [] \<and> fs = [] \<or> fr = CHR ''.'' # fs \<and> fs \<noteq> []" "exp_text ex"
    and e: "(ex = [] \<and> e = 0) \<or> (ex \<noteq> [] \<and> atoi (tl ex) = Some e)"
    and b: "\<bar>e\<bar> \<le> 1000" "length i \<le> 1000" "length fs \<le> 1000"
    and d: "domain_spec (digits_value (i @ fs)) (e - int (length fs))"
  shows "number_text (sg @ i @ fr @ ex) \<and> number_domain (sg @ i @ fr @ ex)"
proof -
  have fr: "fr = [] \<and> fs = [] \<or> fr = CHR ''.'' # fs" "frac_text fr"
    using assms(3,4) by (auto simp: frac_text_def)
  have n: "number_text (sg @ i @ fr @ ex)"
    unfolding number_text_def using assms(1,2,5) fr(2) by blast
  have sp: "split_number (sg @ i @ fr @ ex) = Some (i, fs, e)"
    using split_number_pieces [OF assms(1-3) fr(1) assms(5)] e by auto
  have "int_range (e - int (length fs))" "int_range (e - int (length fs) + int (length (i @ fs)) + 20)"
    using b by (auto simp: int_range_def)
  from number_domain_iff [OF n sp this] d n show ?thesis by simp
qed

lemma fmt_f_pieces:
  assumes ok: "float_ok ds dp" and small: "float_integral ds dp \<longrightarrow> float_magnitude ds dp \<le> max_safe"
    and neg: "sg = [] \<or> sg = ''-''"
  shows "number_text (sg @ fmt_f ds dp) \<and> number_domain (sg @ fmt_f ds dp)"
proof (cases "int (length ds) \<le> dp")
  case True
  define w where "w = (if 0 < dp then take (nat dp) ds @ replicate (nat dp - length ds) (CHR ''0'') else ''0'')"
  have f: "fmt_f ds dp = w" using True by (simp add: fmt_f_def w_def Let_def)
  have w: "w = (if 0 < dp then ds @ replicate (nat dp - length ds) (CHR ''0'') else ''0'')"
    using True by (simp add: w_def)
  have ne: "0 < dp \<longleftrightarrow> ds \<noteq> []" using ok True by (cases ds) (auto simp: float_ok_def)
  have it: "int_text w"
    using ok ne by (auto simp: w int_text_def float_ok_def list_all_iff)
  have "digits_value w = float_magnitude ds dp"
    using True ok ne by (auto simp: w digits_value_append float_magnitude_def digits_value_Cons
        nat_diff_distrib float_ok_def)
  then have "digits_value w \<le> max_safe" using small True by (simp add: float_integral_def)
  then have "domain_spec (digits_value (w @ [])) (0 - int (length []))"
    using domain_spec_nat by simp
  moreover have "length w \<le> 1000" using ok by (auto simp: w float_ok_def)
  ultimately show ?thesis
    using number_domain_pieces [OF neg it, of "[]" "[]" "[]" 0] by (simp add: f exp_text_def)
next
  case False
  define i where "i = (if 0 < dp then take (nat dp) ds else ''0'')"
  define fs where "fs = (if dp < 0 then replicate (nat (- dp)) (CHR ''0'') @ ds else drop (nat dp) ds)"
  have ds: "ds \<noteq> []" "list_all is_digit ds" "hd ds \<noteq> CHR ''0''" "last ds \<noteq> CHR ''0''"
    "length ds \<le> 17" "\<bar>dp\<bar> \<le> 400"
    using ok False by (auto simp: float_ok_def)
  have f: "fmt_f ds dp = i @ CHR ''.'' # fs" using False by (simp add: fmt_f_def i_def fs_def Let_def)
  have fsne: "fs \<noteq> []" "last fs = last ds" using False ds(1) by (auto simp: fs_def)
  have dig: "list_all is_digit i" "list_all is_digit fs"
    using ds(2) by (auto simp: i_def fs_def list_all_iff dest: in_set_takeD in_set_dropD)
  have it: "int_text i"
    using ds dig(1) by (cases ds) (auto simp: i_def int_text_def gr0_conv_Suc take_Cons')
  have il: "length i \<le> 17" using ds(5) by (auto simp: i_def)
  have fl: "length fs \<le> 417" using ds(5,6) by (auto simp: fs_def)
  have "domain_spec (digits_value (i @ fs)) (0 - int (length fs))"
    using dig fsne ds(4) il by (intro domain_spec_fraction) (auto simp: last_append)
  then show ?thesis
    using number_domain_pieces [OF neg it dig(2), of "CHR ''.'' # fs" "[]" 0] fsne il fl
    by (simp add: f exp_text_def)
qed

lemma atoi_neg: "a < 1000 \<Longrightarrow> atoi (CHR ''-'' # itoa_nat a) = Some (- int a)"
  using itoa_nat_digits [of a] by (simp add: atoi_def Let_def int_range_def)

lemma trim_exponent_shape:
  assumes "e < 0" "\<bar>e\<bar> < 1000"
  shows "trim_exponent (m @ CHR ''e'' # fmt_exp e) = m @ CHR ''e'' # CHR ''-'' # itoa_nat (nat \<bar>e\<bar>)"
proof (cases "nat \<bar>e\<bar> < 10")
  case True
  then have i: "itoa_nat (nat \<bar>e\<bar>) = [digit_char (nat \<bar>e\<bar>)]" by (simp add: itoa_nat.simps)
  then have "fmt_exp e = [CHR ''-'', CHR ''0'', digit_char (nat \<bar>e\<bar>)]"
    using True assms by (simp add: fmt_exp_def Let_def)
  then show ?thesis using i by (simp add: trim_exponent_def nth_append)
next
  case False
  define t where "t = itoa_nat (nat \<bar>e\<bar>)"
  have "10 ^ 1 \<le> nat \<bar>e\<bar>" using False by simp
  then have l: "1 < length t" unfolding t_def by (rule itoa_nat_length_ge)
  have u: "length t \<le> 3" unfolding t_def using assms by (intro itoa_nat_length_le) auto
  have h: "hd t \<noteq> CHR ''0''" unfolding t_def using False by (intro itoa_nat_hd) simp
  have f: "fmt_exp e = CHR ''-'' # t" using False assms by (simp add: fmt_exp_def t_def Let_def)
  consider a b where "t = [a, b]" "a \<noteq> CHR ''0''" | a b c where "t = [a, b, c]"
    using l u h by (cases t; cases "tl t"; cases "tl (tl t)") auto
  then have "trim_exponent (m @ CHR ''e'' # fmt_exp e) = m @ CHR ''e'' # fmt_exp e"
    by cases (simp_all add: f trim_exponent_def nth_append)
  with f show ?thesis by (simp add: t_def)
qed

lemma fmt_e_pieces:
  assumes ok: "float_ok ds dp" and e: "ds \<noteq> []" "dp \<le> -6" and neg: "sg = [] \<or> sg = ''-''"
  shows "number_text (trim_exponent (sg @ fmt_e ds dp)) \<and> number_domain (trim_exponent (sg @ fmt_e ds dp))"
proof -
  obtain c cs where ds: "ds = c # cs" using e(1) by (cases ds) auto
  have ok': "list_all is_digit ds" "hd ds \<noteq> CHR ''0''" "last ds \<noteq> CHR ''0''" "length ds \<le> 17" "\<bar>dp\<bar> \<le> 400"
    using ok e(1) by (auto simp: float_ok_def)
  define fr where "fr = (if 1 < length ds then CHR ''.'' # cs else [])"
  define ex where "ex = CHR ''e'' # CHR ''-'' # itoa_nat (nat \<bar>dp - 1\<bar>)"
  have "trim_exponent ((sg @ [c] @ fr) @ CHR ''e'' # fmt_exp (dp - 1)) = (sg @ [c] @ fr) @ ex"
    unfolding ex_def by (rule trim_exponent_shape) (use e ok' in auto)
  then have t: "trim_exponent (sg @ fmt_e ds dp) = sg @ [c] @ fr @ ex"
    using ds by (auto simp: fmt_e_def fr_def)
  have it: "int_text [c]" using ok' ds by (simp add: int_text_def)
  have fr: "fr = [] \<and> cs = [] \<or> fr = CHR ''.'' # cs \<and> cs \<noteq> []" using ds by (auto simp: fr_def)
  have ext: "exp_text ex"
    using itoa_nat_digits [of "nat \<bar>dp - 1\<bar>"] unfolding exp_text_def ex_def
    by (intro disjI2 exI [of _ "CHR ''e''"] exI [of _ "''-''"] exI [of _ "itoa_nat (nat \<bar>dp - 1\<bar>)"]) simp
  have at: "atoi (tl ex) = Some (dp - 1)"
    using atoi_neg [of "nat \<bar>dp - 1\<bar>"] e(2) ok'(5) by (simp add: ex_def)
  have "domain_spec (digits_value ds) (dp - 1 - int (length cs))"
    using ok' e ds by (intro domain_spec_fraction) auto
  then show ?thesis
    unfolding t using number_domain_pieces [OF neg it _ fr ext, of "dp - 1"] at ok' ds ex_def by auto
qed

lemma append_float_number:
  assumes "append_float (FFin neg ds dp) = Inr t" "float_ok ds dp"
  shows "number_text t \<and> number_domain t"
proof -
  define sg where "sg = (if neg then ''-'' else '''')"
  have sg: "sg = [] \<or> sg = ''-''" by (simp add: sg_def)
  have small: "float_integral ds dp \<longrightarrow> float_magnitude ds dp \<le> max_safe"
    using assms(1) by (auto simp: append_float_def split: if_splits)
  have "\<not> 22 \<le> dp" if ne: "ds \<noteq> []"
  proof
    assume dp: "22 \<le> dp"
    have l: "length ds \<le> 17" "float_integral ds dp" using assms(2) dp by (auto simp: float_ok_def float_integral_def)
    have "(1::nat) * 10 ^ 5 \<le> digits_value ds * 10 ^ nat (dp - int (length ds))"
    proof (rule mult_mono)
      have "10 ^ (length ds - 1) \<le> digits_value ds"
        using assms(2) ne by (intro digits_value_ge) (auto simp: float_ok_def)
      then show "1 \<le> digits_value ds" using one_le_power [of "10::nat" "length ds - 1"] by linarith
      show "(10::nat) ^ 5 \<le> 10 ^ nat (dp - int (length ds))" using l dp by (intro power_increasing) auto
    qed simp_all
    have "10 ^ (length ds - 1) * 10 ^ nat (dp - int (length ds)) \<le> float_magnitude ds dp"
      unfolding float_magnitude_def using assms(2) ne
      by (intro mult_right_mono digits_value_ge) (auto simp: float_ok_def)
    moreover have "(10::nat) ^ 21 \<le> 10 ^ (length ds - 1 + nat (dp - int (length ds)))"
      using dp ne l by (intro power_increasing) (auto simp: Suc_le_eq)
    ultimately have "10 ^ 21 \<le> float_magnitude ds dp" by (simp add: power_add)
    with small l(2) show False by (simp add: max_safe_def)
  qed
  then show ?thesis
    using assms fmt_f_pieces [OF assms(2) small sg] fmt_e_pieces [OF assms(2) _ _ sg]
    by (auto simp: append_float_def sg_def [symmetric] Let_def split: if_splits)
qed

section \<open>Whole values\<close>

text \<open>
  \<open>writable e v\<close>: what a value must satisfy for its text to be a strict value at nesting
  depth \<open>e\<close>. It asks of the strings that they are UTF-8 without a NUL byte, of raw JSON
  that it is in the domain already, and of the containers that they fit under the limit.
\<close>

lemma size_snd_less: "kv \<in> set m \<Longrightarrow> size (snd kv) < Suc (size_list (size_prod (\<lambda>_. 0) size) m)"
  by (induction m) (auto split: prod.splits)

fun writable :: "nat \<Rightarrow> goval \<Rightarrow> bool" where
  "writable e (GRaw x) = (x = [] \<or> (vtext e x \<and> utf8_valid x))"
| "writable e (GString s) = (no_nul s \<and> utf8_valid s)"
| "writable e (GFloat f) = (case f of FFin neg ds dp \<Rightarrow> float_ok ds dp | _ \<Rightarrow> True)"
| "writable e (GMap m) =
     (e < max_scan_depth \<and> distinct (map fst m) \<and>
      (\<forall>kv \<in> set m. no_nul (fst kv) \<and> utf8_valid (fst kv) \<and> writable (Suc e) (snd kv)))"
| "writable e (GSlice s) = (e < max_scan_depth \<and> (\<forall>v \<in> set s. writable (Suc e) v))"
| "writable e (GMarshaler r) = (case r of Some x \<Rightarrow> vtext e x \<and> utf8_valid x | None \<Rightarrow> True)"
| "writable e v = True"

lemma number_text_ascii: "number_text n \<Longrightarrow> list_all ascii n"
proof -
  assume "number_text n"
  then obtain sg i fr ex fs where d: "n = sg @ i @ fr @ ex" "sg = [] \<or> sg = ''-''" "int_text i"
    "list_all is_digit fs" "fr = [] \<and> fs = [] \<or> fr = CHR ''.'' # fs" "exp_text ex"
    by (rule number_parts)
  have dig: "list_all is_digit ds \<Longrightarrow> list_all ascii ds" for ds
    by (auto simp: list_all_iff is_digit_val ascii_def)
  have "list_all is_digit i" using d(3) by (auto simp: int_text_def)
  moreover have "list_all ascii ex"
    using d(6) dig by (auto simp: exp_text_def ascii_def)
  ultimately show ?thesis
    using d(1,2,5) dig [OF d(4)] dig [of i] by (auto simp: ascii_def)
qed

lemma utf8_number: "number_text n \<Longrightarrow> utf8_valid n"
  by (intro utf8_valid_all_ascii number_text_ascii)

lemma vtext_number_utf8: "number_text n \<and> number_domain n \<Longrightarrow> vtext e n \<and> utf8_valid n"
  by (simp add: v_number utf8_number)

lemma itoa_nat_eq: "itoa_nat n = itoa (int n)"
  by (simp add: itoa_def)

lemma elems_text_cons:
  "vtext d v \<Longrightarrow> elems_text d es \<Longrightarrow> elems_text d (v @ CHR '','' # es)"
  using e_more [of "[]" d v "[]" es] by simp

lemma elems_text_one: "vtext d v \<Longrightarrow> elems_text d v"
  using e_one [of "[]" d v "[]"] by simp

lemma mem_text_plain:
  "no_nul k \<Longrightarrow> vtext d v \<Longrightarrow> mem_text d k (append_json_string k @ CHR '':'' # v)"
  using m_pair [of "[]" "concat (map escape_byte k)" k "[]" "[]" d v "[]"]
  by (simp add: str_body_escape append_json_string_def)

lemma utf8_cons [simp]:
  "utf8_valid (CHR ''{'' # s) = utf8_valid s" "utf8_valid (CHR ''['' # s) = utf8_valid s"
  "utf8_valid (CHR '','' # s) = utf8_valid s" "utf8_valid (CHR '':'' # s) = utf8_valid s"
  "utf8_valid (CHR ''}'' # s) = utf8_valid s" "utf8_valid (CHR '']'' # s) = utf8_valid s"
  by (simp_all add: ascii_def)

lemma append_valid:
  "\<forall>e t. append_value d v = Inr t \<longrightarrow> writable e v \<longrightarrow> vtext e t \<and> utf8_valid t"
  "\<forall>e t. append_members d f ms = Inr t \<longrightarrow>
     (\<forall>kv \<in> set ms. no_nul (fst kv) \<and> utf8_valid (fst kv) \<and> writable e (snd kv)) \<longrightarrow>
     (if ms = [] then t = [] else
        (\<exists>t'. t = (if f then [] else '','') @ t' \<and> mems_text e (map fst ms) t' \<and> utf8_valid t'))"
  "\<forall>e t. append_elems d f vs = Inr t \<longrightarrow> (\<forall>v \<in> set vs. writable e v) \<longrightarrow>
     (if vs = [] then t = [] else
        (\<exists>t'. t = (if f then [] else '','') @ t' \<and> elems_text e t' \<and> utf8_valid t'))"
proof (induction d v and d f ms and d f vs rule: append_value_append_members_append_elems.induct)
  case (1 depth v)
  show ?case
  proof (intro allI impI)
    fix e t
    assume a: "append_value depth v = Inr t" and w: "writable e v"
    have d: "\<not> max_marshal_depth < depth" using a by (auto simp: append_value.simps)
    note eq = append_value.simps [of depth v]
    show "vtext e t \<and> utf8_valid t"
    proof (cases v)
      case GNil
      with a d eq show ?thesis by (auto intro: v_null simp: ascii_def)
    next
      case (GRaw x)
      with a d eq w show ?thesis by (auto intro: v_null simp: ascii_def split: if_splits)
    next
      case (GBool b)
      with a d eq show ?thesis by (cases b) (auto intro: v_true v_false simp: ascii_def)
    next
      case (GString s)
      with a d eq w show ?thesis by (auto intro: vtext_string utf8_valid_string)
    next
      case (GInt i)
      with a d eq have "t = itoa i" "nat \<bar>i\<bar> \<le> max_safe"
        by (auto simp: append_safe_int_def max_safe_def split: if_splits)
      then show ?thesis
        using vtext_number_utf8 number_text_itoa number_domain_itoa by blast
    next
      case (GUint n)
      with a d eq have "t = itoa (int n)" "nat \<bar>int n\<bar> \<le> max_safe"
        by (auto simp: append_safe_uint_def max_safe_def itoa_nat_eq split: if_splits)
      then show ?thesis
        using vtext_number_utf8 number_text_itoa number_domain_itoa by blast
    next
      case (GFloat f)
      with a d eq have af: "append_float f = Inr t" by simp
      then obtain neg ds dp where f: "f = FFin neg ds dp" by (cases f) (auto simp: append_float_def)
      with af w GFloat show ?thesis
        using append_float_number [of neg ds dp t] vtext_number_utf8 by simp
    next
      case (GMap m)
      with a d eq obtain u where u: "append_members depth True (sort_key fst m) = Inr u"
        "t = CHR ''{'' # u @ ''}''"
        by (auto split: sum.splits)
      have w': "e < max_scan_depth" "distinct (map fst m)" "\<forall>kv \<in> set (sort_key fst m).
          no_nul (fst kv) \<and> utf8_valid (fst kv) \<and> writable (Suc e) (snd kv)"
        using w GMap by auto
      have dk: "distinct (map fst (sort_key fst m))"
      proof -
        have "mset (map fst (sort_key fst m)) = mset (map fst m)" by simp
        with w'(2) show ?thesis by (metis mset_eq_imp_distinct_iff)
      qed
      show ?thesis
      proof (cases "sort_key fst m = []")
        case True
        then show ?thesis using u v_object0 [OF w'(1), of "[]"] by (simp add: ascii_def)
      next
        case False
        have "mems_text (Suc e) (map fst (sort_key fst m)) u \<and> utf8_valid u"
          using "1.IH"(1) [OF d GMap, THEN spec, THEN spec, THEN mp, OF u(1), THEN mp, OF w'(3)] False
          by simp
        then show ?thesis using u(2) v_object [OF w'(1) _ dk] by (simp add: utf8_valid_append)
      qed
    next
      case (GSlice s)
      with a d eq obtain u where u: "append_elems depth True s = Inr u" "t = CHR ''['' # u @ '']''"
        by (auto split: sum.splits)
      have w': "e < max_scan_depth" "\<forall>v \<in> set s. writable (Suc e) v" using w GSlice by auto
      show ?thesis
      proof (cases "s = []")
        case True
        then show ?thesis using u v_array0 [OF w'(1), of "[]"] by (simp add: ascii_def)
      next
        case False
        have "elems_text (Suc e) u \<and> utf8_valid u"
          using "1.IH"(2) [OF d GSlice, THEN spec, THEN spec, THEN mp, OF u(1), THEN mp, OF w'(2)] False
          by simp
        then show ?thesis using u(2) v_array [OF w'(1)] by (simp add: utf8_valid_append)
      qed
    next
      case (GMarshaler r)
      with a d eq w show ?thesis by (auto split: option.splits)
    next
      case GUnsupported
      with a d eq show ?thesis by simp
    qed
  qed
next
  case (2 depth f)
  then show ?case by simp
next
  case (3 depth f k v ms)
  show ?case
  proof (intro allI impI)
    fix e t
    assume a: "append_members depth f ((k, v) # ms) = Inr t"
      and w: "\<forall>kv \<in> set ((k, v) # ms). no_nul (fst kv) \<and> utf8_valid (fst kv) \<and> writable e (snd kv)"
    obtain tv u where tv: "append_value (depth + 1) v = Inr tv" "append_members depth False ms = Inr u"
      "t = (if f then [] else '','') @ append_json_string k @ '':'' @ tv @ u"
      using a by (auto split: sum.splits)
    have v: "vtext e tv" "utf8_valid tv" using "3.IH"(1) tv(1) w by auto
    have m: "mem_text e k (append_json_string k @ CHR '':'' # tv)" using w v by (intro mem_text_plain) auto
    have ku: "utf8_valid (append_json_string k)" using w by (intro utf8_valid_string) simp
    have r: "if ms = [] then u = [] else \<exists>t'. u = '','' @ t' \<and> mems_text e (map fst ms) t' \<and> utf8_valid t'"
      using "3.IH"(2) [OF tv(1)] tv(2) w by fastforce
    show "if (k, v) # ms = [] then t = [] else
        \<exists>t'. t = (if f then [] else '','') @ t' \<and> mems_text e (map fst ((k, v) # ms)) t' \<and> utf8_valid t'"
    proof (cases "ms = []")
      case True
      then show ?thesis
        using r tv(3) ms_one [OF m] ku v
        by (intro iffD2 [OF if_not_P] exI [of _ "append_json_string k @ CHR '':'' # tv"])
          (simp_all add: utf8_valid_append)
    next
      case False
      then obtain t' where t': "u = '','' @ t'" "mems_text e (map fst ms) t'" "utf8_valid t'" using r by auto
      then show ?thesis
        using tv(3) ms_more [OF m t'(2)] ku v
        by (intro iffD2 [OF if_not_P] exI [of _ "append_json_string k @ CHR '':'' # tv @ CHR '','' # t'"])
          (simp_all add: utf8_valid_append)
    qed
  qed
next
  case (4 depth f)
  then show ?case by simp
next
  case (5 depth f v vs)
  show ?case
  proof (intro allI impI)
    fix e t
    assume a: "append_elems depth f (v # vs) = Inr t" and w: "\<forall>v \<in> set (v # vs). writable e v"
    obtain tv u where tv: "append_value (depth + 1) v = Inr tv" "append_elems depth False vs = Inr u"
      "t = (if f then [] else '','') @ tv @ u"
      using a by (auto split: sum.splits)
    have v: "vtext e tv" "utf8_valid tv" using "5.IH"(1) tv(1) w by auto
    have r: "if vs = [] then u = [] else \<exists>t'. u = '','' @ t' \<and> elems_text e t' \<and> utf8_valid t'"
      using "5.IH"(2) [OF tv(1)] tv(2) w by fastforce
    show "if v # vs = [] then t = [] else
        \<exists>t'. t = (if f then [] else '','') @ t' \<and> elems_text e t' \<and> utf8_valid t'"
    proof (cases "vs = []")
      case True
      then show ?thesis
        using r tv(3) elems_text_one [OF v(1)] v
        by (intro iffD2 [OF if_not_P] exI [of _ tv]) simp_all
    next
      case False
      then obtain t' where t': "u = '','' @ t'" "elems_text e t'" "utf8_valid t'" using r by auto
      then show ?thesis
        using tv(3) elems_text_cons [OF v(1) t'(2)] v
        by (intro iffD2 [OF if_not_P] exI [of _ "tv @ CHR '','' # t'"]) (simp_all add: utf8_valid_append)
    qed
  qed
qed

lemma marshal_value_valid:
  "marshal_value v = Inr t \<Longrightarrow> writable e v \<Longrightarrow> vtext e t \<and> utf8_valid t"
  unfolding marshal_value_def using append_valid(1) by blast

section \<open>The properties of the writer\<close>

text \<open>C9: a string written by \<open>appendJSONString\<close> is read back by \<open>decodeJSONString\<close> as
  the same bytes, unless it holds a NUL byte: that is written as an escape the reader refuses.\<close>

theorem string_round_trip:
  "decode_json_string (append_json_string s) = (if no_nul s then Some s else None)"
  by (rule decode_append_json_string)

text \<open>C5: what \<open>marshalValue\<close> writes for a value of at most the nesting the scanner admits,
  whose strings are UTF-8 without NUL and whose raw parts are strict, is strict JSON.\<close>

theorem marshalled_value_is_strict:
  assumes "marshal_value v = Inr t" "writable 0 v"
  shows "validate_strict t"
proof -
  have "vtext 0 t \<and> utf8_valid t" using marshal_value_valid [OF assms] .
  moreover have "t = [] @ t @ []" by simp
  ultimately show ?thesis unfolding validate_strict_iff strict_text_def by (metis ws_text_Nil)
qed

theorem marshalled_value_is_strict_witness:
  "marshal_value (GMap [(''b'', GSlice [GBool True]), (''a'', GNil)])
     = Inr ''{\"a\":null,\"b\":[true]}''
   \<and> validate_strict ''{\"a\":null,\"b\":[true]}''"
proof -
  have m: "marshal_value (GMap [(''b'', GSlice [GBool True]), (''a'', GNil)])
     = Inr ''{\"a\":null,\"b\":[true]}''"
    by code_simp
  have "writable 0 (GMap [(''b'', GSlice [GBool True]), (''a'', GNil)])"
    by (simp add: no_nul_def ascii_def max_scan_depth_def)
  from marshalled_value_is_strict [OF m this] m show ?thesis by blast
qed

end
