(* ===== verification/JsonObject.thy ===== *)
theory JsonObject
  imports JsonWrite
begin

text \<open>
  Reading a JSON object the way \<open>pkg/aiiosdk/object.go\<close> and \<open>arrays.go\<close> do: an
  \<open>Object\<close> is its raw bytes, \<open>Raw\<close> returns the raw bytes of one member, and the typed
  readers decode those. A nil slice is \<open>None\<close> where the code tests for nil, and the empty
  list where it only takes the length. \<open>arrayElements\<close> and \<open>ObjectArray\<close> are two
  readers of the same arrays, one built on the strict scanner and one that only counts
  braces; the section on braces shows that they agree on strict JSON. The readers of floating
  point numbers are not modelled here.
\<close>

section \<open>Object\<close>

definition obj_raw :: "bytes \<Rightarrow> bytes \<Rightarrow> bytes option" where
  "obj_raw ob key =
     (if ob = [] then None
      else (case object_members ob of
              None \<Rightarrow> None
            | Some members \<Rightarrow> member_by_key members key))"

definition obj_has :: "bytes \<Rightarrow> bytes \<Rightarrow> bool" where
  "obj_has ob key \<longleftrightarrow> obj_raw ob key \<noteq> None"

definition obj_string :: "bytes \<Rightarrow> bytes \<Rightarrow> bytes option" where
  "obj_string ob key = decode_json_string_opt (obj_raw ob key)"

definition obj_bool :: "bytes \<Rightarrow> bytes \<Rightarrow> bool option" where
  "obj_bool ob key =
     (if obj_raw ob key = Some ''true'' then Some True
      else if obj_raw ob key = Some ''false'' then Some False
      else None)"

definition obj_object :: "bytes \<Rightarrow> bytes \<Rightarrow> bytes" where
  "obj_object ob key =
     (case obj_raw ob key of
        None \<Rightarrow> []
      | Some raw \<Rightarrow> (case raw of [] \<Rightarrow> [] | c # _ \<Rightarrow> if c \<noteq> CHR ''{'' then [] else raw))"

section \<open>Arrays read by the scanner\<close>

function elements_loop :: "bytes list \<Rightarrow> bytes \<Rightarrow> bytes list option" where
  "elements_loop out s =
     (case scan_value 0 (ws s) of
        None \<Rightarrow> None
      | Some s1 \<Rightarrow>
          (let out' = out @ [take (length (ws s) - length s1) (ws s)]
           in case ws s1 of
                [] \<Rightarrow> None
              | c # s2 \<Rightarrow>
                  if c = CHR '','' then elements_loop out' s2
                  else if c = CHR '']'' then Some out'
                  else None))"
  by pat_completeness auto
termination
proof (relation "measure (\<lambda>(out, s). length s)", goal_cases)
  case (2 out s s1 out' c s2)
  then show ?case
    using ws_Cons_shrinks [of s1 c s2] ws_shrinks [of s] scan_shrinks(1) [of 0 "ws s" s1] by simp
qed simp

declare elements_loop.simps [simp del]

definition array_elements :: "bytes \<Rightarrow> bytes list option" where
  "array_elements raw =
     (case ws raw of
        [] \<Rightarrow> None
      | c # s \<Rightarrow>
          if c \<noteq> CHR ''['' then None
          else (case ws s of
                  [] \<Rightarrow> elements_loop [] (ws s)
                | d # t \<Rightarrow> if d = CHR '']'' then Some [] else elements_loop [] (ws s)))"

fun decode_strings :: "bytes list \<Rightarrow> bytes list \<Rightarrow> bytes list option" where
  "decode_strings out [] = Some out"
| "decode_strings out (e # es) =
     (case decode_json_string e of None \<Rightarrow> None | Some s \<Rightarrow> decode_strings (out @ [s]) es)"

definition obj_string_array :: "bytes \<Rightarrow> bytes \<Rightarrow> bytes list option" where
  "obj_string_array ob key =
     (case obj_raw ob key of
        None \<Rightarrow> None
      | Some raw \<Rightarrow>
          (case array_elements raw of None \<Rightarrow> None | Some elems \<Rightarrow> decode_strings [] elems))"

section \<open>Arrays of objects read by counting braces\<close>

text \<open>
  One byte of the inner loop of \<open>ObjectArray\<close>: the brace depth, whether the byte is inside
  a string, and whether the byte before it was a backslash.
\<close>

definition brace_step :: "int \<times> bool \<times> bool \<Rightarrow> char \<Rightarrow> int \<times> bool \<times> bool" where
  "brace_step st c =
     (case st of (depth, in_string, escaped) \<Rightarrow>
        if in_string then
          (if escaped then (depth, in_string, False)
           else if c = CHR 0x5C then (depth, in_string, True)
           else if c = CHR 0x22 then (depth, False, escaped)
           else st)
        else if c = CHR 0x22 then (depth, True, escaped)
        else if c = CHR ''{'' then (depth + 1, in_string, escaped)
        else if c = CHR ''}'' then (depth - 1, in_string, escaped)
        else st)"

fun skip_braces :: "int \<times> bool \<times> bool \<Rightarrow> bytes \<Rightarrow> int \<times> bytes" where
  "skip_braces st [] = (fst st, [])"
| "skip_braces st (c # s) =
     (case brace_step st c of
        (depth, in_string, escaped) \<Rightarrow>
          if depth = 0 \<and> \<not> in_string then (depth, s)
          else skip_braces (depth, in_string, escaped) s)"

lemma skip_braces_shrinks [shrinks]: "length (snd (skip_braces st s)) \<le> length s"
  by (induction st s rule: skip_braces.induct) (auto split: prod.splits intro: le_SucI)

lemma skip_braces_Cons_shrinks: "(d, t) = skip_braces st (c # s) \<Longrightarrow> length t \<le> length s"
  using skip_braces_shrinks by (fastforce split: prod.splits if_splits dest: arg_cong [of _ _ snd])

function object_array_loop :: "bytes list \<Rightarrow> bytes \<Rightarrow> bytes list option" where
  "object_array_loop out s =
     (case ws s of
        [] \<Rightarrow> None
      | c # u \<Rightarrow>
          if c = CHR '']'' then Some out
          else if c \<noteq> CHR ''{'' then None
          else (case skip_braces (0, False, False) (c # u) of
                  (depth, s1) \<Rightarrow>
                    if depth \<noteq> 0 then None
                    else (let out' = out @ [take (length (c # u) - length s1) (c # u)]
                          in case ws s1 of
                               [] \<Rightarrow> object_array_loop out' (ws s1)
                             | d # s2 \<Rightarrow>
                                 if d = CHR '','' then object_array_loop out' s2
                                 else object_array_loop out' (ws s1))))"
  by pat_completeness auto
termination
proof (relation "measure (\<lambda>(out, s). length s)", goal_cases)
qed (auto dest!: ws_Cons_shrinks skip_braces_Cons_shrinks simp del: skip_braces.simps)

declare object_array_loop.simps [simp del]

definition object_array :: "bytes \<Rightarrow> bytes list option" where
  "object_array raw =
     (case ws raw of
        [] \<Rightarrow> None
      | c # s \<Rightarrow> if c \<noteq> CHR ''['' then None else object_array_loop [] s)"

section \<open>What the members of a strict object are\<close>

lemma vtext_shallower:
  "vtext d v \<Longrightarrow> \<forall>d' \<le> d. vtext d' v"
  "mem_text d k m \<Longrightarrow> \<forall>d' \<le> d. mem_text d' k m"
  "mems_text d ks ms \<Longrightarrow> \<forall>d' \<le> d. mems_text d' ks ms"
  "elems_text d es \<Longrightarrow> \<forall>d' \<le> d. elems_text d' es"
proof (induction rule: vtext_mem_text_mems_text_elems_text.inducts)
  case (v_object d ks m)
  then show ?case by (auto intro!: vtext_mem_text_mems_text_elems_text.v_object [of _ ks])
next
  case (v_array d m)
  then show ?case by (auto intro!: vtext_mem_text_mems_text_elems_text.v_array)
next
  case (m_pair w1 b k w2 w3 d v w4)
  then show ?case by (blast intro: vtext_mem_text_mems_text_elems_text.m_pair)
next
  case (ms_one d k m)
  then show ?case by (blast intro: vtext_mem_text_mems_text_elems_text.ms_one)
next
  case (ms_more d k m ks ms)
  then show ?case by (blast intro: vtext_mem_text_mems_text_elems_text.ms_more)
next
  case (e_one w1 d v w2)
  then show ?case by (blast intro: vtext_mem_text_mems_text_elems_text.e_one)
next
  case (e_more w1 d v w2 es)
  then show ?case by (blast intro: vtext_mem_text_mems_text_elems_text.e_more)
qed (blast intro: v_true v_false v_null v_string v_number v_object0 v_array0 le_less_trans)+

lemma is_ws_ascii: "is_ws c \<Longrightarrow> ascii c"
  by (elim is_ws_def [THEN iffD1, elim_format] disjE) (simp_all add: ascii_def)

lemma ws_text_ascii: "ws_text w \<Longrightarrow> list_all ascii w"
  using is_ws_ascii by (simp add: ws_text_def list_all_iff)

lemma utf8_strip_ascii:
  assumes "utf8_valid (w1 @ v @ w2)" "list_all ascii w1" "list_all ascii w2"
  shows "utf8_valid v"
proof -
  have "utf8_valid (v @ w2)"
    using assms(1,2) utf8_valid_append [OF utf8_valid_all_ascii] by blast
  then show ?thesis
    using assms(3) utf8_valid_cut(1) [of v "hd w2" "tl w2"] by (cases w2) auto
qed

lemma members_loop_member:
  assumes "ws_text w1" "str_body b k" "ws_text w2" "ws_text w3" "vtext d v" "ws_text w4" "\<not> is_ws e"
    "stop (e # t)"
  shows "members_loop out ((w1 @ CHR 0x22 # b @ CHR 0x22 # w2 @ CHR '':'' # w3 @ v @ w4) @ e # t) =
    (if e = CHR '','' then members_loop (out @ [(k, v)]) t
     else if e = CHR ''}'' then Some (out @ [(k, v)]) else None)"
proof -
  obtain c u where v: "v = c # u" "\<not> is_ws c" using vtext_hd [OF assms(5)] by blast
  have "vtext 0 v" using vtext_shallower(1) [OF assms(5)] by simp
  then have "scan_value 0 (v @ w4 @ e # t) = Some (w4 @ e # t)"
    using stop_ws [OF assms(6,8)] by (intro scan_complete(1))
  with assms v show ?thesis
    by (subst members_loop.simps) (simp add: scan_string_complete Let_def)
qed

lemma mem_text_utf8:
  assumes "utf8_valid (w1 @ CHR 0x22 # b @ CHR 0x22 # w2 @ CHR '':'' # w3 @ v @ w4)"
    "ws_text w3" "ws_text w4"
  shows "utf8_valid v"
proof -
  have "utf8_valid (w3 @ v @ w4)"
    using utf8_valid_cut(2) [of "w1 @ CHR 0x22 # b @ CHR 0x22 # w2" "CHR '':''" "w3 @ v @ w4"] assms(1)
    by (simp add: ascii_def)
  then show ?thesis using utf8_strip_ascii assms(2,3) ws_text_ascii by blast
qed

definition member_ok :: "nat \<Rightarrow> bool \<Rightarrow> member \<Rightarrow> bool" where
  "member_ok d u kv \<longleftrightarrow> vtext d (snd kv) \<and> (u \<longrightarrow> utf8_valid (snd kv))"

lemma members_loop_grammar:
  "mems_text d ks m \<Longrightarrow>
     \<exists>ms. (\<forall>out t. members_loop out (m @ CHR ''}'' # t) = Some (out @ ms)) \<and> map fst ms = ks
        \<and> (\<forall>kv \<in> set ms. member_ok d (utf8_valid m) kv)"
proof (induction rule: vtext_mem_text_mems_text_elems_text.inducts(3)
    [where ?P1.0 = "\<lambda>_ _. True" and ?P4.0 = "\<lambda>_ _. True" and
      ?P2.0 = "\<lambda>d k m. \<exists>v. (\<forall>out e t. \<not> is_ws e \<longrightarrow> stop (e # t) \<longrightarrow> members_loop out (m @ e # t) =
        (if e = CHR '','' then members_loop (out @ [(k, v)]) t
         else if e = CHR ''}'' then Some (out @ [(k, v)]) else None))
        \<and> member_ok d (utf8_valid m) (k, v)"])
  case (m_pair w1 b k w2 w3 d v w4)
  then show ?case
    using members_loop_member [OF m_pair(1-5,7)] mem_text_utf8 [OF _ m_pair(4,7)]
    by (intro exI [of _ v]) (auto simp: member_ok_def)
next
  case (ms_one d k m)
  then obtain v where "\<forall>out e t. \<not> is_ws e \<longrightarrow> stop (e # t) \<longrightarrow> members_loop out (m @ e # t) =
        (if e = CHR '','' then members_loop (out @ [(k, v)]) t
         else if e = CHR ''}'' then Some (out @ [(k, v)]) else None)" "member_ok d (utf8_valid m) (k, v)"
    by blast
  then show ?case by (intro exI [of _ "[(k, v)]"]) simp
next
  case (ms_more d k m ks ms)
  then obtain v vs where v: "\<forall>out e t. \<not> is_ws e \<longrightarrow> stop (e # t) \<longrightarrow> members_loop out (m @ e # t) =
        (if e = CHR '','' then members_loop (out @ [(k, v)]) t
         else if e = CHR ''}'' then Some (out @ [(k, v)]) else None)" "member_ok d (utf8_valid m) (k, v)"
    and vs: "\<forall>out t. members_loop out (ms @ CHR ''}'' # t) = Some (out @ vs)" "map fst vs = ks"
      "\<forall>kv \<in> set vs. member_ok d (utf8_valid ms) kv"
    by blast
  have "utf8_valid m \<and> utf8_valid ms" if "utf8_valid (m @ CHR '','' # ms)"
    using utf8_valid_cut [OF that] by (simp add: ascii_def)
  with v vs show ?case
    by (intro exI [of _ "(k, v) # vs"]) (auto simp: member_ok_def)
qed simp_all

lemma object_members_grammar:
  assumes "vtext d v" "ws_text w1" "ws_text w2"
  shows "object_members (w1 @ v @ w2) = None \<and> hd v \<noteq> CHR ''{''
    \<or> (\<exists>ms. object_members (w1 @ v @ w2) = Some ms \<and> distinct (map fst ms) \<and> hd v = CHR ''{''
         \<and> (\<forall>kv \<in> set ms. member_ok (Suc d) (utf8_valid v) kv))"
proof (cases "hd v = CHR ''{''")
  case False
  obtain c u where "v = c # u" "\<not> is_ws c" using vtext_hd [OF assms(1)] by blast
  with False assms(2) show ?thesis by (simp add: object_members_def)
next
  case True
  show ?thesis using assms(1)
  proof (cases rule: vtext.cases)
    case (v_number)
    then show ?thesis using True number_text_hd by fastforce
  next
    case (v_object0 w)
    then show ?thesis using assms(2) by (simp add: object_members_def)
  next
    case (v_object ks m)
    obtain ms where ms: "\<forall>out t. members_loop out (m @ CHR ''}'' # t) = Some (out @ ms)" "map fst ms = ks"
      "\<forall>kv \<in> set ms. member_ok (Suc d) (utf8_valid m) kv"
      using members_loop_grammar [OF v_object(3)] by blast
    obtain m' where m': "ws (m @ CHR ''}'' # w2) = CHR 0x22 # m'"
      using mems_text_hd [OF v_object(3)] by blast
    have "members_loop [] (ws (m @ CHR ''}'' # w2)) = Some ms"
      using ms(1) by (simp add: members_loop.simps [of _ "ws _"] members_loop.simps [of _ "m @ _", symmetric])
    moreover have "utf8_valid m" if "utf8_valid v"
      using that v_object(1) utf8_valid_cut(1) [of m "CHR ''}''" "[]"] by (simp add: ascii_def)
    ultimately show ?thesis using v_object assms(2) ms m'
      by (auto simp: object_members_def member_ok_def)
  qed (use True in simp_all)
qed

section \<open>The brace counter steps over a strict value\<close>

text \<open>
  Outside a string, and with a brace open, the brace counter comes out of every strict value
  with the depth it went in with, whatever quotes, escapes and braces the value holds.
\<close>

definition neutral :: "bytes \<Rightarrow> bool" where
  "neutral s \<longleftrightarrow> (\<forall>d t. 0 < d \<longrightarrow> skip_braces (d, False, False) (s @ t) = skip_braces (d, False, False) t)"

lemma neutral_append: "neutral a \<Longrightarrow> neutral b \<Longrightarrow> neutral (a @ b)"
  by (simp add: neutral_def)

lemma neutral_byte:
  "c \<noteq> CHR 0x22 \<Longrightarrow> c \<noteq> CHR ''{'' \<Longrightarrow> c \<noteq> CHR ''}'' \<Longrightarrow> neutral b \<Longrightarrow> neutral (c # b)"
  by (simp add: neutral_def brace_step_def)

lemma neutral_Nil [simp]: "neutral []"
  by (simp add: neutral_def)

lemma neutral_all:
  "list_all (\<lambda>c. c \<noteq> CHR 0x22 \<and> c \<noteq> CHR ''{'' \<and> c \<noteq> CHR ''}'') b \<Longrightarrow> neutral b"
  by (induction b) (auto intro: neutral_byte)

lemma neutral_braces: "neutral m \<Longrightarrow> neutral (CHR ''{'' # m @ ''}'')"
  by (simp add: neutral_def brace_step_def)

lemma skip_object:
  "neutral m \<Longrightarrow> skip_braces (0, False, False) (CHR ''{'' # m @ CHR ''}'' # t) = (0, t)"
  by (simp add: neutral_def brace_step_def)

lemma hex_val_byte: "hex_val c = Some n \<Longrightarrow> c \<noteq> CHR 0x22 \<and> c \<noteq> CHR 0x5C"
  by (auto simp: hex_val_def byte_le_iff)

lemma skip_in_string:
  "list_all (\<lambda>c. c \<noteq> CHR 0x22 \<and> c \<noteq> CHR 0x5C) b \<Longrightarrow>
     skip_braces (d, True, False) (b @ t) = skip_braces (d, True, False) t"
  by (induction b) (auto simp: brace_step_def)

lemma hex4_bytes:
  assumes "length h = 4" "hex4 h = Some u"
  shows "list_all (\<lambda>c. c \<noteq> CHR 0x22 \<and> c \<noteq> CHR 0x5C) h"
proof -
  obtain a b c d where h: "h = [a, b, c, d]"
    using assms(1) by (auto simp: numeral_eq_Suc length_Suc_conv)
  show ?thesis
    using assms(2) hex_val_byte unfolding h hex4_def by (auto split: option.splits)
qed

lemma skip_escape:
  "esc_text e r \<Longrightarrow> skip_braces (d, True, False) (e @ t) = skip_braces (d, True, False) t"
proof (induction rule: esc_text.induct)
  case (esc_simple c r)
  then show ?case by (simp add: brace_step_def)
next
  case (esc_unit h u)
  then show ?case using skip_in_string [OF hex4_bytes, of h] by (simp add: brace_step_def)
next
  case (esc_pair h l hi lo)
  then show ?case
    using skip_in_string [OF hex4_bytes, of h] skip_in_string [OF hex4_bytes, of l]
    by (simp add: brace_step_def)
qed

lemma skip_str_body:
  "str_body b k \<Longrightarrow> skip_braces (d, True, False) (b @ t) = skip_braces (d, True, False) t"
  by (induction rule: str_body.induct) (simp_all add: skip_escape, simp add: brace_step_def)

lemma neutral_string: "str_body b k \<Longrightarrow> neutral (CHR 0x22 # b @ [CHR 0x22])"
  by (simp add: neutral_def brace_step_def skip_str_body)

lemma is_ws_no_brace: "is_ws c \<Longrightarrow> c \<noteq> CHR 0x22 \<and> c \<noteq> CHR ''{'' \<and> c \<noteq> CHR ''}''"
  by (elim is_ws_def [THEN iffD1, elim_format] disjE) simp_all

lemma neutral_ws: "ws_text w \<Longrightarrow> neutral w"
  using is_ws_no_brace by (intro neutral_all) (simp add: ws_text_def list_all_iff)

lemma is_digit_no_brace: "is_digit c \<Longrightarrow> c \<noteq> CHR 0x22 \<and> c \<noteq> CHR ''{'' \<and> c \<noteq> CHR ''}''"
  by (auto simp: is_digit_val)

lemma neutral_digits: "list_all is_digit ds \<Longrightarrow> neutral ds"
  using is_digit_no_brace by (intro neutral_all) (auto simp: list_all_iff)

lemma neutral_number: "number_text n \<Longrightarrow> neutral n"
  unfolding number_text_def int_text_def frac_text_def exp_text_def
  by (elim exE conjE disjE)
    (auto intro!: neutral_append neutral_byte simp: neutral_digits)

lemma vtext_neutral:
  "vtext d v \<Longrightarrow> neutral v"
  "mem_text d k m \<Longrightarrow> neutral m"
  "mems_text d ks ms \<Longrightarrow> neutral ms"
  "elems_text d es \<Longrightarrow> neutral es"
proof (induction rule: vtext_mem_text_mems_text_elems_text.inducts)
  case (m_pair w1 b k w2 w3 d v w4)
  have "neutral ((w1 @ (CHR 0x22 # b @ [CHR 0x22]) @ w2) @ CHR '':'' # w3 @ v @ w4)"
    by (rule neutral_append [OF neutral_append [OF neutral_ws [OF m_pair(1)]
          neutral_append [OF neutral_string [OF m_pair(2)] neutral_ws [OF m_pair(3)]]]],
        rule neutral_byte [OF _ _ _ neutral_append [OF neutral_ws [OF m_pair(4)]
          neutral_append [OF m_pair.IH neutral_ws [OF m_pair(6)]]]]) simp_all
  then show ?case by simp
next
  case (v_number n d)
  then show ?case by (simp add: neutral_number)
qed (auto intro!: neutral_append neutral_byte neutral_braces neutral_string
  simp: neutral_ws intro: neutral_string)

lemma vtext_object_skip:
  assumes "vtext d v" "hd v = CHR ''{''"
  shows "skip_braces (0, False, False) (v @ t) = (0, t)"
  using assms(1)
proof (cases rule: vtext.cases)
  case v_number
  then show ?thesis using assms(2) number_text_hd by fastforce
next
  case (v_object0 w)
  then show ?thesis using skip_object [OF neutral_ws, of w t] by simp
next
  case (v_object ks m)
  then show ?thesis using skip_object [OF vtext_neutral(3), of _ ks m t] by simp
qed (use assms(2) in simp_all)

section \<open>The two array readers agree on strict JSON\<close>

lemma elements_loop_ws [simp]: "elements_loop out (ws s) = elements_loop out s"
  unfolding elements_loop.simps [of out "ws s"] elements_loop.simps [of out s] ws_ws by (rule refl)

lemma elements_loop_element:
  assumes "ws_text w1" "vtext d v" "ws_text w2" "\<not> is_ws e" "stop (e # t)"
  shows "elements_loop out ((w1 @ v @ w2) @ e # t) =
    (if e = CHR '','' then elements_loop (out @ [v]) t
     else if e = CHR '']'' then Some (out @ [v]) else None)"
proof -
  obtain c u where v: "v = c # u" "\<not> is_ws c" using vtext_hd [OF assms(2)] by blast
  have "vtext 0 v" using vtext_shallower(1) [OF assms(2)] by simp
  then have "scan_value 0 (v @ w2 @ e # t) = Some (w2 @ e # t)"
    using stop_ws [OF assms(3,5)] by (intro scan_complete(1))
  with assms v show ?thesis by (subst elements_loop.simps) (simp add: Let_def)
qed

lemma object_array_loop_element:
  assumes "ws_text w1" "vtext d v" "hd v = CHR ''{''" "ws_text w2"
  shows "object_array_loop out ((w1 @ v @ w2) @ CHR '','' # t) = object_array_loop (out @ [v]) t"
    and "object_array_loop out ((w1 @ v @ w2) @ CHR '']'' # t) = Some (out @ [v])"
proof -
  obtain u where v: "v = CHR ''{'' # u" using vtext_hd [OF assms(2)] assms(3) by (cases v) auto
  have skip: "skip_braces (0, False, False) (CHR ''{'' # u @ r) = (0, r)" for r
    using vtext_object_skip [OF assms(2,3), of r] unfolding v by (simp only: append_Cons)
  show "object_array_loop out ((w1 @ v @ w2) @ CHR '','' # t) = object_array_loop (out @ [v]) t"
    using assms(1,4) by (subst object_array_loop.simps) (simp add: v skip Let_def del: skip_braces.simps)
  show "object_array_loop out ((w1 @ v @ w2) @ CHR '']'' # t) = Some (out @ [v])"
    using assms(1,4) by (subst object_array_loop.simps)
      (simp add: v skip Let_def object_array_loop.simps [of _ "CHR '']'' # _"] del: skip_braces.simps)
qed

text \<open>
  \<open>vs\<close> are the elements of an array text: what \<open>arrayElements\<close> returns, and, when every
  one is an object, what \<open>ObjectArray\<close> returns too.
\<close>

definition elements_read :: "nat \<Rightarrow> bytes \<Rightarrow> bytes list \<Rightarrow> bool" where
  "elements_read d m vs \<longleftrightarrow> vs \<noteq> [] \<and> (\<forall>v \<in> set vs. vtext d v)
     \<and> (\<forall>out t. elements_loop out (m @ CHR '']'' # t) = Some (out @ vs))
     \<and> ((\<forall>v \<in> set vs. hd v = CHR ''{'') \<longrightarrow>
          (\<forall>out t. object_array_loop out (m @ CHR '']'' # t) = Some (out @ vs)))"

lemma elements_read_one:
  assumes "ws_text w1" "vtext d v" "ws_text w2"
  shows "elements_read d (w1 @ v @ w2) [v]"
  using elements_loop_element [OF assms, of "CHR '']''"] object_array_loop_element(2) [OF assms(1,2) _ assms(3)]
    assms by (simp add: elements_read_def)

lemma elements_read_more:
  assumes "ws_text w1" "vtext d v" "ws_text w2" "elements_read d es vs"
  shows "elements_read d (w1 @ v @ w2 @ CHR '','' # es) (v # vs)"
  using elements_loop_element [OF assms(1-3), of "CHR '',''"]
    object_array_loop_element(1) [OF assms(1,2) _ assms(3)] assms
  by (simp add: elements_read_def)

lemma elements_grammar: "elems_text d m \<Longrightarrow> \<exists>vs. elements_read d m vs"
proof (induction rule: vtext_mem_text_mems_text_elems_text.inducts(4)
    [where ?P1.0 = "\<lambda>_ _. True" and ?P2.0 = "\<lambda>_ _ _. True" and ?P3.0 = "\<lambda>_ _ _. True"])
  case (e_one w1 d v w2)
  then show ?case using elements_read_one by blast
next
  case (e_more w1 d v w2 es)
  then show ?case using elements_read_more by blast
qed simp_all

lemma array_readers_grammar:
  assumes "vtext d v" "ws_text w1" "hd v = CHR ''[''"
  shows "\<exists>vs. array_elements (w1 @ v @ w2) = Some vs \<and> (\<forall>x \<in> set vs. vtext (Suc d) x)
    \<and> ((\<forall>x \<in> set vs. hd x = CHR ''{'') \<longrightarrow> object_array (w1 @ v @ w2) = Some vs)"
  using assms(1)
proof (cases rule: vtext.cases)
  case v_number
  then show ?thesis using assms(3) number_text_hd by fastforce
next
  case (v_array0 w)
  then show ?thesis using assms(2)
    by (auto simp: array_elements_def object_array_def object_array_loop.simps [of _ "w @ _"])
next
  case (v_array m)
  obtain vs where vs: "elements_read (Suc d) m vs" using elements_grammar [OF v_array(3)] by blast
  obtain c m' where m': "ws (m @ CHR '']'' # w2) = c # m'" "c \<noteq> CHR '']''"
    using elems_text_hd [OF v_array(3)] by blast
  have "elements_loop [] (ws (m @ CHR '']'' # w2)) = Some vs"
    using vs by (simp add: elements_read_def)
  then show ?thesis using v_array(1) assms(2) vs m'
    by (intro exI [of _ vs]) (auto simp: array_elements_def object_array_def elements_read_def)
qed (use assms(3) in simp_all)

section \<open>The properties of the readers\<close>

lemma strict_parts:
  assumes "validate_strict p"
  obtains w1 v w2 where "p = w1 @ v @ w2" "ws_text w1" "vtext 0 v" "ws_text w2" "utf8_valid v"
proof -
  obtain w1 v w2 where "p = w1 @ v @ w2" "ws_text w1" "vtext 0 v" "ws_text w2" "utf8_valid p"
    using assms by (auto simp: validate_strict_iff strict_text_def)
  then show ?thesis using that utf8_strip_ascii ws_text_ascii by blast
qed

lemma strict_of_vtext: "vtext d v \<Longrightarrow> utf8_valid v \<Longrightarrow> validate_strict v"
proof -
  assume "vtext d v" "utf8_valid v"
  moreover have "v = [] @ v @ []" by simp
  ultimately show ?thesis
    unfolding validate_strict_iff strict_text_def using vtext_shallower(1) by (metis le0 ws_text_Nil)
qed

text \<open>the raw bytes \<open>Raw\<close> returns for a member of a strict payload are themselves a strict
  payload (so a nested reader never sees anything the scanner would refuse), and no member name
  occurs twice.\<close>

theorem members_of_a_strict_payload:
  assumes "validate_strict p" "object_members p = Some ms"
  shows "distinct (map fst ms) \<and> (\<forall>key v. obj_raw p key = Some v \<longrightarrow> (key, v) \<in> set ms \<and> validate_strict v)"
proof -
  obtain w1 v w2 where p: "p = w1 @ v @ w2" "ws_text w1" "vtext 0 v" "ws_text w2" "utf8_valid v"
    using strict_parts [OF assms(1)] .
  have d: "distinct (map fst ms)" and m: "\<forall>kv \<in> set ms. member_ok 1 (utf8_valid v) kv"
    using object_members_grammar [OF p(3,2,4)] assms(2) p(1) by auto
  have "(key, x) \<in> set ms \<and> validate_strict x" if "obj_raw p key = Some x" for key x
  proof -
    have "(key, x) \<in> set ms"
      using that assms(2) by (simp add: obj_raw_def member_by_key_map_of map_of_SomeD split: if_splits)
    then show ?thesis using m p(5) strict_of_vtext [of 1 x] by (auto simp: member_ok_def)
  qed
  with d show ?thesis by blast
qed

theorem members_of_a_strict_payload_witness:
  "obj_raw ''{\"a\":{\"b\":[]}}'' ''a'' = Some ''{\"b\":[]}'' \<and> validate_strict ''{\"b\":[]}''"
proof -
  have "validate_strict ''{\"a\":{\"b\":[]}}''"
    "object_members ''{\"a\":{\"b\":[]}}'' = Some [(''a'', ''{\"b\":[]}'')]"
    "obj_raw ''{\"a\":{\"b\":[]}}'' ''a'' = Some ''{\"b\":[]}''" by code_simp+
  with members_of_a_strict_payload [OF this(1,2)] show ?thesis by blast
qed

text \<open>C35: on a strict payload that is an array of objects, \<open>ObjectArray\<close>, which only counts
  braces outside strings, returns exactly the elements the strict scanner finds.\<close>

theorem brace_counting_finds_the_elements:
  assumes "validate_strict p" "array_elements p = Some vs" "\<forall>v \<in> set vs. hd v = CHR ''{''"
  shows "object_array p = Some vs \<and> (\<forall>v \<in> set vs. \<exists>d. vtext d v)"
proof -
  obtain w1 v w2 where p: "p = w1 @ v @ w2" "ws_text w1" "vtext 0 v" "ws_text w2"
    using strict_parts [OF assms(1)] by blast
  obtain c u where c: "v = c # u" "\<not> is_ws c" using vtext_hd [OF p(3)] by blast
  have "hd v = CHR ''[''"
    using assms(2) c p(2) unfolding p(1) by (simp add: array_elements_def split: if_splits)
  from array_readers_grammar [OF p(3,2) this, of w2] assms(2,3) p(1) show ?thesis by auto
qed

theorem brace_counting_finds_the_elements_witness:
  "object_array ''[{}, {\"a\":\"}\"}]'' = Some [''{}'', ''{\"a\":\"}\"}'']"
proof -
  have "validate_strict ''[{}, {\"a\":\"}\"}]''"
    "array_elements ''[{}, {\"a\":\"}\"}]'' = Some [''{}'', ''{\"a\":\"}\"}'']" by code_simp+
  from brace_counting_finds_the_elements [OF this] show ?thesis by simp
qed

end
