(* ===== verification/JsonText.thy ===== *)
theory JsonText
  imports JsonObject
begin

text \<open>
  The texts the components build and take apart, as facts the other theories share: a decoded
  string is UTF-8 without NUL; the members of a validated frame are strict values; an object
  written member by member (\<open>obj_text\<close>) is strict JSON and is read back as exactly those
  members.
\<close>

section \<open>Decoded strings\<close>

lemma hex_val_ascii: "hex_val c = Some n \<Longrightarrow> ascii c"
  by (auto simp: hex_val_def byte_le_iff ascii_def split: if_splits)

lemma hex4_shape:
  assumes "length h = 4" "hex4 h = Some u"
  shows "list_all ascii h" "u < 65536"
proof -
  obtain a b c d where h: "h = [a, b, c, d]"
    using assms(1) by (auto simp: numeral_eq_Suc length_Suc_conv)
  obtain i j k l where v: "hex_val a = Some i" "hex_val b = Some j" "hex_val c = Some k"
    "hex_val d = Some l" "u = ((i * 16 + j) * 16 + k) * 16 + l"
    using assms(2) unfolding h hex4_def by (auto split: option.splits)
  show "list_all ascii h" using v hex_val_ascii by (auto simp: h)
  show "u < 65536" using hex_val_less [OF v(1)] hex_val_less [OF v(2)] hex_val_less [OF v(3)]
      hex_val_less [OF v(4)] v(5) by simp
qed

lemma esc_text_scalar: "esc_text e r \<Longrightarrow> list_all ascii e \<and> r \<noteq> 0 \<and> scalar r"
proof (induction rule: esc_text.induct)
  case (esc_simple c r)
  then show ?case by (auto simp: simple_escapes_def ascii_def scalar_def)
next
  case (esc_unit h u)
  then show ?case using hex4_shape [of h u]
    by (auto simp: scalar_def is_surrogate_def ascii_def [of "CHR 0x5C"] ascii_def [of "CHR ''u''"])
next
  case (esc_pair h l hi lo)
  then show ?case using hex4_shape(1) [of h hi] hex4_shape(1) [of l lo]
    by (auto simp: scalar_def ascii_def [of "CHR 0x5C"] ascii_def [of "CHR ''u''"])
qed

lemma no_nul_append [simp]: "no_nul (a @ b) \<longleftrightarrow> no_nul a \<and> no_nul b"
  by (auto simp: no_nul_def)

lemma encode_rune_no_nul: "r \<noteq> 0 \<Longrightarrow> scalar r \<Longrightarrow> no_nul (encode_rune r)"
proof -
  assume r: "r \<noteq> 0" "scalar r"
  have nul: "CHR 0x00 = byte_of n \<longleftrightarrow> n mod 256 = 0" for n
    using byte_val_0_iff [of "byte_of n"] by auto
  have "(192 + r div 64) mod 256 \<noteq> 0" if "r < 2048" using that by (simp add: less_mult_imp_div_less)
  moreover have "(224 + r div 4096) mod 256 \<noteq> 0" if "r < 65536"
    using that by (simp add: less_mult_imp_div_less)
  moreover have "r div 262144 < 5" using scalar_le [OF r(2)] by (simp add: less_mult_imp_div_less)
  moreover have "(128 + n mod 64) mod 256 \<noteq> 0" for n :: nat
    using mod_less_divisor [of 64 n] by simp
  ultimately show ?thesis using r(1)
    by (simp add: no_nul_def encode_rune_def nul)
qed

lemma str_body_no_nul: "str_body b k \<Longrightarrow> no_nul k"
proof (induction rule: str_body.induct)
  case (str_plain c b k)
  then have "c \<noteq> CHR 0x00" by auto
  with str_plain.IH show ?case by (simp add: no_nul_def)
next
  case (str_esc e r b k)
  then show ?case using esc_text_scalar encode_rune_no_nul by simp
qed (simp add: no_nul_def)

lemma str_body_skip:
  "str_body (p @ t) k \<Longrightarrow> list_all (\<lambda>c. \<not> ascii c) p \<Longrightarrow> \<exists>k'. k = p @ k' \<and> str_body t k'"
proof (induction p arbitrary: k)
  case (Cons c p)
  from Cons.prems(1) show ?case
  proof (cases rule: str_body.cases)
    case (str_plain c' b k0)
    then show ?thesis using Cons by auto
  next
    case (str_esc e r b k0)
    then show ?thesis using Cons.prems(2) esc_text_hd [of e r] by (auto simp: ascii_def)
  qed simp
qed simp

lemma str_body_utf8: "utf8_valid b \<Longrightarrow> str_body b k \<Longrightarrow> utf8_valid k"
proof (induction b arbitrary: k rule: length_induct)
  case (1 b)
  from 1(3) show ?case
  proof (cases rule: str_body.cases)
    case (str_plain c b0 k0)
    show ?thesis
    proof (cases "ascii c")
      case True
      then show ?thesis using 1 str_plain by auto
    next
      case False
      obtain r t where dec: "decode_rune b = Some (r, t)"
        using 1(2) str_plain(1) by (auto simp: utf8_valid_Cons split: option.splits)
      obtain p where p: "b = p @ t" "list_all (\<lambda>c. \<not> ascii c) p"
        using decode_rune_split [OF dec str_plain(1) False] by blast
      obtain k' where k': "k = p @ k'" "str_body t k'" using str_body_skip [of p t k] 1(3) p by auto
      have "decode_rune (p @ k') = Some (r, k')"
        using decode_rune_split [OF dec str_plain(1) False, of k'] p(1) by auto
      moreover have "utf8_valid k'"
        using 1(1) [rule_format, OF _ _ k'(2)] decode_rune_shrinks [OF dec] utf8_valid_decode [OF dec] 1(2)
        by simp
      ultimately show ?thesis using utf8_valid_decode k'(1) by blast
    qed
  next
    case (str_esc e r b0 k0)
    have "utf8_valid b0"
      using 1(2) str_esc(1,3) esc_text_scalar utf8_valid_append utf8_valid_all_ascii by blast
    moreover have "length b0 < length b" using str_esc(1,3) esc_text_hd [of e r] by auto
    ultimately show ?thesis
      using 1(1) str_esc(2,4) utf8_valid_encode_rune by blast
  qed simp
qed

lemma decode_json_string_text:
  assumes "decode_json_string raw = Some s"
  shows "no_nul s \<and> (utf8_valid raw \<longrightarrow> utf8_valid s)"
proof -
  obtain b where b: "raw = CHR 0x22 # b @ [CHR 0x22]" "str_body b s"
    using assms scan_string_sound [of raw] by (auto simp: decode_json_string_def split: option.splits if_splits)
  have "utf8_valid b" if "utf8_valid raw"
    using that b(1) utf8_valid_cut(1) [of b "CHR 0x22" "[]"] by (simp add: ascii_def)
  then show ?thesis using str_body_no_nul str_body_utf8 b(2) by blast
qed

section \<open>The members of a validated frame\<close>

lemma strict_members:
  assumes "validate_strict frame" "object_members frame = Some ms"
  shows "distinct (map fst ms)" "(k, v) \<in> set ms \<Longrightarrow> vtext 1 v \<and> utf8_valid v"
proof -
  obtain w1 u w2 where f: "frame = w1 @ u @ w2" "ws_text w1" "vtext 0 u" "ws_text w2" "utf8_valid frame"
    using assms(1) by (auto simp: validate_strict_iff strict_text_def)
  have "utf8_valid u" using f utf8_strip_ascii ws_text_ascii by blast
  then show "distinct (map fst ms)" "(k, v) \<in> set ms \<Longrightarrow> vtext 1 v \<and> utf8_valid v"
    using object_members_grammar [OF f(3,2,4)] assms(2) f(1) by (auto simp: member_ok_def)
qed

lemma vtext_members:
  assumes "vtext d r" "utf8_valid r" "object_members r = Some ms" "(k, v) \<in> set ms"
  shows "vtext (Suc d) v \<and> utf8_valid v"
  using object_members_grammar [OF assms(1), of "[]" "[]"] assms(2-4) by (auto simp: member_ok_def)

lemma member_by_key_mem: "member_by_key ms k = Some v \<Longrightarrow> (k, v) \<in> set ms"
  by (simp add: member_by_key_map_of map_of_SomeD)

section \<open>Objects written member by member\<close>

definition pair_text :: "member \<Rightarrow> bytes" where
  "pair_text kv = append_json_string (fst kv) @ CHR '':'' # snd kv"

fun pairs_text :: "member list \<Rightarrow> bytes" where
  "pairs_text [] = []"
| "pairs_text [kv] = pair_text kv"
| "pairs_text (kv # kvs) = pair_text kv @ CHR '','' # pairs_text kvs"

definition obj_text :: "member list \<Rightarrow> bytes" where
  "obj_text kvs = CHR ''{'' # pairs_text kvs @ ''}''"

definition plain_members :: "nat \<Rightarrow> member list \<Rightarrow> bool" where
  "plain_members d kvs \<longleftrightarrow> distinct (map fst kvs) \<and>
     list_all (\<lambda>kv. no_nul (fst kv) \<and> utf8_valid (fst kv) \<and> vtext d (snd kv) \<and> utf8_valid (snd kv)) kvs"

lemma plain_members_Nil [simp]: "plain_members d []"
  by (simp add: plain_members_def)

lemma plain_members_Cons [simp]:
  "plain_members d ((k, v) # kvs) \<longleftrightarrow> k \<notin> fst ` set kvs \<and> no_nul k \<and> utf8_valid k
     \<and> vtext d v \<and> utf8_valid v \<and> plain_members d kvs"
  by (auto simp: plain_members_def)

lemma pairs_text_grammar:
  "plain_members d kvs \<Longrightarrow> kvs \<noteq> [] \<Longrightarrow>
     mems_text d (map fst kvs) (pairs_text kvs) \<and> utf8_valid (pairs_text kvs)"
proof (induction kvs rule: pairs_text.induct)
  case (2 kv)
  then show ?case
    by (cases kv) (simp add: pair_text_def ms_one mem_text_plain utf8_valid_append utf8_valid_string)
next
  case (3 kv kv' kvs)
  then show ?case
    by (cases kv) (simp add: pair_text_def ms_more mem_text_plain utf8_valid_append utf8_valid_string
        del: append.simps append_assoc)
qed simp

lemma obj_text_grammar:
  assumes "plain_members (Suc d) kvs" "d < max_scan_depth"
  shows "vtext d (obj_text kvs)" "utf8_valid (obj_text kvs)"
proof -
  have "vtext d (obj_text kvs) \<and> utf8_valid (obj_text kvs)"
  proof (cases "kvs = []")
    case True
    then show ?thesis using v_object0 [OF assms(2), of "[]"] by (simp add: obj_text_def)
  next
    case False
    note g = pairs_text_grammar [OF assms(1) False]
    have "vtext d (obj_text kvs)"
      using v_object [OF assms(2)] g assms(1) unfolding obj_text_def plain_members_def by blast
    then show ?thesis using g by (simp add: obj_text_def utf8_valid_append)
  qed
  then show "vtext d (obj_text kvs)" "utf8_valid (obj_text kvs)" by blast+
qed

lemma members_loop_plain:
  assumes "no_nul k" "vtext d v" "e = CHR '','' \<or> e = CHR ''}''"
  shows "members_loop out (pair_text (k, v) @ e # t) =
    (if e = CHR '','' then members_loop (out @ [(k, v)]) t else Some (out @ [(k, v)]))"
  using members_loop_member [of "[]" "concat (map escape_byte k)" k "[]" "[]" d v "[]" e t out] assms
  by (auto simp: pair_text_def append_json_string_def str_body_escape)

lemma members_loop_pairs:
  "plain_members d kvs \<Longrightarrow> kvs \<noteq> [] \<Longrightarrow> members_loop out (pairs_text kvs @ CHR ''}'' # t) = Some (out @ kvs)"
proof (induction kvs arbitrary: out rule: pairs_text.induct)
  case (2 kv)
  then show ?case by (cases kv) (simp add: members_loop_plain [of _ d])
next
  case (3 kv kv' kvs)
  then show ?case by (cases kv) (simp add: members_loop_plain [of _ d])
qed simp

lemma object_members_obj_text: "plain_members d kvs \<Longrightarrow> object_members (obj_text kvs) = Some kvs"
proof (cases kvs)
  case (Cons kv r)
  assume p: "plain_members d kvs"
  obtain u where "pairs_text kvs = CHR 0x22 # u"
    unfolding Cons by (cases r) (auto simp: pair_text_def append_json_string_def)
  then show ?thesis using members_loop_pairs [OF p, of "[]" "[]"] Cons
    by (simp add: object_members_def obj_text_def)
qed (simp add: object_members_def obj_text_def)

lemma strict_obj_text: "plain_members 1 kvs \<Longrightarrow> validate_strict (obj_text kvs)"
proof -
  assume "plain_members 1 kvs"
  then have "vtext 0 (obj_text kvs)" "utf8_valid (obj_text kvs)"
    using obj_text_grammar [of 0 kvs] by (simp_all add: max_scan_depth_def)
  moreover have "obj_text kvs = [] @ obj_text kvs @ []" by simp
  ultimately show ?thesis unfolding validate_strict_iff strict_text_def by (metis ws_text_Nil)
qed

section \<open>Texts that may be written as JSON strings\<close>

definition json_text_ok :: "bytes \<Rightarrow> bool" where
  "json_text_ok s \<longleftrightarrow> no_nul s \<and> utf8_valid s"

lemma json_text_okD [simp]:
  "json_text_ok s \<Longrightarrow> vtext d (append_json_string s)" "json_text_ok s \<Longrightarrow> utf8_valid (append_json_string s)"
  by (simp_all add: json_text_ok_def vtext_string utf8_valid_string)

lemma json_text_ok_append: "json_text_ok s \<Longrightarrow> json_text_ok t \<Longrightarrow> json_text_ok (s @ t)"
  by (simp add: json_text_ok_def utf8_valid_append)

definition printable :: "bytes \<Rightarrow> bool" where
  "printable s \<longleftrightarrow> list_all (\<lambda>c. 0 < byte_val c \<and> byte_val c < 128) s"

lemma printable_ok: "printable s \<Longrightarrow> json_text_ok s \<and> no_nul s \<and> utf8_valid s"
  unfolding printable_def json_text_ok_def no_nul_def
  by (induction s) (auto simp: ascii_def)


lemma obj_raw_obj_text: "plain_members d kvs \<Longrightarrow> obj_raw (obj_text kvs) key = map_of kvs key"
  using object_members_obj_text [of d kvs]
  by (simp add: obj_raw_def member_by_key_map_of) (simp add: obj_text_def)

lemma vtext_itoa: "nat \<bar>c\<bar> \<le> max_safe \<Longrightarrow> vtext d (itoa c) \<and> utf8_valid (itoa c)"
  by (intro vtext_number_utf8 conjI number_text_itoa number_domain_itoa)

end
