(* ===== verification/PluginRpc.thy ===== *)
theory PluginRpc
  imports JsonText
begin

text \<open>
  The plugin side of the protocol, \<open>pkg/aiiosdk/plugin.go\<close>: a \<open>Plugin\<close> and its
  registration calls, the pieces of a JSON-RPC reply, and \<open>respond\<close>, which turns one
  frame from the host into one reply frame. Go's maps are association lists in the unspecified
  order Go iterates them; a Go panic is \<open>Inl\<close> with its message. A handler is a function
  of its \<open>Call\<close>: what it returns, and the error with the chain its \<open>Unwrap\<close> gives.
  A nil slice (no target, no host session) is \<open>None\<close>.
\<close>

section \<open>Calls, errors and plugins\<close>

record call =
  call_operation :: bytes
  call_target :: "bytes option"
  call_arguments :: bytes
  call_host_work_session :: "bytes option"

text \<open>
  An error value: the two types of \<open>errors.go\<close>, and any other error with what its
  \<open>Unwrap() error\<close> method returns (\<open>None\<close> when it returns nil or there is no such
  method).
\<close>

datatype go_error =
    OperationError bytes bytes bytes
  | DeniedError int bytes bytes bytes
  | OtherError "go_error option"

type_synonym handler = "call \<Rightarrow> goval \<times> go_error option"

record descriptor =
  d_id :: bytes
  d_summary :: bytes
  d_input :: bytes
  d_output :: bytes
  d_effects :: bytes
  d_capabilities :: "bytes list"
  d_max_result_bytes :: int
  d_family :: bytes
  d_keywords :: "bytes list"
  d_examples :: "bytes list"
  d_primary :: bool
  d_context :: bool
  d_operator_confirms :: bool

record plugin =
  p_name :: bytes
  p_handlers :: "(bytes \<times> handler) list"
  p_descriptors :: "(bytes \<times> descriptor) list"
  p_on_event :: bool
  p_dynamic :: "(bytes \<Rightarrow> handler) option"

definition new_plugin :: "bytes \<Rightarrow> plugin" where
  "new_plugin name =
     \<lparr>p_name = name, p_handlers = [], p_descriptors = [], p_on_event = False, p_dynamic = None\<rparr>"

definition handle :: "plugin \<Rightarrow> bytes \<Rightarrow> handler option \<Rightarrow> bytes + plugin" where
  "handle p op fn =
     (case fn of
        None \<Rightarrow> Inl ''aiiosdk: Handle requires an operation name and a handler''
      | Some f \<Rightarrow>
          if op = [] then Inl ''aiiosdk: Handle requires an operation name and a handler''
          else if map_of (p_handlers p) op \<noteq> None
          then Inl (''aiiosdk: duplicate handler for operation '' @ op)
          else Inr (p\<lparr>p_handlers := p_handlers p @ [(op, f)]\<rparr>))"

definition handle_dynamic :: "plugin \<Rightarrow> (bytes \<Rightarrow> handler) option \<Rightarrow> plugin" where
  "handle_dynamic p fn = p\<lparr>p_dynamic := fn\<rparr>"

definition describe :: "plugin \<Rightarrow> bytes \<Rightarrow> descriptor \<Rightarrow> bytes + plugin" where
  "describe p op d =
     (if op = [] then Inl ''aiiosdk: Describe requires an operation name''
      else (let d' = (if d_id d = [] then d\<lparr>d_id := op\<rparr> else d)
            in if d_id d' \<noteq> op
               then Inl (''aiiosdk: descriptor id '' @ d_id d' @ '' does not match operation '' @ op)
               else if map_of (p_descriptors p) op \<noteq> None
               then Inl (''aiiosdk: duplicate descriptor for operation '' @ op)
               else Inr (p\<lparr>p_descriptors := p_descriptors p @ [(op, d')]\<rparr>)))"

section \<open>The pieces of a reply\<close>

definition null_id :: bytes where
  "null_id = ''null''"

definition error_response :: "bytes \<Rightarrow> int \<Rightarrow> bytes \<Rightarrow> bytes \<Rightarrow> bytes" where
  "error_response id_raw code message reason_code =
     ''{\"jsonrpc\":\"2.0\",\"id\":'' @ id_raw @ '',\"error\":{\"code\":'' @ itoa code
     @ '',\"message\":'' @ append_json_string message
     @ (if reason_code \<noteq> []
        then '',\"data\":{\"reasonCode\":'' @ append_json_string reason_code @ ''}'' else [])
     @ ''}}''"

definition result_response :: "bytes \<Rightarrow> bytes \<Rightarrow> bytes" where
  "result_response id_raw result =
     ''{\"jsonrpc\":\"2.0\",\"id\":'' @ id_raw @ '',\"result\":'' @ result @ ''}''"

definition success_result :: "bytes \<Rightarrow> bytes" where
  "success_result operation_result =
     ''{\"status\":\"succeeded\",\"operation_result\":'' @ operation_result @ ''}''"

definition failure_result :: "bytes \<Rightarrow> bytes \<Rightarrow> bytes \<Rightarrow> bytes" where
  "failure_result status reason_code reason =
     ''{\"status\":'' @ append_json_string status
     @ '',\"reason\":'' @ append_json_string (if reason = [] then reason_code else reason)
     @ (if reason_code \<noteq> []
        then '',\"reasonCode\":'' @ append_json_string reason_code
             @ '',\"reason_code\":'' @ append_json_string reason_code
        else [])
     @ ''}''"

text \<open>The handler's error: the first \<open>OperationError\<close> or \<open>Denied\<close> of its chain.\<close>

datatype handler_outcome = NoError | OpFailed bytes bytes bytes | Internal

fun classify_chain :: "go_error \<Rightarrow> handler_outcome" where
  "classify_chain (OperationError status reason_code reason) =
     (if status \<noteq> ''failed'' \<and> status \<noteq> ''denied'' then OpFailed ''failed'' reason_code reason
      else OpFailed status reason_code reason)"
| "classify_chain (DeniedError code message reason_code denied_at) =
     OpFailed ''denied'' reason_code message"
| "classify_chain (OtherError None) = Internal"
| "classify_chain (OtherError (Some e)) = classify_chain e"

definition classify_handler_error :: "go_error option \<Rightarrow> handler_outcome" where
  "classify_handler_error err = (case err of None \<Rightarrow> NoError | Some e \<Rightarrow> classify_chain e)"

section \<open>One request, one reply\<close>

definition max_control_frame_bytes :: nat where
  "max_control_frame_bytes = 2 ^ 20"

abbreviation code_parse :: int where "code_parse \<equiv> - 32700"
abbreviation code_invalid :: int where "code_invalid \<equiv> - 32600"
abbreviation code_method :: int where "code_method \<equiv> - 32601"
abbreviation code_params :: int where "code_params \<equiv> - 32602"
abbreviation code_internal :: int where "code_internal \<equiv> - 32603"

abbreviation msg_handler_failed :: bytes where "msg_handler_failed \<equiv> ''plugin handler failed''"
abbreviation msg_invalid_request :: bytes where "msg_invalid_request \<equiv> ''invalid JSON-RPC 2.0 request''"

text \<open>
  \<open>idRaw[0]\<close> of the code: a raw member of a validated frame is never empty
  (\<open>strict_members\<close> below), so the index does not panic and \<open>hd\<close> is that byte.
\<close>

definition scalar_id :: "bytes \<Rightarrow> bool" where
  "scalar_id raw \<longleftrightarrow>
     hd raw = CHR 0x22 \<or> hd raw = CHR ''-'' \<or> (CHR ''0'' \<le> hd raw \<and> hd raw \<le> CHR ''9'')
     \<or> raw = ''null''"

text \<open>The code of \<open>respond\<close> after the operation's handler has returned.\<close>

definition handler_reply :: "bytes \<Rightarrow> goval \<times> go_error option \<Rightarrow> bytes" where
  "handler_reply id_raw out =
     (case classify_handler_error (snd out) of
        OpFailed status reason_code reason \<Rightarrow>
          result_response id_raw (failure_result status reason_code reason)
      | Internal \<Rightarrow> error_response id_raw code_internal msg_handler_failed ''PLUGIN_HANDLER_FAILED''
      | NoError \<Rightarrow>
          (case marshal_value (fst out) of
             Inl e \<Rightarrow> error_response id_raw code_internal msg_handler_failed ''PLUGIN_HANDLER_FAILED''
           | Inr payload \<Rightarrow> result_response id_raw (success_result payload)))"

definition guarded_reply :: "bytes \<Rightarrow> bytes \<Rightarrow> bytes" where
  "guarded_reply id_raw resp =
     (if max_control_frame_bytes < length resp \<or> \<not> validate_strict resp
      then error_response id_raw code_internal msg_handler_failed ''PLUGIN_HANDLER_FAILED''
      else resp)"

definition find_handler :: "plugin \<Rightarrow> bytes \<Rightarrow> handler option" where
  "find_handler p operation =
     (case map_of (p_handlers p) operation of
        Some fn \<Rightarrow> Some fn
      | None \<Rightarrow> (case p_dynamic p of Some dyn \<Rightarrow> Some (dyn operation) | None \<Rightarrow> None))"

text \<open>From the parameters to the reply: target, arguments, handler, call.\<close>

definition respond_call :: "plugin \<Rightarrow> bytes \<Rightarrow> member list \<Rightarrow> bytes \<Rightarrow> bytes" where
  "respond_call p id_raw params operation =
     (let target_raw = member_by_key params ''target'';
          args_raw = member_by_key params ''arguments''
      in if (case target_raw of None \<Rightarrow> False | Some t \<Rightarrow> hd t \<noteq> CHR ''{'')
         then result_response id_raw
           (failure_result ''denied'' ''OPERATION_TARGET_INVALID'' ''target must be an object'')
         else if (case args_raw of None \<Rightarrow> False | Some a \<Rightarrow> hd a \<noteq> CHR ''{'')
         then result_response id_raw
           (failure_result ''denied'' ''OPERATION_ARGUMENT_INVALID'' ''arguments must be an object'')
         else (case find_handler p operation of
                 None \<Rightarrow> result_response id_raw
                   (failure_result ''failed'' ''OPERATION_NOT_FOUND''
                     (''operation '' @ operation @ '' is not implemented by this plugin''))
               | Some fn \<Rightarrow>
                   guarded_reply id_raw
                     (handler_reply id_raw
                       (fn \<lparr>call_operation = operation,
                            call_target = target_raw,
                            call_arguments = (case args_raw of None \<Rightarrow> ''{}'' | Some a \<Rightarrow> a),
                            call_host_work_session = member_by_key params ''_host_work_session''\<rparr>))))"

text \<open>From the members of the frame to the operation.\<close>

definition respond_request :: "plugin \<Rightarrow> bytes \<Rightarrow> member list \<Rightarrow> bytes" where
  "respond_request p id_raw members =
     (if member_by_key members ''jsonrpc'' \<noteq> Some ''\"2.0\"''
      then error_response id_raw code_invalid msg_invalid_request []
      else (case decode_json_string_opt (member_by_key members ''method'') of
              None \<Rightarrow> error_response id_raw code_invalid msg_invalid_request []
            | Some method \<Rightarrow>
                if method \<noteq> ''invoke.call''
                then error_response id_raw code_method ''method not found'' ''METHOD_NOT_FOUND''
                else (case object_members (case member_by_key members ''params'' of
                                             None \<Rightarrow> ''{}'' | Some r \<Rightarrow> r) of
                        None \<Rightarrow> error_response id_raw code_params ''params must be a JSON object'' []
                      | Some params \<Rightarrow>
                          (case decode_json_string_opt (member_by_key params ''operation'') of
                             None \<Rightarrow> error_response id_raw code_params ''operation (string) required'' []
                           | Some operation \<Rightarrow>
                               if operation = []
                               then error_response id_raw code_params ''operation (string) required'' []
                               else respond_call p id_raw params operation))))"

definition respond :: "plugin \<Rightarrow> bytes \<Rightarrow> bytes" where
  "respond p frame =
     (if \<not> validate_strict frame then error_response null_id code_parse ''JSON parse error'' []
      else (case object_members frame of
              None \<Rightarrow> error_response null_id code_invalid msg_invalid_request []
            | Some members \<Rightarrow>
                (case member_by_key members ''id'' of
                   None \<Rightarrow> respond_request p null_id members
                 | Some id_raw \<Rightarrow>
                     if scalar_id id_raw then respond_request p id_raw members
                     else error_response null_id code_invalid msg_invalid_request [])))"

definition best_effort_id :: "bytes \<Rightarrow> bytes" where
  "best_effort_id frame =
     (if \<not> validate_strict frame then null_id
      else (case object_members frame of
              None \<Rightarrow> null_id
            | Some members \<Rightarrow>
                (case member_by_key members ''id'' of
                   None \<Rightarrow> null_id
                 | Some id_raw \<Rightarrow> if scalar_id id_raw then id_raw else null_id)))"

text \<open>\<open>current\<close> is the package's registered plugin, set once by \<open>Run\<close>.\<close>

definition run_plugin :: "plugin option \<Rightarrow> plugin \<Rightarrow> bytes + plugin option" where
  "run_plugin current p =
     (if current \<noteq> None
      then Inl ''aiiosdk: Run called twice; one guest module carries one plugin''
      else Inr (Some p))"

abbreviation msg_not_registered :: bytes where
  "msg_not_registered \<equiv> ''no plugin registered: call aiiosdk Run from a package init function''"

definition respond_current :: "plugin option \<Rightarrow> bytes \<Rightarrow> bytes" where
  "respond_current current frame =
     (case current of
        None \<Rightarrow> error_response (best_effort_id frame) code_internal msg_not_registered
                 ''PLUGIN_NOT_REGISTERED''
      | Some p \<Rightarrow> respond p frame)"

text \<open>\<open>dispatchEvent\<close>: the calls of \<open>onEvent\<close> it makes.\<close>

definition dispatch_event :: "plugin option \<Rightarrow> bytes \<Rightarrow> bytes \<Rightarrow> (bytes \<times> bytes) list" where
  "dispatch_event current topic payload =
     (case current of
        None \<Rightarrow> []
      | Some p \<Rightarrow> if p_on_event p then [(topic, payload)] else [])"

section \<open>Replies are objects\<close>

lemma error_response_obj:
  "error_response i c m r =
     obj_text [(''jsonrpc'', ''\"2.0\"''), (''id'', i),
       (''error'', obj_text
          ([(''code'', itoa c), (''message'', append_json_string m)]
           @ (if r \<noteq> [] then [(''data'', obj_text [(''reasonCode'', append_json_string r)])] else [])))]"
  by (simp add: error_response_def obj_text_def pair_text_def append_json_string_def escape_byte_def)

lemma result_response_obj:
  "result_response i r = obj_text [(''jsonrpc'', ''\"2.0\"''), (''id'', i), (''result'', r)]"
  by (simp add: result_response_def obj_text_def pair_text_def append_json_string_def escape_byte_def)

lemma success_result_obj:
  "success_result r = obj_text [(''status'', ''\"succeeded\"''), (''operation_result'', r)]"
  by (simp add: success_result_def obj_text_def pair_text_def append_json_string_def escape_byte_def)

lemma failure_result_obj:
  "failure_result s c r =
     obj_text ([(''status'', append_json_string s), (''reason'', append_json_string (if r = [] then c else r))]
       @ (if c \<noteq> [] then [(''reasonCode'', append_json_string c), (''reason_code'', append_json_string c)]
          else []))"
  by (simp add: failure_result_def obj_text_def pair_text_def append_json_string_def escape_byte_def)


section \<open>Every reply is strict JSON and answers the request\<close>

text \<open>
  \<open>answers i r\<close>: the frame \<open>r\<close> is strict JSON, an object whose first members are the
  protocol version and the id \<open>i\<close>, with no other member of those names.
\<close>

definition answers :: "bytes \<Rightarrow> bytes \<Rightarrow> bool" where
  "answers i r \<longleftrightarrow> validate_strict r \<and>
     (\<exists>ms. object_members r = Some ((''jsonrpc'', ''\"2.0\"'') # (''id'', i) # ms)
        \<and> distinct (''jsonrpc'' # ''id'' # map fst ms))"

definition reply_id_ok :: "bytes \<Rightarrow> bool" where
  "reply_id_ok i \<longleftrightarrow> vtext 1 i \<and> utf8_valid i"

lemma version_text [simp]: "vtext d ''\"2.0\"''" "utf8_valid ''\"2.0\"''"
proof -
  have "append_json_string ''2.0'' = ''\"2.0\"''"
    by (simp add: append_json_string_def escape_byte_def)
  then show "vtext d ''\"2.0\"''" "utf8_valid ''\"2.0\"''"
    using json_text_okD(1) [of "''2.0''" d] json_text_okD(2) [of "''2.0''"] printable_ok [of "''2.0''"] by (simp_all add: printable_def)
qed

lemma reply_keys [simp]:
  "no_nul ''jsonrpc''" "utf8_valid ''jsonrpc''" "no_nul ''id''" "utf8_valid ''id''"
  "no_nul ''error''" "utf8_valid ''error''" "no_nul ''result''" "utf8_valid ''result''"
  "no_nul ''code''" "utf8_valid ''code''" "no_nul ''message''" "utf8_valid ''message''"
  "no_nul ''data''" "utf8_valid ''data''" "no_nul ''reasonCode''" "utf8_valid ''reasonCode''"
  "no_nul ''status''" "utf8_valid ''status''" "no_nul ''reason''" "utf8_valid ''reason''"
  "no_nul ''reason_code''" "utf8_valid ''reason_code''"
  "no_nul ''operation_result''" "utf8_valid ''operation_result''"
  using printable_ok by (simp_all add: printable_def)

lemma answers_obj_text:
  assumes "reply_id_ok i" "plain_members 1 kvs" "''jsonrpc'' \<notin> fst ` set kvs" "''id'' \<notin> fst ` set kvs"
  shows "answers i (obj_text ((''jsonrpc'', ''\"2.0\"'') # (''id'', i) # kvs))"
proof -
  have p: "plain_members 1 ((''jsonrpc'', ''\"2.0\"'') # (''id'', i) # kvs)"
    using assms by (simp add: reply_id_ok_def)
  then have "distinct (map fst ((''jsonrpc'', ''\"2.0\"'') # (''id'', i) # kvs))"
    by (simp only: plain_members_def)
  then show ?thesis
    using strict_obj_text [OF p] object_members_obj_text [OF p] by (simp add: answers_def)
qed

lemma answers_error:
  assumes "reply_id_ok i" "nat \<bar>c\<bar> \<le> max_safe" "json_text_ok m" "json_text_ok r"
  shows "answers i (error_response i c m r)"
proof -
  define data where "data = (if r \<noteq> [] then [(''data'', obj_text [(''reasonCode'', append_json_string r)])] else [])"
  define body where "body = [(''code'', itoa c), (''message'', append_json_string m)] @ data"
  have "plain_members 3 [(''reasonCode'', append_json_string r)]"
    using assms(4) by simp
  then have "plain_members 2 data"
    using obj_text_grammar [of 2] by (simp add: data_def max_scan_depth_def numeral_3_eq_3)
  then have "plain_members 2 body"
    using assms(3) vtext_itoa [OF assms(2)] by (auto simp: body_def data_def)
  then have "plain_members 1 [(''error'', obj_text body)]"
    using obj_text_grammar [of 1 body] by (simp add: max_scan_depth_def numeral_2_eq_2)
  from answers_obj_text [OF assms(1) this] show ?thesis
    by (simp add: error_response_obj body_def data_def)
qed

lemma answers_result:
  assumes "reply_id_ok i" "vtext 1 r" "utf8_valid r"
  shows "answers i (result_response i r)"
  using answers_obj_text [OF assms(1), of "[(''result'', r)]"] assms(2,3)
  by (simp add: result_response_obj)

lemma vtext_failure_result:
  assumes "json_text_ok s" "json_text_ok c" "json_text_ok r"
  shows "vtext 1 (failure_result s c r)" "utf8_valid (failure_result s c r)"
proof -
  define kvs where "kvs = [(''status'', append_json_string s),
      (''reason'', append_json_string (if r = [] then c else r))]
       @ (if c \<noteq> [] then [(''reasonCode'', append_json_string c), (''reason_code'', append_json_string c)]
          else [])"
  have "json_text_ok (if r = [] then c else r)" using assms by simp
  then have "plain_members (Suc 1) kvs"
    unfolding kvs_def using assms by (cases "c = []") (simp_all split del: if_split)
  from obj_text_grammar [OF this]
  show "vtext 1 (failure_result s c r)" "utf8_valid (failure_result s c r)"
    by (simp_all add: failure_result_obj kvs_def max_scan_depth_def)
qed

text \<open>
  The two replies that hold what the plugin's handler produced can only pass the guard, so they
  need no assumption on the handler; the rest of the envelope is the code's own text.
\<close>

lemma members_loop_prefix: "members_loop out s = Some ms \<Longrightarrow> \<exists>r. ms = out @ r"
proof (induction out s rule: members_loop.induct)
  case (1 out s)
  note eq = members_loop.simps [of out s] 
  from "1.prems" show ?case
    using "1.IH" unfolding eq
    by (fastforce simp: Let_def split: option.splits list.splits if_splits)
qed

lemma answers_envelope:
  assumes "reply_id_ok i" "validate_strict r"
    "r = CHR ''{'' # pair_text (''jsonrpc'', ''\"2.0\"'') @ CHR '','' # pair_text (''id'', i) @ CHR '','' # t"
  shows "answers i r"
proof -
  have i: "vtext 1 i" using assms(1) by (simp add: reply_id_ok_def)
  obtain w1 u w2 where f: "r = w1 @ u @ w2" "ws_text w1" "vtext 0 u" "ws_text w2" "utf8_valid r"
    using assms(2) by (auto simp: validate_strict_iff strict_text_def)
  have "hd u = CHR ''{''"
    using f(1,2) assms(3) vtext_hd [OF f(3)] by (cases w1) (auto simp: ws_text_def)
  then obtain ms where ms: "object_members r = Some ms" "distinct (map fst ms)"
    using object_members_grammar [OF f(3,2,4)] f(1) by auto
  moreover have "object_members r =
      members_loop [(''jsonrpc'', ''\"2.0\"''), (''id'', i)] t"
    using members_loop_plain [OF _ version_text(1) disjI1 [OF refl], of "''jsonrpc''" "[]"]
      members_loop_plain [OF _ i disjI1 [OF refl], of "''id''"]
    unfolding assms(3) by (simp add: object_members_def pair_text_def append_json_string_def)
  ultimately show ?thesis
    using members_loop_prefix assms(2) by (fastforce simp: answers_def)
qed

lemma result_response_envelope:
  "\<exists>t. result_response i r = CHR ''{'' # pair_text (''jsonrpc'', ''\"2.0\"'') @ CHR '','' # pair_text (''id'', i)
     @ CHR '','' # t"
  by (intro exI [of _ "''\"result\":'' @ r @ ''}''"])
    (simp add: result_response_def pair_text_def append_json_string_def escape_byte_def)

lemma answers_fixed_error:
  "reply_id_ok i \<Longrightarrow> nat \<bar>c\<bar> \<le> max_safe \<Longrightarrow> printable m \<Longrightarrow> printable r \<Longrightarrow>
     answers i (error_response i c m r)"
  by (intro answers_error) (simp_all add: printable_ok)

lemma answers_strict_result:
  "reply_id_ok i \<Longrightarrow> validate_strict (result_response i r) \<Longrightarrow> answers i (result_response i r)"
  using answers_envelope result_response_envelope by blast

lemma answers_guarded:
  assumes "reply_id_ok i"
  shows "answers i (guarded_reply i (handler_reply i out))"
  using answers_strict_result [OF assms] answers_fixed_error [OF assms, of code_internal]
  by (auto simp: guarded_reply_def handler_reply_def max_safe_def printable_def
      split: handler_outcome.splits sum.splits)

lemma reply_id_null [simp]: "reply_id_ok null_id"
  using v_null [of 1] utf8_valid_all_ascii [of "''null''"]
  by (simp add: reply_id_ok_def null_id_def ascii_def)

lemma answers_failure:
  assumes "reply_id_ok i" "json_text_ok s" "json_text_ok c" "json_text_ok r"
  shows "answers i (result_response i (failure_result s c r))"
  using answers_result [OF assms(1) vtext_failure_result [OF assms(2-4)]] .

lemma answers_respond_call:
  assumes "reply_id_ok i" "json_text_ok operation"
  shows "answers i (respond_call p i params operation)"
proof -
  have "json_text_ok (''operation '' @ operation @ '' is not implemented by this plugin'')"
    using assms(2) by (intro json_text_ok_append) (simp_all add: printable_ok printable_def)
  then show ?thesis
    using answers_guarded [OF assms(1)] answers_failure [OF assms(1)]
    by (auto simp: respond_call_def Let_def printable_ok printable_def split: option.splits if_splits)
qed

lemma answers_respond_request:
  assumes i: "reply_id_ok i" and ms: "\<And>k v. member_by_key members k = Some v \<Longrightarrow> vtext 1 v \<and> utf8_valid v"
  shows "answers i (respond_request p i members)"
proof -
  have e: "answers i (error_response i c m r)"
    if "nat \<bar>c\<bar> \<le> max_safe" "printable m" "printable r" for c m r
    using answers_fixed_error [OF i that] .
  have op: "json_text_ok operation"
    if par: "object_members (case member_by_key members ''params'' of None \<Rightarrow> ''{}'' | Some r \<Rightarrow> r) = Some params"
      and d: "decode_json_string_opt (member_by_key params ''operation'') = Some operation" for params operation
  proof -
    obtain raw where raw: "member_by_key params ''operation'' = Some raw" "decode_json_string raw = Some operation"
      using d by (auto simp: decode_json_string_opt_def split: option.splits)
    then obtain r where "member_by_key members ''params'' = Some r" "object_members r = Some params"
      using par by (auto simp: object_members_def split: option.splits)
    then have "utf8_valid raw"
      using ms vtext_members [of 1 r params] member_by_key_mem [OF raw(1)] by blast
    then show ?thesis using decode_json_string_text [OF raw(2)] by (simp add: json_text_ok_def)
  qed
  show ?thesis
    using answers_respond_call [OF i op] e
    by (auto simp: respond_request_def printable_def max_safe_def split: option.splits)
qed

lemma answers_respond: "answers (best_effort_id frame) (respond p frame)"
proof (cases "validate_strict frame")
  case False
  then show ?thesis
    by (simp add: respond_def best_effort_id_def answers_fixed_error max_safe_def printable_def)
next
  case True
  show ?thesis
  proof (cases "object_members frame")
    case None
    then show ?thesis
      by (simp add: True respond_def best_effort_id_def answers_fixed_error max_safe_def printable_def)
  next
    case (Some members)
    have ms: "vtext 1 v \<and> utf8_valid v" if "member_by_key members k = Some v" for k v
      using strict_members(2) [OF True Some member_by_key_mem [OF that]] .
    have e: "answers null_id (error_response null_id code_invalid msg_invalid_request [])"
      by (simp add: answers_fixed_error max_safe_def printable_def)
    have i: "reply_id_ok v" if "member_by_key members ''id'' = Some v" for v
      using ms [OF that] by (simp add: reply_id_ok_def)
    show ?thesis
      using answers_respond_request [OF reply_id_null ms] answers_respond_request [OF i ms] e
      by (auto simp: True Some respond_def best_effort_id_def split: option.splits)
  qed
qed

section \<open>What a well-formed call gets\<close>

text \<open>
  \<open>call_frame\<close> is the frame a host sends for one operation. The plugin hands the handler
  exactly the operation and the raw arguments the frame holds.
\<close>

definition call_frame :: "bytes \<Rightarrow> bytes \<Rightarrow> bytes option \<Rightarrow> bytes \<Rightarrow> bytes" where
  "call_frame i operation target args =
     obj_text [(''jsonrpc'', ''\"2.0\"''), (''id'', i), (''method'', append_json_string ''invoke.call''),
       (''params'', obj_text ((''operation'', append_json_string operation)
          # (case target of None \<Rightarrow> [] | Some t \<Rightarrow> [(''target'', t)]) @ [(''arguments'', args)]))]"

definition object_arg :: "bytes \<Rightarrow> bool" where
  "object_arg a \<longleftrightarrow> vtext 2 a \<and> utf8_valid a \<and> hd a = CHR ''{''"

lemma decode_string_text: "json_text_ok s \<Longrightarrow> decode_json_string (append_json_string s) = Some s"
  by (simp add: decode_append_json_string json_text_ok_def)

lemma call_keys [simp]:
  "no_nul ''method''" "utf8_valid ''method''" "no_nul ''params''" "utf8_valid ''params''"
  "no_nul ''operation''" "utf8_valid ''operation''" "no_nul ''target''" "utf8_valid ''target''"
  "no_nul ''arguments''" "utf8_valid ''arguments''" "json_text_ok ''invoke.call''"
  using printable_ok by (simp_all add: printable_def)

lemma respond_call_frame:
  assumes i: "reply_id_ok i" "scalar_id i" and op: "json_text_ok operation" "operation \<noteq> []"
    and args: "object_arg args" "\<forall>t. target = Some t \<longrightarrow> object_arg t"
    and fn: "find_handler p operation = Some fn"
  shows "respond p (call_frame i operation target args) =
    guarded_reply i (handler_reply i
      (fn \<lparr>call_operation = operation, call_target = target, call_arguments = args,
           call_host_work_session = None\<rparr>))"
proof -
  define ps where "ps = (''operation'', append_json_string operation)
    # (case target of None \<Rightarrow> [] | Some t \<Rightarrow> [(''target'', t)]) @ [(''arguments'', args)]"
  define ms where "ms = [(''jsonrpc'', ''\"2.0\"''), (''id'', i), (''method'', append_json_string ''invoke.call''),
       (''params'', obj_text ps)]"
  have ps: "plain_members 2 ps"
    using op args by (cases target) (simp_all add: ps_def object_arg_def)
  then have "plain_members 1 ms"
    using i obj_text_grammar [of 1 ps]
    by (simp add: ms_def reply_id_ok_def max_scan_depth_def numeral_2_eq_2)
  then have "validate_strict (obj_text ms)" "object_members (obj_text ms) = Some ms"
    using strict_obj_text object_members_obj_text by blast+
  moreover have "object_members (obj_text ps) = Some ps" by (rule object_members_obj_text [OF ps])
  moreover have "member_by_key ps ''operation'' = Some (append_json_string operation)"
    "member_by_key ps ''target'' = target" "member_by_key ps ''arguments'' = Some args"
    "member_by_key ps ''_host_work_session'' = None"
    by (cases target; simp add: ps_def)+
  ultimately have "respond p (obj_text ms) = guarded_reply i (handler_reply i
      (fn \<lparr>call_operation = operation, call_target = target, call_arguments = args,
           call_host_work_session = None\<rparr>))"
    using i op args fn
    by (cases target) (simp_all add: respond_def ms_def respond_request_def decode_json_string_opt_def
      decode_string_text respond_call_def object_arg_def)
  then show ?thesis by (simp add: call_frame_def ms_def ps_def)
qed

lemma success_delivered:
  assumes "reply_id_ok i" "writable 2 v" "marshal_value v = Inr t"
    "length (result_response i (success_result t)) \<le> max_control_frame_bytes"
  shows "guarded_reply i (handler_reply i (v, None)) = result_response i (success_result t)"
    "obj_raw (result_response i (success_result t)) ''result'' = Some (success_result t)"
    "obj_string (success_result t) ''status'' = Some ''succeeded''"
    "obj_raw (success_result t) ''operation_result'' = Some t"
proof -
  have t: "vtext 2 t \<and> utf8_valid t" using marshal_value_valid [OF assms(3,2)] .
  have s: "append_json_string ''succeeded'' = ''\"succeeded\"''" "json_text_ok ''succeeded''"
    using printable_ok by (simp_all add: append_json_string_def escape_byte_def printable_def)
  have ps: "plain_members 2 [(''status'', ''\"succeeded\"''), (''operation_result'', t)]"
    using t json_text_okD [OF s(2)] by (simp add: s(1))
  then have pm: "plain_members 1 [(''jsonrpc'', ''\"2.0\"''), (''id'', i), (''result'', success_result t)]"
    using assms(1) obj_text_grammar [of 1 "[(''status'', ''\"succeeded\"''), (''operation_result'', t)]"]
    by (simp add: success_result_obj reply_id_ok_def max_scan_depth_def numeral_2_eq_2)
  note o = object_members_obj_text [OF ps] object_members_obj_text [OF pm] strict_obj_text [OF pm]
  show "guarded_reply i (handler_reply i (v, None)) = result_response i (success_result t)"
    using assms(3,4) o by (simp add: guarded_reply_def handler_reply_def classify_handler_error_def
        result_response_obj)
  have ne: "obj_text k \<noteq> []" for k by (simp add: obj_text_def)
  show "obj_raw (result_response i (success_result t)) ''result'' = Some (success_result t)"
    "obj_raw (success_result t) ''operation_result'' = Some t"
    using o ne by (simp_all add: obj_raw_def result_response_obj success_result_obj [of t, symmetric])
      (simp add: obj_raw_def success_result_obj)
  show "obj_string (success_result t) ''status'' = Some ''succeeded''"
    using o ne decode_string_text [OF s(2)]
    by (simp add: obj_string_def obj_raw_def success_result_obj decode_json_string_opt_def s(1))
qed

text \<open>The status of a failed operation is one of the two the protocol knows.\<close>

lemma classify_chain_status:
  "classify_chain e = OpFailed st c r \<Longrightarrow> st = ''failed'' \<or> st = ''denied''"
  by (induction e rule: classify_chain.induct) (auto split: if_splits)

section \<open>The properties of a reply\<close>

text \<open>C1: whatever bytes the host sends and whatever the plugin's handlers return, the reply is
  strict JSON, an object that opens with the protocol version and the request's own id (null
  when the request has none the code can echo), neither of them repeated.\<close>

theorem every_reply_answers_its_request:
  "answers (best_effort_id frame) (respond_current current frame)"
proof -
  have "reply_id_ok (best_effort_id frame)"
    unfolding best_effort_id_def reply_id_ok_def
    using reply_id_null
    by (auto simp: reply_id_ok_def dest: strict_members(2) [OF _ _ member_by_key_mem] split: option.splits)
  then show ?thesis
    using answers_respond answers_fixed_error [of _ code_internal msg_not_registered "''PLUGIN_NOT_REGISTERED''"]
    by (auto simp: respond_current_def max_safe_def printable_def split: option.splits)
qed

text \<open>C3: a well-formed call reaches the handler registered for its operation with exactly the
  operation name, the raw target and the raw arguments the frame holds, and a result the JSON
  domain admits comes back byte for byte under \<open>operation_result\<close> with status
  \<open>succeeded\<close>, if the reply fits a control frame.\<close>

theorem a_call_is_delivered_and_its_result_returned:
  assumes "reply_id_ok i" "scalar_id i" "json_text_ok operation" "operation \<noteq> []"
    "object_arg args" "\<forall>t. target = Some t \<longrightarrow> object_arg t" "find_handler p operation = Some fn"
    "fn \<lparr>call_operation = operation, call_target = target, call_arguments = args,
         call_host_work_session = None\<rparr> = (v, None)"
    "marshal_value v = Inr payload" "writable 2 v"
    "length (result_response i (success_result payload)) \<le> max_control_frame_bytes"
  shows "let reply = respond p (call_frame i operation target args);
             result = obj_object reply ''result''
         in obj_raw reply ''id'' = Some i \<and> obj_string result ''status'' = Some ''succeeded''
            \<and> obj_raw result ''operation_result'' = Some payload"
proof -
  have r: "respond p (call_frame i operation target args) = result_response i (success_result payload)"
    using respond_call_frame [OF assms(1-7)] assms(8) success_delivered(1) [OF assms(1,10,9,11)] by simp
  have a: "answers i (result_response i (success_result payload))"
    using answers_guarded [OF assms(1), of "(v, None)"] success_delivered(1) [OF assms(1,10,9,11)] by simp
  have "obj_raw (result_response i (success_result payload)) ''id'' = Some i"
    using a by (auto simp: obj_raw_def answers_def result_response_def)
  then show ?thesis
    using success_delivered [OF assms(1,10,9,11)]
    by (simp add: r obj_object_def) (simp add: success_result_def)
qed

theorem a_call_is_delivered_and_its_result_returned_witness:
  "obj_raw (respond (new_plugin ''x''\<lparr>p_handlers := [(''op'', \<lambda>c. (GRaw (call_arguments c), None))]\<rparr>)
     (call_frame ''\"7\"'' ''op'' None ''{}'')) ''id'' = Some ''\"7\"''"
proof -
  have t: "json_text_ok ''7''" "json_text_ok ''op''" using printable_ok by (simp_all add: printable_def)
  have "append_json_string ''7'' = ''\"7\"''" by (simp add: append_json_string_def escape_byte_def)
  then have "reply_id_ok ''\"7\"''"
    using json_text_okD(1) [OF t(1), of 1] json_text_okD(2) [OF t(1)] by (simp add: reply_id_ok_def)
  moreover have o: "object_arg ''{}''"
    using v_object0 [of 2 "[]"] by (simp add: object_arg_def max_scan_depth_def)
  moreover have "marshal_value (GRaw ''{}'') = Inr ''{}''" by code_simp
  moreover have "writable 2 (GRaw ''{}'')" using o by (simp add: object_arg_def)
  ultimately show ?thesis
    using a_call_is_delivered_and_its_result_returned [OF _ _ t(2), of "''\"7\"''" "''{}''" None
        "new_plugin ''x''\<lparr>p_handlers := [(''op'', \<lambda>c. (GRaw (call_arguments c), None))]\<rparr>"
        "\<lambda>c. (GRaw (call_arguments c), None)" "GRaw ''{}''" "''{}''"]
    by (simp add: scalar_id_def find_handler_def new_plugin_def Let_def result_response_def
        success_result_def max_control_frame_bytes_def)
qed

text \<open>however deeply a handler wraps it, the first \<open>OperationError\<close> or \<open>Denied\<close> of
  an error chain decides the reply, and the status the host sees is \<open>failed\<close> or
  \<open>denied\<close>, never one the handler made up; an error with neither in its chain is an
  internal error.\<close>

theorem error_chains_are_classified:
  "(case classify_handler_error (Some e) of
      NoError \<Rightarrow> False
    | OpFailed st c r \<Rightarrow> st \<in> {''failed'', ''denied''}
    | Internal \<Rightarrow> True)
   \<and> (\<forall>st c r wraps. classify_handler_error
        (Some (((OtherError \<circ> Some) ^^ wraps) (OperationError st c r))) =
          OpFailed (if st = ''denied'' then ''denied'' else ''failed'') c r)
   \<and> (\<forall>code m c at wraps. classify_handler_error
        (Some (((OtherError \<circ> Some) ^^ wraps) (DeniedError code m c at))) = OpFailed ''denied'' c m)
   \<and> (\<forall>wraps. classify_handler_error (Some (((OtherError \<circ> Some) ^^ wraps) (OtherError None))) = Internal)"
proof -
  have wrap: "classify_chain (((OtherError \<circ> Some) ^^ n) e) = classify_chain e" for n e
    by (induction n) simp_all
  have "classify_chain e \<noteq> NoError" by (induction e rule: classify_chain.induct) simp_all
  then show ?thesis
    using classify_chain_status by (auto simp: classify_handler_error_def wrap split: handler_outcome.splits)
qed

end
