(* ===== verification/Frame.thy ===== *)
theory Frame
  imports PluginRpc "HOL-Library.Word"
begin

text \<open>
  Frames on a byte stream, \<open>pkg/aiiosdk/frame.go\<close>, and the request loop of
  \<open>pkg/aiiosdk/serve.go\<close>. An \<open>io.Reader\<close> is the bytes it still has to give before
  end of file; an \<open>io.Writer\<close> is the bytes it was given and, when it fails, after how many
  calls of \<open>Write\<close>. The locale \<open>stream_codec\<close> is the contract of a framing: what one
  side writes the other reads back and no more. The frames here and the audio frames are its
  instances.
\<close>

section \<open>Readers, writers and big-endian integers\<close>

datatype read_error = EndOfFile | UnexpectedEOF

definition read_full :: "nat \<Rightarrow> bytes \<Rightarrow> read_error + bytes \<times> bytes" where
  "read_full n s =
     (if n \<le> length s then Inr (take n s, drop n s)
      else if s = [] then Inl EndOfFile else Inl UnexpectedEOF)"

lemma read_full_append [simp]: "length a = n \<Longrightarrow> read_full n (a @ s) = Inr (a, s)"
  by (simp add: read_full_def)

lemma read_full_short: "length s < n \<Longrightarrow> \<exists>e. read_full n s = Inl e"
  by (simp add: read_full_def)

record writer =
  w_out :: bytes
  w_left :: "nat option"

definition do_write :: "writer \<Rightarrow> bytes \<Rightarrow> bool \<times> writer" where
  "do_write w b =
     (case w_left w of
        None \<Rightarrow> (True, w\<lparr>w_out := w_out w @ b\<rparr>)
      | Some 0 \<Rightarrow> (False, w)
      | Some (Suc n) \<Rightarrow> (True, w\<lparr>w_out := w_out w @ b, w_left := Some n\<rparr>))"

fun be_bytes :: "nat \<Rightarrow> nat \<Rightarrow> bytes" where
  "be_bytes 0 n = []"
| "be_bytes (Suc k) n = be_bytes k (n div 256) @ [byte_of (n mod 256)]"

definition be_value :: "bytes \<Rightarrow> nat" where
  "be_value bs = foldl (\<lambda>v c. v * 256 + byte_val c) 0 bs"

lemma be_value_snoc [simp]: "be_value (bs @ [c]) = be_value bs * 256 + byte_val c"
  by (simp add: be_value_def)

lemma length_be_bytes [simp]: "length (be_bytes k n) = k"
  by (induction k arbitrary: n) simp_all

lemma be_value_bytes: "be_value (be_bytes k n) = n mod 256 ^ k"
proof (induction k arbitrary: n)
  case 0
  then show ?case by (simp add: be_value_def)
next
  case (Suc k)
  have "n div 256 mod 256 ^ k * 256 + n mod 256 = n mod (256 * 256 ^ k)"
    by (simp add: mod_mult2_eq)
  with Suc show ?case by simp
qed

definition put_uint32 :: "32 word \<Rightarrow> bytes" where
  "put_uint32 v = be_bytes 4 (unat v)"

definition get_uint32 :: "bytes \<Rightarrow> 32 word" where
  "get_uint32 b = word_of_nat (be_value b)"

definition put_uint64 :: "64 word \<Rightarrow> bytes" where
  "put_uint64 v = be_bytes 8 (unat v)"

definition get_uint64 :: "bytes \<Rightarrow> 64 word" where
  "get_uint64 b = word_of_nat (be_value b)"

lemma length_put [simp]: "length (put_uint32 v) = 4" "length (put_uint64 u) = 8"
  by (simp_all add: put_uint32_def put_uint64_def)

lemma get_put_uint [simp]: "get_uint32 (put_uint32 v) = v" "get_uint64 (put_uint64 u) = u"
proof -
  have "unat v < 2 ^ 32" "unat u < 2 ^ 64"
    using unsigned_less [of v] unsigned_less [of u] by simp_all
  then show "get_uint32 (put_uint32 v) = v" "get_uint64 (put_uint64 u) = u"
    by (simp_all add: get_uint32_def put_uint32_def get_uint64_def put_uint64_def be_value_bytes)
qed

section \<open>The contract of a framing\<close>

fun read_many :: "(bytes \<Rightarrow> 'e + 'm \<times> bytes) \<Rightarrow> nat \<Rightarrow> bytes \<Rightarrow> 'e + 'm list \<times> bytes" where
  "read_many get 0 s = Inr ([], s)"
| "read_many get (Suc n) s =
     (case get s of
        Inl e \<Rightarrow> Inl e
      | Inr (m, t) \<Rightarrow>
          (case read_many get n t of Inl e \<Rightarrow> Inl e | Inr (ms, u) \<Rightarrow> Inr (m # ms, u)))"

locale stream_codec =
  fixes put :: "'m \<Rightarrow> bytes option"
    and get :: "bytes \<Rightarrow> 'e + 'm \<times> bytes"
  assumes get_put: "put m = Some w \<Longrightarrow> get (w @ rest) = Inr (m, rest)"
begin

lemma put_prefix_free:
  assumes "put m = Some w" "put m' = Some w'" "w @ r = w' @ r'"
  shows "m = m' \<and> r = r'"
  using get_put [OF assms(1), of r] get_put [OF assms(2), of r'] assms(3) by simp

lemma read_back:
  "list_all2 (\<lambda>m w. put m = Some w) ms bss \<Longrightarrow>
     read_many get (length ms) (concat bss @ rest) = Inr (ms, rest)"
  by (induction ms bss rule: list_all2_induct) (simp_all add: get_put)

end

text \<open>A framing whose truncated messages are noticed.\<close>

locale framed_stream = stream_codec put get
  for put :: "'m \<Rightarrow> bytes option" and get :: "bytes \<Rightarrow> 'e + 'm \<times> bytes" +
  assumes get_cut: "put m = Some (a @ b) \<Longrightarrow> b \<noteq> [] \<Longrightarrow> \<exists>e. get a = Inl e"
begin

lemma cut_stream:
  assumes "list_all2 (\<lambda>m w. put m = Some w) ms bss" "put m = Some (a @ b)" "b \<noteq> []"
  shows "\<exists>e. read_many get (Suc (length ms)) (concat bss @ a) = Inl e"
  using assms(1)
proof (induction ms bss rule: list_all2_induct)
  case Nil
  then show ?case using get_cut [OF assms(2,3)] by auto
next
  case (Cons x xs y ys)
  then obtain e where "read_many get (Suc (length xs)) (concat ys @ a) = Inl e" by blast
  then show ?case using get_put [OF Cons(1), of "concat ys @ a"] by auto
qed

end

section \<open>Frames\<close>

datatype frame_error =
    MaxNotPositive int
  | EmptyPayload
  | FrameTooLarge
  | WriteFailed
  | ReadFailed read_error

definition write_frame :: "writer \<Rightarrow> bytes \<Rightarrow> int \<Rightarrow> frame_error option \<times> writer" where
  "write_frame w payload max_bytes =
     (if max_bytes \<le> 0 then (Some (MaxNotPositive max_bytes), w)
      else if payload = [] then (Some EmptyPayload, w)
      else if max_bytes < int (length payload) then (Some FrameTooLarge, w)
      else (case do_write w (put_uint32 (word_of_nat (length payload))) of
              (False, w1) \<Rightarrow> (Some WriteFailed, w1)
            | (True, w1) \<Rightarrow>
                (case do_write w1 payload of
                   (False, w2) \<Rightarrow> (Some WriteFailed, w2)
                 | (True, w2) \<Rightarrow> (None, w2))))"

definition read_frame :: "int \<Rightarrow> bytes \<Rightarrow> frame_error + bytes \<times> bytes" where
  "read_frame max_bytes s =
     (if max_bytes \<le> 0 then Inl (MaxNotPositive max_bytes)
      else (case read_full 4 s of
              Inl e \<Rightarrow> Inl (ReadFailed e)
            | Inr (header, t) \<Rightarrow>
                (let declared = unat (get_uint32 header)
                 in if max_bytes < int declared then Inl FrameTooLarge
                    else (case read_full declared t of
                            Inl e \<Rightarrow> Inl (ReadFailed UnexpectedEOF)
                          | Inr (payload, u) \<Rightarrow> Inr (payload, u)))))"

lemma read_frame_shrinks [shrinks]: "read_frame mx s = Inr (p, t) \<Longrightarrow> length t < length s"
  by (auto simp: read_frame_def read_full_def Let_def split: if_splits)

abbreviation control_limit :: int where
  "control_limit \<equiv> int max_control_frame_bytes"

definition max_server_frame_bytes :: nat where
  "max_server_frame_bytes = 16 * 2 ^ 20"

text \<open>What \<open>WriteFrame\<close> puts on a writer that never fails.\<close>

definition empty_writer :: writer where
  "empty_writer = \<lparr>w_out = [], w_left = None\<rparr>"

definition frame_put :: "int \<Rightarrow> bytes \<Rightarrow> bytes option" where
  "frame_put max_bytes payload =
     (case write_frame empty_writer payload max_bytes of
        (None, w) \<Rightarrow> Some (w_out w)
      | (Some e, w) \<Rightarrow> None)"

lemma nonempty_positive: "p \<noteq> [] \<Longrightarrow> int (length p) \<le> mx \<Longrightarrow> 0 < mx"
  by (cases p) auto

lemma frame_put_eq:
  "frame_put mx p = (if p \<noteq> [] \<and> int (length p) \<le> mx
     then Some (put_uint32 (word_of_nat (length p)) @ p) else None)"
  using nonempty_positive [of p mx]
  by (auto simp: frame_put_def write_frame_def empty_writer_def do_write_def)

lemma write_frame_ok:
  assumes "w_left w = None" "frame_put mx p = Some f"
  shows "write_frame w p mx = (None, w\<lparr>w_out := w_out w @ f\<rparr>)"
  using assms nonempty_positive [of p mx]
  by (auto simp: frame_put_eq write_frame_def do_write_def split: if_splits)

lemma unat_frame_length: "n < 2 ^ 32 \<Longrightarrow> unat (word_of_nat n :: 32 word) = n"
  by (simp add: unat_of_nat)

lemma read_frame_put:
  assumes "frame_put mx p = Some f" "mx < 2 ^ 32"
  shows "read_frame mx (f @ rest) = Inr (p, rest)"
proof -
  have p: "p \<noteq> []" "int (length p) \<le> mx" "f = put_uint32 (word_of_nat (length p)) @ p"
    using assms(1) by (auto simp: frame_put_eq split: if_splits)
  have "length p < 2 ^ 32" using p(2) assms(2) by simp
  then have l: "unat (word_of_nat (length p) :: 32 word) = length p" by (rule unat_frame_length)
  have "0 < mx" using p(1,2) by (cases p) auto
  moreover have "uint (word_of_nat (length p) :: 32 word) = int (length p)" by (metis l uint_nat)
  ultimately show ?thesis using p(2) by (simp add: read_frame_def p(3) l Let_def)
qed

lemma read_frame_cut:
  assumes "frame_put mx p = Some (a @ b)" "b \<noteq> []" "mx < 2 ^ 32"
  shows "\<exists>e. read_frame mx a = Inl e"
proof -
  have p: "p \<noteq> []" "int (length p) \<le> mx" "a @ b = put_uint32 (word_of_nat (length p)) @ p"
    using assms(1) by (auto simp: frame_put_eq split: if_splits)
  have "length p < 2 ^ 32" using p(2) assms(3) by simp
  then have l: "unat (word_of_nat (length p) :: 32 word) = length p" by (rule unat_frame_length)
  show ?thesis
  proof (cases "length a < 4")
    case True
    then show ?thesis by (simp add: read_frame_def read_full_def)
  next
    case False
    then have "take 4 a = put_uint32 (word_of_nat (length p))" "drop 4 a @ b = p"
      using arg_cong [OF p(3), of "take 4"] arg_cong [OF p(3), of "drop 4"] by simp_all
    then obtain a' where a: "a = put_uint32 (word_of_nat (length p)) @ a'" "a' @ b = p"
      by (metis append_take_drop_id)
    then have "length a' < length p" using assms(2) by auto
    then show ?thesis by (simp add: read_frame_def a(1) l read_full_def)
  qed
qed

interpretation control: framed_stream "frame_put control_limit" "read_frame control_limit"
  by unfold_locales (simp_all add: read_frame_put read_frame_cut max_control_frame_bytes_def)

interpretation server: framed_stream "frame_put (int max_server_frame_bytes)"
    "read_frame (int max_server_frame_bytes)"
  by unfold_locales (simp_all add: read_frame_put read_frame_cut max_server_frame_bytes_def)

section \<open>The request loop\<close>

datatype serve_error =
    ServeTwice
  | AnnounceFailed
  | ReadFrameFailed frame_error
  | WriteReplyFailed frame_error

function serve_loop :: "plugin \<Rightarrow> bytes \<Rightarrow> writer \<Rightarrow> serve_error option \<times> writer" where
  "serve_loop p inp out =
     (case read_frame control_limit inp of
        Inl e \<Rightarrow> (if e = ReadFailed EndOfFile then None else Some (ReadFrameFailed e), out)
      | Inr (frame, rest) \<Rightarrow>
          (let reply0 = respond p frame;
               reply = (if reply0 = []
                        then error_response (best_effort_id frame) code_internal msg_not_registered
                               ''PLUGIN_NOT_REGISTERED''
                        else reply0)
           in case write_frame out reply control_limit of
                (Some e, out') \<Rightarrow> (Some (WriteReplyFailed e), out')
              | (None, out') \<Rightarrow> serve_loop p rest out'))"
  by pat_completeness auto
termination
  by (relation "measure (\<lambda>(p, inp, out). length inp)") (auto dest: read_frame_shrinks)

declare serve_loop.simps [simp del]

text \<open>
  \<open>serve\<close>: \<open>busy\<close> is whether another \<open>Serve\<close> of this process holds the transport; the
  second writer is standard error.
\<close>

definition serve :: "bool \<Rightarrow> plugin \<Rightarrow> bytes \<Rightarrow> bytes \<Rightarrow> writer \<Rightarrow> writer \<Rightarrow> serve_error option \<times> writer \<times> writer"
  where
  "serve busy p ready_mark inp out errw =
     (if busy then (Some ServeTwice, out, errw)
      else if ready_mark \<noteq> []
      then (case do_write errw (ready_mark @ [CHR 0x0A]) of
              (False, errw') \<Rightarrow> (Some AnnounceFailed, out, errw')
            | (True, errw') \<Rightarrow> (case serve_loop p inp out of (e, out') \<Rightarrow> (e, out', errw')))
      else (case serve_loop p inp out of (e, out') \<Rightarrow> (e, out', errw)))"

lemma answers_nonempty: "answers i r \<Longrightarrow> r \<noteq> []"
  by (auto simp: answers_def validate_strict_def)

lemma respond_nonempty [simp]: "respond p frame \<noteq> []"
  using answers_nonempty [OF answers_respond] .

lemma serve_loop_step:
  assumes "frame_put control_limit frame = Some f" "frame_put control_limit (respond p frame) = Some r"
    "w_left out = None"
  shows "serve_loop p (f @ rest) out = serve_loop p rest (out\<lparr>w_out := w_out out @ r\<rparr>)"
  using control.get_put [OF assms(1)] write_frame_ok [OF assms(3,2)]
  by (subst serve_loop.simps) simp

lemma serve_loop_end: "serve_loop p [] out = (None, out)"
  by (subst serve_loop.simps) (simp add: read_frame_def read_full_def max_control_frame_bytes_def)

lemma serve_loop_requests:
  assumes "list_all2 (\<lambda>m w. frame_put control_limit m = Some w) frames bss"
    "list_all2 (\<lambda>m w. frame_put control_limit (respond p m) = Some w) frames rss" "w_left out = None"
  shows "serve_loop p (concat bss @ rest) out = serve_loop p rest (out\<lparr>w_out := w_out out @ concat rss\<rparr>)"
  using assms
proof (induction frames bss arbitrary: rss out rule: list_all2_induct)
  case (Cons x xs y ys)
  then obtain r rs where r: "rss = r # rs" "frame_put control_limit (respond p x) = Some r"
    "list_all2 (\<lambda>m w. frame_put control_limit (respond p m) = Some w) xs rs"
    by (auto simp: list_all2_Cons1)
  show ?case
    using serve_loop_step [OF Cons(1) r(2) Cons.prems(2), of "concat ys @ rest"]
      Cons.IH [OF r(3), of "out\<lparr>w_out := w_out out @ r\<rparr>"] Cons.prems(2)
    by (simp add: r(1))
qed (simp add: list_all2_Nil)

lemma frame_put_exists: "p \<noteq> [] \<Longrightarrow> length p \<le> max_control_frame_bytes \<Longrightarrow> \<exists>w. frame_put control_limit p = Some w"
  by (simp add: frame_put_eq)

lemma frames_put_exist:
  "\<forall>m \<in> set ms. m \<noteq> [] \<and> length m \<le> max_control_frame_bytes \<Longrightarrow>
     \<exists>bss. list_all2 (\<lambda>m w. frame_put control_limit m = Some w) ms bss"
  by (induction ms) (use frame_put_exists in \<open>auto simp: list_all2_Cons1, blast\<close>)

section \<open>The readiness line\<close>

text \<open>
  \<open>debug.BuildInfo\<close> as \<open>kitVersion\<close> reads it: the main module and the dependencies,
  each with its path, its version and, when it is replaced, the replacement's path and version.
  \<open>unicode.IsSpace\<close> is on code points; a byte that starts no valid encoding is U+FFFD,
  which is no space.
\<close>

record build_module =
  m_path :: bytes
  m_version :: bytes
  m_replace :: "(bytes \<times> bytes) option"

definition rune_is_space :: "nat \<Rightarrow> bool" where
  "rune_is_space r \<longleftrightarrow>
     (9 \<le> r \<and> r \<le> 13) \<or> r = 0x20 \<or> r = 0x85 \<or> r = 0xA0 \<or> r = 0x1680 \<or> (0x2000 \<le> r \<and> r \<le> 0x200A)
     \<or> r = 0x2028 \<or> r = 0x2029 \<or> r = 0x202F \<or> r = 0x205F \<or> r = 0x3000"

function contains_space :: "bytes \<Rightarrow> bool" where
  "contains_space s =
     (case s of
        [] \<Rightarrow> False
      | c # s' \<Rightarrow>
          (case decode_rune s of
             None \<Rightarrow> contains_space s'
           | Some (r, t) \<Rightarrow> if rune_is_space r then True else contains_space t))"
  by pat_completeness auto
termination
  by (relation "measure length") (auto dest: decode_rune_shrinks)

declare contains_space.simps [simp del]

lemma contains_space_ascii:
  "ascii c \<Longrightarrow> contains_space (c # s) \<longleftrightarrow> rune_is_space (byte_val c) \<or> contains_space s"
  by (simp add: contains_space.simps [of "c # s"] decode_rune_ascii)

definition kit_module :: bytes where
  "kit_module = ''github.com/aiii-dot-id/aii-plugin-sdk''"

definition kit_version :: "(build_module \<times> build_module list) option \<Rightarrow> bytes" where
  "kit_version bi =
     (case bi of
        None \<Rightarrow> ''unknown''
      | Some (main, deps) \<Rightarrow>
          (case (if m_path main \<noteq> kit_module then find (\<lambda>d. m_path d = kit_module) deps else Some main) of
             None \<Rightarrow> ''unknown''
           | Some m \<Rightarrow>
               (let v = (case m_replace m of
                           None \<Rightarrow> m_version m
                         | Some (rp, rv) \<Rightarrow>
                             if rv \<noteq> [] \<and> rv \<noteq> ''(devel)'' then rp @ ''@'' @ rv else ''(devel)'')
                in if v = [] \<or> contains_space v then ''unknown'' else v)))"

record ready_report =
  r_models_loaded :: int
  r_accelerator :: bytes
  r_probe_ms :: int

definition ready_line :: "(build_module \<times> build_module list) option \<Rightarrow> bytes \<Rightarrow> ready_report \<Rightarrow> bytes" where
  "ready_line bi mark r =
     mark @ '' event=ready models_loaded='' @ itoa (r_models_loaded r) @ '' accelerator='' @ r_accelerator r
     @ '' probe_ms='' @ itoa (r_probe_ms r) @ '' sdk='' @ kit_version bi"

section \<open>The properties of frames and of the request loop\<close>

text \<open>C11: any sequence of payloads written as control frames is read back as exactly those
  payloads, with whatever follows left unread; and when the stream is cut inside a frame,
  reading ends in an error, never in a payload.\<close>

theorem control_frames_round_trip:
  assumes "list_all2 (\<lambda>m w. write_frame empty_writer m control_limit = (None, w)) msgs writers"
    "write_frame empty_writer m control_limit = (None, w)" "w_out w = a @ b" "b \<noteq> []"
  shows "read_many (read_frame control_limit) (length msgs) (concat (map w_out writers) @ rest) = Inr (msgs, rest)
    \<and> (\<exists>e. read_many (read_frame control_limit) (Suc (length msgs)) (concat (map w_out writers) @ a) = Inl e)"
proof -
  have put: "list_all2 (\<lambda>m w. frame_put control_limit m = Some w) msgs (map w_out writers)"
    using assms(1) by (simp add: list_all2_map2 frame_put_def list_all2_mono)
  then show ?thesis
    using control.read_back [OF put] control.cut_stream [OF put, of m a b] assms(2-4)
    by (simp add: frame_put_def)
qed

theorem control_frames_round_trip_witness:
  "read_many (read_frame control_limit) 1 ((put_uint32 2 @ ''{}'') @ ''x'') = Inr ([''{}''], ''x'')
   \<and> (\<exists>e. read_many (read_frame control_limit) 2 ((put_uint32 2 @ ''{}'') @ put_uint32 2) = Inl e)"
proof -
  have w: "write_frame empty_writer ''{}'' control_limit = (None, \<lparr>w_out = put_uint32 2 @ ''{}'', w_left = None\<rparr>)"
    by (simp add: write_frame_def empty_writer_def do_write_def max_control_frame_bytes_def)
  then have "list_all2 (\<lambda>m w. write_frame empty_writer m control_limit = (None, w)) [''{}'']
    [\<lparr>w_out = put_uint32 2 @ ''{}'', w_left = None\<rparr>]" by simp
  from control_frames_round_trip [OF this w, of "put_uint32 2" "''{}''" "''x''"] show ?thesis
    by (simp add: numeral_2_eq_2 del: read_many.simps)
qed

text \<open>C10: the request loop answers every request of a stream once, in order: on any sequence of
  frames it consumes them all, ends without an error at end of file, and what it wrote reads back
  as the replies of \<open>respond\<close> in the order of the requests.\<close>

theorem serve_answers_every_request_in_order:
  assumes "\<forall>m \<in> set frames. m \<noteq> [] \<and> length m \<le> max_control_frame_bytes"
    "\<forall>m \<in> set frames. length (respond p m) \<le> max_control_frame_bytes"
    "list_all2 (\<lambda>m w. frame_put control_limit m = Some w) frames bss"
  shows "\<exists>out. serve False p [] (concat bss) empty_writer errw = (None, out, errw)
    \<and> read_many (read_frame control_limit) (length frames) (w_out out) = Inr (map (respond p) frames, [])"
proof -
  obtain rss where r: "list_all2 (\<lambda>m w. frame_put control_limit m = Some w) (map (respond p) frames) rss"
    using frames_put_exist [of "map (respond p) frames"] assms(2) by auto
  then have "list_all2 (\<lambda>m w. frame_put control_limit (respond p m) = Some w) frames rss"
    by (simp add: list_all2_map1)
  from serve_loop_requests [OF assms(3) this, of empty_writer "[]"]
  have "serve_loop p (concat bss) empty_writer = (None, empty_writer\<lparr>w_out := concat rss\<rparr>)"
    by (simp add: serve_loop_end empty_writer_def)
  then show ?thesis using control.read_back [OF r, of "[]"] by (simp add: serve_def)
qed

theorem serve_answers_every_request_in_order_witness:
  "\<exists>out. serve False (new_plugin ''x'') [] (put_uint32 2 @ ''{}'') empty_writer empty_writer = (None, out, empty_writer)
    \<and> read_many (read_frame control_limit) 1 (w_out out) = Inr ([respond (new_plugin ''x'') ''{}''], [])"
proof -
  have v: "validate_strict ''{}''" "object_members ''{}'' = Some []" by code_simp+
  then have "length (respond (new_plugin ''x'') ''{}'') \<le> max_control_frame_bytes"
    by (simp add: respond_def respond_request_def error_response_def null_id_def itoa_def itoa_nat.simps
      append_json_string_def escape_byte_def max_control_frame_bytes_def)
  moreover have "frame_put control_limit ''{}'' = Some (put_uint32 2 @ ''{}'')"
    by (simp add: frame_put_eq max_control_frame_bytes_def)
  ultimately show ?thesis
    using serve_answers_every_request_in_order [of "[''{}'']" "new_plugin ''x''" "[put_uint32 2 @ ''{}'']" empty_writer]
    by (simp add: max_control_frame_bytes_def)
qed

lemma concat_escape_plain: "concat (map escape_byte (replicate n (CHR ''a''))) = replicate n (CHR ''a'')"
  by (induction n) (simp_all add: escape_byte_def)

definition huge_id :: "nat \<Rightarrow> bytes" where
  "huge_id n = append_json_string (replicate n (CHR ''a''))"

definition huge_id_frame :: "nat \<Rightarrow> bytes" where
  "huge_id_frame n = obj_text [(''id'', huge_id n)]"

lemma huge_id_reply: "respond p (huge_id_frame n) = error_response (huge_id n) code_invalid msg_invalid_request []"
proof -
  have "printable (replicate n (CHR ''a''))" by (induction n) (simp_all add: printable_def)
  then have p: "plain_members 1 [(''id'', huge_id n)]"
    unfolding huge_id_def using printable_ok by simp
  have "hd (huge_id n) = CHR 0x22" by (simp add: huge_id_def append_json_string_def)
  then show ?thesis
    using strict_obj_text [OF p] object_members_obj_text [OF p]
    by (simp add: respond_def huge_id_frame_def scalar_id_def respond_request_def)
qed

lemma huge_id_lengths:
  "length (huge_id_frame n) = n + 9" "n + 40 \<le> length (error_response (huge_id n) c m r)"
  by (simp_all add: huge_id_frame_def huge_id_def obj_text_def pair_text_def append_json_string_def
      concat_escape_plain escape_byte_def error_response_def)

text \<open>C39: not every request within the frame limit is answered: one whose id fills the frame gets
  an error reply that repeats the id, which no longer fits a frame, and the request loop ends with
  a write error instead of a reply.\<close>

theorem a_request_within_the_limit_can_end_the_loop:
  "\<exists>frame f. length frame \<le> max_control_frame_bytes \<and> validate_strict frame
     \<and> frame_put control_limit frame = Some f
     \<and> serve False p [] (f @ rest) empty_writer errw
         = (Some (WriteReplyFailed FrameTooLarge), empty_writer, errw)"
proof -
  define n where "n = max_control_frame_bytes - 9"
  have n: "n + 9 = max_control_frame_bytes" by (simp add: n_def max_control_frame_bytes_def)
  have r: "max_control_frame_bytes < length (respond p (huge_id_frame n))"
    using huge_id_lengths(2) [of n code_invalid msg_invalid_request "[]"] n by (simp add: huge_id_reply)
  then have w: "write_frame empty_writer (respond p (huge_id_frame n)) control_limit
      = (Some FrameTooLarge, empty_writer)"
    by (simp add: write_frame_def max_control_frame_bytes_def)
  obtain f where f: "frame_put control_limit (huge_id_frame n) = Some f"
    using frame_put_exists [of "huge_id_frame n"] huge_id_lengths(1) [of n] n by fastforce
  have "serve_loop p (f @ rest) empty_writer = (Some (WriteReplyFailed FrameTooLarge), empty_writer)"
    using control.get_put [OF f] w by (subst serve_loop.simps) simp
  moreover have "validate_strict (huge_id_frame n)"
  proof -
    have "printable (replicate n (CHR ''a''))" by (induction n) (simp_all add: printable_def)
    then show ?thesis unfolding huge_id_frame_def huge_id_def
      by (intro strict_obj_text) (simp add: printable_ok)
  qed
  ultimately show ?thesis
    using f huge_id_lengths(1) [of n] n by (intro exI [of _ "huge_id_frame n"] exI [of _ f]) (simp add: serve_def)
qed

text \<open>the \<open>sdk=\<close> field of the readiness line is never empty and never holds white space, so
  a reader that splits the line on spaces finds it whole as the last field.\<close>

theorem kit_version_is_one_field:
  "kit_version bi \<noteq> [] \<and> \<not> contains_space (kit_version bi)"
proof -
  have "contains_space ''unknown'' = False"
    by (simp add: contains_space_ascii ascii_def rune_is_space_def contains_space.simps [of "[]"])
  then have unknown: "''unknown'' \<noteq> [] \<and> \<not> contains_space ''unknown''" by simp
  show ?thesis
  proof (cases bi)
    case (Some x)
    obtain main deps where x: "x = (main, deps)" by (cases x)
    define mo where "mo = (if m_path main \<noteq> kit_module then find (\<lambda>d. m_path d = kit_module) deps else Some main)"
    show ?thesis
      unfolding kit_version_def Some x option.case prod.case mo_def [symmetric]
      using unknown by (cases mo) (simp_all add: Let_def)
  qed (use unknown in \<open>simp add: kit_version_def\<close>)
qed

end
