(* ===== verification/JsonNumber.thy ===== *)
theory JsonNumber
  imports JsonText
begin

text \<open>
  The number readers of \<open>object.go\<close> and \<open>arrays.go\<close>: \<open>Int\<close>, \<open>Float\<close>,
  \<open>FloatArray\<close> and \<open>FloatMatrix\<close>. \<open>strconv.ParseFloat\<close> is modelled on the
  tokens that can reach it, the raw JSON values the scanner has accepted: it refuses every value
  that is not a number, and rounds a number to the nearest double (ties to even), computed here
  over exact naturals. A finite float is its sign, an integer mantissa \<open>q\<close> and a binary
  exponent \<open>k\<close>, meaning \<open>q * 2 ^ k\<close>.
\<close>

section \<open>Rounding a decimal to binary\<close>

fun bit_len :: "nat \<Rightarrow> nat" where
  "bit_len n = (if n = 0 then 0 else Suc (bit_len (n div 2)))"

declare bit_len.simps [simp del]

definition round_half_even :: "nat \<Rightarrow> nat \<Rightarrow> nat" where
  "round_half_even a b =
     (let q = a div b; r = a mod b
      in if b < 2 * r \<or> (2 * r = b \<and> odd q) then q + 1 else q)"

definition binary_exponent :: "nat \<Rightarrow> nat \<Rightarrow> int" where
  "binary_exponent num den =
     (let b = int (bit_len num) - int (bit_len den)
      in if num * 2 ^ nat (- b) < den * 2 ^ nat b then b - 1 else b)"

text \<open>\<open>prec\<close> mantissa bits, smallest exponent \<open>emin\<close>: 53 and -1074, or 24 and -149.\<close>

definition float_round :: "nat \<Rightarrow> int \<Rightarrow> nat \<Rightarrow> int \<Rightarrow> nat \<times> int" where
  "float_round prec emin m e =
     (let num = m * 10 ^ nat e; den = 10 ^ nat (- e)
      in if num = 0 then (0, 0)
         else (let k = max (binary_exponent num den - int prec + 1) emin
               in (round_half_even (num * 2 ^ nat (- k)) (den * 2 ^ nat k), k)))"

definition token_parts :: "bytes \<Rightarrow> bool \<times> nat \<times> int" where
  "token_parts tok =
     (let neg = (tok \<noteq> [] \<and> hd tok = CHR ''-'');
          t0 = (if neg then tl tok else tok);
          ints = takeWhile is_digit t0;
          t1 = dropWhile is_digit t0;
          fracs = (if t1 \<noteq> [] \<and> hd t1 = CHR ''.'' then takeWhile is_digit (tl t1) else [])
      in (neg, digits_value (ints @ fracs), token_exp tok - int (length fracs)))"

definition float32_overflows :: "nat \<Rightarrow> int \<Rightarrow> bool" where
  "float32_overflows m e \<longleftrightarrow>
     (if 0 \<le> e then 2 ^ 128 - 2 ^ 103 \<le> m * 10 ^ nat e
      else (2 ^ 128 - 2 ^ 103) * 10 ^ nat (- e) \<le> m)"

type_synonym binary_float = "bool \<times> nat \<times> int"

definition parse_float64 :: "bytes \<Rightarrow> binary_float option" where
  "parse_float64 tok =
     (if number_end tok \<noteq> Some [] then None
      else (case token_parts tok of
              (neg, m, e) \<Rightarrow>
                if float64_overflows m e then None else Some (neg, float_round 53 (-1074) m e)))"

definition parse_float32 :: "bytes \<Rightarrow> binary_float option" where
  "parse_float32 tok =
     (if number_end tok \<noteq> Some [] then None
      else (case token_parts tok of
              (neg, m, e) \<Rightarrow>
                if float32_overflows m e then None else Some (neg, float_round 24 (-149) m e)))"

text \<open>
  \<open>int64(f)\<close> truncates; out of range Go leaves the result to the implementation, and this is
  the one of amd64. \<open>float_is_int\<close> is \<open>f == float64(i)\<close> for the \<open>i\<close> of that range.
\<close>

definition float_trunc :: "binary_float \<Rightarrow> int" where
  "float_trunc f =
     (case f of (neg, q, k) \<Rightarrow>
        (let a = int (if 0 \<le> k then q * 2 ^ nat k else q div 2 ^ nat (- k))
         in if neg then - a else a))"

definition int64_of_float :: "binary_float \<Rightarrow> int" where
  "int64_of_float f = (if int_range (float_trunc f) then float_trunc f else - (2 ^ 63))"

definition float_is_int :: "binary_float \<Rightarrow> int \<Rightarrow> bool" where
  "float_is_int f i \<longleftrightarrow>
     (case f of (neg, q, k) \<Rightarrow> (k < 0 \<longrightarrow> 2 ^ nat (- k) dvd q)) \<and> float_trunc f = i"

section \<open>The readers\<close>

definition obj_float :: "bytes \<Rightarrow> bytes \<Rightarrow> binary_float option" where
  "obj_float ob key =
     (case obj_raw ob key of None \<Rightarrow> None | Some raw \<Rightarrow> parse_float64 raw)"

definition obj_int :: "bytes \<Rightarrow> bytes \<Rightarrow> int option" where
  "obj_int ob key =
     (case obj_raw ob key of
        None \<Rightarrow> None
      | Some raw \<Rightarrow>
          (case atoi raw of
             Some v \<Rightarrow> Some v
           | None \<Rightarrow>
               (case (case decode_json_string raw of None \<Rightarrow> None | Some s \<Rightarrow> atoi s) of
                  Some v \<Rightarrow> Some v
                | None \<Rightarrow>
                    (case obj_float ob key of
                       None \<Rightarrow> None
                     | Some f \<Rightarrow>
                         if \<not> float_is_int f (int64_of_float f) then None
                         else Some (int64_of_float f)))))"

fun decode_floats :: "binary_float list \<Rightarrow> bytes list \<Rightarrow> binary_float list option" where
  "decode_floats out [] = Some out"
| "decode_floats out (e # es) =
     (case parse_float32 e of None \<Rightarrow> None | Some f \<Rightarrow> decode_floats (out @ [f]) es)"

definition decode_float_array :: "bytes \<Rightarrow> binary_float list option" where
  "decode_float_array raw =
     (case array_elements raw of None \<Rightarrow> None | Some elems \<Rightarrow> decode_floats [] elems)"

definition obj_float_array :: "bytes \<Rightarrow> bytes \<Rightarrow> binary_float list option" where
  "obj_float_array ob key =
     (case obj_raw ob key of None \<Rightarrow> None | Some raw \<Rightarrow> decode_float_array raw)"

fun decode_rows :: "binary_float list list \<Rightarrow> bytes list \<Rightarrow> binary_float list list option" where
  "decode_rows out [] = Some out"
| "decode_rows out (r # rs) =
     (case decode_float_array r of None \<Rightarrow> None | Some v \<Rightarrow> decode_rows (out @ [v]) rs)"

definition obj_float_matrix :: "bytes \<Rightarrow> bytes \<Rightarrow> binary_float list list option" where
  "obj_float_matrix ob key =
     (case obj_raw ob key of
        None \<Rightarrow> None
      | Some raw \<Rightarrow>
          (case array_elements raw of None \<Rightarrow> None | Some rows \<Rightarrow> decode_rows [] rows))"

section \<open>An integer of the domain is read exactly\<close>

lemma bit_len_bounds: "0 < n \<Longrightarrow> 2 ^ (bit_len n - 1) \<le> n \<and> n < 2 ^ bit_len n"
proof (induction n rule: bit_len.induct)
  case (1 n)
  show ?case
  proof (cases "n = 1")
    case True
    then show ?thesis by (simp add: bit_len.simps)
  next
    case False
    then have p: "0 < n div 2" using "1.prems" by auto
    then have ih: "2 ^ (bit_len (n div 2) - 1) \<le> n div 2" "n div 2 < 2 ^ bit_len (n div 2)"
      using "1.IH" "1.prems" by auto
    have l: "bit_len n = Suc (bit_len (n div 2))" using "1.prems" by (simp add: bit_len.simps [of n])
    have "0 < bit_len (n div 2)" using p by (simp add: bit_len.simps [of "n div 2"])
    then have "bit_len n - 1 = Suc (bit_len (n div 2) - 1)" by (simp add: l)
    then have "(2::nat) ^ (bit_len n - 1) = 2 * 2 ^ (bit_len (n div 2) - 1)"
      "(2::nat) ^ bit_len n = 2 * 2 ^ bit_len (n div 2)" by (simp_all only: power_Suc l)
    moreover have "n div 2 * 2 \<le> n" "n < n div 2 * 2 + 2" by simp_all
    ultimately show ?thesis using ih by linarith
  qed
qed

lemma bit_len_pos: "0 < n \<Longrightarrow> 0 < bit_len n"
  by (simp add: bit_len.simps [of n])

lemma bit_len_le: "n < 2 ^ k \<Longrightarrow> bit_len n \<le> k"
proof (cases "n = 0")
  case False
  assume "n < 2 ^ k"
  with bit_len_bounds [of n] False have "(2::nat) ^ (bit_len n - 1) < 2 ^ k"
    using le_less_trans by blast
  then have "bit_len n - 1 < k" by (rule power_less_imp_less_exp [rotated]) simp
  then show ?thesis by simp
qed (simp add: bit_len.simps)

lemma binary_exponent_small:
  assumes "0 < n" "n < 2 ^ p" "0 < den"
  shows "binary_exponent (n * den) den < int p"
proof -
  have "n * den < 2 ^ p * 2 ^ bit_len den"
    using assms bit_len_bounds [OF assms(3)] by (intro mult_strict_mono) auto
  then have "bit_len (n * den) \<le> p + bit_len den" by (intro bit_len_le) (simp add: power_add)
  then have b: "int (bit_len (n * den)) - int (bit_len den) \<le> int p" by simp
  show ?thesis
  proof (cases "int (bit_len (n * den)) - int (bit_len den) = int p")
    case True
    then show ?thesis using assms by (simp add: binary_exponent_def)
  next
    case False
    with b show ?thesis by (simp add: binary_exponent_def Let_def)
  qed
qed

lemma round_exact: "0 < b \<Longrightarrow> round_half_even (a * b) b = a"
  by (simp add: round_half_even_def)

lemma float_round_exact:
  assumes "integral m e" "magnitude m e < 2 ^ 53"
  shows "float_is_int (neg, float_round 53 (-1074) m e)
      (if neg then - int (magnitude m e) else int (magnitude m e))"
proof -
  define n where "n = magnitude m e"
  define den where "den = (10::nat) ^ nat (- e)"
  have num: "m * 10 ^ nat e = n * den"
    using assms(1) by (auto simp: n_def den_def magnitude_def integral_def)
  have den: "0 < den" by (simp add: den_def)
  show ?thesis
  proof (cases "n = 0")
    case True
    then have "float_round 53 (-1074) m e = (0, 0)" using num by (simp add: float_round_def)
    then show ?thesis using True by (simp add: n_def [symmetric] float_is_int_def float_trunc_def)
  next
    case False
    define k where "k = max (binary_exponent (n * den) den - int 53 + 1) (-1074)"
    have "binary_exponent (n * den) den < 53"
      using binary_exponent_small [of n 53 den] False den assms(2) by (simp add: n_def)
    then have k: "k \<le> 0" by (simp add: k_def)
    have "n * den * 2 ^ nat (- k) = (n * 2 ^ nat (- k)) * (den * 2 ^ nat k)" using k by simp
    then have "round_half_even (n * den * 2 ^ nat (- k)) (den * 2 ^ nat k) = n * 2 ^ nat (- k)"
      using round_exact [of "den * 2 ^ nat k" "n * 2 ^ nat (- k)"] den by (simp only: mult_pos_pos zero_less_power zero_less_numeral)
    then have "float_round 53 (-1074) m e = (n * 2 ^ nat (- k), k)"
      using False den unfolding float_round_def Let_def num den_def [symmetric] k_def [symmetric]
      by (simp add: k_def)
    then show ?thesis using k
      by (cases "k = 0") (simp_all add: float_is_int_def float_trunc_def n_def)
  qed
qed

lemma number_end_text: "number_text n \<Longrightarrow> number_end n = Some []"
  using number_end_complete [of n "[]"] by simp

lemma token_parts_pieces:
  assumes "sg = [] \<or> sg = ''-''" "int_text i" "list_all is_digit fs"
    "fr = [] \<and> fs = [] \<or> fr = CHR ''.'' # fs" "exp_text ex"
  shows "token_parts (sg @ i @ fr @ ex) =
    (sg = ''-'', digits_value (i @ fs), token_exp (sg @ i @ fr @ ex) - int (length fs))"
proof -
  note t = number_pieces [OF assms]
  have i: "i \<noteq> []" "is_digit (hd i)" using int_text_hd [OF assms(2)] by auto
  have s: "(sg @ i @ fr @ ex \<noteq> [] \<and> hd (sg @ i @ fr @ ex) = CHR ''-'') = (sg = ''-'')"
    using assms(1) i by (cases i) auto
  have fracs: "(if fr @ ex \<noteq> [] \<and> hd (fr @ ex) = CHR ''.'' then takeWhile is_digit (tl (fr @ ex)) else []) = fs"
    using t(5) by auto
  have t0: "(if sg = ''-'' then tl (sg @ i @ fr @ ex) else sg @ i @ fr @ ex) = i @ fr @ ex"
    using assms(1) by auto
  show ?thesis unfolding token_parts_def Let_def s t0 t(3,4) fracs ..
qed

text \<open>The exponent the code's splitter reads is the one \<open>ParseFloat\<close> reads.\<close>

lemma token_parts_split:
  assumes "number_text tok" "split_number tok = Some (ints, fracs, e)"
  shows "\<exists>neg. token_parts tok = (neg, digits_value (ints @ fracs), e - int (length fracs))
    \<and> (neg \<longleftrightarrow> hd tok = CHR ''-'')"
proof -
  obtain sg i fr ex fs where d: "tok = sg @ i @ fr @ ex" "sg = [] \<or> sg = ''-''" "int_text i"
    "list_all is_digit fs" "fr = [] \<and> fs = [] \<or> fr = CHR ''.'' # fs" "exp_text ex"
    using number_parts [OF assms(1)] by blast
  have sp: "ints = i" "fracs = fs" "(ex = [] \<and> e = 0) \<or> (ex \<noteq> [] \<and> atoi (tl ex) = Some e)"
    using assms(2) split_number_pieces [OF d(2-6)] d(1) by (auto split: if_splits option.splits)
  have "token_exp tok = e"
    using sp(3)
  proof
    assume x: "ex = [] \<and> e = 0"
    have "dropWhile (\<lambda>c. c \<noteq> CHR ''e'' \<and> c \<noteq> CHR ''E'') tok = []"
      using number_pieces(6) [OF d(2-6), folded d(1)] x by simp
    then show ?thesis unfolding token_exp_def by (simp only: x Let_def) (simp add: digits_value_def)
  next
    assume x: "ex \<noteq> [] \<and> atoi (tl ex) = Some e"
    show ?thesis using atoi_value [OF d(6)] x
      unfolding token_exp_def number_pieces(6) [OF d(2-6), folded d(1)] by (simp add: Let_def)
  qed
  moreover have "hd tok = CHR ''-'' \<longleftrightarrow> sg = ''-''"
    using d(1,2) int_text_hd [OF d(3)] by (cases i) auto
  ultimately show ?thesis using token_parts_pieces [OF d(2-6)] d(1) sp(1,2) by simp
qed

lemma atoi_number_token:
  assumes "number_text tok" "split_number tok = Some (ints, fracs, e)" "atoi tok = Some v"
  shows "fracs = [] \<and> e = 0 \<and>
    v = (if hd tok = CHR ''-'' then - int (digits_value ints) else int (digits_value ints))"
proof -
  obtain sg i fr ex fs where d: "tok = sg @ i @ fr @ ex" "sg = [] \<or> sg = ''-''" "int_text i"
    "list_all is_digit fs" "fr = [] \<and> fs = [] \<or> fr = CHR ''.'' # fs" "exp_text ex"
    using number_parts [OF assms(1)] by blast
  have i: "i \<noteq> []" "is_digit (hd i)" using int_text_hd [OF d(3)] by auto
  have strip: "(if tok \<noteq> [] \<and> (hd tok = CHR ''-'' \<or> hd tok = CHR ''+'') then tl tok else tok) = i @ fr @ ex"
    using d(1,2) i by (cases i) auto
  have neg: "(tok \<noteq> [] \<and> hd tok = CHR ''-'') = (hd tok = CHR ''-'')" using d(1) i by auto
  have a: "list_all is_digit (i @ fr @ ex)"
    "v = (if hd tok = CHR ''-'' then - int (digits_value (i @ fr @ ex)) else int (digits_value (i @ fr @ ex)))"
    using assms(3) unfolding atoi_def Let_def strip neg by (auto split: if_splits)
  have "fr = []" using a(1) d(5) by auto
  moreover have "ex = []" using a(1) exp_hd [OF d(6)] by (cases ex) auto
  ultimately show ?thesis
    using assms(2) a(2) split_number_pieces [OF d(2-6)] d(1,5) by auto
qed

lemma obj_int_token:
  assumes "obj_raw ob key = Some tok" "number_text tok" "split_number tok = Some (ints, fracs, e)"
    "domain_spec (digits_value (ints @ fracs)) (e - int (length fracs))"
    "integral (digits_value (ints @ fracs)) (e - int (length fracs))"
  shows "obj_int ob key =
    (let a = int (magnitude (digits_value (ints @ fracs)) (e - int (length fracs)))
     in Some (if hd tok = CHR ''-'' then - a else a))"
proof -
  define m where "m = digits_value (ints @ fracs)"
  define e' where "e' = e - int (length fracs)"
  define v where "v = (if hd tok = CHR ''-'' then - int (magnitude m e') else int (magnitude m e'))"
  have goal: "obj_int ob key = Some v"
  proof (cases "atoi tok")
    case (Some w)
    then show ?thesis
      using atoi_number_token [OF assms(2,3) Some] assms(1)
      by (simp add: obj_int_def v_def m_def e'_def magnitude_def)
  next
    case None
    have "hd tok \<noteq> CHR 0x22" "tok \<noteq> []"
      using number_text_hd [OF assms(2)] by auto
    then have s: "decode_json_string tok = None"
      by (cases tok) (simp_all add: decode_json_string_def scan_string_def)
    have mag: "magnitude m e' \<le> max_safe" "\<not> float64_overflows m e'"
      using assms(4,5) by (simp_all add: domain_spec_def m_def e'_def)
    obtain neg where p: "token_parts tok = (neg, m, e')" "neg \<longleftrightarrow> hd tok = CHR ''-''"
      using token_parts_split [OF assms(2,3)] by (auto simp: m_def e'_def)
    have f: "obj_float ob key = Some (neg, float_round 53 (-1074) m e')"
      using assms(1) p(1) mag(2) number_end_text [OF assms(2)]
      by (simp add: obj_float_def parse_float64_def)
    have v: "float_is_int (neg, float_round 53 (-1074) m e') v"
      using float_round_exact [of m e' neg] assms(5) mag(1) p(2)
      by (simp add: v_def m_def [symmetric] e'_def [symmetric] max_safe_def split: if_splits)
    then have "float_trunc (neg, float_round 53 (-1074) m e') = v" by (simp add: float_is_int_def)
    moreover have "int_range v" using mag(1) by (auto simp: v_def max_safe_def int_range_def)
    ultimately have "int64_of_float (neg, float_round 53 (-1074) m e') = v"
      by (simp add: int64_of_float_def)
    then show ?thesis using assms(1) None s f v by (simp add: obj_int_def)
  qed
  then show ?thesis by (simp add: v_def m_def e'_def Let_def)
qed

lemma atoi_itoa:
  assumes "int_range i"
  shows "atoi (itoa i) = Some i"
proof -
  have d: "itoa_nat n \<noteq> []" "list_all is_digit (itoa_nat n)" for n
    using itoa_nat_digits by simp_all
  have h: "hd (itoa_nat n) \<noteq> CHR ''-'' \<and> hd (itoa_nat n) \<noteq> CHR ''+''" for n
    using d [of n] by (cases "itoa_nat n") (auto simp: is_digit_val)
  show ?thesis using assms d h by (simp add: atoi_def itoa_def)
qed

lemma obj_int_itoa:
  "obj_raw ob key = Some (itoa i) \<Longrightarrow> int_range i \<Longrightarrow> obj_int ob key = Some i"
  by (simp add: obj_int_def atoi_itoa)

section \<open>The properties of the number readers\<close>

text \<open>C12: \<open>Int\<close> reads every integer of the safe domain exactly, in whatever notation the
  payload writes it (\<open>1000\<close>, \<open>1e3\<close>, \<open>1000.0\<close>, \<open>100000e-2\<close>), also where it falls back
  to a float64.\<close>

theorem safe_integers_are_read_exactly:
  assumes "obj_raw ob key = Some tok" "number_text tok" "split_number tok = Some (ints, fracs, e)"
    "domain_spec (digits_value (ints @ fracs)) (e - int (length fracs))"
    "integral (digits_value (ints @ fracs)) (e - int (length fracs))"
  shows "obj_int ob key =
    (let a = int (magnitude (digits_value (ints @ fracs)) (e - int (length fracs)))
     in Some (if hd tok = CHR ''-'' then - a else a))"
  by (rule obj_int_token [OF assms])

theorem safe_integers_are_read_exactly_witness:
  "obj_int ''{\"n\":-12.50e1}'' ''n'' = Some (-125)"
proof -
  have d: "list_all is_digit ''50''" by code_simp
  have "exp_text (CHR ''e'' # [] @ ''1'')" unfolding exp_text_def
    by (rule disjI2) (intro exI [of _ "CHR ''e''"] exI [of _ "[]"] exI [of _ "''1''"], code_simp)
  moreover have "frac_text (CHR ''.'' # ''50'')" unfolding frac_text_def using d by blast
  moreover have "int_text ''12''" by code_simp
  moreover have "''-12.50e1'' = ''-'' @ ''12'' @ (CHR ''.'' # ''50'') @ (CHR ''e'' # [] @ ''1'')" by simp
  ultimately have n: "number_text ''-12.50e1''" unfolding number_text_def by blast
  have s: "split_number ''-12.50e1'' = Some (''12'', ''50'', 1)" by code_simp
  have v: "digits_value ''1250'' = 1250" by (simp add: digits_value_def digit_val_def)
  have i: "integral 1250 (-1)" "magnitude 1250 (-1) = 125" by (simp_all add: integral_def magnitude_def)
  have dom: "domain_spec 1250 (-1)"
    using i by (simp add: domain_spec_def float64_overflows_def max_safe_def)
  have nd: "number_domain ''-12.50e1''"
    using number_domain_iff [OF n s] dom v by (simp add: int_range_def)
  have p: "plain_members 1 [(''n'', ''-12.50e1'')]"
    using v_number [OF n nd] utf8_number [OF n] printable_ok [of "''n''"] by (simp add: printable_def)
  have "obj_text [(''n'', ''-12.50e1'')] = ''{\"n\":-12.50e1}''"
    by (simp add: obj_text_def pair_text_def append_json_string_def escape_byte_def)
  then have "obj_raw ''{\"n\":-12.50e1}'' ''n'' = Some ''-12.50e1''"
    using object_members_obj_text [OF p] by (simp add: obj_raw_def)
  from safe_integers_are_read_exactly [OF this n s] show ?thesis
    using i dom v by simp
qed

end
