(* ===== verification/Audio.thy ===== *)
theory Audio
  imports Frame JsonNumber
begin

text \<open>
  The audio pair of a session: the 28-byte framing of \<open>pkg/aiiosdk/audio.go\<close>, an instance of
  the same contract as the control frames, and the negotiation of a session's audio at open,
  \<open>pkg/aiiosdk/session_audio.go\<close>. \<open>uint8\<close>, \<open>uint32\<close> and \<open>int64\<close> fields are
  words of their width; the sign of \<open>Start\<close> is only a way to read its 64 bits.
\<close>

section \<open>Audio frames\<close>

record audio_frame =
  a_kind :: "8 word"
  a_stream :: "32 word"
  a_seq :: "32 word"
  a_start :: "64 word"
  a_pcm :: bytes

abbreviation audio_pcm :: "8 word" where "audio_pcm \<equiv> 1"
abbreviation audio_discontinuity :: "8 word" where "audio_discontinuity \<equiv> 2"
abbreviation audio_end :: "8 word" where "audio_end \<equiv> 3"

definition audio_kind_ok :: "8 word \<Rightarrow> bool" where
  "audio_kind_ok k \<longleftrightarrow> k = audio_pcm \<or> k = audio_discontinuity \<or> k = audio_end"

definition max_audio_payload :: nat where
  "max_audio_payload = 64 * 1024"

definition audio_magic :: bytes where
  "audio_magic = ''AUD1''"

text \<open>Go's \<open>/\<close> truncates toward zero; \<open>2 * channels\<close> wraps at 64 bits.\<close>

definition go_div :: "int \<Rightarrow> int \<Rightarrow> int" where
  "go_div a b = sgn a * sgn b * (\<bar>a\<bar> div \<bar>b\<bar>)"

definition samples :: "audio_frame \<Rightarrow> int \<Rightarrow> int" where
  "samples fr channels =
     (let ch = (if channels \<le> 0 then 1 else channels)
      in go_div (int (length (a_pcm fr))) (wrap_int (2 * ch)))"

datatype audio_error =
    AudioBadMagic
  | AudioBadKind
  | AudioFrameTooBig
  | AudioNoPayload "8 word"
  | AudioWriteFailed
  | AudioRead read_error

definition audio_header :: "audio_frame \<Rightarrow> bytes" where
  "audio_header fr =
     audio_magic @ [byte_of (unat (a_kind fr))] @ replicate 3 (CHR 0x00)
     @ put_uint32 (a_stream fr) @ put_uint32 (a_seq fr) @ put_uint64 (a_start fr)
     @ put_uint32 (word_of_nat (length (a_pcm fr)))"

definition write_audio_frame :: "writer \<Rightarrow> audio_frame \<Rightarrow> audio_error option \<times> writer" where
  "write_audio_frame w fr =
     (if a_kind fr \<noteq> audio_pcm \<and> a_kind fr \<noteq> audio_discontinuity \<and> a_kind fr \<noteq> audio_end
      then (Some AudioBadKind, w)
      else if a_kind fr \<noteq> audio_pcm \<and> length (a_pcm fr) \<noteq> 0 then (Some (AudioNoPayload (a_kind fr)), w)
      else if max_audio_payload < length (a_pcm fr) then (Some AudioFrameTooBig, w)
      else (case do_write w (audio_header fr) of
              (False, w1) \<Rightarrow> (Some AudioWriteFailed, w1)
            | (True, w1) \<Rightarrow>
                if 0 < length (a_pcm fr)
                then (case do_write w1 (a_pcm fr) of
                        (False, w2) \<Rightarrow> (Some AudioWriteFailed, w2)
                      | (True, w2) \<Rightarrow> (None, w2))
                else (None, w1)))"

definition read_audio_frame :: "bytes \<Rightarrow> audio_error + audio_frame \<times> bytes" where
  "read_audio_frame s =
     (case read_full 28 s of
        Inl e \<Rightarrow> Inl (AudioRead e)
      | Inr (h, t) \<Rightarrow>
          if take 4 h \<noteq> audio_magic then Inl AudioBadMagic
          else (let kind = word_of_nat (byte_val (h ! 4)) :: 8 word;
                    fr = \<lparr>a_kind = kind, a_stream = get_uint32 (take 4 (drop 8 h)),
                          a_seq = get_uint32 (take 4 (drop 12 h)),
                          a_start = get_uint64 (take 8 (drop 16 h)), a_pcm = []\<rparr>;
                    n = unat (get_uint32 (take 4 (drop 24 h)))
                in if kind \<noteq> audio_pcm \<and> kind \<noteq> audio_discontinuity \<and> kind \<noteq> audio_end
                   then Inl AudioBadKind
                   else if max_audio_payload < n then Inl AudioFrameTooBig
                   else if kind \<noteq> audio_pcm \<and> n \<noteq> 0 then Inl (AudioNoPayload kind)
                   else if 0 < n
                   then (case read_full n t of
                           Inl e \<Rightarrow> Inl (AudioRead UnexpectedEOF)
                         | Inr (pcm, u) \<Rightarrow> Inr (fr\<lparr>a_pcm := pcm\<rparr>, u))
                   else Inr (fr, t)))"

definition audio_put :: "audio_frame \<Rightarrow> bytes option" where
  "audio_put fr =
     (case write_audio_frame empty_writer fr of
        (None, w) \<Rightarrow> Some (w_out w)
      | (Some e, w) \<Rightarrow> None)"

lemma audio_put_eq:
  "audio_put fr = (if audio_kind_ok (a_kind fr) \<and> (a_kind fr \<noteq> audio_pcm \<longrightarrow> a_pcm fr = [])
       \<and> length (a_pcm fr) \<le> max_audio_payload
     then Some (audio_header fr @ a_pcm fr) else None)"
  by (auto simp: audio_put_def write_audio_frame_def audio_kind_ok_def empty_writer_def do_write_def)

lemma length_audio_header [simp]: "length (audio_header fr) = 28"
  by (simp add: audio_header_def audio_magic_def)

lemma audio_kind_byte: "word_of_nat (byte_val (byte_of (unat k))) = (k :: 8 word)"
proof -
  have "unat k < 256" using unsigned_less [of k] by simp
  then show ?thesis by simp
qed

lemma audio_header_fields:
  "take 4 (audio_header fr) = audio_magic"
  "audio_header fr ! 4 = byte_of (unat (a_kind fr))"
  "take 4 (drop 8 (audio_header fr)) = put_uint32 (a_stream fr)"
  "take 4 (drop 12 (audio_header fr)) = put_uint32 (a_seq fr)"
  "take 8 (drop 16 (audio_header fr)) = put_uint64 (a_start fr)"
  "take 4 (drop 24 (audio_header fr)) = put_uint32 (word_of_nat (length (a_pcm fr)))"
  by (simp_all add: audio_header_def audio_magic_def eval_nat_numeral)

lemma audio_length_word:
  "n \<le> max_audio_payload \<Longrightarrow> unat (word_of_nat n :: 32 word) = n"
  by (rule unat_frame_length) (simp add: max_audio_payload_def)

lemma read_audio_frame_put:
  assumes "audio_put fr = Some w"
  shows "read_audio_frame (w @ rest) = Inr (fr, rest)"
proof -
  have p: "audio_kind_ok (a_kind fr)" "a_kind fr \<noteq> audio_pcm \<longrightarrow> a_pcm fr = []"
    "length (a_pcm fr) \<le> max_audio_payload" "w = audio_header fr @ a_pcm fr"
    using assms by (auto simp: audio_put_eq split: if_splits)
  have r: "read_full 28 ((audio_header fr @ a_pcm fr) @ rest) = Inr (audio_header fr, a_pcm fr @ rest)"
    by simp
  have ok: "\<not> (a_kind fr \<noteq> audio_pcm \<and> a_kind fr \<noteq> audio_discontinuity \<and> a_kind fr \<noteq> audio_end)"
    using p(1) by (auto simp: audio_kind_ok_def)
  show ?thesis
    using p(2,3) ok
    unfolding read_audio_frame_def p(4) r sum.case prod.case audio_header_fields audio_kind_byte get_put_uint
      audio_length_word [OF p(3)] Let_def
    by (cases "a_pcm fr = []") auto
qed

lemma read_audio_frame_cut:
  assumes "audio_put fr = Some (a @ b)" "b \<noteq> []"
  shows "\<exists>e. read_audio_frame a = Inl e"
proof -
  have p: "length (a_pcm fr) \<le> max_audio_payload" "a @ b = audio_header fr @ a_pcm fr"
    using assms by (auto simp: audio_put_eq split: if_splits)
  show ?thesis
  proof (cases "length a < 28")
    case True
    then show ?thesis by (simp add: read_audio_frame_def read_full_def)
  next
    case False
    then have "take 28 a = audio_header fr" "drop 28 a @ b = a_pcm fr"
      using arg_cong [OF p(2), of "take 28"] arg_cong [OF p(2), of "drop 28"] by simp_all
    then obtain a' where a: "a = audio_header fr @ a'" "a' @ b = a_pcm fr"
      by (metis append_take_drop_id)
    then have l: "length a' < length (a_pcm fr)" using assms(2) by (metis length_append less_add_same_cancel1 length_greater_0_conv)
    have r: "read_full 28 (audio_header fr @ a') = Inr (audio_header fr, a')" by simp
    have s: "read_full (length (a_pcm fr)) a' = Inl (if a' = [] then EndOfFile else UnexpectedEOF)"
      using l by (simp add: read_full_def)
    show ?thesis
      using l unfolding read_audio_frame_def a(1) r sum.case prod.case audio_header_fields audio_kind_byte
        get_put_uint audio_length_word [OF p(1)] Let_def s by auto
  qed
qed

interpretation audio: framed_stream audio_put read_audio_frame
  by unfold_locales (rule read_audio_frame_put read_audio_frame_cut; assumption)+

section \<open>The audio of a session\<close>

text \<open>
  The three topologies of the code's constants, the fields as they are set on each return, and
  the refusals in the order the code makes them.
\<close>

datatype topology = ControlOnly | Duplex | OutputOnly

record session_format =
  f_rate :: int
  f_channels :: int

definition no_format :: session_format where
  "no_format = \<lparr>f_rate = 0, f_channels = 0\<rparr>"

record session_audio =
  sa_topology :: topology
  sa_input_handle :: bytes
  sa_output_handle :: bytes
  sa_input :: session_format
  sa_output :: session_format

datatype open_refusal =
    HandlesWithoutAudio
  | FormatNotS16le
  | DirectionIncomplete bytes
  | OutputRequired
  | NoOutputHandle
  | InputMissing
  | InputHandleOnOutputOnly
  | NoInputHandle

definition has_input :: "session_audio \<Rightarrow> bool" where
  "has_input a \<longleftrightarrow> sa_topology a = Duplex"

definition direction_format :: "bytes \<Rightarrow> bytes \<Rightarrow> open_refusal + session_format option" where
  "direction_format au name =
     (case obj_raw au name of
        None \<Rightarrow> Inr None
      | Some raw \<Rightarrow>
          if raw = ''null'' then Inr None
          else (case (obj_int raw ''rate'', obj_int raw ''channels'') of
                  (Some rate, Some ch) \<Rightarrow>
                    if rate \<le> 0 \<or> ch \<le> 0 then Inl (DirectionIncomplete name)
                    else Inr (Some \<lparr>f_rate = rate, f_channels = ch\<rparr>)
                | _ \<Rightarrow> Inl (DirectionIncomplete name)))"

text \<open>A reader's string is the empty one when the member is absent or no string, as in Go.\<close>

definition string_or_empty :: "bytes \<Rightarrow> bytes \<Rightarrow> bytes" where
  "string_or_empty ob key = (case obj_string ob key of None \<Rightarrow> [] | Some s \<Rightarrow> s)"

definition parse_input :: "bytes \<Rightarrow> bytes \<Rightarrow> bytes \<Rightarrow> session_format \<Rightarrow> open_refusal + session_audio" where
  "parse_input args au out_handle output =
     (if \<not> obj_has au ''input'' then Inl InputMissing
      else (case direction_format au ''input'' of
              Inl e \<Rightarrow> Inl e
            | Inr None \<Rightarrow>
                if obj_has args ''input_handle'' then Inl InputHandleOnOutputOnly
                else Inr \<lparr>sa_topology = OutputOnly, sa_input_handle = [], sa_output_handle = out_handle,
                          sa_input = no_format, sa_output = output\<rparr>
            | Inr (Some input) \<Rightarrow>
                (let in_handle = string_or_empty args ''input_handle''
                 in if in_handle = [] then Inl NoInputHandle
                    else Inr \<lparr>sa_topology = Duplex, sa_input_handle = in_handle,
                              sa_output_handle = out_handle, sa_input = input, sa_output = output\<rparr>)))"

definition parse_session_audio :: "bytes \<Rightarrow> open_refusal + session_audio" where
  "parse_session_audio args =
     (case obj_raw args ''audio'' of
        None \<Rightarrow>
          if obj_has args ''input_handle'' \<or> obj_has args ''output_handle'' then Inl HandlesWithoutAudio
          else Inr \<lparr>sa_topology = ControlOnly, sa_input_handle = [], sa_output_handle = [],
                    sa_input = no_format, sa_output = no_format\<rparr>
      | Some au \<Rightarrow>
          if obj_has au ''format'' \<and> obj_string au ''format'' \<noteq> Some ''s16le'' then Inl FormatNotS16le
          else (case direction_format au ''output'' of
                  Inl e \<Rightarrow> Inl e
                | Inr None \<Rightarrow> Inl OutputRequired
                | Inr (Some output) \<Rightarrow>
                    (let out_handle = string_or_empty args ''output_handle''
                     in if out_handle = [] then Inl NoOutputHandle
                        else parse_input args au out_handle output)))"

text \<open>\<open>Admission\<close>: the negotiated formats as the result of open; no map for a session with no audio.\<close>

definition format_value :: "session_format \<Rightarrow> goval" where
  "format_value f = GMap [(''rate'', GInt (f_rate f)), (''channels'', GInt (f_channels f))]"

definition admission :: "session_audio \<Rightarrow> session_format \<Rightarrow> session_format \<Rightarrow> goval option" where
  "admission a input output =
     (case sa_topology a of
        Duplex \<Rightarrow> Some (GMap [(''input'', format_value input), (''output'', format_value output)])
      | OutputOnly \<Rightarrow> Some (GMap [(''input'', GNil), (''output'', format_value output)])
      | ControlOnly \<Rightarrow> None)"

definition format_ok :: "session_format \<Rightarrow> bool" where
  "format_ok f \<longleftrightarrow> 0 < f_rate f \<and> 0 < f_channels f"

text \<open>What a session that open admitted looks like: a direction has a format exactly when it has
  a handle, and the topology says which directions there are.\<close>

definition audio_coherent :: "session_audio \<Rightarrow> bool" where
  "audio_coherent a \<longleftrightarrow>
     (case sa_topology a of
        ControlOnly \<Rightarrow> sa_input_handle a = [] \<and> sa_output_handle a = []
          \<and> sa_input a = no_format \<and> sa_output a = no_format
      | OutputOnly \<Rightarrow> sa_input_handle a = [] \<and> sa_input a = no_format
          \<and> sa_output_handle a \<noteq> [] \<and> format_ok (sa_output a)
      | Duplex \<Rightarrow> sa_input_handle a \<noteq> [] \<and> format_ok (sa_input a)
          \<and> sa_output_handle a \<noteq> [] \<and> format_ok (sa_output a))"

lemma direction_format_ok: "direction_format au name = Inr (Some f) \<Longrightarrow> format_ok f"
  by (auto simp: direction_format_def format_ok_def split: option.splits if_splits)

lemma parse_input_coherent:
  "parse_input args au h out = Inr a \<Longrightarrow> h \<noteq> [] \<Longrightarrow> format_ok out \<Longrightarrow>
     audio_coherent a \<and> sa_output_handle a = h \<and> sa_output a = out"
  using direction_format_ok
  by (auto simp: parse_input_def audio_coherent_def Let_def split: sum.splits option.splits if_splits)

lemma parse_coherent: "parse_session_audio args = Inr a \<Longrightarrow> audio_coherent a"
  using parse_input_coherent direction_format_ok
  by (auto simp: parse_session_audio_def audio_coherent_def Let_def
      split: sum.splits option.splits if_splits)

text \<open>A session never has input that its open did not name: no audio, no handles; no input format,
  no input handle.\<close>

lemma parse_handles:
  assumes "parse_session_audio args = Inr a"
  shows "obj_has args ''input_handle'' \<longleftrightarrow> has_input a"
proof (cases "obj_raw args ''audio''")
  case None
  then show ?thesis using assms
    by (auto simp: parse_session_audio_def has_input_def split: if_splits)
next
  case (Some au)
  then obtain h out where p: "parse_input args au h out = Inr a"
    using assms by (auto simp: parse_session_audio_def Let_def split: if_splits sum.splits option.splits)
  have "string_or_empty args ''input_handle'' = []" if "\<not> obj_has args ''input_handle''"
    using that by (simp add: string_or_empty_def obj_string_def obj_has_def decode_json_string_opt_def)
  then show ?thesis using p
    by (auto simp: parse_input_def has_input_def Let_def split: if_splits sum.splits option.splits)
qed

section \<open>The properties of the audio of a session\<close>

text \<open>audio frames written one after the other are read back exactly, kind, stream, sequence
  number, position and samples, with whatever follows left unread; and a stream cut inside a frame
  ends in an error, never in a frame with fewer samples.\<close>

theorem audio_frames_round_trip:
  assumes "list_all2 (\<lambda>fr w. write_audio_frame empty_writer fr = (None, w)) frames writers"
    "write_audio_frame empty_writer fr = (None, w)" "w_out w = a @ b" "b \<noteq> []"
  shows "read_many read_audio_frame (length frames) (concat (map w_out writers) @ rest) = Inr (frames, rest)
    \<and> (\<exists>e. read_many read_audio_frame (Suc (length frames)) (concat (map w_out writers) @ a) = Inl e)"
proof -
  have put: "list_all2 (\<lambda>m w. audio_put m = Some w) frames (map w_out writers)"
    using assms(1) by (simp add: list_all2_map2 audio_put_def list_all2_mono)
  then show ?thesis
    using audio.read_back [OF put] audio.cut_stream [OF put, of fr a b] assms(2-4)
    by (simp add: audio_put_def)
qed

theorem audio_frames_round_trip_witness:
  "let fr = \<lparr>a_kind = audio_pcm, a_stream = 7, a_seq = 1, a_start = - 480, a_pcm = ''ab''\<rparr>
   in read_many read_audio_frame 1 ((audio_header fr @ ''ab'') @ ''x'') = Inr ([fr], ''x'')"
proof -
  define fr where "fr = \<lparr>a_kind = audio_pcm, a_stream = 7, a_seq = 1, a_start = - 480, a_pcm = ''ab''\<rparr>"
  have w: "write_audio_frame empty_writer fr = (None, \<lparr>w_out = audio_header fr @ ''ab'', w_left = None\<rparr>)"
    by (simp add: write_audio_frame_def fr_def empty_writer_def do_write_def max_audio_payload_def)
  then have "list_all2 (\<lambda>fr w. write_audio_frame empty_writer fr = (None, w)) [fr]
    [\<lparr>w_out = audio_header fr @ ''ab'', w_left = None\<rparr>]" by simp
  from audio_frames_round_trip [OF this w, of "audio_header fr" "''ab''" "''x''"] show ?thesis
    by (simp add: fr_def Let_def del: read_many.simps)
qed

text \<open>an open that is accepted is coherent: the topology, the handles and the formats agree, a
  duplex session has both directions with positive rates and channel counts, and an input handle
  is present in the arguments exactly when the session has input, so no session silently ignores
  an endpoint it was handed.\<close>

theorem accepted_audio_is_coherent:
  assumes "parse_session_audio args = Inr a"
  shows "audio_coherent a \<and> (obj_has args ''input_handle'' \<longleftrightarrow> has_input a)
    \<and> (admission a f g = None \<longleftrightarrow> sa_topology a = ControlOnly)"
  using parse_coherent [OF assms] parse_handles [OF assms]
  by (simp add: admission_def split: topology.splits)

theorem accepted_audio_is_coherent_witness:
  "let fmt = obj_text [(''rate'', itoa 16000), (''channels'', itoa 1)];
       args = obj_text [(''audio'', obj_text [(''output'', fmt), (''input'', fmt)]),
         (''output_handle'', append_json_string ''o''), (''input_handle'', append_json_string ''i'')]
   in (case parse_session_audio args of Inl e \<Rightarrow> False | Inr a \<Rightarrow> audio_coherent a \<and> has_input a)"
proof -
  define fmt where "fmt = obj_text [(''rate'', itoa 16000), (''channels'', itoa 1)]"
  define au where "au = obj_text [(''output'', fmt), (''input'', fmt)]"
  define args where "args = obj_text [(''audio'', au), (''output_handle'', append_json_string ''o''),
    (''input_handle'', append_json_string ''i'')]"
  have k: "json_text_ok s \<and> no_nul s \<and> utf8_valid s"
    if "s \<in> {''rate'', ''channels'', ''output'', ''input'', ''audio'', ''output_handle'', ''input_handle'', ''o'', ''i''}" for s
    using that printable_ok by (elim insertE) (simp_all add: printable_def)
  have pf: "plain_members (Suc 2) [(''rate'', itoa 16000), (''channels'', itoa 1)]"
    using k vtext_itoa by (simp add: max_safe_def)
  then have pa: "plain_members (Suc 1) [(''output'', fmt), (''input'', fmt)]"
    using k obj_text_grammar [OF pf] by (simp add: fmt_def max_scan_depth_def numeral_2_eq_2)
  then have pg: "plain_members 1 [(''audio'', au), (''output_handle'', append_json_string ''o''),
      (''input_handle'', append_json_string ''i'')]"
    using k obj_text_grammar [OF pa] by (simp add: au_def max_scan_depth_def)
  note raw = obj_raw_obj_text [OF pf, folded fmt_def] obj_raw_obj_text [OF pa, folded au_def]
    obj_raw_obj_text [OF pg, folded args_def]
  have i: "obj_int fmt ''rate'' = Some 16000" "obj_int fmt ''channels'' = Some 1"
    using obj_int_itoa [of fmt _ 16000] obj_int_itoa [of fmt _ 1] raw(1) by (simp_all add: int_range_def)
  have d: "decode_json_string (append_json_string s) = Some s" if "s = ''o'' \<or> s = ''i''" for s
    using k [of s] that by (auto simp: decode_append_json_string)
  have nn: "fmt \<noteq> ''null''" by (simp add: fmt_def obj_text_def)
  have p: "parse_session_audio args = Inr \<lparr>sa_topology = Duplex, sa_input_handle = ''i'', sa_output_handle = ''o'',
      sa_input = \<lparr>f_rate = 16000, f_channels = 1\<rparr>, sa_output = \<lparr>f_rate = 16000, f_channels = 1\<rparr>\<rparr>"
    using d nn by (simp add: parse_session_audio_def obj_has_def raw obj_string_def decode_json_string_opt_def
        direction_format_def i parse_input_def string_or_empty_def)
  from accepted_audio_is_coherent [OF p] p show ?thesis
    by (simp add: Let_def args_def au_def fmt_def has_input_def)
qed

end
