(* ===== verification/Session.thy ===== *)
theory Session
  imports Frame
begin

text \<open>
  The resident session lane of \<open>pkg/aiiosdk/session.go\<close>: one bounded outbound queue with one
  writer goroutine, host calls waiting for their replies, admissions that hold a slot until their
  answer has left the queue, and the end of the lane. Each definition below is one critical
  section of the code (the body under a mutex, a compare-and-swap, one branch of a \<open>select\<close>,
  one write) as a function on the lane's state; \<open>lane_step\<close> interleaves them freely.

  An accepted frame is known by the sequence number \<open>tryEnqueue\<close> gives it, a host call by its id.
  \<open>outChanged\<close> only wakes waiters, who look again: a waiter here may look again at any
  moment. \<open>tx_log\<close> is not in the code: it lists the sequence numbers of the frames the transport
  took whole. \<open>setFault\<close>'s two critical sections are one step.
\<close>

section \<open>The state of a lane\<close>

datatype write_verdict = WroteOk | NotSentVerdict | WriteErr

record outbound =
  ob_frame :: bytes
  ob_claimed :: bool
  ob_done :: "write_verdict option"
  ob_admission :: bool

datatype writer_at =
    WIdle
  | WTaken nat
  | WReleased nat
  | WClaimed nat
  | WChecked nat
  | WAfter nat bool
  | WRetired

datatype call_outcome = Replied bytes | NotSent | OutcomeUnknown

datatype call_state =
    CallNone
  | CallRegistered
  | CallQueued nat
  | CallSent nat
  | CallDone "nat option" call_outcome

datatype control_state = CWaiting | CAnswering | CAnswered

datatype lane_fault = WriteFault | AdmissionFault | OtherFault

record session =
  out_q :: "nat list"
  obs :: "nat \<Rightarrow> outbound"
  queued :: nat
  wrote :: nat
  out_closed :: bool
  closed :: bool
  settled :: bool
  lane :: bool
  fault :: "lane_fault option"
  admission_slots :: nat
  writer_state :: writer_at
  tx :: writer
  tx_log :: "nat list"
  next_id :: nat
  pending :: "(nat \<times> bytes option) list"
  calls :: "nat \<Rightarrow> call_state"
  controls :: "control_state list"

definition session_admit_queue :: nat where
  "session_admit_queue = 64"

definition session_max_pending :: nat where
  "session_max_pending = 64"

definition session_out_queue :: nat where
  "session_out_queue = 64 + session_admit_queue"

definition no_outbound :: outbound where
  "no_outbound = \<lparr>ob_frame = [], ob_claimed = False, ob_done = None, ob_admission = False\<rparr>"

text \<open>A session as \<open>serveSession\<close> starts it (\<open>is_lane\<close>), or one with no retirement to
  settle, whose \<open>settledCh\<close> is closed from the start.\<close>

definition start_session :: "bool \<Rightarrow> writer \<Rightarrow> session" where
  "start_session is_lane w =
     \<lparr>out_q = [], obs = (\<lambda>_. no_outbound), queued = 0, wrote = 0, out_closed = False, closed = False,
      settled = (\<not> is_lane), lane = is_lane, fault = None, admission_slots = 0, writer_state = WIdle,
      tx = w, tx_log = [], next_id = 0, pending = [], calls = (\<lambda>_. CallNone), controls = []\<rparr>"

section \<open>Ending\<close>

definition end_lane :: "session \<Rightarrow> session" where
  "end_lane s = (if closed s then s else s\<lparr>closed := True, out_closed := out_closed s \<or> \<not> lane s\<rparr>)"

definition set_fault :: "lane_fault \<Rightarrow> session \<Rightarrow> session" where
  "set_fault e s = end_lane (if fault s = None then s\<lparr>fault := Some e\<rparr> else s)"

text \<open>After the admission worker is done: nothing more is accepted.\<close>

definition settle :: "session \<Rightarrow> session" where
  "settle s = s\<lparr>out_closed := True, settled := True\<rparr>"

section \<open>The outbound queue\<close>

datatype enqueue_result = Enqueued nat | RefusedNotSent | RefusedFull

definition try_enqueue :: "bool \<Rightarrow> bytes \<Rightarrow> session \<Rightarrow> enqueue_result \<times> session" where
  "try_enqueue admission frame s =
     (if out_closed s \<or> fault s \<noteq> None then (RefusedNotSent, s)
      else if \<not> admission \<and> closed s then (RefusedNotSent, s)
      else if \<not> admission \<and> session_out_queue - session_admit_queue \<le> length (out_q s) then (RefusedFull, s)
      else if length (out_q s) < session_out_queue
      then (Enqueued (queued s + 1),
            s\<lparr>out_q := out_q s @ [queued s + 1], queued := queued s + 1,
              obs := (obs s)(queued s + 1 := \<lparr>ob_frame = frame, ob_claimed = False, ob_done = None,
                                              ob_admission = admission\<rparr>)\<rparr>)
      else (RefusedFull, s))"

definition emit :: "bytes \<Rightarrow> session \<Rightarrow> session" where
  "emit frame s = snd (try_enqueue False frame s)"

section \<open>The writer\<close>

definition finish_ob :: "nat \<Rightarrow> write_verdict \<Rightarrow> session \<Rightarrow> session" where
  "finish_ob k v s = s\<lparr>obs := (obs s)(k := (obs s k)\<lparr>ob_done := Some v\<rparr>)\<rparr>"

definition claim_ob :: "nat \<Rightarrow> session \<Rightarrow> session" where
  "claim_ob k s = s\<lparr>obs := (obs s)(k := (obs s k)\<lparr>ob_claimed := True\<rparr>)\<rparr>"

text \<open>
  The writer goroutine, one step at a time: take a frame, release its admission slot, claim it,
  look at the fault, write, record the progress. It retires when the lane has ended, settled and
  the queue is empty.
\<close>

definition writer_step :: "session \<Rightarrow> session" where
  "writer_step s =
     (case writer_state s of
        WIdle \<Rightarrow>
          (case out_q s of
             k # q \<Rightarrow> s\<lparr>out_q := q, writer_state := WTaken k\<rparr>
           | [] \<Rightarrow> if closed s \<and> settled s then s\<lparr>writer_state := WRetired\<rparr> else s)
      | WTaken k \<Rightarrow>
          (if ob_admission (obs s k)
           then s\<lparr>admission_slots := admission_slots s - 1, writer_state := WReleased k\<rparr>
           else s\<lparr>writer_state := WReleased k\<rparr>)
      | WReleased k \<Rightarrow>
          (if ob_claimed (obs s k) then s\<lparr>writer_state := WAfter k True\<rparr>
           else claim_ob k (s\<lparr>writer_state := WClaimed k\<rparr>))
      | WClaimed k \<Rightarrow>
          (if fault s \<noteq> None then finish_ob k NotSentVerdict (s\<lparr>writer_state := WAfter k False\<rparr>)
           else s\<lparr>writer_state := WChecked k\<rparr>)
      | WChecked k \<Rightarrow>
          (case write_frame (tx s) (ob_frame (obs s k)) control_limit of
             (None, w) \<Rightarrow>
               finish_ob k WroteOk (s\<lparr>tx := w, tx_log := tx_log s @ [k], writer_state := WAfter k True\<rparr>)
           | (Some e, w) \<Rightarrow>
               finish_ob k WriteErr (set_fault WriteFault (s\<lparr>tx := w, writer_state := WAfter k False\<rparr>)))
      | WAfter k owed_nothing \<Rightarrow>
          s\<lparr>wrote := (if owed_nothing \<and> wrote s + 1 = k then k else wrote s), writer_state := WIdle\<rparr>
      | WRetired \<Rightarrow> s)"

text \<open>One look of \<open>Flush\<close>, which took its target from \<open>queued\<close>.\<close>

datatype flush_result = Flushed | FlushEnded nat | FlushWait

definition flush_look :: "nat \<Rightarrow> session \<Rightarrow> flush_result" where
  "flush_look target s =
     (if target \<le> wrote s then Flushed
      else if fault s \<noteq> None then FlushEnded (target - wrote s)
      else if closed s then FlushEnded (target - wrote s)
      else FlushWait)"

section \<open>Admissions\<close>

definition admit_one :: "session \<Rightarrow> session" where
  "admit_one s =
     (if admission_slots s < session_admit_queue
      then s\<lparr>admission_slots := admission_slots s + 1, controls := controls s @ [CWaiting]\<rparr>
      else set_fault AdmissionFault s)"

definition answer_begin :: "nat \<Rightarrow> session \<Rightarrow> session" where
  "answer_begin i s =
     (if i < length (controls s) \<and> controls s ! i = CWaiting
      then s\<lparr>controls := (controls s)[i := CAnswering]\<rparr> else s)"

definition answer_send :: "nat \<Rightarrow> bytes \<Rightarrow> session \<Rightarrow> session" where
  "answer_send i frame s =
     (if i < length (controls s) \<and> controls s ! i = CAnswering
      then (case try_enqueue True frame s of
              (Enqueued k, s1) \<Rightarrow> s1\<lparr>controls := (controls s1)[i := CAnswered]\<rparr>
            | (RefusedNotSent, s1) \<Rightarrow>
                s1\<lparr>controls := (controls s1)[i := CAnswered], admission_slots := admission_slots s1 - 1\<rparr>
            | (RefusedFull, s1) \<Rightarrow>
                set_fault AdmissionFault
                  (s1\<lparr>controls := (controls s1)[i := CAnswered], admission_slots := admission_slots s1 - 1\<rparr>))
      else s)"

section \<open>Host calls\<close>

definition call_begin :: "session \<Rightarrow> session" where
  "call_begin s =
     (if session_max_pending \<le> length (pending s) then s
      else s\<lparr>next_id := next_id s + 1, pending := pending s @ [(next_id s + 1, None)],
             calls := (calls s)(next_id s + 1 := CallRegistered)\<rparr>)"

text \<open>The deferred delete, with the value the call returns.\<close>

definition call_return :: "nat \<Rightarrow> nat option \<Rightarrow> call_outcome \<Rightarrow> session \<Rightarrow> session" where
  "call_return i k v s =
     s\<lparr>pending := filter (\<lambda>p. fst p \<noteq> i) (pending s), calls := (calls s)(i := CallDone k v)\<rparr>"

definition call_enqueue :: "nat \<Rightarrow> bytes \<Rightarrow> session \<Rightarrow> session" where
  "call_enqueue i frame s =
     (if calls s i = CallRegistered
      then (case try_enqueue False frame s of
              (Enqueued k, s1) \<Rightarrow> s1\<lparr>calls := (calls s1)(i := CallQueued k)\<rparr>
            | (RefusedNotSent, s1) \<Rightarrow> call_return i None NotSent s1
            | (RefusedFull, s1) \<Rightarrow> s1)
      else s)"

text \<open>Cancelled, or the lane ended, while waiting for room in the queue.\<close>

definition call_cancel_early :: "nat \<Rightarrow> session \<Rightarrow> session" where
  "call_cancel_early i s = (if calls s i = CallRegistered then call_return i None NotSent s else s)"

definition call_written :: "nat \<Rightarrow> session \<Rightarrow> session" where
  "call_written i s =
     (case calls s i of
        CallQueued k \<Rightarrow>
          (case ob_done (obs s k) of
             None \<Rightarrow> s
           | Some WroteOk \<Rightarrow> s\<lparr>calls := (calls s)(i := CallSent k)\<rparr>
           | Some NotSentVerdict \<Rightarrow> call_return i (Some k) NotSent s
           | Some WriteErr \<Rightarrow> call_return i (Some k) OutcomeUnknown s)
      | _ \<Rightarrow> s)"

text \<open>Cancelled, or the lane ended, with the frame in the queue or in the writer's hands.\<close>

definition call_abandon :: "nat \<Rightarrow> session \<Rightarrow> session" where
  "call_abandon i s =
     (case calls s i of
        CallQueued k \<Rightarrow>
          (if \<not> ob_claimed (obs s k) then call_return i (Some k) NotSent (claim_ob k s)
           else call_return i (Some k) OutcomeUnknown s)
      | _ \<Rightarrow> s)"

definition call_reply :: "nat \<Rightarrow> session \<Rightarrow> session" where
  "call_reply i s =
     (case calls s i of
        CallSent k \<Rightarrow>
          (case map_of (pending s) i of
             Some (Some r) \<Rightarrow> call_return i (Some k) (Replied r) s
           | _ \<Rightarrow> s)
      | _ \<Rightarrow> s)"

definition call_give_up :: "nat \<Rightarrow> session \<Rightarrow> session" where
  "call_give_up i s =
     (case calls s i of
        CallSent k \<Rightarrow> call_return i (Some k) OutcomeUnknown s
      | _ \<Rightarrow> s)"

text \<open>\<open>deliverReply\<close>: into the call's buffer of one, dropped when there is none or it is full.\<close>

definition deliver_reply :: "nat \<Rightarrow> bytes \<Rightarrow> session \<Rightarrow> session" where
  "deliver_reply i r s =
     s\<lparr>pending := map (\<lambda>(j, b). (j, if j = i \<and> b = None then Some r else b)) (pending s)\<rparr>"

section \<open>The lane\<close>

inductive lane_step :: "session \<Rightarrow> session \<Rightarrow> bool" where
  step_emit: "lane_step s (emit frame s)"
| step_writer: "lane_step s (writer_step s)"
| step_end: "lane_step s (end_lane s)"
| step_fault: "lane_step s (set_fault e s)"
| step_settle: "closed s \<Longrightarrow> lane s \<Longrightarrow> lane_step s (settle s)"
| step_admit: "lane_step s (admit_one s)"
| step_answer_begin: "lane_step s (answer_begin i s)"
| step_answer_send: "lane_step s (answer_send i frame s)"
| step_call_begin: "lane_step s (call_begin s)"
| step_call_enqueue: "lane_step s (call_enqueue i frame s)"
| step_call_cancel_early: "lane_step s (call_cancel_early i s)"
| step_call_written: "lane_step s (call_written i s)"
| step_call_abandon: "lane_step s (call_abandon i s)"
| step_call_reply: "lane_step s (call_reply i s)"
| step_call_give_up: "lane_step s (call_give_up i s)"
| step_deliver: "lane_step s (deliver_reply i r s)"

inductive lane_reach :: "session \<Rightarrow> bool" where
  reach_start: "lane_reach (start_session is_lane w)"
| reach_step: "lane_reach s \<Longrightarrow> lane_step s t \<Longrightarrow> lane_reach t"

inductive_cases lane_stepE: "lane_step s t"

inductive_simps lane_step_simps: "lane_step s t"

lemmas lane_ops = emit_def end_lane_def set_fault_def settle_def admit_one_def answer_begin_def
  answer_send_def call_begin_def call_enqueue_def call_cancel_early_def call_written_def
  call_abandon_def call_reply_def call_give_up_def deliver_reply_def call_return_def try_enqueue_def

lemmas lane_splits = if_splits option.splits call_state.splits write_verdict.splits prod.splits
  enqueue_result.splits

section \<open>The shape of the queue\<close>

declare upt_Suc [simp del]

lemma lane_invariant:
  assumes "lane_reach s" "\<And>l w. P (start_session l w)"
    "\<And>s t. lane_reach s \<Longrightarrow> P s \<Longrightarrow> lane_step s t \<Longrightarrow> P t"
  shows "P s"
  using assms(1) by (induction rule: lane_reach.induct) (use assms(2,3) in blast)+

lemma start_simps [simp]:
  "out_q (start_session l w) = []" "obs (start_session l w) = (\<lambda>_. no_outbound)"
  "queued (start_session l w) = 0" "wrote (start_session l w) = 0" "closed (start_session l w) = False"
  "fault (start_session l w) = None" "admission_slots (start_session l w) = 0"
  "writer_state (start_session l w) = WIdle" "tx_log (start_session l w) = []"
  "pending (start_session l w) = []" "calls (start_session l w) = (\<lambda>_. CallNone)"
  "controls (start_session l w) = []" "out_closed (start_session l w) = False"
  "settled (start_session l w) = (\<not> l)" "lane (start_session l w) = l"
  by (simp_all add: start_session_def)

lemma end_lane_fields [simp]:
  "out_q (end_lane s) = out_q s" "obs (end_lane s) = obs s" "queued (end_lane s) = queued s"
  "wrote (end_lane s) = wrote s" "admission_slots (end_lane s) = admission_slots s"
  "writer_state (end_lane s) = writer_state s" "tx_log (end_lane s) = tx_log s"
  "pending (end_lane s) = pending s" "calls (end_lane s) = calls s" "controls (end_lane s) = controls s"
  "closed (end_lane s)" "settled (end_lane s) = settled s" "lane (end_lane s) = lane s"
  "fault (end_lane s) = fault s"
  by (simp_all add: end_lane_def)

lemma set_fault_fields [simp]:
  "out_q (set_fault e s) = out_q s" "obs (set_fault e s) = obs s" "queued (set_fault e s) = queued s"
  "wrote (set_fault e s) = wrote s" "admission_slots (set_fault e s) = admission_slots s"
  "writer_state (set_fault e s) = writer_state s" "tx_log (set_fault e s) = tx_log s"
  "pending (set_fault e s) = pending s" "calls (set_fault e s) = calls s"
  "controls (set_fault e s) = controls s" "closed (set_fault e s)" "settled (set_fault e s) = settled s"
  "lane (set_fault e s) = lane s" "fault (set_fault e s) \<noteq> None"
  by (auto simp: set_fault_def)

text \<open>What an enqueue does: nothing, or one frame at the end of the queue under the next number.\<close>

lemma try_enqueue_cases:
  assumes "try_enqueue a f s = (r, t)"
  obtains "t = s" "r = RefusedNotSent \<or> r = RefusedFull"
  | "r = Enqueued (queued s + 1)" "\<not> out_closed s" "fault s = None" "\<not> a \<longrightarrow> \<not> closed s \<and> length (out_q s) < 64"
    "length (out_q s) < session_out_queue"
    "t = s\<lparr>out_q := out_q s @ [queued s + 1], queued := queued s + 1,
           obs := (obs s)(queued s + 1 := \<lparr>ob_frame = f, ob_claimed = False, ob_done = None, ob_admission = a\<rparr>)\<rparr>"
proof (cases "out_closed s \<or> fault s \<noteq> None \<or> (\<not> a \<and> (closed s \<or> 64 \<le> length (out_q s)))
    \<or> session_out_queue \<le> length (out_q s)")
  case True
  then have "t = s \<and> (r = RefusedNotSent \<or> r = RefusedFull)"
    using assms by (auto simp: try_enqueue_def session_out_queue_def session_admit_queue_def split: if_splits)
  then show ?thesis using that(1) by blast
next
  case False
  then show ?thesis using assms
    by (intro that(2)) (auto simp: try_enqueue_def session_out_queue_def session_admit_queue_def)
qed

lemma try_enqueue_other [simp]:
  "wrote (snd (try_enqueue a f s)) = wrote s" "writer_state (snd (try_enqueue a f s)) = writer_state s"
  "tx_log (snd (try_enqueue a f s)) = tx_log s" "calls (snd (try_enqueue a f s)) = calls s"
  "pending (snd (try_enqueue a f s)) = pending s" "controls (snd (try_enqueue a f s)) = controls s"
  "admission_slots (snd (try_enqueue a f s)) = admission_slots s" "closed (snd (try_enqueue a f s)) = closed s"
  "out_closed (snd (try_enqueue a f s)) = out_closed s" "settled (snd (try_enqueue a f s)) = settled s"
  "lane (snd (try_enqueue a f s)) = lane s" "fault (snd (try_enqueue a f s)) = fault s"
  by (auto simp: try_enqueue_def)

definition in_hand :: "session \<Rightarrow> nat list" where
  "in_hand s =
     (case writer_state s of
        WTaken k \<Rightarrow> [k] | WReleased k \<Rightarrow> [k] | WClaimed k \<Rightarrow> [k] | WChecked k \<Rightarrow> [k] | WAfter k _ \<Rightarrow> [k]
      | _ \<Rightarrow> [])"

text \<open>
  \<open>queue_part\<close> is the part of the state the queue and the writer own. Every step is one of: an
  enqueue, a step of the writer, or one that leaves that part alone but for claims of frames.
\<close>

definition inv_queue :: "session \<Rightarrow> bool" where
  "inv_queue s \<longleftrightarrow> (\<exists>n \<le> queued s. in_hand s @ out_q s = [Suc n..<Suc (queued s)])"

lemma inv_queue_cong:
  "out_q t = out_q s \<Longrightarrow> queued t = queued s \<Longrightarrow> writer_state t = writer_state s \<Longrightarrow> inv_queue t = inv_queue s"
  by (simp add: inv_queue_def in_hand_def)

lemma inv_queue_enqueue:
  assumes "inv_queue s"
  shows "inv_queue (snd (try_enqueue a f s))"
proof -
  obtain r t where e: "try_enqueue a f s = (r, t)" by (cases "try_enqueue a f s")
  from e show ?thesis
  proof (cases rule: try_enqueue_cases)
    case 2
    obtain n where n: "n \<le> queued s" "in_hand s @ out_q s = [Suc n..<Suc (queued s)]"
      using assms by (auto simp: inv_queue_def)
    have "in_hand t = in_hand s" using 2 by (simp add: in_hand_def)
    moreover have "in_hand s @ out_q s @ [queued s + 1] = [Suc n..<Suc (queued s + 1)]"
      using n upt_Suc_append [of "Suc n" "Suc (queued s)"] by simp
    ultimately show ?thesis using 2 e n(1) by (auto simp: inv_queue_def intro!: exI [of _ n])
  qed (use assms e in simp)
qed

lemma emit_eq [simp]: "emit f s = snd (try_enqueue False f s)"
  by (simp add: emit_def)

lemma writer_step_cases:
  obtains (stay) "writer_step s = s"
  | (take) k q where "writer_state s = WIdle" "out_q s = k # q"
      "writer_step s = s\<lparr>out_q := q, writer_state := WTaken k\<rparr>"
  | (retire) "writer_state s = WIdle" "out_q s = []" "closed s" "settled s"
      "writer_step s = s\<lparr>writer_state := WRetired\<rparr>"
  | (release) k where "writer_state s = WTaken k" "ob_admission (obs s k)"
      "writer_step s = s\<lparr>admission_slots := admission_slots s - 1, writer_state := WReleased k\<rparr>"
  | (pass) k where "writer_state s = WTaken k" "\<not> ob_admission (obs s k)"
      "writer_step s = s\<lparr>writer_state := WReleased k\<rparr>"
  | (withdrawn) k where "writer_state s = WReleased k" "ob_claimed (obs s k)"
      "writer_step s = s\<lparr>writer_state := WAfter k True\<rparr>"
  | (claim) k where "writer_state s = WReleased k" "\<not> ob_claimed (obs s k)"
      "writer_step s = claim_ob k (s\<lparr>writer_state := WClaimed k\<rparr>)"
  | (faulted) k where "writer_state s = WClaimed k" "fault s \<noteq> None"
      "writer_step s = finish_ob k NotSentVerdict (s\<lparr>writer_state := WAfter k False\<rparr>)"
  | (check) k where "writer_state s = WClaimed k" "fault s = None"
      "writer_step s = s\<lparr>writer_state := WChecked k\<rparr>"
  | (wrote) k w where "writer_state s = WChecked k"
      "write_frame (tx s) (ob_frame (obs s k)) control_limit = (None, w)"
      "writer_step s = finish_ob k WroteOk (s\<lparr>tx := w, tx_log := tx_log s @ [k], writer_state := WAfter k True\<rparr>)"
  | (failed) k e w where "writer_state s = WChecked k"
      "write_frame (tx s) (ob_frame (obs s k)) control_limit = (Some e, w)"
      "writer_step s = finish_ob k WriteErr (set_fault WriteFault (s\<lparr>tx := w, writer_state := WAfter k False\<rparr>))"
  | (progress) k owed where "writer_state s = WAfter k owed"
      "writer_step s = s\<lparr>wrote := (if owed \<and> wrote s + 1 = k then k else wrote s), writer_state := WIdle\<rparr>"
proof (cases "writer_state s")
  case WIdle
  note w = this
  show ?thesis
  proof (cases "out_q s")
    case Nil
    show ?thesis
    proof (cases "closed s \<and> settled s")
      case True
      with w Nil show ?thesis by (intro retire) (simp_all add: writer_step_def)
    next
      case False
      with w Nil show ?thesis by (intro stay) (auto simp: writer_step_def)
    qed
  next
    case (Cons k q)
    with w show ?thesis by (intro take) (simp_all add: writer_step_def)
  qed
next
  case (WTaken k)
  note w = this
  show ?thesis
  proof (cases "ob_admission (obs s k)")
    case True
    with w show ?thesis by (intro release [of k]) (simp_all add: writer_step_def)
  next
    case False
    with w show ?thesis by (intro pass [of k]) (simp_all add: writer_step_def)
  qed
next
  case (WReleased k)
  note w = this
  show ?thesis
  proof (cases "ob_claimed (obs s k)")
    case True
    with w show ?thesis by (intro withdrawn [of k]) (simp_all add: writer_step_def)
  next
    case False
    with w show ?thesis by (intro claim [of k]) (simp_all add: writer_step_def)
  qed
next
  case (WClaimed k)
  note w = this
  show ?thesis
  proof (cases "fault s = None")
    case True
    with w show ?thesis by (intro check [of k]) (simp_all add: writer_step_def)
  next
    case False
    with w show ?thesis by (intro faulted [of k]) (simp_all add: writer_step_def)
  qed
next
  case (WChecked k)
  obtain r w where w: "write_frame (tx s) (ob_frame (obs s k)) control_limit = (r, w)"
    by (cases "write_frame (tx s) (ob_frame (obs s k)) control_limit")
  show ?thesis
  proof (cases r)
    case None
    with WChecked w show ?thesis by (intro wrote [of k w]) (simp_all add: writer_step_def)
  next
    case (Some e)
    with WChecked w show ?thesis by (intro failed [of k e w]) (simp_all add: writer_step_def)
  qed
next
  case (WAfter k owed)
  then show ?thesis by (intro progress [of k owed]) (simp_all add: writer_step_def)
next
  case WRetired
  then show ?thesis by (intro stay) (simp add: writer_step_def)
qed

lemma inv_queue_writer:
  assumes "inv_queue s"
  shows "inv_queue (writer_step s)"
proof -
  obtain n where n: "n \<le> queued s" "in_hand s @ out_q s = [Suc n..<Suc (queued s)]"
    using assms by (auto simp: inv_queue_def)
  show ?thesis
  proof (cases s rule: writer_step_cases)
    case (progress k o)
    then have l: "k # out_q s = [Suc n..<Suc (queued s)]" using n by (simp add: in_hand_def)
    then have lt: "n < queued s" by (cases "n < queued s") auto
    with l have "out_q s = [Suc (Suc n)..<Suc (queued s)]" by (simp add: upt_conv_Cons)
    with lt progress show ?thesis by (auto simp: inv_queue_def in_hand_def intro!: exI [of _ "Suc n"])
  qed (use n assms in \<open>auto simp: inv_queue_def in_hand_def claim_ob_def finish_ob_def\<close>)
qed

text \<open>The steps that are neither the writer's nor an enqueue leave the queue as it is.\<close>

lemma other_queue_fields [simp]:
  "out_q (settle s) = out_q s" "queued (settle s) = queued s" "writer_state (settle s) = writer_state s"
  "out_q (admit_one s) = out_q s" "queued (admit_one s) = queued s" "writer_state (admit_one s) = writer_state s"
  "out_q (answer_begin i s) = out_q s" "queued (answer_begin i s) = queued s"
  "writer_state (answer_begin i s) = writer_state s"
  "out_q (call_begin s) = out_q s" "queued (call_begin s) = queued s" "writer_state (call_begin s) = writer_state s"
  "out_q (call_return i k v s) = out_q s" "queued (call_return i k v s) = queued s"
  "writer_state (call_return i k v s) = writer_state s"
  "out_q (deliver_reply i r s) = out_q s" "queued (deliver_reply i r s) = queued s"
  "writer_state (deliver_reply i r s) = writer_state s"
  "out_q (claim_ob j s) = out_q s" "queued (claim_ob j s) = queued s" "writer_state (claim_ob j s) = writer_state s"
  by (auto simp: settle_def admit_one_def answer_begin_def call_begin_def call_return_def deliver_reply_def
      claim_ob_def)

lemma call_queue_fields [simp]:
  "out_q (call_cancel_early i s) = out_q s" "queued (call_cancel_early i s) = queued s"
  "writer_state (call_cancel_early i s) = writer_state s"
  "out_q (call_written i s) = out_q s" "queued (call_written i s) = queued s"
  "writer_state (call_written i s) = writer_state s"
  "out_q (call_abandon i s) = out_q s" "queued (call_abandon i s) = queued s"
  "writer_state (call_abandon i s) = writer_state s"
  "out_q (call_reply i s) = out_q s" "queued (call_reply i s) = queued s"
  "writer_state (call_reply i s) = writer_state s"
  "out_q (call_give_up i s) = out_q s" "queued (call_give_up i s) = queued s"
  "writer_state (call_give_up i s) = writer_state s"
  by (auto simp: call_cancel_early_def call_written_def call_abandon_def call_reply_def call_give_up_def
      split: call_state.splits option.splits write_verdict.splits)

lemma enqueue_step_fields:
  "out_q (answer_send i f s) = out_q s \<and> queued (answer_send i f s) = queued s
   \<or> out_q (answer_send i f s) = out_q (snd (try_enqueue True f s))
     \<and> queued (answer_send i f s) = queued (snd (try_enqueue True f s))"
  "out_q (call_enqueue i f s) = out_q s \<and> queued (call_enqueue i f s) = queued s
   \<or> out_q (call_enqueue i f s) = out_q (snd (try_enqueue False f s))
     \<and> queued (call_enqueue i f s) = queued (snd (try_enqueue False f s))"
  "writer_state (answer_send i f s) = writer_state s" "writer_state (call_enqueue i f s) = writer_state s"
  by (auto simp: answer_send_def call_enqueue_def try_enqueue_def)

lemma inv_queue_reach: "lane_reach s \<Longrightarrow> inv_queue s"
proof (rule lane_invariant [of s inv_queue])
  show "inv_queue (start_session l w)" for l w by (simp add: inv_queue_def in_hand_def)
next
  fix s t
  assume i: "inv_queue s" and st: "lane_step s t"
  have e: "inv_queue (answer_send i f s)" for i f
    using enqueue_step_fields(1) [of i f s]
  proof
    assume "out_q (answer_send i f s) = out_q s \<and> queued (answer_send i f s) = queued s"
    with i show ?thesis using inv_queue_cong [of "answer_send i f s" s] enqueue_step_fields(3) by simp
  next
    assume "out_q (answer_send i f s) = out_q (snd (try_enqueue True f s))
      \<and> queued (answer_send i f s) = queued (snd (try_enqueue True f s))"
    with inv_queue_enqueue [OF i, of True f] show ?thesis
      using inv_queue_cong [of "answer_send i f s" "snd (try_enqueue True f s)"] enqueue_step_fields(3) by simp
  qed
  have c: "inv_queue (call_enqueue i f s)" for i f
    using enqueue_step_fields(2) [of i f s]
  proof
    assume "out_q (call_enqueue i f s) = out_q s \<and> queued (call_enqueue i f s) = queued s"
    with i show ?thesis using inv_queue_cong [of "call_enqueue i f s" s] enqueue_step_fields(4) by simp
  next
    assume "out_q (call_enqueue i f s) = out_q (snd (try_enqueue False f s))
      \<and> queued (call_enqueue i f s) = queued (snd (try_enqueue False f s))"
    with inv_queue_enqueue [OF i, of False f] show ?thesis
      using inv_queue_cong [of "call_enqueue i f s" "snd (try_enqueue False f s)"] enqueue_step_fields(4) by simp
  qed
  show "inv_queue t"
    using st
  proof (cases rule: lane_step.cases)
    case (step_writer)
    then show ?thesis using inv_queue_writer [OF i] by simp
  next
    case (step_emit frame)
    then show ?thesis using inv_queue_enqueue [OF i] by simp
  qed (use i e c in \<open>simp_all add: inv_queue_def in_hand_def\<close>)
qed

section \<open>Claims, verdicts and the transport\<close>

definition withdrawn :: "session \<Rightarrow> nat \<Rightarrow> bool" where
  "withdrawn s k \<longleftrightarrow> (\<exists>i. calls s i = CallDone (Some k) NotSent)"

definition writing :: "session \<Rightarrow> nat \<Rightarrow> bool" where
  "writing s k \<longleftrightarrow> writer_state s = WClaimed k \<or> writer_state s = WChecked k"

definition unclaimed_hand :: "session \<Rightarrow> nat \<Rightarrow> bool" where
  "unclaimed_hand s k \<longleftrightarrow> k \<in> set (out_q s) \<or> writer_state s = WTaken k \<or> writer_state s = WReleased k"

definition call_frame_of :: "call_state \<Rightarrow> nat option" where
  "call_frame_of c =
     (case c of CallQueued k \<Rightarrow> Some k | CallSent k \<Rightarrow> Some k | CallDone k v \<Rightarrow> k | _ \<Rightarrow> None)"

text \<open>What holds of one frame: its claim, its verdict, and where it is.\<close>

definition frame_ok :: "session \<Rightarrow> nat \<Rightarrow> bool" where
  "frame_ok s k \<longleftrightarrow>
     (k \<in> set (tx_log s) \<longleftrightarrow> ob_done (obs s k) = Some WroteOk)
     \<and> (ob_done (obs s k) \<noteq> None \<longrightarrow> ob_claimed (obs s k))
     \<and> (withdrawn s k \<longrightarrow> ob_claimed (obs s k) \<and> ob_done (obs s k) \<in> {None, Some NotSentVerdict} \<and> \<not> writing s k)
     \<and> (writing s k \<longrightarrow> ob_claimed (obs s k) \<and> ob_done (obs s k) = None)
     \<and> (unclaimed_hand s k \<longrightarrow> ob_done (obs s k) = None)
     \<and> (ob_claimed (obs s k) \<and> ob_done (obs s k) = None \<longrightarrow> writing s k \<or> withdrawn s k)
     \<and> (writer_state s = WAfter k True \<longrightarrow> k \<in> set (tx_log s) \<or> withdrawn s k)
     \<and> (queued s < k \<longrightarrow> obs s k = no_outbound)"

definition inv_calls :: "session \<Rightarrow> bool" where
  "inv_calls s \<longleftrightarrow> (\<forall>i. next_id s < i \<longrightarrow> calls s i = CallNone)
     \<and> (\<forall>i k. call_frame_of (calls s i) = Some k \<longrightarrow> 1 \<le> k \<and> k \<le> queued s)"

definition inv_verdict :: "session \<Rightarrow> bool" where
  "inv_verdict s \<longleftrightarrow> inv_calls s \<and> (\<forall>k. frame_ok s k)"

lemma hand_distinct:
  assumes "inv_queue s" "in_hand s = [k]"
  shows "k \<notin> set (out_q s)" "1 \<le> k" "k \<le> queued s"
proof -
  obtain n where n: "k # out_q s = [Suc n..<Suc (queued s)]" using assms by (auto simp: inv_queue_def)
  then have "distinct (k # out_q s)" by simp
  then show "k \<notin> set (out_q s)" by simp
  have "k \<in> set [Suc n..<Suc (queued s)]" by (metis n list.set_intros(1))
  then show "1 \<le> k" "k \<le> queued s" by auto
qed

lemma queue_bounds:
  assumes "inv_queue s" "k \<in> set (out_q s)"
  shows "1 \<le> k \<and> k \<le> queued s"
proof -
  obtain n where n: "in_hand s @ out_q s = [Suc n..<Suc (queued s)]" using assms(1) by (auto simp: inv_queue_def)
  have "k \<in> set (in_hand s @ out_q s)" using assms(2) by simp
  then show ?thesis unfolding n by auto
qed

lemma withdrawn_bounds:
  assumes "inv_calls s" "withdrawn s k"
  shows "1 \<le> k \<and> k \<le> queued s"
proof -
  obtain i where "calls s i = CallDone (Some k) NotSent" using assms(2) by (auto simp: withdrawn_def)
  then have "call_frame_of (calls s i) = Some k" by (simp add: call_frame_of_def)
  then show ?thesis using assms(1) by (auto simp: inv_calls_def)
qed

text \<open>A step that changes neither frames nor verdicts.\<close>

lemma inv_verdict_cong:
  assumes "out_q t = out_q s" "queued t = queued s" "writer_state t = writer_state s" "obs t = obs s"
    "tx_log t = tx_log s" "calls t = calls s" "next_id t = next_id s"
  shows "inv_verdict t = inv_verdict s"
  using assms by (simp add: inv_verdict_def inv_calls_def frame_ok_def withdrawn_def writing_def unclaimed_hand_def)

lemma inv_verdict_enqueue:
  assumes i: "inv_verdict s" and q: "inv_queue s" and e: "try_enqueue a f s = (Enqueued k, t)"
  shows "inv_verdict t"
proof -
  from e obtain t': "k = queued s + 1" "t = s\<lparr>out_q := out_q s @ [queued s + 1], queued := queued s + 1,
           obs := (obs s)(queued s + 1 := \<lparr>ob_frame = f, ob_claimed = False, ob_done = None, ob_admission = a\<rparr>)\<rparr>"
    by (cases rule: try_enqueue_cases) auto
  define j where "j = queued s + 1"
  have c: "inv_calls s" and fr: "frame_ok s x" for x using i by (auto simp: inv_verdict_def)
  have "inv_calls t" using c by (auto simp: t' inv_calls_def le_SucI)
  moreover have "frame_ok t j"
  proof -
    have "obs s j = no_outbound" using fr [of j] by (simp add: frame_ok_def j_def)
    then have "j \<notin> set (tx_log s)" using fr [of j] by (simp add: frame_ok_def no_outbound_def)
    moreover have "\<not> withdrawn s j" using withdrawn_bounds [OF c, of j] by (auto simp: j_def)
    moreover have "in_hand s \<noteq> [j]" using hand_distinct(3) [OF q, of j] by (auto simp: j_def)
    ultimately show ?thesis
      by (auto simp: t' j_def frame_ok_def withdrawn_def writing_def in_hand_def)
  qed
  moreover have "frame_ok t x" if "x \<noteq> j" for x
    using fr [of x] that by (auto simp: t' j_def frame_ok_def withdrawn_def writing_def unclaimed_hand_def)
  ultimately show ?thesis unfolding inv_verdict_def by metis
qed

lemma inv_verdict_try:
  assumes i: "inv_verdict s" and q: "inv_queue s" and e: "try_enqueue a f s = (r, t)"
  shows "inv_verdict t"
  using e
proof (cases rule: try_enqueue_cases)
  case 2
  then show ?thesis using inv_verdict_enqueue [OF i q, of a f "queued s + 1" t] e by simp
qed (use i in simp)

text \<open>A step of the writer that holds frame \<open>k\<close>: only \<open>k\<close> has to be looked at.\<close>

lemma inv_verdict_writer:
  assumes i: "inv_verdict s" and q: "inv_queue s"
  shows "inv_verdict (writer_step s)"
proof -
  have c: "inv_calls s" and fr: "frame_ok s x" for x using i by (auto simp: inv_verdict_def)
  have ncalls: "inv_calls t" if "calls t = calls s" "queued t = queued s" "next_id t = next_id s" for t
    using c that by (simp add: inv_calls_def)
  have one: "inv_verdict t"
    if "calls t = calls s" "queued t = queued s" "next_id t = next_id s" "\<And>x. frame_ok t x" for t
    using ncalls that by (simp add: inv_verdict_def)
  show ?thesis
  proof (cases s rule: writer_step_cases)
    case stay
    with i show ?thesis by simp
  next
    case (take k q')
    show ?thesis
    proof (rule one)
      show "frame_ok (writer_step s) x" for x
        using fr [of x] take by (auto simp: frame_ok_def withdrawn_def writing_def unclaimed_hand_def)
    qed (simp_all add: take)
  next
    case retire
    show ?thesis
    proof (rule one)
      show "frame_ok (writer_step s) x" for x
        using fr [of x] retire by (auto simp: frame_ok_def withdrawn_def writing_def unclaimed_hand_def)
    qed (simp_all add: retire)
  next
    case (release k)
    show ?thesis
    proof (rule one)
      show "frame_ok (writer_step s) x" for x
        using fr [of x] release by (auto simp: frame_ok_def withdrawn_def writing_def unclaimed_hand_def)
    qed (simp_all add: release)
  next
    case (pass k)
    show ?thesis
    proof (rule one)
      show "frame_ok (writer_step s) x" for x
        using fr [of x] pass by (auto simp: frame_ok_def withdrawn_def writing_def unclaimed_hand_def)
    qed (simp_all add: pass)
  next
    case (withdrawn k)
    show ?thesis
    proof (rule one)
      show "frame_ok (writer_step s) x" for x
        using fr [of x] withdrawn by (auto simp: frame_ok_def withdrawn_def writing_def unclaimed_hand_def)
    qed (simp_all add: withdrawn)
  next
    case (claim k)
    have h: "in_hand s = [k]" using claim by (simp add: in_hand_def)
    show ?thesis
    proof (rule one)
      show "frame_ok (writer_step s) x" for x
        using fr [of x] claim hand_distinct [OF q h]
        by (auto simp: claim_ob_def frame_ok_def withdrawn_def writing_def unclaimed_hand_def)
    qed (simp_all add: claim claim_ob_def)
  next
    case (faulted k)
    have h: "in_hand s = [k]" using faulted by (simp add: in_hand_def)
    show ?thesis
    proof (rule one)
      show "frame_ok (writer_step s) x" for x
        using fr [of x] faulted hand_distinct [OF q h]
        by (auto simp: finish_ob_def frame_ok_def withdrawn_def writing_def unclaimed_hand_def)
    qed (simp_all add: faulted finish_ob_def)
  next
    case (check k)
    show ?thesis
    proof (rule one)
      show "frame_ok (writer_step s) x" for x
        using fr [of x] check by (auto simp: frame_ok_def withdrawn_def writing_def unclaimed_hand_def)
    qed (simp_all add: check)
  next
    case (wrote k w)
    have h: "in_hand s = [k]" using wrote by (simp add: in_hand_def)
    show ?thesis
    proof (rule one)
      show "frame_ok (writer_step s) x" for x
        using fr [of x] wrote hand_distinct [OF q h]
        by (auto simp: finish_ob_def frame_ok_def withdrawn_def writing_def unclaimed_hand_def)
    qed (simp_all add: wrote finish_ob_def)
  next
    case (failed k e w)
    have h: "in_hand s = [k]" using failed by (simp add: in_hand_def)
    show ?thesis
    proof (rule one)
      show "frame_ok (writer_step s) x" for x
        using fr [of x] failed hand_distinct [OF q h]
        by (auto simp: finish_ob_def frame_ok_def withdrawn_def writing_def unclaimed_hand_def)
      show "next_id (writer_step s) = next_id s"
        by (simp add: failed finish_ob_def set_fault_def end_lane_def)
    qed (simp_all add: failed finish_ob_def)
  next
    case (progress k owed)
    show ?thesis
    proof (rule one)
      show "frame_ok (writer_step s) x" for x
        using fr [of x] progress by (auto simp: frame_ok_def withdrawn_def writing_def unclaimed_hand_def)
    qed (simp_all add: progress)
  qed
qed

lemma withdrawn_update:
  assumes t: "calls t = (calls s)(i := c)" and live: "\<And>v k. calls s i \<noteq> CallDone k v"
  shows "withdrawn t x \<longleftrightarrow> withdrawn s x \<or> c = CallDone (Some x) NotSent"
proof
  assume "withdrawn s x \<or> c = CallDone (Some x) NotSent"
  then show "withdrawn t x"
  proof
    assume "withdrawn s x"
    then obtain a where "calls s a = CallDone (Some x) NotSent" by (auto simp: withdrawn_def)
    moreover from this have "a \<noteq> i" using live by auto
    ultimately show ?thesis unfolding withdrawn_def t by (metis fun_upd_other)
  qed (auto simp: withdrawn_def t)
qed (auto simp: withdrawn_def t split: if_splits)

text \<open>A step of one host call: the call moves on, and a verdict ``not sent'' needs its reason.\<close>

lemma inv_verdict_call:
  assumes i: "inv_verdict s" and live: "calls s i \<noteq> CallNone" "\<And>v k. calls s i \<noteq> CallDone k v"
    and t: "out_q t = out_q s" "queued t = queued s" "writer_state t = writer_state s"
      "tx_log t = tx_log s" "next_id t = next_id s" "calls t = (calls s)(i := c)"
    and frame: "\<And>k. call_frame_of c = Some k \<Longrightarrow> 1 \<le> k \<and> k \<le> queued s"
    and ob: "obs t = obs s \<and> (\<forall>k. c = CallDone (Some k) NotSent \<longrightarrow> ob_claimed (obs s k)
          \<and> ob_done (obs s k) \<in> {None, Some NotSentVerdict} \<and> \<not> writing s k)
      \<or> (\<exists>k. obs t = (obs s)(k := (obs s k)\<lparr>ob_claimed := True\<rparr>) \<and> \<not> ob_claimed (obs s k)
          \<and> c = CallDone (Some k) NotSent)"
  shows "inv_verdict t"
proof -
  have c0: "inv_calls s" and fr: "frame_ok s x" for x using i by (auto simp: inv_verdict_def)
  have "i \<le> next_id s" using c0 live(1) by (metis inv_calls_def not_le)
  then have "inv_calls t" using c0 t frame by (auto simp: inv_calls_def)
  moreover have w: "withdrawn t x \<longleftrightarrow> withdrawn s x \<or> c = CallDone (Some x) NotSent" for x
    by (rule withdrawn_update [OF t(6) live(2)])
  have "frame_ok t x" for x
    using ob
  proof
    assume o: "obs t = obs s \<and> (\<forall>k. c = CallDone (Some k) NotSent \<longrightarrow> ob_claimed (obs s k)
          \<and> ob_done (obs s k) \<in> {None, Some NotSentVerdict} \<and> \<not> writing s k)"
    then show ?thesis using fr [of x] t
      by (cases "c = CallDone (Some x) NotSent") (auto simp: frame_ok_def w writing_def unclaimed_hand_def)
  next
    assume "\<exists>k. obs t = (obs s)(k := (obs s k)\<lparr>ob_claimed := True\<rparr>) \<and> \<not> ob_claimed (obs s k)
          \<and> c = CallDone (Some k) NotSent"
    then obtain k where o: "obs t = (obs s)(k := (obs s k)\<lparr>ob_claimed := True\<rparr>)" "\<not> ob_claimed (obs s k)"
      "c = CallDone (Some k) NotSent" by blast
    have "k \<le> queued s" using frame [of k] o(3) by (simp add: call_frame_of_def)
    then show ?thesis using fr [of x] t o
      by (cases "x = k") (auto simp: frame_ok_def w writing_def unclaimed_hand_def)
  qed
  ultimately show ?thesis by (simp add: inv_verdict_def)
qed

lemma inv_call_frame: "inv_verdict s \<Longrightarrow> call_frame_of (calls s i) = Some k \<Longrightarrow> 1 \<le> k \<and> k \<le> queued s"
  by (simp add: inv_verdict_def inv_calls_def)

lemma inv_verdict_begin:
  assumes i: "inv_verdict s"
  shows "inv_verdict (call_begin s)"
proof (cases "session_max_pending \<le> length (pending s)")
  case False
  have n: "calls s (next_id s + 1) = CallNone" using i by (simp add: inv_verdict_def inv_calls_def)
  have w: "withdrawn (call_begin s) x = withdrawn s x" for x
    using withdrawn_update [of "call_begin s" s "next_id s + 1" CallRegistered x] n False
    by (simp add: call_begin_def)
  have "inv_calls (call_begin s)"
    using i False by (simp add: inv_verdict_def inv_calls_def call_begin_def call_frame_of_def)
  moreover have "frame_ok (call_begin s) x = frame_ok s x" for x
    using False by (simp add: frame_ok_def w writing_def unclaimed_hand_def) (simp add: call_begin_def)
  ultimately show ?thesis using i by (simp add: inv_verdict_def)
qed (use i in \<open>simp add: call_begin_def\<close>)

lemma inv_verdict_same:
  assumes "inv_verdict s" "out_q t = out_q s" "queued t = queued s" "writer_state t = writer_state s" "obs t = obs s"
    "tx_log t = tx_log s" "calls t = calls s" "next_id t = next_id s"
  shows "inv_verdict t"
  using inv_verdict_cong [OF assms(2-8)] assms(1) by simp

text \<open>A call returns; its frame, if it has one, is a frame of the queue's numbers.\<close>

lemma inv_verdict_return:
  assumes i: "inv_verdict s" and c: "calls s j = CallRegistered \<or> (\<exists>k. calls s j = CallQueued k \<or> calls s j = CallSent k)"
    and k: "k = call_frame_of (calls s j)"
    and v: "\<And>x. k = Some x \<Longrightarrow> v = NotSent \<Longrightarrow> ob_claimed (obs s x)
          \<and> ob_done (obs s x) \<in> {None, Some NotSentVerdict} \<and> \<not> writing s x"
  shows "inv_verdict (call_return j k v s)"
proof (rule inv_verdict_call [OF i, where i = j and c = "CallDone k v"])
  show "calls s j \<noteq> CallNone" "\<And>v k. calls s j \<noteq> CallDone k v" using c by auto
  show "1 \<le> x \<and> x \<le> queued s" if "call_frame_of (CallDone k v) = Some x" for x
    using inv_call_frame [OF i, of j x] that k by (simp add: call_frame_of_def)
qed (use v in \<open>auto simp: call_return_def\<close>)

lemma inv_verdict_answer:
  assumes i: "inv_verdict s" and q: "inv_queue s"
  shows "inv_verdict (answer_send j f s)"
proof -
  obtain r t where e: "try_enqueue True f s = (r, t)" by (cases "try_enqueue True f s")
  note t = inv_verdict_try [OF i q e]
  show ?thesis
  proof (cases "j < length (controls s) \<and> controls s ! j = CAnswering")
    case True
    with e show ?thesis
      by (cases r) (auto simp: answer_send_def set_fault_def end_lane_def intro!: inv_verdict_same [OF t])
  qed (use i in \<open>auto simp: answer_send_def\<close>)
qed

lemma inv_verdict_enqueue_call:
  assumes i: "inv_verdict s" and q: "inv_queue s"
  shows "inv_verdict (call_enqueue j f s)"
proof (cases "calls s j = CallRegistered")
  case True
  obtain r t where e: "try_enqueue False f s = (r, t)" by (cases "try_enqueue False f s")
  from e show ?thesis
  proof (cases rule: try_enqueue_cases)
    case 1
    then show ?thesis using e i True inv_verdict_return [OF i, of j None NotSent]
      by (auto simp: call_enqueue_def call_frame_of_def)
  next
    case 2
    note it = inv_verdict_try [OF i q e]
    have cj: "calls t j = CallRegistered" using 2 True by simp
    have "inv_verdict (t\<lparr>calls := (calls t)(j := CallQueued (queued s + 1))\<rparr>)"
      by (rule inv_verdict_call [OF it, where i = j and c = "CallQueued (queued s + 1)"])
        (use cj 2 in \<open>simp_all add: call_frame_of_def\<close>)
    then show ?thesis using e 2(1) True by (simp add: call_enqueue_def)
  qed
qed (use i in \<open>simp add: call_enqueue_def\<close>)

lemma inv_verdict_written:
  assumes i: "inv_verdict s"
  shows "inv_verdict (call_written j s)"
proof (cases "calls s j")
  case (CallQueued k)
  have fr: "frame_ok s k" using i by (simp add: inv_verdict_def)
  have k: "Some k = call_frame_of (calls s j)" by (simp add: CallQueued call_frame_of_def)
  have "inv_verdict (s\<lparr>calls := (calls s)(j := CallSent k)\<rparr>)"
    by (rule inv_verdict_call [OF i, where i = j and c = "CallSent k"])
      (use CallQueued inv_call_frame [OF i, of j k] in \<open>simp_all add: call_frame_of_def\<close>)
  moreover have "inv_verdict (call_return j (Some k) OutcomeUnknown s)"
    by (rule inv_verdict_return [OF i _ k]) (use CallQueued in simp_all)
  moreover have "inv_verdict (call_return j (Some k) NotSent s)" if "ob_done (obs s k) = Some NotSentVerdict"
    by (rule inv_verdict_return [OF i _ k]) (use CallQueued fr that in \<open>auto simp: frame_ok_def\<close>)
  ultimately show ?thesis using CallQueued i
    by (simp add: call_written_def split: option.splits write_verdict.splits)
qed (use i in \<open>simp_all add: call_written_def\<close>)

lemma inv_verdict_abandon:
  assumes i: "inv_verdict s"
  shows "inv_verdict (call_abandon j s)"
proof (cases "calls s j")
  case (CallQueued k)
  have k: "Some k = call_frame_of (calls s j)" by (simp add: CallQueued call_frame_of_def)
  show ?thesis
  proof (cases "ob_claimed (obs s k)")
    case True
    have "inv_verdict (call_return j (Some k) OutcomeUnknown s)"
      by (rule inv_verdict_return [OF i _ k]) (use CallQueued in simp_all)
    then show ?thesis using True CallQueued by (simp add: call_abandon_def)
  next
    case False
    have "inv_verdict (call_return j (Some k) NotSent (claim_ob k s))"
      by (rule inv_verdict_call [OF i, where i = j and c = "CallDone (Some k) NotSent"])
        (use CallQueued False inv_call_frame [OF i, of j k] in
          \<open>auto simp: call_return_def claim_ob_def call_frame_of_def\<close>)
    then show ?thesis using False CallQueued by (simp add: call_abandon_def)
  qed
qed (use i in \<open>simp_all add: call_abandon_def\<close>)

lemma inv_verdict_returns:
  assumes i: "inv_verdict s"
  shows "inv_verdict (call_cancel_early j s)" "inv_verdict (call_reply j s)" "inv_verdict (call_give_up j s)"
proof -
  show "inv_verdict (call_cancel_early j s)"
    using i inv_verdict_return [OF i, of j None NotSent]
    by (simp add: call_cancel_early_def call_frame_of_def)
  have s: "inv_verdict (call_return j (Some k) v s)" if "calls s j = CallSent k" "v \<noteq> NotSent" for k v
    by (rule inv_verdict_return [OF i]) (use that in \<open>simp_all add: call_frame_of_def\<close>)
  show "inv_verdict (call_reply j s)" "inv_verdict (call_give_up j s)"
    using i s by (simp_all add: call_reply_def call_give_up_def split: call_state.splits option.splits)
qed

lemma inv_verdict_reach: "lane_reach s \<Longrightarrow> inv_verdict s"
proof (rule lane_invariant [of s inv_verdict])
  show "inv_verdict (start_session l w)" for l w
    by (simp add: inv_verdict_def inv_calls_def frame_ok_def withdrawn_def writing_def unclaimed_hand_def
        call_frame_of_def no_outbound_def)
next
  fix s t
  assume r: "lane_reach s" and i: "inv_verdict s" and st: "lane_step s t"
  note q = inv_queue_reach [OF r]
  show "inv_verdict t"
    using st
  proof (cases rule: lane_step.cases)
    case (step_emit f)
    obtain r u where e: "try_enqueue False f s = (r, u)" by (cases "try_enqueue False f s")
    then have "t = u" using step_emit by simp
    then show ?thesis using inv_verdict_try [OF i q e] by simp
  next
    case step_writer
    then show ?thesis using inv_verdict_writer [OF i q] by simp
  next
    case step_call_begin
    then show ?thesis using inv_verdict_begin [OF i] by simp
  qed (use inv_verdict_answer [OF i q] inv_verdict_enqueue_call [OF i q] inv_verdict_written [OF i]
        inv_verdict_abandon [OF i] inv_verdict_returns [OF i] in
      \<open>auto simp: settle_def end_lane_def set_fault_def admit_one_def answer_begin_def deliver_reply_def
        intro!: inv_verdict_same [OF i]\<close>)
qed

end
