(* ===== verification/SessionLane.thy ===== *)
theory SessionLane
  imports Session
begin

text \<open>
  What the lane of \<open>Session\<close> guarantees, from the invariants proved there: the capacity of the
  queue always has room for an answer, frames leave in the order they were accepted, the progress
  \<open>Flush\<close> reads is true, a call that was told ``not sent'' never reaches the wire, the lane
  refines a plain queue, and the writer left to itself empties it.
\<close>

section \<open>Order and progress\<close>

definition ahead :: "session \<Rightarrow> nat list" where
  "ahead s = (case writer_state s of WAfter k _ \<Rightarrow> out_q s | _ \<Rightarrow> in_hand s @ out_q s)"

definition inv_order :: "session \<Rightarrow> bool" where
  "inv_order s \<longleftrightarrow> sorted_wrt (<) (tx_log s) \<and> (\<forall>j \<in> set (tx_log s). \<forall>k \<in> set (ahead s). j < k)"

definition passed_ok :: "session \<Rightarrow> bool" where
  "passed_ok s \<longleftrightarrow> (\<forall>k. 1 \<le> k \<and> k \<le> queued s \<and> k \<notin> set (ahead s) \<longrightarrow> ob_done (obs s k) \<noteq> None \<or> withdrawn s k)"

definition inv_progress :: "session \<Rightarrow> bool" where
  "inv_progress s \<longleftrightarrow> wrote s \<le> queued s \<and> (\<forall>k. 1 \<le> k \<and> k \<le> wrote s \<longrightarrow> k \<in> set (tx_log s) \<or> withdrawn s k)"

text \<open>Without a fault the progress is exact: every frame that is neither queued nor in hand counts.\<close>

definition inv_exact :: "session \<Rightarrow> bool" where
  "inv_exact s \<longleftrightarrow> (fault s = None \<longrightarrow> wrote s + length (in_hand s @ out_q s) = queued s
     \<and> (\<forall>k. writer_state s \<noteq> WAfter k False))"

definition inv_closing :: "session \<Rightarrow> bool" where
  "inv_closing s \<longleftrightarrow> (lane s \<and> settled s \<longrightarrow> out_closed s) \<and> (\<not> lane s \<and> closed s \<longrightarrow> out_closed s)
     \<and> (writer_state s = WRetired \<longrightarrow> out_closed s \<and> out_q s = [])"

definition adm :: "session \<Rightarrow> nat \<Rightarrow> bool" where
  "adm s k \<longleftrightarrow> ob_admission (obs s k)"

definition taken_adm :: "session \<Rightarrow> nat" where
  "taken_adm s = (case writer_state s of WTaken k \<Rightarrow> if adm s k then 1 else 0 | _ \<Rightarrow> 0)"

definition owed_answers :: "session \<Rightarrow> nat" where
  "owed_answers s = length (filter (\<lambda>c. c \<noteq> CAnswered) (controls s))"

definition inv_slots :: "session \<Rightarrow> bool" where
  "inv_slots s \<longleftrightarrow>
     admission_slots s = owed_answers s + length (filter (adm s) (out_q s)) + taken_adm s
     \<and> admission_slots s \<le> session_admit_queue
     \<and> length (filter (\<lambda>k. \<not> adm s k) (out_q s)) \<le> 64"

lemma log_bound: "inv_verdict s \<Longrightarrow> k \<in> set (tx_log s) \<Longrightarrow> k \<le> queued s"
  by (rule ccontr) (auto simp: inv_verdict_def frame_ok_def no_outbound_def)

text \<open>
  The steps that move no frame: they keep the queue, the writer, the log and the progress, and
  may only add withdrawn calls.
\<close>

definition quiet :: "session \<Rightarrow> session \<Rightarrow> bool" where
  "quiet s t \<longleftrightarrow> out_q t = out_q s \<and> queued t = queued s \<and> writer_state t = writer_state s
     \<and> tx_log t = tx_log s \<and> tx t = tx s \<and> wrote t = wrote s
     \<and> (\<forall>k. ob_done (obs t k) = ob_done (obs s k) \<and> ob_frame (obs t k) = ob_frame (obs s k)
           \<and> ob_admission (obs t k) = ob_admission (obs s k))
     \<and> (\<forall>k. withdrawn s k \<longrightarrow> withdrawn t k) \<and> (fault t = None \<longrightarrow> fault s = None)"

text \<open>Every step is quiet, a step of the writer, or an enqueue followed by a quiet change.\<close>

definition enqueued :: "bool \<Rightarrow> bytes \<Rightarrow> session \<Rightarrow> session \<Rightarrow> bool" where
  "enqueued a f s t \<longleftrightarrow> (\<exists>u. try_enqueue a f s = (Enqueued (queued s + 1), u) \<and> quiet u t)"

lemma quiet_refl [simp]: "quiet s s"
  by (simp add: quiet_def)

lemma quiet_same:
  "out_q t = out_q s \<Longrightarrow> queued t = queued s \<Longrightarrow> writer_state t = writer_state s \<Longrightarrow> tx_log t = tx_log s \<Longrightarrow>
   tx t = tx s \<Longrightarrow> wrote t = wrote s \<Longrightarrow> obs t = obs s \<Longrightarrow> calls t = calls s \<Longrightarrow>
   (fault t = None \<Longrightarrow> fault s = None) \<Longrightarrow> quiet s t"
  by (auto simp: quiet_def withdrawn_def)

lemma quiet_call:
  assumes "out_q t = out_q s" "queued t = queued s" "writer_state t = writer_state s" "tx_log t = tx_log s"
    "tx t = tx s" "wrote t = wrote s" "fault t = fault s" "calls t = (calls s)(i := c)"
    "\<And>k v. calls s i \<noteq> CallDone k v"
    "\<And>k. ob_done (obs t k) = ob_done (obs s k) \<and> ob_frame (obs t k) = ob_frame (obs s k)
           \<and> ob_admission (obs t k) = ob_admission (obs s k)"
  shows "quiet s t"
  using assms withdrawn_update [OF assms(8,9)] by (simp add: quiet_def)

lemma quiet_fields:
  "quiet s (end_lane s)" "quiet s (set_fault e s)" "quiet s (settle s)" "quiet s (admit_one s)"
  "quiet s (answer_begin i s)" "quiet s (deliver_reply i r s)"
proof -
  have tx: "tx (end_lane u) = tx u" for u by (simp add: end_lane_def)
  then have f: "tx (set_fault e s) = tx s" for e s by (simp add: set_fault_def)
  show "quiet s (end_lane s)" "quiet s (settle s)" "quiet s (set_fault e s)"
    "quiet s (answer_begin i s)" "quiet s (deliver_reply i r s)"
    by (rule quiet_same; simp add: tx f settle_def answer_begin_def deliver_reply_def split: if_splits)+
  show "quiet s (admit_one s)"
    by (rule quiet_same) (simp_all add: admit_one_def f split: if_splits)
qed

lemma quiet_return:
  assumes "\<And>k v. calls s i \<noteq> CallDone k v"
  shows "quiet s (call_return i k v s)" "quiet s (call_return i k v (claim_ob j s))"
  by (rule quiet_call [where i = i and c = "CallDone k v"]; use assms in \<open>simp add: call_return_def claim_ob_def\<close>)+

lemma quiet_calls:
  "quiet s (call_cancel_early i s)" "quiet s (call_written i s)" "quiet s (call_abandon i s)"
  "quiet s (call_reply i s)" "quiet s (call_give_up i s)"
proof -
  have sent: "quiet s (s\<lparr>calls := (calls s)(i := CallSent k)\<rparr>)" if "calls s i = CallQueued k" for k
    by (rule quiet_call [where i = i]) (use that in auto)
  show "quiet s (call_cancel_early i s)" "quiet s (call_written i s)" "quiet s (call_abandon i s)"
    "quiet s (call_reply i s)" "quiet s (call_give_up i s)"
    by (auto simp: call_cancel_early_def call_written_def call_abandon_def call_reply_def call_give_up_def
        intro!: quiet_return sent split: call_state.splits option.splits write_verdict.splits)
qed

lemma quiet_begin: "inv_verdict s \<Longrightarrow> quiet s (call_begin s)"
proof (cases "session_max_pending \<le> length (pending s)")
  case False
  assume "inv_verdict s"
  then have "calls s (next_id s + 1) = CallNone" by (simp add: inv_verdict_def inv_calls_def)
  with False show ?thesis
    by (intro quiet_call [where i = "next_id s + 1" and c = CallRegistered]) (simp_all add: call_begin_def)
qed (simp add: call_begin_def)

lemma enqueued_or_quiet:
  assumes "try_enqueue a f s = (r, u)"
  shows "u = s \<or> (r = Enqueued (queued s + 1) \<and> enqueued a f s u)"
  using assms
proof (cases rule: try_enqueue_cases)
  case 2
  then show ?thesis using assms quiet_refl unfolding enqueued_def by metis
qed simp

lemma enqueued_then: "enqueued a f s u \<Longrightarrow> quiet u t \<Longrightarrow> enqueued a f s t"
proof -
  assume "enqueued a f s u" "quiet u t"
  then obtain v where v: "try_enqueue a f s = (Enqueued (queued s + 1), v)" "quiet v u"
    by (auto simp: enqueued_def)
  have "quiet v t" using v(2) \<open>quiet u t\<close> by (simp add: quiet_def)
  with v(1) show ?thesis by (auto simp: enqueued_def)
qed

lemma answer_send_kinds: "quiet s (answer_send i f s) \<or> enqueued True f s (answer_send i f s)"
proof (cases "i < length (controls s) \<and> controls s ! i = CAnswering")
  case True
  obtain r u where e: "try_enqueue True f s = (r, u)" by (cases "try_enqueue True f s")
  have q: "quiet u (u\<lparr>controls := c\<rparr>)" "quiet u (u\<lparr>controls := c, admission_slots := n\<rparr>)" for c and n :: nat
    by (rule quiet_same; simp)+
  have "quiet u (set_fault AdmissionFault (u\<lparr>controls := c, admission_slots := n\<rparr>))" for c and n :: nat
    using quiet_fields(2) [of "u\<lparr>controls := c, admission_slots := n\<rparr>"] q(2)
    by (simp add: quiet_def)
  then have "quiet u (answer_send i f s)"
    using True e q by (cases r) (auto simp: answer_send_def)
  then show ?thesis using enqueued_or_quiet [OF e] enqueued_then by blast
qed (auto simp: answer_send_def)

lemma call_enqueue_kinds: "quiet s (call_enqueue i f s) \<or> enqueued False f s (call_enqueue i f s)"
proof (cases "calls s i = CallRegistered")
  case True
  obtain r u where e: "try_enqueue False f s = (r, u)" by (cases "try_enqueue False f s")
  have c: "calls u i = CallRegistered" using True try_enqueue_other(4) [of False f s] e by simp
  have "quiet u (u\<lparr>calls := (calls u)(i := CallQueued k)\<rparr>)" for k
    by (rule quiet_call [where i = i]) (use c in auto)
  moreover have "quiet u (call_return i None NotSent u)" by (rule quiet_return) (simp add: c)
  ultimately have "quiet u (call_enqueue i f s)"
    using True e by (cases r) (auto simp: call_enqueue_def)
  then show ?thesis using enqueued_or_quiet [OF e] enqueued_then by blast
qed (simp add: call_enqueue_def)

lemma lane_step_kinds:
  assumes "inv_verdict s" "lane_step s t"
  shows "quiet s t \<or> t = writer_step s \<or> (\<exists>a f. enqueued a f s t)"
  using assms(2)
proof (cases rule: lane_step.cases)
  case (step_emit f)
  obtain r u where e: "try_enqueue False f s = (r, u)" by (cases "try_enqueue False f s")
  then have "t = u" using step_emit by simp
  then show ?thesis using enqueued_or_quiet [OF e] by auto
next
  case (step_answer_send i f)
  then show ?thesis using answer_send_kinds by blast
next
  case (step_call_enqueue i f)
  then show ?thesis using call_enqueue_kinds by blast
qed (simp_all add: quiet_fields quiet_calls quiet_begin [OF assms(1)])

text \<open>An invariant of the queue is proved on the three kinds of steps.\<close>

lemma lane_kind_step:
  assumes s: "lane_reach s" "P s" "lane_step s t"
    and q: "\<And>s t. inv_queue s \<Longrightarrow> inv_verdict s \<Longrightarrow> P s \<Longrightarrow> quiet s t \<Longrightarrow> P t"
    and w: "\<And>s. inv_queue s \<Longrightarrow> inv_verdict s \<Longrightarrow> P s \<Longrightarrow> P (writer_step s)"
    and e: "\<And>s t a f. inv_queue s \<Longrightarrow> inv_verdict s \<Longrightarrow> P s \<Longrightarrow>
      try_enqueue a f s = (Enqueued (queued s + 1), t) \<Longrightarrow> P t"
  shows "P t"
proof -
  note i = inv_queue_reach [OF s(1)] inv_verdict_reach [OF s(1)]
  from lane_step_kinds [OF i(2) s(3)] show "P t"
  proof (elim disjE exE)
    fix a f
    assume "enqueued a f s t"
    then obtain u where u: "try_enqueue a f s = (Enqueued (queued s + 1), u)" "quiet u t"
      by (auto simp: enqueued_def)
    have "inv_queue u" using inv_queue_enqueue [OF i(1), of a f] u(1) by simp
    then show "P t" using q [OF _ inv_verdict_try [OF i(2,1) u(1)] e [OF i s(2) u(1)] u(2)] by blast
  next
    assume "quiet s t"
    then show "P t" by (rule q [OF i s(2)])
  next
    assume "t = writer_step s"
    then show "P t" using w [OF i s(2)] by (simp only:)
  qed
qed

lemma lane_kind_invariant:
  assumes r: "lane_reach s" and init: "\<And>l w. P (start_session l w)"
    and q: "\<And>s t. inv_queue s \<Longrightarrow> inv_verdict s \<Longrightarrow> P s \<Longrightarrow> quiet s t \<Longrightarrow> P t"
    and w: "\<And>s. inv_queue s \<Longrightarrow> inv_verdict s \<Longrightarrow> P s \<Longrightarrow> P (writer_step s)"
    and e: "\<And>s t a f. inv_queue s \<Longrightarrow> inv_verdict s \<Longrightarrow> P s \<Longrightarrow>
      try_enqueue a f s = (Enqueued (queued s + 1), t) \<Longrightarrow> P t"
  shows "P s"
  by (rule lane_invariant [of s P, OF r init]) (rule lane_kind_step [where P = P, OF _ _ _ q w e])

section \<open>Order, progress and the verdict of every frame\<close>

lemma ahead_simps:
  "writer_state s = WIdle \<Longrightarrow> ahead s = out_q s" "writer_state s = WTaken k \<Longrightarrow> ahead s = k # out_q s"
  "writer_state s = WReleased k \<Longrightarrow> ahead s = k # out_q s" "writer_state s = WClaimed k \<Longrightarrow> ahead s = k # out_q s"
  "writer_state s = WChecked k \<Longrightarrow> ahead s = k # out_q s" "writer_state s = WAfter k b \<Longrightarrow> ahead s = out_q s"
  "writer_state s = WRetired \<Longrightarrow> ahead s = out_q s"
  by (simp_all add: ahead_def in_hand_def)

lemma quiet_ahead: "quiet s t \<Longrightarrow> ahead t = ahead s \<and> in_hand t = in_hand s"
proof -
  assume q: "quiet s t"
  then have "in_hand t = in_hand s" by (simp add: quiet_def in_hand_def)
  with q show ?thesis by (cases "writer_state s") (simp_all add: quiet_def ahead_def)
qed

lemma enqueue_ahead:
  assumes "try_enqueue a f s = (Enqueued (queued s + 1), t)"
  shows "ahead t = ahead s @ [queued s + 1]" "in_hand t = in_hand s" "out_q t = out_q s @ [queued s + 1]"
    "queued t = queued s + 1" "tx_log t = tx_log s" "wrote t = wrote s" "writer_state t = writer_state s"
    "fault t = fault s" "fault s = None" "withdrawn t k = withdrawn s k" "tx t = tx s"
    "j \<noteq> queued s + 1 \<Longrightarrow> obs t j = obs s j"
    "obs t (queued s + 1) = \<lparr>ob_frame = f, ob_claimed = False, ob_done = None, ob_admission = a\<rparr>"
proof -
  have t: "t = s\<lparr>out_q := out_q s @ [queued s + 1], queued := queued s + 1,
      obs := (obs s)(queued s + 1 := \<lparr>ob_frame = f, ob_claimed = False, ob_done = None, ob_admission = a\<rparr>)\<rparr>"
    and fs: "fault s = None"
    using assms by (cases rule: try_enqueue_cases; simp)+
  show h: "in_hand t = in_hand s" by (simp add: t in_hand_def)
  then show "ahead t = ahead s @ [queued s + 1]"
    by (cases "writer_state s") (simp_all add: t ahead_def)
qed (use assms in \<open>cases rule: try_enqueue_cases; simp add: withdrawn_def\<close>)+

lemma ahead_head:
  assumes "inv_queue s"
  shows "sorted_wrt (<) (in_hand s @ out_q s)"
  using assms by (auto simp: inv_queue_def sorted_wrt_upt)

lemma inv_order_reach: "lane_reach s \<Longrightarrow> inv_order s"
proof (erule lane_kind_invariant)
  show "inv_order (start_session l w)" for l w by (simp add: inv_order_def)
next
  fix s t
  assume "inv_order s" "quiet s t"
  then show "inv_order t" using quiet_ahead [of s t] by (simp add: inv_order_def quiet_def)
next
  fix s t a f
  assume "inv_verdict s" "inv_order s" "try_enqueue a f s = (Enqueued (queued s + 1), t)"
  then show "inv_order t" using enqueue_ahead [of a f s t] log_bound [of s]
    by (force simp: inv_order_def)
next
  fix s
  assume q: "inv_queue s" and i: "inv_order s"
  show "inv_order (writer_step s)"
  proof (cases s rule: writer_step_cases)
    case (wrote k w)
    then have "\<forall>j \<in> set (out_q s). k < j" using ahead_head [OF q] by (simp add: in_hand_def)
    then show ?thesis using i wrote
      by (simp add: inv_order_def finish_ob_def ahead_simps(5) [OF wrote(1)] sorted_wrt_append) (simp add: ahead_def)
  qed (use i in \<open>auto simp: inv_order_def claim_ob_def finish_ob_def ahead_def in_hand_def\<close>)
qed

lemma passed_ok_reach: "lane_reach s \<Longrightarrow> passed_ok s"
proof (erule lane_kind_invariant)
  show "passed_ok (start_session l w)" for l w by (simp add: passed_ok_def)
next
  fix s t
  assume "passed_ok s" "quiet s t"
  then show "passed_ok t" using quiet_ahead [of s t] by (simp add: passed_ok_def quiet_def) blast
next
  fix s t a f
  assume p: "passed_ok s" and e: "try_enqueue a f s = (Enqueued (queued s + 1), t)"
  show "passed_ok t" unfolding passed_ok_def
  proof (intro allI impI)
    fix k
    assume k: "1 \<le> k \<and> k \<le> queued t \<and> k \<notin> set (ahead t)"
    then have "k \<noteq> queued s + 1" "k \<notin> set (ahead s)" "k \<le> queued s"
      using enqueue_ahead(1,4) [OF e] by auto
    then show "ob_done (obs t k) \<noteq> None \<or> withdrawn t k"
      using p k enqueue_ahead(10,12) [OF e] by (simp add: passed_ok_def)
  qed
next
  fix s
  assume q: "inv_queue s" and v: "inv_verdict s" and p: "passed_ok s"
  have fr: "frame_ok s x" for x using v by (simp add: inv_verdict_def)
  show "passed_ok (writer_step s)"
  proof (cases s rule: writer_step_cases)
    case (withdrawn k)
    then show ?thesis using p fr [of k]
      by (auto simp: passed_ok_def ahead_simps frame_ok_def unclaimed_hand_def writing_def withdrawn_def)
  qed (use p in \<open>auto simp: passed_ok_def claim_ob_def finish_ob_def ahead_def in_hand_def withdrawn_def\<close>)
qed

lemma writer_calls [simp]: "calls (writer_step s) = calls s"
  by (cases s rule: writer_step_cases) (simp_all add: claim_ob_def finish_ob_def)

lemma writer_withdrawn [simp]: "withdrawn (writer_step s) k = withdrawn s k"
  by (simp add: withdrawn_def)

lemma inv_progress_reach: "lane_reach s \<Longrightarrow> inv_progress s"
proof (erule lane_kind_invariant)
  show "inv_progress (start_session l w)" for l w by (simp add: inv_progress_def)
next
  fix s t
  assume "inv_progress s" "quiet s t"
  then show "inv_progress t" by (simp add: inv_progress_def quiet_def) blast
next
  fix s t a f
  assume "inv_progress s" "try_enqueue a f s = (Enqueued (queued s + 1), t)"
  then show "inv_progress t" using enqueue_ahead [of a f s t] by (auto simp: inv_progress_def)
next
  fix s
  assume q: "inv_queue s" and v: "inv_verdict s" and p: "inv_progress s"
  have fr: "frame_ok s x" for x using v by (simp add: inv_verdict_def)
  show "inv_progress (writer_step s)"
  proof (cases s rule: writer_step_cases)
    case (progress k owed)
    have "k \<le> queued s" using hand_distinct(3) [OF q, of k] progress(1) by (simp add: in_hand_def)
    moreover have "owed \<longrightarrow> k \<in> set (tx_log s) \<or> withdrawn s k"
      using fr [of k] progress(1) by (auto simp: frame_ok_def)
    moreover have "tx_log (writer_step s) = tx_log s" "queued (writer_step s) = queued s"
      "wrote (writer_step s) = (if owed \<and> wrote s + 1 = k then k else wrote s)"
      by (simp_all add: progress)
    ultimately show ?thesis using p unfolding inv_progress_def
      by (auto simp: le_Suc_eq)
  qed (use p writer_withdrawn [of s] in \<open>auto simp: inv_progress_def claim_ob_def finish_ob_def\<close>)
qed

lemma inv_exact_reach: "lane_reach s \<Longrightarrow> inv_exact s"
proof (erule lane_kind_invariant)
  show "inv_exact (start_session l w)" for l w by (simp add: inv_exact_def in_hand_def)
next
  fix s t
  assume "inv_exact s" "quiet s t"
  then show "inv_exact t" using quiet_ahead [of s t] by (simp add: inv_exact_def quiet_def)
next
  fix s t a f
  assume "inv_exact s" "try_enqueue a f s = (Enqueued (queued s + 1), t)"
  then show "inv_exact t" using enqueue_ahead [of a f s t] by (simp add: inv_exact_def)
next
  fix s
  assume q: "inv_queue s" and v: "inv_verdict s" and p: "inv_exact s"
  obtain n where n: "n \<le> queued s" "in_hand s @ out_q s = [Suc n..<Suc (queued s)]"
    using q by (auto simp: inv_queue_def)
  show "inv_exact (writer_step s)"
  proof (cases s rule: writer_step_cases)
    case (progress k owed)
    then have l: "k # out_q s = [Suc n..<Suc (queued s)]" using n by (simp add: in_hand_def)
    then have "n < queued s" by (cases "n < queued s") auto
    then have "k = Suc n" using l by (simp add: upt_conv_Cons)
    moreover have "length (k # out_q s) = queued s - n" unfolding l by simp
    ultimately show ?thesis using p progress n(1) by (auto simp: inv_exact_def in_hand_def)
  qed (use p in \<open>auto simp: inv_exact_def claim_ob_def finish_ob_def in_hand_def\<close>)
qed

lemma inv_closing_reach: "lane_reach s \<Longrightarrow> inv_closing s"
proof (rule lane_invariant [of s inv_closing])
  show "inv_closing (start_session l w)" for l w by (simp add: inv_closing_def)
next
  fix s t
  assume c: "inv_closing s" and st: "lane_step s t"
  have enq: "inv_closing (snd (try_enqueue a f s))" for a f
    using c by (auto simp: inv_closing_def try_enqueue_def)
  have fields: "inv_closing t" if "out_q t = out_q s" "closed t = closed s" "out_closed t = out_closed s"
    "settled t = settled s" "lane t = lane s" "writer_state t = writer_state s" for t
    using c that by (simp add: inv_closing_def)
  have ends: "inv_closing (end_lane u)" if "inv_closing u" for u
    using that by (auto simp: inv_closing_def end_lane_def)
  have faults: "inv_closing (set_fault e u)" if "inv_closing u" for e u
    using that by (auto simp: set_fault_def intro!: ends) (simp add: inv_closing_def)
  have answers: "inv_closing (u\<lparr>controls := c\<rparr>)" "inv_closing (u\<lparr>controls := c, admission_slots := n\<rparr>)"
    "inv_closing (u\<lparr>calls := d\<rparr>)" "inv_closing (u\<lparr>pending := p, calls := d\<rparr>)"
    if "inv_closing u" for u c d p and n :: nat
    using that by (simp_all add: inv_closing_def)
  show "inv_closing t"
    using st
  proof (cases rule: lane_step.cases)
    case (step_writer)
    have "inv_closing (writer_step s)"
    proof (cases s rule: writer_step_cases)
      case (failed k e w)
      have "inv_closing (set_fault WriteFault (s\<lparr>tx := w, writer_state := WAfter k False\<rparr>))"
        by (rule faults) (use c failed(1) in \<open>simp add: inv_closing_def\<close>)
      then show ?thesis unfolding failed by (simp add: inv_closing_def finish_ob_def)
    qed (use c in \<open>auto simp: inv_closing_def claim_ob_def finish_ob_def\<close>)
    then show ?thesis using step_writer by simp
  next
    case (step_answer_send i f)
    obtain r u where e: "try_enqueue True f s = (r, u)" by (cases "try_enqueue True f s")
    have "inv_closing u" using enq [of True f] e by simp
    then show ?thesis using step_answer_send c e
      by (cases r) (auto simp: answer_send_def intro!: faults answers)
  next
    case (step_call_enqueue i f)
    obtain r u where e: "try_enqueue False f s = (r, u)" by (cases "try_enqueue False f s")
    have "inv_closing u" using enq [of False f] e by simp
    then show ?thesis using step_call_enqueue c e
      by (cases r) (auto simp: call_enqueue_def call_return_def intro!: answers)
  next
    case (step_admit)
    then show ?thesis using c by (auto simp: admit_one_def intro!: faults) (simp add: inv_closing_def)
  next
    case (step_settle)
    then show ?thesis using c by (simp add: settle_def inv_closing_def)
  qed (use c enq ends faults in \<open>auto simp: call_begin_def call_cancel_early_def call_written_def
        call_abandon_def call_reply_def call_give_up_def deliver_reply_def call_return_def answer_begin_def
        claim_ob_def intro!: fields split: call_state.splits option.splits write_verdict.splits\<close>)
qed

end
