(* ===== verification/SessionTruth.thy ===== *)
theory SessionTruth
  imports SessionLane
begin

text \<open>
  The promises of the session lane, from the invariants of \<open>SessionLane\<close>: bounded buffers and an
  answer that always finds room, frames that leave in order and once, a \<open>Flush\<close> and a ``not
  sent'' that tell the truth, the refinement of a plain queue, the bytes on the wire, and the
  writer emptying the queue.
\<close>

section \<open>Capacity\<close>

lemma length_filter_update:
  "i < length xs \<Longrightarrow> length (filter P (xs[i := x])) + (if P (xs ! i) then 1 else 0)
    = length (filter P xs) + (if P x then 1 else 0)"
proof (induction xs arbitrary: i)
  case (Cons y ys)
  then show ?case by (cases i) auto
qed simp

lemma length_split: "length xs = length (filter P xs) + length (filter (\<lambda>x. \<not> P x) xs)"
  by (induction xs) auto

lemma owed_update:
  assumes "i < length (controls s)"
  shows "owed_answers (u\<lparr>controls := (controls s)[i := c]\<rparr>) + (if controls s ! i \<noteq> CAnswered then 1 else 0)
    = owed_answers s + (if c \<noteq> CAnswered then 1 else 0)"
  using length_filter_update [OF assms, of "\<lambda>c. c \<noteq> CAnswered" c] by (simp add: owed_answers_def)

lemma taken_adm_cong: "writer_state t = writer_state s \<Longrightarrow> adm t = adm s \<Longrightarrow> taken_adm t = taken_adm s"
  by (simp add: taken_adm_def cong: writer_at.case_cong)

lemma inv_slots_same:
  assumes "inv_slots s" "out_q t = out_q s" "writer_state t = writer_state s" "controls t = controls s"
    "admission_slots t = admission_slots s" "\<And>k. adm t k = adm s k"
  shows "inv_slots t"
proof -
  have "adm t = adm s" using assms(6) by auto
  then show ?thesis using assms taken_adm_cong [of t s] by (simp add: inv_slots_def owed_answers_def)
qed

text \<open>An enqueue counts its frame on the side it belongs to.\<close>

lemma enqueue_counts:
  assumes "inv_queue s" "inv_slots s" "try_enqueue a f s = (Enqueued k, t)"
  shows "length (filter (adm t) (out_q t)) = length (filter (adm s) (out_q s)) + (if a then 1 else 0)"
    "length (filter (\<lambda>k. \<not> adm t k) (out_q t)) \<le> 64"
    "taken_adm t = taken_adm s" "controls t = controls s" "admission_slots t = admission_slots s"
    "owed_answers t = owed_answers s" "a \<or> length (out_q s) < 64"
proof -
  have t: "t = s\<lparr>out_q := out_q s @ [queued s + 1], queued := queued s + 1,
      obs := (obs s)(queued s + 1 := \<lparr>ob_frame = f, ob_claimed = False, ob_done = None, ob_admission = a\<rparr>)\<rparr>"
    and l: "a \<or> length (out_q s) < 64"
    using assms(3) by (cases rule: try_enqueue_cases; blast)+
  have n: "adm t j = adm s j" if "j \<in> set (out_q s)" for j
    using queue_bounds [OF assms(1) that] by (simp add: t adm_def)
  have f: "filter (adm t) (out_q s) = filter (adm s) (out_q s)"
    "filter (\<lambda>k. \<not> adm t k) (out_q s) = filter (\<lambda>k. \<not> adm s k) (out_q s)"
    by (rule filter_cong [OF refl], simp add: n)+
  show "length (filter (adm t) (out_q t)) = length (filter (adm s) (out_q s)) + (if a then 1 else 0)"
    using f(1) by (simp add: t adm_def)
  have le: "\<not> a \<Longrightarrow> length (filter (\<lambda>k. \<not> adm s k) (out_q s)) < 64"
    using l le_less_trans [OF length_filter_le] by blast
  have new: "adm t (queued s + 1) = a" "out_q t = out_q s @ [queued s + 1]" by (simp_all add: t adm_def)
  show "length (filter (\<lambda>k. \<not> adm t k) (out_q t)) \<le> 64"
    unfolding new(2) filter_append f(2) using le new(1) assms(2) by (cases a) (simp_all add: inv_slots_def)
  show "taken_adm t = taken_adm s"
  proof (cases "writer_state s")
    case (WTaken k)
    then have "k \<le> queued s" using hand_distinct(3) [OF assms(1), of k] by (simp add: in_hand_def)
    with WTaken show ?thesis by (simp add: t taken_adm_def adm_def)
  qed (simp_all add: t taken_adm_def)
  show "a \<or> length (out_q s) < 64" by (rule l)
  show "controls t = controls s" "admission_slots t = admission_slots s" "owed_answers t = owed_answers s"
    by (simp_all add: t owed_answers_def)
qed

lemma inv_slots_writer:
  assumes "inv_slots s"
  shows "inv_slots (writer_step s)"
proof -
  have o: "owed_answers t = owed_answers s" if "controls t = controls s" for t
    using that by (simp add: owed_answers_def)
  have same: "inv_slots t" if "out_q t = out_q s" "taken_adm t = taken_adm s" "controls t = controls s"
    "admission_slots t = admission_slots s" "\<And>k. adm t k = adm s k" for t
  proof -
    have "adm t = adm s" using that(5) by auto
    with that show ?thesis using assms by (simp add: inv_slots_def owed_answers_def)
  qed
  show ?thesis
  proof (cases s rule: writer_step_cases)
    case (take k q)
    have "adm (writer_step s) = adm s" by (rule ext) (simp add: take adm_def)
    then show ?thesis using assms take
      by (cases "adm s k") (simp_all add: inv_slots_def taken_adm_def owed_answers_def)
  next
    case (release k)
    have "adm (writer_step s) = adm s" by (rule ext) (simp add: release adm_def)
    then show ?thesis using assms release
      by (auto simp: inv_slots_def taken_adm_def owed_answers_def adm_def)
  qed (use assms in \<open>auto intro!: same simp: taken_adm_def adm_def claim_ob_def finish_ob_def split: if_splits\<close>)
qed

lemma inv_slots_answer:
  assumes q: "inv_queue s" and i: "inv_slots s"
  shows "inv_slots (answer_send j f s)"
proof (cases "j < length (controls s) \<and> controls s ! j = CAnswering")
  case True
  obtain r u where e: "try_enqueue True f s = (r, u)" by (cases "try_enqueue True f s")
  have ow: "owed_answers s = owed_answers (v\<lparr>controls := (controls s)[j := CAnswered]\<rparr>) + 1" for v
    using owed_update [of j s CAnswered v] True by simp
  show ?thesis
  proof (cases r)
    case (Enqueued k)
    note c = enqueue_counts [OF q i, of True f k u] e [unfolded Enqueued]
    let ?t = "u\<lparr>controls := (controls s)[j := CAnswered]\<rparr>"
    have a: "adm ?t = adm u" by (simp add: adm_def fun_eq_iff)
    moreover have "taken_adm ?t = taken_adm u" by (rule taken_adm_cong [OF _ a]) simp
    ultimately have "inv_slots ?t" using i ow [of u] c by (simp add: inv_slots_def)
    then show ?thesis using True e Enqueued c(4) by (simp add: answer_send_def)
  next
    case RefusedNotSent
    have u: "u = s" using e by (cases rule: try_enqueue_cases) (use RefusedNotSent in simp_all)
    let ?t = "s\<lparr>controls := (controls s)[j := CAnswered], admission_slots := admission_slots s - 1\<rparr>"
    have a: "adm ?t = adm s" by (simp add: adm_def fun_eq_iff)
    moreover have "taken_adm ?t = taken_adm s" by (rule taken_adm_cong [OF _ a]) simp
    ultimately have "inv_slots ?t" using i ow [of s] by (simp add: inv_slots_def owed_answers_def)
    then show ?thesis using True e RefusedNotSent u by (simp add: answer_send_def)
  next
    case RefusedFull
    have u: "u = s" using e by (cases rule: try_enqueue_cases) (use RefusedFull in simp_all)
    let ?t = "set_fault AdmissionFault (s\<lparr>controls := (controls s)[j := CAnswered], admission_slots := admission_slots s - 1\<rparr>)"
    have a: "adm ?t = adm s" by (simp add: adm_def fun_eq_iff)
    moreover have "taken_adm ?t = taken_adm s" by (rule taken_adm_cong [OF _ a]) simp
    ultimately have "inv_slots ?t" using i ow [of s] by (simp add: inv_slots_def owed_answers_def)
    then show ?thesis using True e RefusedFull u by (simp add: answer_send_def)
  qed
qed (use i in \<open>auto simp: answer_send_def\<close>)

lemma inv_slots_plain:
  assumes q: "inv_queue s" and i: "inv_slots s" and e: "try_enqueue False f s = (r, u)"
  shows "inv_slots u"
  using e
proof (cases rule: try_enqueue_cases)
  case 2
  have "try_enqueue False f s = (Enqueued (queued s + 1), u)" using e 2(1) by simp
  from enqueue_counts [OF q i this] i show ?thesis by (simp add: inv_slots_def)
qed (use i in simp)

lemma inv_slots_reach: "lane_reach s \<Longrightarrow> inv_slots s"
proof (rule lane_invariant [of s inv_slots])
  show "inv_slots (start_session l w)" for l w
    by (simp add: inv_slots_def owed_answers_def taken_adm_def)
next
  fix s t
  assume r: "lane_reach s" and i: "inv_slots s" and st: "lane_step s t"
  note q = inv_queue_reach [OF r]
  show "inv_slots t"
    using st
  proof (cases rule: lane_step.cases)
    case (step_emit f)
    obtain r u where e: "try_enqueue False f s = (r, u)" by (cases "try_enqueue False f s")
    then show ?thesis using step_emit inv_slots_plain [OF q i e] by simp
  next
    case step_writer
    then show ?thesis using inv_slots_writer [OF i] by simp
  next
    case (step_answer_send j f)
    then show ?thesis using inv_slots_answer [OF q i] by simp
  next
    case (step_call_enqueue j f)
    obtain r u where e: "try_enqueue False f s = (r, u)" by (cases "try_enqueue False f s")
    note u = inv_slots_plain [OF q i e]
    have "inv_slots (u\<lparr>calls := c\<rparr>)" "inv_slots (u\<lparr>pending := p, calls := c\<rparr>)" for c p
      by (rule inv_slots_same [OF u]; simp add: adm_def)+
    then show ?thesis unfolding step_call_enqueue using u e i
      by (cases r) (simp_all add: call_enqueue_def call_return_def)
  next
    case step_admit
    let ?u = "s\<lparr>admission_slots := admission_slots s + 1, controls := controls s @ [CWaiting]\<rparr>"
    have a: "adm ?u = adm s" by (simp add: adm_def fun_eq_iff)
    moreover have "taken_adm ?u = taken_adm s" by (rule taken_adm_cong [OF _ a]) simp
    ultimately have u: "inv_slots ?u" if "admission_slots s < session_admit_queue"
      using i that by (simp add: inv_slots_def owed_answers_def)
    have "inv_slots (set_fault AdmissionFault s)" by (rule inv_slots_same [OF i]) (simp_all add: adm_def)
    with u show ?thesis unfolding step_admit by (simp add: admit_one_def)
  next
    case (step_answer_begin j)
    show ?thesis
    proof (cases "j < length (controls s) \<and> controls s ! j = CWaiting")
      case True
      let ?u = "s\<lparr>controls := (controls s)[j := CAnswering]\<rparr>"
      have o: "owed_answers ?u = owed_answers s" using owed_update [of j s CAnswering s] True by simp
      have a: "adm ?u = adm s" by (simp add: adm_def fun_eq_iff)
      have "taken_adm ?u = taken_adm s" by (rule taken_adm_cong [OF _ a]) simp
      then have "inv_slots ?u" using i o a by (simp add: inv_slots_def)
      then show ?thesis using step_answer_begin True by (simp add: answer_begin_def)
    qed (use i step_answer_begin in \<open>auto simp: answer_begin_def\<close>)
  qed (use i in \<open>auto simp: settle_def call_begin_def call_cancel_early_def call_written_def adm_def
      call_abandon_def call_reply_def call_give_up_def deliver_reply_def call_return_def claim_ob_def
      intro!: inv_slots_same [OF i] split: call_state.splits option.splits write_verdict.splits if_splits\<close>)
qed

section \<open>Pending calls\<close>

definition inv_pending :: "session \<Rightarrow> bool" where
  "inv_pending s \<longleftrightarrow> length (pending s) \<le> session_max_pending \<and> distinct (map fst (pending s))
     \<and> (\<forall>j \<in> set (map fst (pending s)). j \<le> next_id s)"

lemma inv_pending_filter: "inv_pending s \<Longrightarrow> inv_pending (call_return i k v s)"
  by (auto simp: inv_pending_def call_return_def distinct_map_filter
      intro: order.trans [OF length_filter_le])

lemma inv_pending_same:
  "inv_pending s \<Longrightarrow> pending t = pending s \<Longrightarrow> next_id t = next_id s \<Longrightarrow> inv_pending t"
  by (simp add: inv_pending_def)

lemma next_id_fields [simp]:
  "next_id (end_lane s) = next_id s" "next_id (set_fault e s) = next_id s"
  "next_id (snd (try_enqueue a f s)) = next_id s"
  by (simp_all add: end_lane_def set_fault_def try_enqueue_def)

lemma writer_ids [simp]: "next_id (writer_step s) = next_id s" "pending (writer_step s) = pending s"
proof -
  have "next_id (writer_step s) = next_id s \<and> pending (writer_step s) = pending s"
    by (cases s rule: writer_step_cases) (simp_all add: claim_ob_def finish_ob_def)
  then show "next_id (writer_step s) = next_id s" "pending (writer_step s) = pending s" by blast+
qed

lemma inv_pending_reach: "lane_reach s \<Longrightarrow> inv_pending s"
proof (rule lane_invariant [of s inv_pending])
  show "inv_pending (start_session l w)" for l w by (simp add: inv_pending_def)
next
  fix s t
  assume i: "inv_pending s" and st: "lane_step s t"
  show "inv_pending t"
    using st
  proof (cases rule: lane_step.cases)
    case (step_emit f)
    then show ?thesis using inv_pending_same [OF i] by simp
  next
    case step_writer
    then show ?thesis using inv_pending_same [OF i] by simp
  next
    case (step_answer_send j f)
    obtain r u where e: "try_enqueue True f s = (r, u)" by (cases "try_enqueue True f s")
    then have "pending u = pending s" "next_id u = next_id s"
      using try_enqueue_other(5) [of True f s] next_id_fields(3) [of True f s] by simp_all
    then have "pending t = pending s" "next_id t = next_id s"
      using step_answer_send e by (cases r; simp add: answer_send_def)+
    then show ?thesis by (rule inv_pending_same [OF i])
  next
    case (step_call_enqueue j f)
    obtain r u where e: "try_enqueue False f s = (r, u)" by (cases "try_enqueue False f s")
    then have "pending u = pending s" "next_id u = next_id s"
      using try_enqueue_other(5) [of False f s] next_id_fields(3) [of False f s] by simp_all
    then have u: "inv_pending u" by (rule inv_pending_same [OF i])
    then have "inv_pending (u\<lparr>calls := c\<rparr>)" for c by (rule inv_pending_same) simp_all
    then show ?thesis using step_call_enqueue e i u inv_pending_filter
      by (cases r) (simp_all add: call_enqueue_def)
  next
    case step_call_begin
    show ?thesis
    proof (cases "session_max_pending \<le> length (pending s)")
      case False
      have "next_id s + 1 \<notin> set (map fst (pending s))"
      proof
        assume "next_id s + 1 \<in> set (map fst (pending s))"
        then have "next_id s + 1 \<le> next_id s" using i unfolding inv_pending_def by blast
        then show False by simp
      qed
      then show ?thesis using i step_call_begin False by (auto simp: inv_pending_def call_begin_def)
    qed (use i step_call_begin in \<open>simp add: call_begin_def\<close>)
  next
    case (step_deliver j r)
    have "map fst (pending t) = map fst (pending s)" "length (pending t) = length (pending s)"
      "next_id t = next_id s"
      unfolding step_deliver by (simp_all add: deliver_reply_def case_prod_beta comp_def)
    then show ?thesis using i unfolding inv_pending_def by metis
  qed (use i in \<open>auto simp: settle_def admit_one_def answer_begin_def call_cancel_early_def call_written_def
        call_abandon_def call_reply_def call_give_up_def claim_ob_def
        intro!: inv_pending_filter inv_pending_same [OF i] split: call_state.splits option.splits write_verdict.splits\<close>)
qed

section \<open>Runs\<close>

abbreviation lane_run :: "session \<Rightarrow> session \<Rightarrow> bool" where
  "lane_run \<equiv> lane_step\<^sup>*\<^sup>*"

lemma lane_reach_run: "lane_run s t \<Longrightarrow> lane_reach s \<Longrightarrow> lane_reach t"
  by (induction rule: rtranclp_induct) (auto intro: lane_reach.reach_step)

lemma lane_reach_start: "lane_run (start_session l w) s \<Longrightarrow> lane_reach s"
  using lane_reach_run lane_reach.reach_start by blast

lemma lane_run_writer: "lane_run s ((writer_step ^^ n) s)"
  by (induction n) (auto intro: rtranclp.rtrancl_into_rtrancl step_writer)

text \<open>A property of single steps between reachable states is kept along a run.\<close>

lemma lane_run_keeps:
  assumes "lane_run s t" "lane_reach s" "P s" "\<And>u v. lane_reach u \<Longrightarrow> P u \<Longrightarrow> lane_step u v \<Longrightarrow> P v"
  shows "P t"
proof -
  from assms(1) have "lane_reach t \<and> P t"
    by (induction rule: rtranclp_induct) (use assms(2-4) lane_reach.reach_step in blast)+
  then show ?thesis ..
qed

lemma withdrawn_step:
  assumes "lane_reach s" "lane_step s t" "withdrawn s k"
  shows "withdrawn t k"
  using lane_step_kinds [OF inv_verdict_reach [OF assms(1)] assms(2)]
proof (elim disjE exE)
  fix a f
  assume "enqueued a f s t"
  then obtain u where "try_enqueue a f s = (Enqueued (queued s + 1), u)" "quiet u t"
    by (auto simp: enqueued_def)
  then show ?thesis using enqueue_ahead(10) [of a f s u] assms(3) by (simp add: quiet_def)
next
  assume "t = writer_step s"
  then show ?thesis using writer_withdrawn [of s k] assms(3) by (simp only:)
qed (use assms(3) in \<open>simp add: quiet_def\<close>)

lemma withdrawn_run: "lane_run s t \<Longrightarrow> lane_reach s \<Longrightarrow> withdrawn s k \<Longrightarrow> withdrawn t k"
  by (rule lane_run_keeps [of s t "\<lambda>u. withdrawn u k"]) (auto intro: withdrawn_step)

lemma withdrawn_unsent: "lane_reach s \<Longrightarrow> withdrawn s k \<Longrightarrow> k \<notin> set (tx_log s)"
proof -
  assume "lane_reach s" "withdrawn s k"
  moreover have "frame_ok s k" using inv_verdict_reach [OF \<open>lane_reach s\<close>] by (simp add: inv_verdict_def)
  ultimately show ?thesis by (auto simp: frame_ok_def)
qed

end
