(* ===== verification/SessionFifo.thy ===== *)
theory SessionFifo
  imports SessionTruth
begin

text \<open>
  The session lane against its specification: a queue that hands its frames over in order, may
  skip one that was cancelled or that a broken transport cannot take, and nothing else. Then the
  bytes the transport holds, and the writer left to itself.
\<close>

section \<open>The specification\<close>

record fifo =
  waiting :: "(nat \<times> bytes) list"
  handed :: "(nat \<times> bytes) list"
  last_seq :: nat
  cancelled :: "nat set"
  broken :: bool

inductive fifo_step :: "fifo \<Rightarrow> fifo \<Rightarrow> bool" where
  fifo_environment: "cancelled q \<subseteq> c \<Longrightarrow> c \<inter> fst ` set (handed q) = {} \<Longrightarrow> (broken q \<Longrightarrow> b) \<Longrightarrow>
     fifo_step q (q\<lparr>cancelled := c, broken := b\<rparr>)"
| fifo_accept: "\<not> broken q \<Longrightarrow> n = last_seq q + 1 \<Longrightarrow>
     fifo_step q (q\<lparr>waiting := waiting q @ [(n, f)], last_seq := n\<rparr>)"
| fifo_hand: "waiting q = x # rest \<Longrightarrow> fst x \<notin> cancelled q \<Longrightarrow>
     fifo_step q (q\<lparr>waiting := rest, handed := handed q @ [x]\<rparr>)"
| fifo_skip: "waiting q = x # rest \<Longrightarrow> fst x \<in> cancelled q \<or> b \<Longrightarrow> (broken q \<Longrightarrow> b) \<Longrightarrow>
     fifo_step q (q\<lparr>waiting := rest, broken := b\<rparr>)"

inductive_cases fifo_stepE: "fifo_step q r"

definition frame_at :: "session \<Rightarrow> nat \<Rightarrow> nat \<times> bytes" where
  "frame_at s k = (k, ob_frame (obs s k))"

definition fifo_of :: "session \<Rightarrow> fifo" where
  "fifo_of s = \<lparr>waiting = List.map (frame_at s) (ahead s), handed = List.map (frame_at s) (tx_log s),
     last_seq = queued s, cancelled = {k. withdrawn s k}, broken = (fault s \<noteq> None)\<rparr>"

lemma ahead_sub: "set (ahead s) \<subseteq> set (in_hand s @ out_q s)"
  by (cases "writer_state s") (simp_all add: ahead_def)

lemma ahead_bound: "inv_queue s \<Longrightarrow> k \<in> set (ahead s) \<Longrightarrow> k \<le> queued s"
proof -
  assume q: "inv_queue s" "k \<in> set (ahead s)"
  then obtain n where "in_hand s @ out_q s = [Suc n..<Suc (queued s)]" by (auto simp: inv_queue_def)
  moreover have "k \<in> set (in_hand s @ out_q s)" using ahead_sub q(2) by blast
  ultimately show "k \<le> queued s" by auto
qed

lemma frame_at_map:
  assumes "\<And>k. k \<in> set xs \<Longrightarrow> ob_frame (obs t k) = ob_frame (obs s k)"
  shows "List.map (frame_at t) xs = List.map (frame_at s) xs"
  using assms by (simp add: frame_at_def)

lemma fifo_environment_eq:
  assumes "waiting r = waiting q" "handed r = handed q" "last_seq r = last_seq q"
    "cancelled q \<subseteq> cancelled r" "cancelled r \<inter> fst ` set (handed q) = {}" "broken q \<Longrightarrow> broken r"
  shows "fifo_step q r"
proof -
  have "r = q\<lparr>cancelled := cancelled r, broken := broken r\<rparr>" using assms(1-3) by simp
  then show ?thesis using fifo_environment [OF assms(4-6)] by metis
qed

lemma unsent_disjoint: "lane_reach s \<Longrightarrow> {k. withdrawn s k} \<inter> fst ` set (List.map (frame_at s) (tx_log s)) = {}"
  using withdrawn_unsent [of s] by (auto simp: frame_at_def)

lemma fifo_quiet:
  assumes t: "lane_reach t" and q: "quiet s t"
  shows "fifo_step (fifo_of s) (fifo_of t)"
proof (rule fifo_environment_eq)
  have "frame_at t = frame_at s" using q by (simp add: quiet_def frame_at_def fun_eq_iff)
  then show "waiting (fifo_of t) = waiting (fifo_of s)" "handed (fifo_of t) = handed (fifo_of s)"
    using q quiet_ahead [OF q] by (simp_all add: fifo_of_def quiet_def)
  then show "cancelled (fifo_of t) \<inter> fst ` set (handed (fifo_of s)) = {}"
    using unsent_disjoint [OF t] by (simp add: fifo_of_def)
qed (use q in \<open>auto simp: fifo_of_def quiet_def\<close>)

lemma fifo_writer:
  assumes s: "lane_reach s"
  shows "fifo_step (fifo_of s) (fifo_of (writer_step s))"
proof -
  have v: "inv_verdict s" by (rule inv_verdict_reach [OF s])
  have w: "withdrawn (writer_step s) = withdrawn s" by (simp add: fun_eq_iff)
  have stay: "fifo_step (fifo_of s) (fifo_of (writer_step s))"
    if "ahead (writer_step s) = ahead s" "tx_log (writer_step s) = tx_log s" "queued (writer_step s) = queued s"
      "fault (writer_step s) = fault s" "\<And>k. ob_frame (obs (writer_step s) k) = ob_frame (obs s k)"
  proof (rule fifo_environment_eq)
    have f: "frame_at (writer_step s) = frame_at s" using that by (simp add: frame_at_def fun_eq_iff)
    show "cancelled (fifo_of (writer_step s)) \<inter> fst ` set (handed (fifo_of s)) = {}"
      using unsent_disjoint [OF s] by (simp add: fifo_of_def w)
    show "waiting (fifo_of (writer_step s)) = waiting (fifo_of s)"
      "handed (fifo_of (writer_step s)) = handed (fifo_of s)" using that by (simp_all add: fifo_of_def f)
  qed (use that in \<open>simp_all add: fifo_of_def w\<close>)
  have skip: "fifo_step (fifo_of s) (fifo_of (writer_step s))"
    if "ahead s = k # ahead (writer_step s)" "tx_log (writer_step s) = tx_log s" "queued (writer_step s) = queued s"
      "fault s \<noteq> None \<Longrightarrow> fault (writer_step s) \<noteq> None"
      "\<And>k. ob_frame (obs (writer_step s) k) = ob_frame (obs s k)"
      "withdrawn s k \<or> fault (writer_step s) \<noteq> None" for k
  proof -
    have f: "frame_at (writer_step s) = frame_at s" using that by (simp add: frame_at_def fun_eq_iff)
    have "fifo_of (writer_step s) = (fifo_of s)\<lparr>waiting := List.map (frame_at s) (ahead (writer_step s)),
        broken := (fault (writer_step s) \<noteq> None)\<rparr>" using that by (simp add: fifo_of_def f w)
    moreover have "fifo_step (fifo_of s) ((fifo_of s)\<lparr>waiting := List.map (frame_at s) (ahead (writer_step s)),
        broken := (fault (writer_step s) \<noteq> None)\<rparr>)"
      by (rule fifo_skip [of _ "frame_at s k"]) (use that in \<open>simp_all add: fifo_of_def frame_at_def\<close>)
    ultimately show ?thesis by (simp only:)
  qed
  show ?thesis
  proof (cases s rule: writer_step_cases)
    case (withdrawn k)
    have "frame_ok s k" using v by (simp add: inv_verdict_def)
    then have "Session.withdrawn s k"
      using withdrawn(1,2) by (auto simp: frame_ok_def unclaimed_hand_def writing_def)
    then show ?thesis
      by (intro skip [of k]) (use withdrawn in \<open>simp_all add: ahead_def in_hand_def\<close>)
  next
    case (faulted k)
    show ?thesis
      by (intro skip [of k]) (use faulted in \<open>simp_all add: ahead_def in_hand_def finish_ob_def\<close>)
  next
    case (failed k e x)
    show ?thesis
      by (intro skip [of k]) (use failed in \<open>simp_all add: ahead_def in_hand_def finish_ob_def\<close>)
  next
    case (wrote k x)
    have "frame_ok s k" using v by (simp add: inv_verdict_def)
    then have n: "\<not> Session.withdrawn s k" using wrote(1) by (auto simp: frame_ok_def writing_def)
    have f: "frame_at (writer_step s) = frame_at s"
      using wrote by (simp add: frame_at_def finish_ob_def fun_eq_iff)
    have "fifo_of (writer_step s) = (fifo_of s)\<lparr>waiting := List.map (frame_at s) (out_q s),
        handed := handed (fifo_of s) @ [frame_at s k]\<rparr>"
      using w by (simp add: fifo_of_def f) (simp add: wrote finish_ob_def ahead_def)
    moreover have "waiting (fifo_of s) = frame_at s k # List.map (frame_at s) (out_q s)"
      using wrote(1) by (simp add: fifo_of_def ahead_def in_hand_def)
    moreover have "fst (frame_at s k) \<notin> cancelled (fifo_of s)" using n by (simp add: fifo_of_def frame_at_def)
    ultimately show ?thesis using fifo_hand by metis
  qed (rule stay; simp add: ahead_def in_hand_def claim_ob_def)+
qed

lemma fifo_enqueue:
  assumes s: "lane_reach s" and e: "try_enqueue a f s = (Enqueued (queued s + 1), t)"
  shows "fifo_step (fifo_of s) (fifo_of t)"
proof -
  note q = inv_queue_reach [OF s] and v = inv_verdict_reach [OF s]
  have old: "List.map (frame_at t) xs = List.map (frame_at s) xs" if "\<forall>k \<in> set xs. k \<le> queued s" for xs
    by (rule frame_at_map) (use that enqueue_ahead(12) [OF e] in force)
  have "List.map (frame_at t) (ahead s) = List.map (frame_at s) (ahead s)"
    by (rule old) (use ahead_bound [OF q] in blast)
  moreover have "List.map (frame_at t) (tx_log s) = List.map (frame_at s) (tx_log s)"
    by (rule old) (use log_bound [OF v] in blast)
  moreover have "frame_at t (queued s + 1) = (queued s + 1, f)" using enqueue_ahead(13) [OF e] by (simp add: frame_at_def)
  moreover have "{k. withdrawn t k} = {k. withdrawn s k}" using enqueue_ahead(10) [OF e] by blast
  ultimately have "fifo_of t = (fifo_of s)\<lparr>waiting := waiting (fifo_of s) @ [(queued s + 1, f)],
      last_seq := queued s + 1\<rparr>"
    using enqueue_ahead(1-9) [OF e] by (simp add: fifo_of_def)
  then show ?thesis using fifo_accept [of "fifo_of s" "queued s + 1" f] enqueue_ahead(9) [OF e]
    by (simp add: fifo_of_def)
qed

lemma fifo_refines:
  assumes s: "lane_reach s" and st: "lane_step s t"
  shows "fifo_step\<^sup>*\<^sup>* (fifo_of s) (fifo_of t)"
  using lane_step_kinds [OF inv_verdict_reach [OF s] st]
proof (elim disjE exE)
  assume "quiet s t"
  then show ?thesis using fifo_quiet [OF lane_reach.reach_step [OF s st]] by blast
next
  assume "t = writer_step s"
  then show ?thesis using fifo_writer [OF s] r_into_rtranclp by metis
next
  fix a f
  assume "enqueued a f s t"
  then obtain u where u: "try_enqueue a f s = (Enqueued (queued s + 1), u)" "quiet u t"
    by (auto simp: enqueued_def)
  then show ?thesis
    using fifo_enqueue [OF s u(1)] fifo_quiet [OF lane_reach.reach_step [OF s st] u(2)]
    by (meson converse_rtranclp_into_rtranclp r_into_rtranclp)
qed

section \<open>The bytes on the wire\<close>

definition framed :: "bytes \<Rightarrow> bytes" where
  "framed p = put_uint32 (word_of_nat (length p)) @ p"

definition wire_of :: "session \<Rightarrow> nat list \<Rightarrow> bytes" where
  "wire_of s ks = concat (List.map (\<lambda>k. framed (ob_frame (obs s k))) ks)"

definition inv_wire :: "bytes \<Rightarrow> session \<Rightarrow> bool" where
  "inv_wire base s \<longleftrightarrow>
     (\<exists>tail. w_out (tx s) = base @ wire_of s (tx_log s) @ tail
        \<and> (tail = [] \<or> fault s \<noteq> None \<and> (\<forall>k. writer_state s \<noteq> WChecked k)))
     \<and> (\<forall>k \<in> set (tx_log s). frame_put control_limit (ob_frame (obs s k)) = Some (framed (ob_frame (obs s k))))"

lemma write_frame_None:
  "write_frame w p mx = (None, w') \<Longrightarrow> frame_put mx p = Some (framed p) \<and> w_out w' = w_out w @ framed p"
  by (auto simp: write_frame_def do_write_def frame_put_eq framed_def split: if_splits bool.splits option.splits nat.splits)

lemma write_frame_Some: "write_frame w p mx = (Some e, w') \<Longrightarrow> \<exists>tail. w_out w' = w_out w @ tail"
  by (auto simp: write_frame_def do_write_def split: if_splits bool.splits option.splits nat.splits)

lemma wire_cong: "(\<And>k. k \<in> set ks \<Longrightarrow> ob_frame (obs t k) = ob_frame (obs s k)) \<Longrightarrow> wire_of t ks = wire_of s ks"
  by (simp add: wire_of_def cong: map_cong)

lemma inv_wire_keep:
  assumes i: "inv_wire base s" and "tx t = tx s" "tx_log t = tx_log s"
    "\<And>k. k \<in> set (tx_log s) \<Longrightarrow> ob_frame (obs t k) = ob_frame (obs s k)"
    "fault s \<noteq> None \<Longrightarrow> fault t \<noteq> None"
    "\<And>k. fault s \<noteq> None \<Longrightarrow> writer_state t = WChecked k \<Longrightarrow> writer_state s = WChecked k"
  shows "inv_wire base t"
  using assms wire_cong [OF assms(4)] unfolding inv_wire_def by metis

lemma inv_wire_writer:
  assumes i: "inv_wire base s"
  shows "inv_wire base (writer_step s)"
proof (cases s rule: writer_step_cases)
  case (wrote k w)
  have o: "ob_frame (obs (writer_step s) j) = ob_frame (obs s j)" for j by (simp add: wrote finish_ob_def)
  have "w_out (tx s) = base @ wire_of s (tx_log s)"
    using i wrote(1) by (auto simp: inv_wire_def)
  moreover have "w_out w = w_out (tx s) @ framed (ob_frame (obs s k))"
    "frame_put control_limit (ob_frame (obs s k)) = Some (framed (ob_frame (obs s k)))"
    using write_frame_None [OF wrote(2)] by simp_all
  moreover have "tx (writer_step s) = w" "tx_log (writer_step s) = tx_log s @ [k]" by (simp_all add: wrote finish_ob_def)
  moreover have "wire_of (writer_step s) (tx_log s @ [k]) = wire_of s (tx_log s) @ framed (ob_frame (obs s k))"
    by (simp add: wire_of_def o)
  ultimately show ?thesis using i unfolding inv_wire_def o by auto
next
  case (failed k e w)
  have o: "ob_frame (obs (writer_step s) j) = ob_frame (obs s j)" for j by (simp add: failed finish_ob_def)
  have "w_out (tx s) = base @ wire_of s (tx_log s)"
    using i failed(1) by (auto simp: inv_wire_def)
  moreover obtain tail where "w_out w = w_out (tx s) @ tail" using write_frame_Some [OF failed(2)] by blast
  moreover have "tx (writer_step s) = w" "tx_log (writer_step s) = tx_log s" "fault (writer_step s) \<noteq> None"
    "\<forall>j. writer_state (writer_step s) \<noteq> WChecked j"
    by (simp_all add: failed finish_ob_def) (simp add: set_fault_def end_lane_def)
  moreover have "wire_of (writer_step s) (tx_log s) = wire_of s (tx_log s)" by (simp add: wire_of_def o)
  ultimately show ?thesis using i unfolding inv_wire_def o by auto
qed (rule inv_wire_keep [OF i]; simp add: claim_ob_def finish_ob_def split: if_splits)+

lemma inv_wire_run:
  assumes "lane_run (start_session l w) s"
  shows "inv_wire (w_out w) s"
proof (rule lane_run_keeps [OF assms lane_reach.reach_start])
  show "inv_wire (w_out w) (start_session l w)"
    by (simp add: inv_wire_def wire_of_def) (simp add: start_session_def)
next
  fix u v
  assume "lane_reach u" "inv_wire (w_out w) u" "lane_step u v"
  then show "inv_wire (w_out w) v"
  proof (rule lane_kind_step)
    show "inv_wire (w_out w) t" if "inv_wire (w_out w) s" "quiet s t" for s t
      by (rule inv_wire_keep [OF that(1)]) (use that(2) in \<open>auto simp: quiet_def\<close>)
    show "inv_wire (w_out w) (writer_step s)" if "inv_wire (w_out w) s" for s by (rule inv_wire_writer [OF that])
    fix s t a f
    assume v: "inv_verdict s" and i: "inv_wire (w_out w) s" and e: "try_enqueue a f s = (Enqueued (queued s + 1), t)"
    have "k \<noteq> queued s + 1" if "k \<in> set (tx_log s)" for k using log_bound [OF v that] by simp
    then show "inv_wire (w_out w) t"
      by (intro inv_wire_keep [OF i]) (simp_all add: enqueue_ahead [OF e])
  qed
qed

lemma wire_reads_back:
  assumes "\<forall>k \<in> set ks. frame_put control_limit (ob_frame (obs s k)) = Some (framed (ob_frame (obs s k)))"
  shows "read_many (read_frame control_limit) (length ks) (wire_of s ks @ tail)
    = Inr (List.map (\<lambda>k. ob_frame (obs s k)) ks, tail)"
proof -
  have "list_all2 (\<lambda>m w. frame_put control_limit m = Some w) (List.map (\<lambda>k. ob_frame (obs s k)) ks)
      (List.map (\<lambda>k. framed (ob_frame (obs s k))) ks)"
    using assms by (simp add: list_all2_conv_all_nth)
  from control.read_back [OF this, of tail] show ?thesis by (simp add: wire_of_def)
qed

section \<open>The writer left to itself\<close>

definition writer_stage :: "session \<Rightarrow> nat" where
  "writer_stage s =
     (case writer_state s of
        WIdle \<Rightarrow> 0 | WTaken k \<Rightarrow> 5 | WReleased k \<Rightarrow> 4 | WClaimed k \<Rightarrow> 3 | WChecked k \<Rightarrow> 2 | WAfter k b \<Rightarrow> 1
      | WRetired \<Rightarrow> 0)"

definition writer_debt :: "session \<Rightarrow> nat" where
  "writer_debt s = 6 * length (out_q s) + writer_stage s"

lemma writer_debt_step:
  assumes "inv_closing s" "writer_debt s \<noteq> 0"
  shows "writer_debt (writer_step s) < writer_debt s"
proof (cases s rule: writer_step_cases)
  case stay
  have "writer_state s = WIdle \<and> out_q s = [] \<or> writer_state s = WRetired"
  proof (cases "writer_state s")
    case WIdle
    have "out_q s = []"
    proof (cases "out_q s")
      case (Cons k q)
      then have "writer_state (writer_step s) = WTaken k" using WIdle by (simp add: writer_step_def)
      then show ?thesis using stay WIdle by simp
    qed
    with WIdle show ?thesis by simp
  next
    case (WTaken k)
    then have "writer_state (writer_step s) = WReleased k" by (simp add: writer_step_def)
    then show ?thesis using stay WTaken by simp
  next
    case (WReleased k)
    then have "writer_state (writer_step s) \<noteq> WReleased k" by (simp add: writer_step_def claim_ob_def)
    then show ?thesis using stay WReleased by simp
  next
    case (WClaimed k)
    then have "writer_state (writer_step s) \<noteq> WClaimed k" by (simp add: writer_step_def finish_ob_def)
    then show ?thesis using stay WClaimed by simp
  next
    case (WChecked k)
    then have "writer_state (writer_step s) \<noteq> WChecked k"
      by (simp add: writer_step_def finish_ob_def split: prod.splits option.splits)
    then show ?thesis using stay WChecked by simp
  next
    case (WAfter k b)
    then have "writer_state (writer_step s) = WIdle" by (simp add: writer_step_def)
    then show ?thesis using stay WAfter by simp
  qed simp
  then show ?thesis using assms by (auto simp: writer_debt_def writer_stage_def inv_closing_def)
qed (use assms(2) in \<open>simp_all add: writer_debt_def writer_stage_def claim_ob_def finish_ob_def\<close>)

lemma writer_steps_reach: "lane_reach s \<Longrightarrow> lane_reach ((writer_step ^^ n) s)"
  using lane_reach_run lane_run_writer by blast

lemma writer_drains:
  assumes "lane_reach s" "writer_debt s \<le> n"
  shows "writer_debt ((writer_step ^^ n) s) = 0"
  using assms
proof (induction n arbitrary: s)
  case (Suc n)
  have r: "lane_reach (writer_step s)" using Suc.prems(1) lane_reach.reach_step step_writer by blast
  have "writer_debt (writer_step s) \<le> n"
  proof (cases "writer_debt s = 0")
    case True
    then have "out_q s = []" "in_hand s = [] \<and> (writer_state s = WIdle \<or> writer_state s = WRetired)"
      by (cases "writer_state s"; simp add: writer_debt_def writer_stage_def in_hand_def)+
    then have "writer_debt (writer_step s) = 0"
      by (auto simp: writer_step_def writer_debt_def writer_stage_def)
    then show ?thesis by simp
  next
    case False
    then show ?thesis using writer_debt_step [OF inv_closing_reach [OF Suc.prems(1)]] Suc.prems(2) by fastforce
  qed
  from Suc.IH [OF r this] show ?case by (simp add: funpow_swap1)
qed simp

lemma no_debt: "writer_debt s = 0 \<Longrightarrow> out_q s = [] \<and> in_hand s = [] \<and> (writer_state s = WIdle \<or> writer_state s = WRetired)"
  by (cases "writer_state s") (simp_all add: writer_debt_def writer_stage_def in_hand_def)

lemma writer_debt_bound: "writer_debt s \<le> 6 * length (out_q s) + 5"
  by (cases "writer_state s") (simp_all add: writer_debt_def writer_stage_def)

lemma writer_queued [simp]: "queued (writer_step s) = queued s"
  by (cases s rule: writer_step_cases) (simp_all add: claim_ob_def finish_ob_def)

lemma writer_keeps_queued [simp]: "queued ((writer_step ^^ n) s) = queued s"
  by (induction n) simp_all

lemma writer_keeps_ended: "closed s \<and> settled s \<Longrightarrow> closed (writer_step s) \<and> settled (writer_step s)"
  by (cases s rule: writer_step_cases) (simp_all add: claim_ob_def finish_ob_def)

lemma writer_steps_ended: "closed s \<and> settled s \<Longrightarrow> closed ((writer_step ^^ n) s) \<and> settled ((writer_step ^^ n) s)"
  by (induction n) (simp_all add: writer_keeps_ended)

section \<open>Replies\<close>

definition sent_frame_of :: "call_state \<Rightarrow> nat option" where
  "sent_frame_of c = (case c of CallSent k \<Rightarrow> Some k | CallDone k (Replied r) \<Rightarrow> k | _ \<Rightarrow> None)"

definition inv_sent :: "session \<Rightarrow> bool" where
  "inv_sent s \<longleftrightarrow> (\<forall>i k. sent_frame_of (calls s i) = Some k \<longrightarrow> k \<in> set (tx_log s))"

lemma sent_frame_simps [simp]:
  "sent_frame_of CallNone = None" "sent_frame_of CallRegistered = None" "sent_frame_of (CallQueued k) = None"
  "sent_frame_of (CallSent k) = Some k" "sent_frame_of (CallDone j (Replied r)) = j"
  "sent_frame_of (CallDone j NotSent) = None" "sent_frame_of (CallDone j OutcomeUnknown) = None"
  by (simp_all add: sent_frame_of_def)

lemma inv_sentD: "inv_sent s \<Longrightarrow> sent_frame_of (calls s i) = Some k \<Longrightarrow> k \<in> set (tx_log s)"
  unfolding inv_sent_def by blast

lemma inv_sent_call:
  assumes "inv_sent s" "calls t = (calls s)(i := c)" "tx_log t = tx_log s"
    "\<And>k. sent_frame_of c = Some k \<Longrightarrow> k \<in> set (tx_log s)"
  shows "inv_sent t"
  using assms by (simp add: inv_sent_def)

lemma inv_sent_same: "inv_sent s \<Longrightarrow> calls t = calls s \<Longrightarrow> set (tx_log s) \<subseteq> set (tx_log t) \<Longrightarrow> inv_sent t"
  by (auto simp: inv_sent_def)

lemma inv_sent_return:
  "inv_sent s \<Longrightarrow> sent_frame_of (CallDone k v) = None \<Longrightarrow> inv_sent (call_return i k v s)"
  using inv_sent_call [of s "call_return i k v s" i "CallDone k v"] by (simp add: call_return_def)

lemma writer_log: "set (tx_log s) \<subseteq> set (tx_log (writer_step s))"
proof -
  have "tx_log (writer_step s) = tx_log s \<or> (\<exists>k. tx_log (writer_step s) = tx_log s @ [k])"
    by (cases s rule: writer_step_cases) (simp_all add: claim_ob_def finish_ob_def)
  then show ?thesis by auto
qed

lemma inv_sent_reach: "lane_reach s \<Longrightarrow> inv_sent s"
proof (rule lane_invariant [of s inv_sent])
  show "inv_sent (start_session l w)" for l w by (simp add: inv_sent_def)
next
  fix s t
  assume r: "lane_reach s" and i: "inv_sent s" and st: "lane_step s t"
  show "inv_sent t"
    using st
  proof (cases rule: lane_step.cases)
    case step_writer
    then show ?thesis using inv_sent_same [OF i writer_calls writer_log] by (simp only:)
  next
    case step_call_begin
    then show ?thesis using i inv_sent_call [OF i, of t "next_id s + 1" CallRegistered]
      by (cases "session_max_pending \<le> length (pending s)") (simp_all add: call_begin_def)
  next
    case (step_answer_send j f)
    obtain x u where e: "try_enqueue True f s = (x, u)" by (cases "try_enqueue True f s")
    then have u: "calls u = calls s" "tx_log u = tx_log s"
      using try_enqueue_other(3,4) [of True f s] by simp_all
    then have "calls t = calls s \<and> tx_log t = tx_log s"
      using step_answer_send e by (cases x) (simp_all add: answer_send_def)
    then show ?thesis using inv_sent_same [OF i] by simp
  next
    case (step_call_enqueue j f)
    obtain x u where e: "try_enqueue False f s = (x, u)" by (cases "try_enqueue False f s")
    then have "calls u = calls s" "tx_log u = tx_log s"
      using try_enqueue_other(3,4) [of False f s] by simp_all
    then have u: "inv_sent u" using inv_sent_same [OF i] by simp
    have "inv_sent (u\<lparr>calls := (calls u)(j := CallQueued k)\<rparr>)" for k
      by (rule inv_sent_call [OF u, where i = j and c = "CallQueued k"]) simp_all
    moreover have "inv_sent (call_return j None NotSent u)"
      by (rule inv_sent_return [OF u]) simp
    ultimately show ?thesis using step_call_enqueue e i u
      by (cases x) (simp_all add: call_enqueue_def)
  next
    case (step_call_written j)
    have "inv_sent (s\<lparr>calls := (calls s)(j := CallSent k)\<rparr>)" if "ob_done (obs s k) = Some WroteOk" for k
    proof (rule inv_sent_call [OF i])
      have "frame_ok s k" using inv_verdict_reach [OF r] by (simp add: inv_verdict_def)
      then show "x \<in> set (tx_log s)" if "sent_frame_of (CallSent k) = Some x" for x
        using that \<open>ob_done (obs s k) = Some WroteOk\<close> by (auto simp: frame_ok_def)
    qed simp_all
    then show ?thesis unfolding step_call_written using i
      by (auto simp: call_written_def intro!: inv_sent_return
          split: call_state.splits option.splits write_verdict.splits)
  next
    case (step_call_abandon j)
    have "inv_sent (claim_ob k s)" for k by (rule inv_sent_same [OF i]) (simp_all add: claim_ob_def)
    then show ?thesis unfolding step_call_abandon using i
      by (auto simp: call_abandon_def intro!: inv_sent_return split: call_state.splits)
  next
    case (step_call_reply j)
    have "inv_sent (call_return j (Some k) (Replied x) s)" if "calls s j = CallSent k" for k x
    proof (rule inv_sent_call [OF i, of _ j])
      have "k \<in> set (tx_log s)" using inv_sentD [OF i, of j k] that by simp
      then show "y \<in> set (tx_log s)" if "sent_frame_of (CallDone (Some k) (Replied x)) = Some y" for y
        using that by simp
    qed (simp_all add: call_return_def)
    then show ?thesis unfolding step_call_reply using i
      by (auto simp: call_reply_def split: call_state.splits option.splits)
  next
    case (step_call_cancel_early j)
    then show ?thesis using i inv_sent_return by (simp add: call_cancel_early_def)
  next
    case (step_call_give_up j)
    then show ?thesis using i inv_sent_return by (simp add: call_give_up_def split: call_state.splits)
  qed (use i in \<open>auto simp: settle_def admit_one_def answer_begin_def deliver_reply_def
        intro!: inv_sent_same [OF i]\<close>)
qed

section \<open>Runs to try the promises on\<close>

text \<open>One call written and answered; one call cancelled behind it; an admission answered.\<close>

definition run_call :: session where
  "run_call = (writer_step ^^ 6) (call_enqueue 1 [CHR ''a''] (call_begin (start_session True empty_writer)))"

definition run_cancel :: session where
  "run_cancel = call_abandon 2 (call_enqueue 2 [CHR ''b''] (call_begin run_call))"

definition run_answer :: session where
  "run_answer = answer_begin 0 (admit_one run_cancel)"

lemma run_reach:
  "lane_run (start_session True empty_writer) run_call" "lane_run run_call run_cancel"
  "lane_run run_cancel run_answer"
proof -
  note steps = step_call_enqueue step_call_begin step_call_abandon step_admit step_answer_begin
  have "lane_run (start_session True empty_writer)
      (call_enqueue 1 [CHR ''a''] (call_begin (start_session True empty_writer)))"
    by (meson r_into_rtranclp rtranclp_trans steps)
  then show "lane_run (start_session True empty_writer) run_call"
    unfolding run_call_def using lane_run_writer rtranclp_trans by meson
  show "lane_run run_call run_cancel" "lane_run run_cancel run_answer"
    unfolding run_cancel_def run_answer_def by (meson r_into_rtranclp rtranclp_trans steps)+
qed

lemmas run_reaches = lane_reach_start [OF run_reach(1)]
  lane_reach_run [OF run_reach(2) lane_reach_start [OF run_reach(1)]]
  lane_reach_run [OF run_reach(3) lane_reach_run [OF run_reach(2) lane_reach_start [OF run_reach(1)]]]

lemma write_one: "write_frame empty_writer [CHR ''a''] control_limit = (None, \<lparr>w_out = framed [CHR ''a''], w_left = None\<rparr>)"
proof -
  have "frame_put control_limit [CHR ''a''] = Some (framed [CHR ''a''])"
    by (simp add: frame_put_eq framed_def max_control_frame_bytes_def)
  from write_frame_ok [OF _ this, of empty_writer] show ?thesis by (simp add: empty_writer_def)
qed

lemma run_call_queued:
  "call_enqueue 1 [CHR ''a''] (call_begin (start_session True empty_writer))
   = (start_session True empty_writer)\<lparr>out_q := [1], queued := 1, next_id := 1, pending := [(1, None)],
       calls := (\<lambda>_. CallNone)(1 := CallQueued 1),
       obs := (\<lambda>_. no_outbound)(1 := no_outbound\<lparr>ob_frame := [CHR ''a'']\<rparr>)\<rparr>"
  by (simp add: call_begin_def call_enqueue_def try_enqueue_def session_max_pending_def session_out_queue_def
      session_admit_queue_def start_session_def no_outbound_def)

lemma run_call_eq:
  "run_call = (start_session True empty_writer)\<lparr>out_q := [], queued := 1, next_id := 1, wrote := 1,
     pending := [(1, None)], tx := \<lparr>w_out = framed [CHR ''a''], w_left = None\<rparr>, tx_log := [1],
     calls := (\<lambda>_. CallNone)(1 := CallQueued 1),
     obs := (\<lambda>_. no_outbound)(1 := \<lparr>ob_frame = [CHR ''a''], ob_claimed = True, ob_done = Some WroteOk,
       ob_admission = False\<rparr>)\<rparr>"
proof -
  have six: "(writer_step ^^ 6) s =
      writer_step (writer_step (writer_step (writer_step (writer_step (writer_step s)))))" for s
    by (simp add: eval_nat_numeral)
  show ?thesis unfolding run_call_def run_call_queued six
    by (simp add: writer_step_def start_session_def no_outbound_def claim_ob_def finish_ob_def write_one)
qed

lemma run_cancel_eq:
  "run_cancel = run_call\<lparr>out_q := [2], queued := 2, next_id := 2, 
     calls := (\<lambda>_. CallNone)(1 := CallQueued 1, 2 := CallDone (Some 2) NotSent),
     obs := (obs run_call)(2 := \<lparr>ob_frame = [CHR ''b''], ob_claimed = True, ob_done = None,
       ob_admission = False\<rparr>)\<rparr>"
  by (simp add: run_cancel_def run_call_eq call_begin_def call_enqueue_def call_abandon_def try_enqueue_def
      session_max_pending_def session_out_queue_def session_admit_queue_def start_session_def claim_ob_def
      call_return_def eval_nat_numeral)

lemma run_answer_eq:
  "run_answer = run_cancel\<lparr>admission_slots := 1, controls := [CAnswering]\<rparr>"
  by (simp add: run_answer_def run_cancel_eq run_call_eq admit_one_def answer_begin_def session_admit_queue_def
      start_session_def)

lemmas run_eqs = run_call_eq run_cancel_eq run_answer_eq

section \<open>The promises of the lane\<close>

text \<open>C17: the lane refines its specification. From the empty queue every step of the lane (an
  emit, a call, an answer, the end, the fault, every stage of the writer, in any order) is a
  sequence of steps of the specification: frames join at the end under the next number, leave
  from the front once, and one is skipped only when its call was withdrawn or the lane is broken.\<close>

theorem the_lane_refines_a_queue:
  assumes "lane_run (start_session l w) s" "lane_step s t"
  shows "fifo_of (start_session l w) = \<lparr>waiting = [], handed = [], last_seq = 0, cancelled = {}, broken = False\<rparr>
    \<and> fifo_step\<^sup>*\<^sup>* (fifo_of (start_session l w)) (fifo_of s) \<and> fifo_step\<^sup>*\<^sup>* (fifo_of s) (fifo_of t)"
proof (intro conjI)
  show "fifo_of (start_session l w) = \<lparr>waiting = [], handed = [], last_seq = 0, cancelled = {}, broken = False\<rparr>"
    by (simp add: fifo_of_def ahead_simps withdrawn_def)
  show "fifo_step\<^sup>*\<^sup>* (fifo_of s) (fifo_of t)" by (rule fifo_refines [OF lane_reach_start [OF assms(1)] assms(2)])
  show "fifo_step\<^sup>*\<^sup>* (fifo_of (start_session l w)) (fifo_of s)"
    by (rule lane_run_keeps [OF assms(1) lane_reach.reach_start]) (use fifo_refines rtranclp_trans in fastforce)+
qed

theorem the_lane_refines_a_queue_witness:
  "fifo_step\<^sup>*\<^sup>* (fifo_of (start_session True empty_writer)) (fifo_of run_call)
   \<and> fifo_step\<^sup>*\<^sup>* (fifo_of run_call) (fifo_of (call_begin run_call))"
  using the_lane_refines_a_queue [OF run_reach(1) step_call_begin] by blast

text \<open>C19: an answer always finds room. A control keeps its admission slot until its answer is
  out of the queue, so with 64 slots and 64 places for everything else an answer is never refused
  because the queue is full: it is accepted at the end of the queue unless the lane has closed or
  broken, and sending it never breaks the lane.\<close>

theorem an_answer_always_finds_room:
  assumes "lane_reach s" "i < length (controls s)" "controls s ! i = CAnswering"
  shows "fault (answer_send i f s) = fault s
    \<and> (if out_closed s \<or> fault s \<noteq> None then out_q (answer_send i f s) = out_q s
       else out_q (answer_send i f s) = out_q s @ [queued s + 1]
         \<and> ob_frame (obs (answer_send i f s) (queued s + 1)) = f)"
proof -
  have sl: "inv_slots s" by (rule inv_slots_reach [OF assms(1)])
  have "owed_answers s = owed_answers (s\<lparr>controls := (controls s)[i := CAnswered]\<rparr>) + 1"
    using owed_update [OF assms(2), of CAnswered s] assms(3) by simp
  then have "length (filter (adm s) (out_q s)) < 64"
    using sl by (simp add: inv_slots_def session_admit_queue_def)
  moreover have "length (filter (\<lambda>k. \<not> adm s k) (out_q s)) \<le> 64" using sl by (simp add: inv_slots_def)
  ultimately have "length (out_q s) < session_out_queue"
    using length_split [of "out_q s" "adm s"] by (simp add: session_out_queue_def session_admit_queue_def)
  then show ?thesis using assms(2,3) by (auto simp: answer_send_def try_enqueue_def)
qed

theorem an_answer_always_finds_room_witness:
  "out_q (answer_send 0 [CHR ''r''] run_answer) = [2, 3]"
  using an_answer_always_finds_room [OF run_reaches(3), of 0 "[CHR ''r'']"]
  by (simp add: run_eqs eval_nat_numeral start_session_def)

text \<open>everything the lane holds is bounded, whatever its peer and its handlers do: at most 64
  controls between admission and answer, 64 host calls waiting (each under its own id), and 128
  frames queued, of which 64 are not answers.\<close>

theorem lane_buffers_are_bounded:
  assumes "lane_reach s"
  shows "owed_answers s \<le> 64 \<and> admission_slots s \<le> 64 \<and> length (pending s) \<le> 64
    \<and> distinct (List.map fst (pending s)) \<and> length (out_q s) \<le> 128
    \<and> length (filter (\<lambda>k. \<not> ob_admission (obs s k)) (out_q s)) \<le> 64"
  using inv_slots_reach [OF assms] inv_pending_reach [OF assms] length_split [of "out_q s" "adm s"]
  by (simp add: inv_slots_def inv_pending_def session_admit_queue_def session_max_pending_def adm_def)

theorem lane_buffers_are_bounded_witness: "length (out_q run_answer) \<le> 128 \<and> owed_answers run_answer \<le> 64"
  using lane_buffers_are_bounded [OF run_reaches(3)] by blast

text \<open>C18: ``not sent'' is true for ever. Once a host call has returned that its frame was not
  sent, the transport has not taken that frame and never will, however the lane goes on, and the
  verdict stays.\<close>

theorem not_sent_is_true:
  assumes "lane_reach s" "calls s i = CallDone (Some k) NotSent" "lane_run s t"
  shows "k \<notin> set (tx_log t) \<and> ob_done (obs t k) \<noteq> Some WroteOk \<and> 1 \<le> k \<and> k \<le> queued t"
proof -
  have r: "lane_reach t" by (rule lane_reach_run [OF assms(3,1)])
  have "withdrawn s k" using assms(2) by (auto simp: withdrawn_def)
  then have w: "withdrawn t k" by (rule withdrawn_run [OF assms(3,1)])
  have v: "inv_verdict t" by (rule inv_verdict_reach [OF r])
  then have "frame_ok t k" "inv_calls t" by (simp_all add: inv_verdict_def)
  then show ?thesis using withdrawn_unsent [OF r w] withdrawn_bounds [of t k] w by (auto simp: frame_ok_def)
qed

theorem not_sent_is_true_witness: "2 \<notin> set (tx_log ((writer_step ^^ 9) run_cancel))"
  using not_sent_is_true [OF run_reaches(2) _ lane_run_writer, of 2 2 9] by (simp add: run_eqs)

text \<open>a host call that returned the host's reply, or that is waiting for it, has its frame on
  the wire: no reply is ever matched to a call that was not sent.\<close>

theorem replies_are_to_sent_calls:
  assumes "lane_reach s" "calls s i = CallSent k \<or> calls s i = CallDone (Some k) (Replied r)"
  shows "k \<in> set (tx_log s) \<and> ob_done (obs s k) = Some WroteOk \<and> \<not> withdrawn s k"
proof -
  have k: "k \<in> set (tx_log s)" using inv_sentD [OF inv_sent_reach [OF assms(1)], of i k] assms(2) by auto
  moreover have "frame_ok s k" using inv_verdict_reach [OF assms(1)] by (simp add: inv_verdict_def)
  ultimately show ?thesis by (auto simp: frame_ok_def)
qed

theorem replies_are_to_sent_calls_witness: "1 \<in> set (tx_log (call_written 1 run_call))"
  using replies_are_to_sent_calls [OF lane_reach.reach_step [OF run_reaches(1) step_call_written], of 1 1 1 "[]"]
  by (simp add: call_written_def run_call_eq start_session_def)

text \<open>C23: frames go out in the order they were accepted, each at most once, before every frame
  that still waits, and nothing goes out that was not accepted.\<close>

theorem frames_leave_in_order_and_once:
  assumes "lane_reach s"
  shows "sorted_wrt (<) (tx_log s) \<and> distinct (tx_log s) \<and> (\<forall>k \<in> set (tx_log s). k \<le> queued s)
    \<and> (\<forall>j \<in> set (tx_log s). \<forall>k \<in> set (out_q s). j < k)"
proof -
  have o: "inv_order s" by (rule inv_order_reach [OF assms])
  then have "distinct (tx_log s)" using strict_sorted_iff by (auto simp: inv_order_def)
  moreover have "set (out_q s) \<subseteq> set (ahead s)" by (cases "writer_state s") (simp_all add: ahead_def in_hand_def subset_iff)
  ultimately show ?thesis using o log_bound [OF inv_verdict_reach [OF assms]] by (auto simp: inv_order_def)
qed

theorem frames_leave_in_order_and_once_witness:
  "sorted_wrt (<) (tx_log run_cancel) \<and> distinct (tx_log run_cancel) \<and> tx_log run_cancel = [1]"
  using frames_leave_in_order_and_once [OF run_reaches(2)] by (simp add: run_eqs)

text \<open>C20: \<open>Flush\<close> tells the truth. When it returns without an error every frame accepted up to its
  target is on the wire, unless its call was told ``not sent''; when it reports \<open>m\<close> frames not
  confirmed, the lane has ended or broken and all but the last \<open>m\<close> are.\<close>

theorem flush_tells_the_truth:
  assumes "lane_reach s"
  shows "case flush_look n s of
      Flushed \<Rightarrow> \<forall>k. 1 \<le> k \<and> k \<le> n \<longrightarrow> k \<in> set (tx_log s) \<or> withdrawn s k
    | FlushEnded m \<Rightarrow> (closed s \<or> fault s \<noteq> None) \<and> 0 < m \<and> m \<le> n
        \<and> (\<forall>k. 1 \<le> k \<and> k \<le> n - m \<longrightarrow> k \<in> set (tx_log s) \<or> withdrawn s k)
    | FlushWait \<Rightarrow> \<not> closed s \<and> fault s = None \<and> wrote s < n"
  using inv_progress_reach [OF assms] by (auto simp: flush_look_def inv_progress_def)

theorem flush_tells_the_truth_witness: "flush_look 1 run_call = Flushed \<and> 1 \<in> set (tx_log run_call)"
  using flush_tells_the_truth [OF run_reaches(1), of 1]
  by (simp add: flush_look_def withdrawn_def run_call_eq start_session_def)

text \<open>a writer that has retired leaves nothing unsettled: the queue is empty, every frame ever
  accepted has its verdict or belongs to a call that was told ``not sent'', and from then on
  nothing is accepted and nothing more reaches the wire.\<close>

theorem retirement_settles_every_frame:
  assumes "lane_reach s" "writer_state s = WRetired" "lane_run s t"
  shows "out_q s = [] \<and> (\<forall>k. 1 \<le> k \<and> k \<le> queued s \<longrightarrow> ob_done (obs s k) \<noteq> None \<or> withdrawn s k)
    \<and> queued t = queued s \<and> tx_log t = tx_log s \<and> tx t = tx s"
proof -
  have "out_q s = []" using inv_closing_reach [OF assms(1)] assms(2) by (simp add: inv_closing_def)
  moreover have "\<forall>k. 1 \<le> k \<and> k \<le> queued s \<longrightarrow> ob_done (obs s k) \<noteq> None \<or> withdrawn s k"
    using passed_ok_reach [OF assms(1)] assms(2) \<open>out_q s = []\<close> by (simp add: passed_ok_def ahead_simps)
  moreover have "writer_state t = WRetired \<and> queued t = queued s \<and> tx_log t = tx_log s \<and> tx t = tx s"
  proof (rule lane_run_keeps [OF assms(3,1)])
    fix u v
    assume r: "lane_reach u" and u: "writer_state u = WRetired \<and> queued u = queued s \<and> tx_log u = tx_log s \<and> tx u = tx s"
      and st: "lane_step u v"
    have c: "out_closed u" using inv_closing_reach [OF r] u by (simp add: inv_closing_def)
    from lane_step_kinds [OF inv_verdict_reach [OF r] st]
    show "writer_state v = WRetired \<and> queued v = queued s \<and> tx_log v = tx_log s \<and> tx v = tx s"
    proof (elim disjE exE)
      fix a f
      assume "enqueued a f u v"
      then show ?thesis using c by (auto simp: enqueued_def try_enqueue_def)
    qed (use u in \<open>auto simp: quiet_def writer_step_def\<close>)
  qed (use assms(2) in simp)
  ultimately show ?thesis by blast
qed

definition run_retired :: session where
  "run_retired = writer_step (end_lane (start_session False empty_writer))"

lemma run_retired_reach: "lane_reach run_retired"
  unfolding run_retired_def by (rule lane_reach.reach_step [OF lane_reach.reach_step [OF lane_reach.reach_start step_end] step_writer])

lemma run_retired_eq:
  "run_retired = (start_session False empty_writer)\<lparr>closed := True, out_closed := True, writer_state := WRetired\<rparr>"
  unfolding run_retired_def by (simp add: start_session_def end_lane_def) (simp add: writer_step_def)

theorem retirement_settles_every_frame_witness: "queued (emit [CHR ''x''] run_retired) = 0"
  using retirement_settles_every_frame [OF run_retired_reach _ r_into_rtranclp [where r = lane_step, OF step_emit [of _ "[CHR ''x'']"]]]
  by (simp add: run_retired_eq)

text \<open>C21: the writer never starves the queue. Whatever the state of the lane, a bounded number of
  the writer's own steps empties the queue and settles every accepted frame; if the lane does not
  break on the way, a \<open>Flush\<close> of all of it has returned; and a lane that has ended and settled
  then retires.\<close>

theorem the_writer_drains_the_queue:
  assumes "lane_reach s" and n: "n = 6 * length (out_q s) + 5" and t: "t = (writer_step ^^ n) s"
  shows "out_q t = [] \<and> in_hand t = [] \<and> queued t = queued s
    \<and> (\<forall>k. 1 \<le> k \<and> k \<le> queued s \<longrightarrow> ob_done (obs t k) \<noteq> None \<or> withdrawn t k)
    \<and> (fault t = None \<longrightarrow> flush_look (queued s) t = Flushed)
    \<and> (closed s \<and> settled s \<longrightarrow> writer_state (writer_step t) = WRetired)"
proof -
  have r: "lane_reach t" unfolding t by (rule writer_steps_reach [OF assms(1)])
  have d: "out_q t = [] \<and> in_hand t = [] \<and> (writer_state t = WIdle \<or> writer_state t = WRetired)"
    unfolding t by (rule no_debt [OF writer_drains [OF assms(1)]]) (simp add: n writer_debt_bound)
  have q: "queued t = queued s" by (simp add: t)
  have a: "ahead t = []" using d by (auto simp: ahead_simps)
  have "\<forall>k. 1 \<le> k \<and> k \<le> queued s \<longrightarrow> ob_done (obs t k) \<noteq> None \<or> withdrawn t k"
    using passed_ok_reach [OF r] a q by (simp add: passed_ok_def)
  moreover have "fault t = None \<longrightarrow> flush_look (queued s) t = Flushed"
    using inv_exact_reach [OF r] d q by (simp add: inv_exact_def flush_look_def)
  moreover have "closed s \<and> settled s \<longrightarrow> writer_state (writer_step t) = WRetired"
    using writer_steps_ended [of s n] d unfolding t [symmetric] by (auto simp: writer_step_def)
  ultimately show ?thesis using d q by blast
qed

theorem the_writer_drains_the_queue_witness: "out_q ((writer_step ^^ 11) run_cancel) = []"
  using the_writer_drains_the_queue [OF run_reaches(2), of 11 "(writer_step ^^ 11) run_cancel"]
  by (simp add: run_eqs)

text \<open>C22: what the transport holds is exactly the frames it took, each framed, in order: a reader
  that starts where the lane started gets those frames and nothing else, up to the cut-off rest
  of one frame when the transport broke.\<close>

theorem the_wire_reads_back:
  assumes "lane_run (start_session l w) s"
  shows "\<exists>tail. w_out (tx s) = w_out w @ wire_of s (tx_log s) @ tail
    \<and> read_many (read_frame control_limit) (length (tx_log s)) (drop (length (w_out w)) (w_out (tx s)))
      = Inr (List.map (\<lambda>k. ob_frame (obs s k)) (tx_log s), tail)
    \<and> (fault s = None \<longrightarrow> tail = [])"
proof -
  from inv_wire_run [OF assms] obtain tail where t: "w_out (tx s) = w_out w @ wire_of s (tx_log s) @ tail"
    "fault s = None \<longrightarrow> tail = []"
    "\<forall>k \<in> set (tx_log s). frame_put control_limit (ob_frame (obs s k)) = Some (framed (ob_frame (obs s k)))"
    by (auto simp: inv_wire_def)
  have "drop (length (w_out w)) (w_out (tx s)) = wire_of s (tx_log s) @ tail" unfolding t(1) by simp
  then show ?thesis using wire_reads_back [OF t(3), of tail] t(1,2) by auto
qed

theorem the_wire_reads_back_witness: "\<exists>tail. w_out (tx run_call) = framed [CHR ''a''] @ tail"
  using the_wire_reads_back [OF run_reach(1)] by (auto simp: wire_of_def run_call_eq empty_writer_def)

end
