(* ===== verification/PkgTree.thy ===== *)
theory PkgTree
  imports Prelude "HOL-Library.AList"
begin

text \<open>
  The tree of a package, \<open>pkg/aiiospkg/tree.go\<close>, and the path rules of \<open>runtime.go\<close> and
  \<open>native.go\<close>. A Go map from paths to contents is an association list with distinct keys;
  what is built from it does not depend on its order, because the code sorts. \<open>ReadTree\<close>,
  which walks a directory of the machine, is not modelled.
\<close>

section \<open>Components and paths\<close>

definition max_component_bytes :: nat where "max_component_bytes = 255"
definition max_member_path_bytes :: nat where "max_member_path_bytes = 511"
definition max_semantic_members :: nat where "max_semantic_members = 1024"
definition max_regular_payload_bytes :: int where "max_regular_payload_bytes = 2147483648"
definition tar_mode_dir :: int where "tar_mode_dir = 493"
definition tar_mode_regular :: int where "tar_mode_regular = 420"
definition tar_mode_executable :: int where "tar_mode_executable = 493"

definition ascii_lower :: "char \<Rightarrow> char" where
  "ascii_lower c = (if is_upper c then byte_of (byte_val c + 32) else c)"

definition lower_bytes :: "bytes \<Rightarrow> bytes" where
  "lower_bytes s = map ascii_lower s"

definition windows_device_stem :: "bytes \<Rightarrow> bool" where
  "windows_device_stem component =
     (let l = lower_bytes (takeWhile (\<lambda>c. c \<noteq> CHR ''.'') component)
      in l \<in> {''con'', ''prn'', ''aux'', ''nul''}
         \<or> length l = 4 \<and> (take 3 l = ''com'' \<or> take 3 l = ''lpt'')
           \<and> CHR ''1'' \<le> l ! 3 \<and> l ! 3 \<le> CHR ''9'')"

definition component_byte :: "char \<Rightarrow> bool" where
  "component_byte c \<longleftrightarrow> is_upper c \<or> is_lower c \<or> is_digit c
     \<or> c \<in> {CHR ''.'', CHR ''_'', CHR ''+'', CHR ''-''}"

datatype component_error =
    ComponentLength nat
  | DotComponent bytes
  | TrailingDot bytes
  | DeviceStem bytes
  | ComponentBytes bytes

definition validate_component :: "bytes \<Rightarrow> component_error option" where
  "validate_component c =
     (if length c = 0 \<or> max_component_bytes < length c then Some (ComponentLength (length c))
      else if c = ''.'' \<or> c = ''..'' then Some (DotComponent c)
      else if last c = CHR ''.'' then Some (TrailingDot c)
      else if windows_device_stem c then Some (DeviceStem c)
      else if \<not> list_all component_byte c then Some (ComponentBytes c)
      else None)"

datatype path_error = PathLength nat | BadComponent bytes component_error

definition validate_path :: "bytes \<Rightarrow> path_error option" where
  "validate_path path =
     (if length path = 0 \<or> max_member_path_bytes < length path then Some (PathLength (length path))
      else map_option (BadComponent path) (first_error validate_component (split_on (CHR ''/'') path)))"

text \<open>One round of the loop compares the first components and cuts them off.\<close>

function casefold_sibling_collision :: "bytes \<Rightarrow> bytes \<Rightarrow> bool" where
  "casefold_sibling_collision left right =
     (let lc = takeWhile (\<lambda>c. c \<noteq> CHR ''/'') left; rc = takeWhile (\<lambda>c. c \<noteq> CHR ''/'') right
      in if length lc \<noteq> length rc then False
         else if lower_bytes lc \<noteq> lower_bytes rc then False
         else if lc \<noteq> rc then True
         else if CHR ''/'' \<notin> set left \<or> CHR ''/'' \<notin> set right then False
         else casefold_sibling_collision (drop (length lc + 1) left) (drop (length rc + 1) right))"
  by pat_completeness auto

termination
  by (relation "measure (\<lambda>(l, r). length l)") (auto simp: Let_def, metis length_pos_if_in_set diff_less zero_less_Suc)

declare casefold_sibling_collision.simps [simp del]

section \<open>Members\<close>

record pkg_member =
  mem_path :: bytes
  mem_dir :: bool
  mem_mode :: int
  mem_content :: bytes

record tree =
  t_root :: bytes
  t_files :: "(bytes \<times> bytes) list"
  t_exec :: "bytes set"

definition new_tree :: "bytes \<Rightarrow> tree" where
  "new_tree root = \<lparr>t_root = root, t_files = [], t_exec = {}\<rparr>"

definition tree_add :: "bytes \<Rightarrow> bytes \<Rightarrow> tree \<Rightarrow> tree" where
  "tree_add rel content t = t\<lparr>t_files := AList.update rel content (t_files t)\<rparr>"

datatype tree_error =
    RootPath path_error
  | RootNotSingle bytes
  | TooManyMembers nat
  | MemberPath path_error
  | EscapesRoot bytes
  | ModeNotCanonical bytes
  | PayloadTooLarge
  | DuplicateMember bytes
  | CasefoldCollision bytes bytes

definition clash :: "bytes \<Rightarrow> bytes \<Rightarrow> tree_error option" where
  "clash prev path =
     (if prev = path then Some (DuplicateMember path)
      else if casefold_sibling_collision prev path then Some (CasefoldCollision prev path)
      else None)"

text \<open>The loop over the members, with those it has passed and the payload so far.\<close>

fun members_loop :: "bytes \<Rightarrow> bytes list \<Rightarrow> int \<Rightarrow> pkg_member list \<Rightarrow> tree_error option" where
  "members_loop root passed payload [] = None"
| "members_loop root passed payload (m # ms) =
     (case validate_path (mem_path m) of
        Some e \<Rightarrow> Some (MemberPath e)
      | None \<Rightarrow>
          if mem_path m \<noteq> root \<and> take (length root + 1) (mem_path m) \<noteq> root @ ''/'' then Some (EscapesRoot (mem_path m))
          else if \<not> mem_dir m \<and> mem_mode m \<noteq> tar_mode_regular \<and> mem_mode m \<noteq> tar_mode_executable
          then Some (ModeNotCanonical (mem_path m))
          else if \<not> mem_dir m \<and> max_regular_payload_bytes - payload < int (length (mem_content m))
          then Some PayloadTooLarge
          else (case first_error (\<lambda>prev. clash prev (mem_path m)) passed of
                  Some e \<Rightarrow> Some e
                | None \<Rightarrow>
                    members_loop root (passed @ [mem_path m])
                      (if mem_dir m then payload else payload + int (length (mem_content m))) ms))"

definition validate_members :: "bytes \<Rightarrow> pkg_member list \<Rightarrow> tree_error option" where
  "validate_members root ms =
     (case validate_path root of
        Some e \<Rightarrow> Some (RootPath e)
      | None \<Rightarrow>
          if CHR ''/'' \<in> set root then Some (RootNotSingle root)
          else if max_semantic_members < length ms then Some (TooManyMembers (length ms))
          else members_loop root [] 0 ms)"

text \<open>The directories on the way to a file: every cut of its full path at a slash after the root.\<close>

definition parent_dirs :: "bytes \<Rightarrow> bytes \<Rightarrow> bytes list" where
  "parent_dirs root full =
     map (\<lambda>i. take i full) (filter (\<lambda>i. full ! i = CHR ''/'') [length root + 1..<length full])"

definition file_member :: "tree \<Rightarrow> bytes \<Rightarrow> pkg_member" where
  "file_member t rel =
     \<lparr>mem_path = t_root t @ ''/'' @ rel, mem_dir = False,
      mem_mode = (if rel \<in> t_exec t then tar_mode_executable else tar_mode_regular),
      mem_content = the (map_of (t_files t) rel)\<rparr>"

definition dir_member :: "bytes \<Rightarrow> pkg_member" where
  "dir_member d = \<lparr>mem_path = d, mem_dir = True, mem_mode = tar_mode_dir, mem_content = []\<rparr>"

definition tree_members :: "tree \<Rightarrow> tree_error + pkg_member list" where
  "tree_members t =
     (let rels = sort (map fst (t_files t));
          dirs = remdups (t_root t # concat (map (\<lambda>rel. parent_dirs (t_root t) (t_root t @ ''/'' @ rel)) rels));
          ms = sort_key mem_path (map dir_member dirs @ map (file_member t) rels)
      in case validate_members (t_root t) ms of Some e \<Rightarrow> Inl e | None \<Rightarrow> Inr ms)"

definition install_files :: "tree \<Rightarrow> (bytes \<times> bytes) list" where
  "install_files t =
     map (\<lambda>(rel, c). (drop (length ''install-root/'') rel, c))
       (filter (\<lambda>(rel, c). take (length ''install-root/'') rel = ''install-root/'') (t_files t))"

section \<open>Segments of a runtime tree and of a model path\<close>

definition segment_byte :: "char \<Rightarrow> bool" where
  "segment_byte c \<longleftrightarrow> component_byte c \<or> c \<in> {CHR '' '', CHR ''('', CHR '')''}"

text \<open>\<open>reWindowsDevice\<close>: a device name, alone or before a dot, in any case.\<close>

definition re_windows_device :: "bytes \<Rightarrow> bool" where
  "re_windows_device s \<longleftrightarrow> windows_device_stem s \<and> CHR ''\<newline>'' \<notin> set (dropWhile (\<lambda>c. c \<noteq> CHR ''.'') s)"

definition tree_segment_forbidden :: "bytes \<Rightarrow> bool" where
  "tree_segment_forbidden seg \<longleftrightarrow>
     length seg = 0 \<or> 255 < length seg \<or> seg = ''.'' \<or> seg = ''..'' \<or> last seg = CHR ''.''
     \<or> re_windows_device seg \<or> hd seg = CHR '' '' \<or> last seg = CHR '' ''
     \<or> \<not> list_all segment_byte seg"

text \<open>\<open>casefoldSiblings\<close>: the key folds the last name alone; the seen map is an association list.\<close>

definition sibling_key :: "bytes \<Rightarrow> bytes" where
  "sibling_key p =
     (let name = rev (takeWhile (\<lambda>c. c \<noteq> CHR ''/'') (rev p))
      in take (length p - length name) p @ lower_bytes name)"

fun casefold_siblings :: "(bytes \<times> bytes) list \<Rightarrow> bytes list \<Rightarrow> (bytes \<times> bytes) option" where
  "casefold_siblings seen [] = None"
| "casefold_siblings seen (p # ps) =
     (case map_of seen (sibling_key p) of
        Some other \<Rightarrow>
          if other \<noteq> p then Some (other, p)
          else casefold_siblings ((sibling_key p, p) # seen) ps
      | None \<Rightarrow> casefold_siblings ((sibling_key p, p) # seen) ps)"

section \<open>Collisions under case folding\<close>

fun fold_clash :: "bytes list \<Rightarrow> bytes list \<Rightarrow> bool" where
  "fold_clash (a # as) (b # bs) = (if a = b then fold_clash as bs else lower_bytes a = lower_bytes b)"
| "fold_clash _ _ = False"

lemma length_lower [simp]: "length (lower_bytes s) = length s"
  by (simp add: lower_bytes_def)

lemma split_on_first:
  "split_on sep s = (if sep \<in> set s
     then takeWhile (\<lambda>c. c \<noteq> sep) s # split_on sep (drop (length (takeWhile (\<lambda>c. c \<noteq> sep) s) + 1) s)
     else [takeWhile (\<lambda>c. c \<noteq> sep) s])"
proof (cases "sep \<in> set s")
  case True
  then obtain a b where s: "s = a @ sep # b" "sep \<notin> set a" using split_list_first by metis
  have t: "takeWhile (\<lambda>c. c \<noteq> sep) s = a" using s by (simp add: takeWhile_append)
  moreover have "split_on sep s = a # split_on sep b" using s by (simp add: split_on_append_sep split_on_no_sep)
  moreover have "drop (length a + 1) s = b" using s by simp
  ultimately show ?thesis using True by (simp only: if_True)
next
  case False
  have t: "takeWhile (\<lambda>c. c \<noteq> sep) s = s" using False unfolding takeWhile_eq_all_conv by blast
  show ?thesis by (simp only: False if_False t split_on_no_sep [OF False])
qed

lemma fold_clash_Nil [simp]: "fold_clash xs [] = False"
  by (cases xs) simp_all

lemma casefold_components:
  "casefold_sibling_collision l r = fold_clash (split_on (CHR ''/'') l) (split_on (CHR ''/'') r)"
proof (induction l r rule: casefold_sibling_collision.induct)
  case (1 l r)
  let ?lc = "takeWhile (\<lambda>c. c \<noteq> CHR ''/'') l" and ?rc = "takeWhile (\<lambda>c. c \<noteq> CHR ''/'') r"
  have ne: "split_on (CHR ''/'') s \<noteq> []" for s by simp
  show ?case
  proof (cases "?lc = ?rc")
    case True
    define c where "c = ?lc"
    have c: "?lc = c" "?rc = c" using True by (simp_all add: c_def)
    note sl = split_on_first [of "CHR ''/''" l, unfolded c(1)] and sr = split_on_first [of "CHR ''/''" r, unfolded c(2)]
    show ?thesis
    proof (cases "CHR ''/'' \<in> set l \<and> CHR ''/'' \<in> set r")
      case True
      then have "casefold_sibling_collision l r
          = casefold_sibling_collision (drop (length c + 1) l) (drop (length c + 1) r)"
        by (subst casefold_sibling_collision.simps) (simp only: c Let_def simp_thms if_True if_False)
      moreover have "\<dots> = fold_clash (split_on (CHR ''/'') (drop (length c + 1) l)) (split_on (CHR ''/'') (drop (length c + 1) r))"
        using 1 [OF refl refl] True unfolding c by simp
      ultimately show ?thesis using True sl sr by simp
    next
      case False
      then have "(CHR ''/'' \<notin> set l \<or> CHR ''/'' \<notin> set r) = True" by blast
      then have "\<not> casefold_sibling_collision l r"
        by (subst casefold_sibling_collision.simps) (simp only: c Let_def simp_thms if_True if_False)
      moreover have "\<not> fold_clash (split_on (CHR ''/'') l) (split_on (CHR ''/'') r)"
        using False sl sr by auto
      ultimately show ?thesis by simp
    qed
  next
    case False
    then have "fold_clash (split_on (CHR ''/'') l) (split_on (CHR ''/'') r) = (lower_bytes ?lc = lower_bytes ?rc)"
      by (subst split_on_first [of _ l], subst split_on_first [of _ r]) simp
    moreover have "lower_bytes ?lc = lower_bytes ?rc \<Longrightarrow> length ?lc = length ?rc" by (metis length_lower)
    ultimately show ?thesis using False by (subst casefold_sibling_collision.simps) (auto simp: Let_def)
  qed
qed

lemma fold_clash_sym: "fold_clash xs ys = fold_clash ys xs"
  by (induction xs ys rule: fold_clash.induct) auto

lemma fold_clash_refl [simp]: "\<not> fold_clash xs xs"
  by (induction xs) simp_all

lemma no_clash_injective:
  "\<not> fold_clash xs ys \<Longrightarrow> map lower_bytes (take m xs) = map lower_bytes (take n ys) \<Longrightarrow> take m xs = take n ys"
proof (induction xs ys arbitrary: m n rule: fold_clash.induct)
  case (1 a as b bs)
  then show ?case by (cases m; cases n) (auto split: if_splits)
qed auto

lemma members_loop_ok:
  "members_loop root passed payload ms = None \<Longrightarrow>
     (\<forall>m \<in> set ms. validate_path (mem_path m) = None
        \<and> (mem_path m = root \<or> take (length root + 1) (mem_path m) = root @ ''/'')
        \<and> (\<forall>p \<in> set passed. clash p (mem_path m) = None))
     \<and> sorted_wrt (\<lambda>p q. clash (mem_path p) (mem_path q) = None) ms
     \<and> (int (sum_list (map (length \<circ> mem_content) (filter (\<lambda>m. \<not> mem_dir m) ms))) \<le> max_regular_payload_bytes - payload
        \<or> ms = [] \<or> filter (\<lambda>m. \<not> mem_dir m) ms = [])"
proof (induction root passed payload ms rule: members_loop.induct)
  case (2 root passed payload m ms)
  from "2.prems" have v: "validate_path (mem_path m) = None"
    "mem_path m = root \<or> take (length root + 1) (mem_path m) = root @ ''/''"
    "\<not> mem_dir m \<Longrightarrow> int (length (mem_content m)) \<le> max_regular_payload_bytes - payload"
    "\<forall>p \<in> set passed. clash p (mem_path m) = None"
    and r: "members_loop root (passed @ [mem_path m])
      (if mem_dir m then payload else payload + int (length (mem_content m))) ms = None"
    and g: "\<not> (mem_path m \<noteq> root \<and> take (length root + 1) (mem_path m) \<noteq> root @ ''/'')"
      "\<not> (\<not> mem_dir m \<and> mem_mode m \<noteq> tar_mode_regular \<and> mem_mode m \<noteq> tar_mode_executable)"
      "\<not> (\<not> mem_dir m \<and> max_regular_payload_bytes - payload < int (length (mem_content m)))"
      "first_error (\<lambda>prev. clash prev (mem_path m)) passed = None"
    by (auto split: option.splits if_splits)
  note ih = "2.IH" [OF v(1) g(1) g(2) g(3) g(4) r]
  show ?case using ih v by (cases "mem_dir m") auto
qed simp

text \<open>What an accepted tree is.\<close>

lemma clash_None: "clash p q = None \<longleftrightarrow> p \<noteq> q \<and> \<not> fold_clash (split_on (CHR ''/'') p) (split_on (CHR ''/'') q)"
  by (simp add: clash_def casefold_components)

lemma tree_members_ok:
  assumes "tree_members t = Inr ms"
  shows "validate_path (t_root t) = None" "CHR ''/'' \<notin> set (t_root t)" "length ms \<le> max_semantic_members"
    "\<And>m. m \<in> set ms \<Longrightarrow> validate_path (mem_path m) = None"
    "sorted_wrt (\<lambda>p q. clash (mem_path p) (mem_path q) = None) ms" "sorted (map mem_path ms)"
    "set ms = set (map dir_member (t_root t # concat (map (\<lambda>rel. parent_dirs (t_root t) (t_root t @ ''/'' @ rel))
        (map fst (t_files t))))) \<union> file_member t ` set (map fst (t_files t))"
    "\<And>m. m \<in> set ms \<Longrightarrow> \<not> mem_dir m \<Longrightarrow> int (length (mem_content m)) \<le> max_regular_payload_bytes"
proof -
  let ?ms = "sort_key mem_path (map dir_member (remdups (t_root t #
      concat (map (\<lambda>rel. parent_dirs (t_root t) (t_root t @ ''/'' @ rel)) (sort (map fst (t_files t))))))
      @ map (file_member t) (sort (map fst (t_files t))))"
  have c: "(case validate_members (t_root t) ?ms of Some e \<Rightarrow> Inl e | None \<Rightarrow> Inr ?ms) = Inr ms"
    using assms unfolding tree_members_def Let_def .
  have ms: "ms = ?ms" and v: "validate_members (t_root t) ?ms = None"
    using c by (cases "validate_members (t_root t) ?ms"; simp only: option.case sum.inject sum.distinct)+
  have "validate_members (t_root t) ms = None" using v by (simp only: ms [symmetric])
  then have g: "validate_path (t_root t) = None" "CHR ''/'' \<notin> set (t_root t)" "length ms \<le> max_semantic_members"
    and l: "members_loop (t_root t) [] 0 ms = None"
    by (auto simp: validate_members_def not_less split: option.splits if_splits)
  show "validate_path (t_root t) = None" "CHR ''/'' \<notin> set (t_root t)" "length ms \<le> max_semantic_members" using g by blast+
  show "sorted_wrt (\<lambda>p q. clash (mem_path p) (mem_path q) = None) ms"
    "\<And>m. m \<in> set ms \<Longrightarrow> validate_path (mem_path m) = None"
    using members_loop_ok [OF l] by blast+
  show "sorted (map mem_path ms)" unfolding ms by (rule sorted_sort_key)
  show "set ms = set (map dir_member (t_root t # concat (map (\<lambda>rel. parent_dirs (t_root t) (t_root t @ ''/'' @ rel))
        (map fst (t_files t))))) \<union> file_member t ` set (map fst (t_files t))"
    unfolding ms by (simp del: remdups.simps)
  fix m
  assume m: "m \<in> set ms" "\<not> mem_dir m"
  then have "length (mem_content m) \<in> set (map (length \<circ> mem_content) (filter (\<lambda>m. \<not> mem_dir m) ms))" by auto
  then have "length (mem_content m) \<le> sum_list (map (length \<circ> mem_content) (filter (\<lambda>m. \<not> mem_dir m) ms))"
    by (rule member_le_sum_list) simp
  moreover have "filter (\<lambda>m. \<not> mem_dir m) ms \<noteq> [] \<and> ms \<noteq> []" using m by (auto simp: filter_empty_conv)
  then have "int (sum_list (map (length \<circ> mem_content) (filter (\<lambda>m. \<not> mem_dir m) ms))) \<le> max_regular_payload_bytes"
    using members_loop_ok [OF l] by simp
  ultimately show "int (length (mem_content m)) \<le> max_regular_payload_bytes" by linarith
qed

lemma sorted_wrt_pair: "sorted_wrt P xs \<Longrightarrow> x \<in> set xs \<Longrightarrow> y \<in> set xs \<Longrightarrow> x = y \<or> P x y \<or> P y x"
  by (induction xs) auto

lemma take_less: "i < length (s :: bytes) \<Longrightarrow> take i s < s"
proof (induction s arbitrary: i)
  case (Cons c s)
  then show ?case by (cases i) simp_all
qed simp

lemma parent_dirs_iff:
  "d \<in> set (parent_dirs root full) \<longleftrightarrow>
     (\<exists>i. length root < i \<and> i < length full \<and> full ! i = CHR ''/'' \<and> d = take i full)"
  by (auto simp: parent_dirs_def Suc_le_eq)

lemma cut_is_parent:
  assumes r: "CHR ''/'' \<notin> set root" and i: "i < length (root @ ''/'' @ rel)" "(root @ ''/'' @ rel) ! i = CHR ''/''"
  shows "take i (root @ ''/'' @ rel) = root \<or> take i (root @ ''/'' @ rel) \<in> set (parent_dirs root (root @ ''/'' @ rel))"
proof (cases i "length root" rule: linorder_cases)
  case less
  then have "root ! i = CHR ''/''" using i(2) by (simp add: nth_append)
  then have False using less r by (metis nth_mem)
  then show ?thesis ..
next
  case greater
  then show ?thesis using i unfolding parent_dirs_iff by blast
qed simp

lemma members_parents:
  assumes t: "tree_members t = Inr ms" and m: "m \<in> set ms" and i: "i < length (mem_path m)" "mem_path m ! i = CHR ''/''"
  shows "dir_member (take i (mem_path m)) \<in> set ms"
proof -
  note ok = tree_members_ok [OF t]
  let ?full = "\<lambda>rel. t_root t @ ''/'' @ rel"
  have root: "dir_member (t_root t) \<in> set ms" and dirs: "\<And>rel d. rel \<in> set (map fst (t_files t)) \<Longrightarrow>
      d \<in> set (parent_dirs (t_root t) (?full rel)) \<Longrightarrow> dir_member d \<in> set ms"
    unfolding ok(7) by auto
  have cut: "dir_member (take j (?full rel)) \<in> set ms"
    if "rel \<in> set (map fst (t_files t))" "j < length (?full rel)" "?full rel ! j = CHR ''/''" for rel j
    using cut_is_parent [OF ok(2) that(2,3)] root dirs [OF that(1)] by auto
  from m consider "m = dir_member (t_root t)"
    | rel d where "m = dir_member d" "rel \<in> set (map fst (t_files t))" "d \<in> set (parent_dirs (t_root t) (?full rel))"
    | rel where "m = file_member t rel" "rel \<in> set (map fst (t_files t))"
    unfolding ok(7) by auto
  then show ?thesis
  proof cases
    case 1
    then show ?thesis using i ok(2) by (metis dir_member_def pkg_member.select_convs(1) nth_mem)
  next
    case 2
    then obtain k where k: "k < length (?full rel)" "d = take k (?full rel)" unfolding parent_dirs_iff by blast
    have mp: "mem_path m = take k (?full rel)" using 2(1) k(2) by (simp add: dir_member_def)
    have "i < k" using i(1) unfolding mp by simp
    moreover have "?full rel ! i = CHR ''/''" using i(2) nth_take [OF \<open>i < k\<close>, of "?full rel"] by (simp only: mp)
    ultimately have "i < k" "?full rel ! i = CHR ''/''" by blast+
    then have "dir_member (take i (?full rel)) \<in> set ms" using cut [OF 2(2), of i] k(1) by simp
    moreover have "take i (mem_path m) = take i (?full rel)"
      using \<open>i < k\<close> by (simp only: mp take_take min.absorb1 less_imp_le)
    ultimately show ?thesis by (simp only:)
  next
    case 3
    then have "mem_path m = ?full rel" by (simp add: file_member_def)
    then show ?thesis using cut [OF 3(2)] i by simp
  qed
qed

section \<open>Properties\<close>

text \<open>C32: a package that is accepted can be unpacked on a file system that folds case: of any two
  members, any two leading parts of their paths that agree up to ASCII case are the same, so no
  two members, and no two directories on the way to them, merge.\<close>

theorem accepted_trees_survive_case_folding:
  assumes "tree_members t = Inr ms" "p \<in> set ms" "q \<in> set ms"
    "map lower_bytes (take m (split_on (CHR ''/'') (mem_path p)))
       = map lower_bytes (take n (split_on (CHR ''/'') (mem_path q)))"
  shows "take m (split_on (CHR ''/'') (mem_path p)) = take n (split_on (CHR ''/'') (mem_path q))"
proof (rule no_clash_injective [OF _ assms(4)])
  from sorted_wrt_pair [OF tree_members_ok(5) [OF assms(1)] assms(2,3)]
  show "\<not> fold_clash (split_on (CHR ''/'') (mem_path p)) (split_on (CHR ''/'') (mem_path q))"
    unfolding clash_None using fold_clash_sym by auto
qed

definition small_tree :: tree where
  "small_tree = tree_add ''d/B'' ''y'' (tree_add ''d/a'' ''x'' (new_tree ''p''))"

lemma small_tree_members:
  "tree_members small_tree = Inr [dir_member ''p'', dir_member ''p/d'',
     file_member small_tree ''d/B'', file_member small_tree ''d/a'']"
  by code_simp

theorem accepted_trees_survive_case_folding_witness:
  "take 2 (split_on (CHR ''/'') ''p/d/B'') = take 2 (split_on (CHR ''/'') ''p/d/a'')"
  using accepted_trees_survive_case_folding [OF small_tree_members, of "file_member small_tree ''d/B''"
      "file_member small_tree ''d/a''" 2 2]
  by (simp add: file_member_def small_tree_def tree_add_def new_tree_def)

text \<open>an accepted package is complete and in order: its members are strictly sorted by path, hold
  every file with its bytes and its mode, and every directory on the way to a member is a member
  that comes before it, so an unpacker that goes through them in order never lacks a parent.\<close>

theorem accepted_trees_are_complete:
  assumes "tree_members t = Inr ms" "distinct (map fst (t_files t))"
  shows "sorted_wrt (<) (map mem_path ms)
    \<and> (\<forall>(rel, c) \<in> set (t_files t). \<lparr>mem_path = t_root t @ ''/'' @ rel, mem_dir = False,
         mem_mode = (if rel \<in> t_exec t then tar_mode_executable else tar_mode_regular), mem_content = c\<rparr> \<in> set ms)
    \<and> (\<forall>m \<in> set ms. \<forall>i < length (mem_path m). mem_path m ! i = CHR ''/'' \<longrightarrow>
         dir_member (take i (mem_path m)) \<in> set ms \<and> take i (mem_path m) < mem_path m)"
proof (intro conjI ballI allI impI)
  note ok = tree_members_ok [OF assms(1)]
  have "sorted_wrt (\<noteq>) (map mem_path ms)"
    unfolding sorted_wrt_map by (rule sorted_wrt_mono_rel [OF _ ok(5)]) (simp add: clash_None)
  then show "sorted_wrt (<) (map mem_path ms)"
    using ok(6) by (simp add: strict_sorted_iff distinct_conv_nth sorted_wrt_iff_nth_less) (simp add: less_le)
next
  fix x
  assume x: "x \<in> set (t_files t)"
  obtain rel c where rc: "x = (rel, c)" by (cases x)
  have "map_of (t_files t) rel = Some c" using x rc assms(2) by simp
  then have "file_member t rel = \<lparr>mem_path = t_root t @ ''/'' @ rel, mem_dir = False,
      mem_mode = (if rel \<in> t_exec t then tar_mode_executable else tar_mode_regular), mem_content = c\<rparr>"
    by (simp add: file_member_def)
  moreover have "file_member t rel \<in> set ms" unfolding tree_members_ok(7) [OF assms(1)] using x rc by force
  ultimately show "case x of (rel, c) \<Rightarrow> \<lparr>mem_path = t_root t @ ''/'' @ rel, mem_dir = False,
      mem_mode = (if rel \<in> t_exec t then tar_mode_executable else tar_mode_regular), mem_content = c\<rparr> \<in> set ms"
    by (simp add: rc)
next
  fix m i
  assume "m \<in> set ms" "i < length (mem_path m)" "mem_path m ! i = CHR ''/''"
  then show "dir_member (take i (mem_path m)) \<in> set ms" "take i (mem_path m) < mem_path m"
    using members_parents [OF assms(1)] take_less by blast+
qed

theorem accepted_trees_are_complete_witness:
  "sorted_wrt (<) [''p'', ''p/d'', ''p/d/B'', ''p/d/a'']"
  using accepted_trees_are_complete [OF small_tree_members]
  by (simp add: small_tree_def tree_add_def new_tree_def dir_member_def file_member_def)

end
