(* ===== verification/Tar.thy ===== *)
theory Tar
  imports PkgTree Frame
begin

text \<open>
  The canonical tar archive of a package, \<open>pkg/aiiospkg/tar.go\<close>: ustar headers, PAX records
  for the paths that do not fit one, padding to blocks. The 512-byte array of a header is a list
  written in place by \<open>put_at\<close>. The reader at the end is the specification: what any tar reader
  makes of a header, a PAX record and the blocks behind them. The gzip wrapper around the archive
  (\<open>compress/flate\<close>) is not modelled.
\<close>

section \<open>Blocks and fields\<close>

abbreviation NUL :: char where
  "NUL \<equiv> CHR 0x00"

definition tar_block_bytes :: nat where "tar_block_bytes = 512"

definition block_padding :: "nat \<Rightarrow> bytes" where
  "block_padding n =
     (if n mod tar_block_bytes \<noteq> 0 then replicate (tar_block_bytes - n mod tar_block_bytes) NUL else [])"

definition put_at :: "nat \<Rightarrow> bytes \<Rightarrow> bytes \<Rightarrow> bytes" where
  "put_at off bs h = take off h @ bs @ drop (off + length bs) h"

fun octal_nat :: "nat \<Rightarrow> bytes" where
  "octal_nat n = (if n < 8 then [digit_char n] else octal_nat (n div 8) @ [digit_char (n mod 8)])"

declare octal_nat.simps [simp del]

datatype tar_error =
    StoredPathLength nat
  | StoredPathDoesNotFit bytes
  | OctalOverflow nat
  | ChecksumOverflow
  | PaxPathLength nat
  | PaxSelfConsistency

text \<open>The bytes of a field of \<open>width\<close> digits and the NUL behind them.\<close>

definition write_octal :: "nat \<Rightarrow> nat \<Rightarrow> tar_error + bytes" where
  "write_octal field_len value =
     (let width = field_len - 1; s = octal_nat value
      in if width < length s then Inl (OctalOverflow (length s))
         else Inr (replicate (width - length s) (CHR ''0'') @ s @ [NUL]))"

definition tar_split_path :: "bytes \<Rightarrow> tar_error + bytes \<times> bytes" where
  "tar_split_path path =
     (if length path = 0 \<or> max_member_path_bytes < length path then Inl (StoredPathLength (length path))
      else if length path \<le> 100 then Inr (path, [])
      else (case find (\<lambda>split. path ! split = CHR ''/'' \<and> split \<le> 155
                  \<and> 0 < length path - split - 1 \<and> length path - split - 1 \<le> 100)
                (rev [1..<length path]) of
              Some split \<Rightarrow> Inr (drop (split + 1) path, take split path)
            | None \<Rightarrow> Inl (StoredPathDoesNotFit path)))"

definition path_fits_ustar :: "bytes \<Rightarrow> bool" where
  "path_fits_ustar stored = (case tar_split_path stored of Inl _ \<Rightarrow> False | Inr _ \<Rightarrow> True)"

definition header_sum :: "bytes \<Rightarrow> nat" where
  "header_sum h = sum_list (map byte_val h)"

definition checksum_field :: "nat \<Rightarrow> tar_error + bytes" where
  "checksum_field n =
     (let chk = octal_nat n
      in if 6 < length chk then Inl ChecksumOverflow
         else Inr (replicate (6 - length chk) (CHR ''0'') @ chk @ [NUL, CHR '' '']))"

definition build_tar_header :: "bytes \<Rightarrow> nat \<Rightarrow> int \<Rightarrow> char \<Rightarrow> tar_error + bytes" where
  "build_tar_header stored_path file_size mode typ =
     (case tar_split_path stored_path of
        Inl e \<Rightarrow> Inl e
      | Inr (name, pfx) \<Rightarrow>
          (let h0 = put_at 345 (take 155 pfx) (put_at 0 (take 100 name) (replicate tar_block_bytes NUL))
           in case write_octal 8 (nat (mode mod 512)) of Inl e \<Rightarrow> Inl e | Inr f_mode \<Rightarrow>
              (case write_octal 12 file_size of Inl e \<Rightarrow> Inl e | Inr f_size \<Rightarrow>
              (case write_octal 8 0 of Inl e \<Rightarrow> Inl e | Inr f_uid \<Rightarrow>
              (case write_octal 8 0 of Inl e \<Rightarrow> Inl e | Inr f_gid \<Rightarrow>
              (case write_octal 12 0 of Inl e \<Rightarrow> Inl e | Inr f_mtime \<Rightarrow>
                 (let h = put_at 263 ''00'' (put_at 257 (''ustar'' @ [NUL]) (put_at 156 [typ]
                            (put_at 148 (replicate 8 (CHR '' '')) (put_at 136 f_mtime (put_at 116 f_gid
                              (put_at 108 f_uid (put_at 124 f_size (put_at 100 f_mode h0))))))))
                  in case checksum_field (header_sum h) of Inl e \<Rightarrow> Inl e | Inr chk \<Rightarrow> Inr (put_at 148 chk h))))))))"

section \<open>PAX records\<close>

text \<open>The loop that finds how many digits the record's own length has; not returning is \<open>None\<close>.\<close>

partial_function (option) pax_digits :: "nat \<Rightarrow> nat \<Rightarrow> nat option" where
  "pax_digits len digits =
     (let next_digits = length (itoa_nat (len + 7 + digits))
      in if next_digits = digits then Some digits else pax_digits len next_digits)"

definition pax_build_path_record :: "bytes \<Rightarrow> (tar_error + bytes) option" where
  "pax_build_path_record path =
     (if length path = 0 \<or> max_member_path_bytes < length path then Some (Inl (PaxPathLength (length path)))
      else Option.bind (pax_digits (length path) 1) (\<lambda>digits.
        let total = length path + 7 + digits;
            record_text = itoa_nat total @ '' path='' @ path @ [CHR ''\<newline>'']
        in Some (if length record_text \<noteq> total then Inl PaxSelfConsistency else Inr record_text)))"

section \<open>The archive\<close>

definition tar_type_regular :: char where "tar_type_regular = CHR ''0''"
definition tar_type_directory :: char where "tar_type_directory = CHR ''5''"
definition tar_type_pax_local :: char where "tar_type_pax_local = CHR ''x''"
definition pax_header_path :: bytes where "pax_header_path = ''PaxHeaders/aiiospkg''"
definition pax_member_placeholder :: bytes where "pax_member_placeholder = ''PaxPayload/aiiospkg''"

text \<open>One round of the loop over the members.\<close>

definition write_member :: "pkg_member \<Rightarrow> (tar_error + bytes) option" where
  "write_member m =
     (let typ = (if mem_dir m then tar_type_directory else tar_type_regular);
          mode = (if mem_dir m then tar_mode_dir else mem_mode m);
          stored = (if mem_dir m then mem_path m @ ''/'' else mem_path m);
          body = (if mem_dir m then [] else mem_content m @ block_padding (length (mem_content m)))
      in if path_fits_ustar stored
         then Some (case build_tar_header stored (length (mem_content m)) mode typ of
                      Inl e \<Rightarrow> Inl e | Inr hdr \<Rightarrow> Inr (hdr @ body))
         else Option.bind (pax_build_path_record (mem_path m)) (\<lambda>r.
           case r of
             Inl e \<Rightarrow> Some (Inl e)
           | Inr rec \<Rightarrow>
               Some (case build_tar_header pax_header_path (length rec) tar_mode_regular tar_type_pax_local of
                       Inl e \<Rightarrow> Inl e
                     | Inr pax_hdr \<Rightarrow>
                         (case build_tar_header pax_member_placeholder (length (mem_content m)) mode typ of
                            Inl e \<Rightarrow> Inl e
                          | Inr hdr \<Rightarrow> Inr (pax_hdr @ rec @ block_padding (length rec) @ hdr @ body)))))"

fun write_members :: "pkg_member list \<Rightarrow> (tar_error + bytes) option" where
  "write_members [] = Some (Inr [])"
| "write_members (m # ms) =
     Option.bind (write_member m) (\<lambda>r. case r of
        Inl e \<Rightarrow> Some (Inl e)
      | Inr b \<Rightarrow> map_option (\<lambda>rest. case rest of Inl e \<Rightarrow> Inl e | Inr bs \<Rightarrow> Inr (b @ bs)) (write_members ms))"

definition write_canonical_tar :: "pkg_member list \<Rightarrow> (tar_error + bytes) option" where
  "write_canonical_tar ms =
     map_option (\<lambda>r. case r of Inl e \<Rightarrow> Inl e | Inr bs \<Rightarrow> Inr (bs @ replicate (2 * tar_block_bytes) NUL))
       (write_members ms)"

section \<open>What a reader makes of it\<close>

definition slice :: "nat \<Rightarrow> nat \<Rightarrow> bytes \<Rightarrow> bytes" where
  "slice a n h = take n (drop a h)"

definition field_text :: "bytes \<Rightarrow> bytes" where
  "field_text f = takeWhile (\<lambda>c. c \<noteq> NUL) f"

definition octal_value :: "bytes \<Rightarrow> nat" where
  "octal_value ds = foldl (\<lambda>v c. v * 8 + digit_val c) 0 ds"

definition header_path :: "bytes \<Rightarrow> bytes" where
  "header_path h =
     (let p = field_text (slice 345 155 h); n = field_text (slice 0 100 h)
      in if p = [] then n else p @ ''/'' @ n)"

definition header_ok :: "bytes \<Rightarrow> bool" where
  "header_ok h \<longleftrightarrow> octal_value (slice 148 6 h) = header_sum (put_at 148 (replicate 8 (CHR '' '')) h)
     \<and> slice 257 8 h = ''ustar'' @ [NUL] @ ''00''"

definition read_header :: "bytes \<Rightarrow> (bytes \<times> bytes) option" where
  "read_header s =
     (if length s < tar_block_bytes \<or> \<not> header_ok (take tar_block_bytes s) then None
      else Some (take tar_block_bytes s, drop tar_block_bytes s))"

definition read_body :: "nat \<Rightarrow> bytes \<Rightarrow> (bytes \<times> bytes) option" where
  "read_body n s =
     (let k = n + length (block_padding n) in if length s < k then None else Some (take n s, drop k s))"

definition header_size :: "bytes \<Rightarrow> nat" where
  "header_size h = octal_value (slice 124 11 h)"

definition header_mode :: "bytes \<Rightarrow> nat" where
  "header_mode h = octal_value (slice 100 7 h)"

definition pax_path :: "bytes \<Rightarrow> bytes" where
  "pax_path r = (let t = tl (dropWhile (\<lambda>c. c \<noteq> CHR '' '') r) in take (length t - 6) (drop 5 t))"

definition drop_slash :: "bytes \<Rightarrow> bytes" where
  "drop_slash p = (if p \<noteq> [] \<and> last p = CHR ''/'' then butlast p else p)"

definition read_entry :: "bytes \<Rightarrow> bytes \<Rightarrow> bytes \<Rightarrow> (pkg_member \<times> bytes) option" where
  "read_entry path h s =
     (if slice 156 1 h = [tar_type_directory]
      then Some (\<lparr>mem_path = drop_slash path, mem_dir = True, mem_mode = int (header_mode h), mem_content = []\<rparr>, s)
      else map_option (\<lambda>(c, t). (\<lparr>mem_path = path, mem_dir = False, mem_mode = int (header_mode h), mem_content = c\<rparr>, t))
             (read_body (header_size h) s))"

definition read_member :: "bytes \<Rightarrow> unit + pkg_member \<times> bytes" where
  "read_member s =
     (case Option.bind (read_header s) (\<lambda>(h, s1).
        if slice 156 1 h = [tar_type_pax_local]
        then Option.bind (read_body (header_size h) s1) (\<lambda>(r, s2).
          Option.bind (read_header s2) (\<lambda>(h2, s3). read_entry (pax_path r) h2 s3))
        else read_entry (header_path h) h s1) of
      None \<Rightarrow> Inl () | Some x \<Rightarrow> Inr x)"

section \<open>Fields\<close>

lemma length_put_at [simp]: "off + length bs \<le> length h \<Longrightarrow> length (put_at off bs h) = length h"
  by (simp add: put_at_def)

lemma slice_put_same: "off + n \<le> length h \<Longrightarrow> n = length bs \<Longrightarrow> slice off n (put_at off bs h) = bs"
  by (simp add: slice_def put_at_def)

lemma slice_put_other:
  assumes "off + length bs \<le> length h" "a + n \<le> off \<or> off + length bs \<le> a"
  shows "slice a n (put_at off bs h) = slice a n h"
  using assms(2)
proof
  assume "a + n \<le> off"
  then have "take (a + n) (put_at off bs h) = take (a + n) h" using assms(1) by (simp add: put_at_def)
  then have "drop a (take (a + n) (put_at off bs h)) = drop a (take (a + n) h)" by (rule arg_cong)
  then show ?thesis by (simp add: slice_def drop_take)
next
  assume a: "off + length bs \<le> a"
  then have "drop a (put_at off bs h) = drop a h"
    using assms(1) by (simp add: put_at_def)
  then show ?thesis by (simp add: slice_def)
qed

lemma slice_put_start:
  assumes "off + n \<le> length h" "length bs \<le> n"
  shows "slice off n (put_at off bs h) = bs @ slice (off + length bs) (n - length bs) h"
  using assms by (simp add: slice_def put_at_def)

lemma put_put: "length bs = length cs \<Longrightarrow> off + length cs \<le> length h \<Longrightarrow>
    put_at off bs (put_at off cs h) = put_at off bs h"
  by (simp add: put_at_def)

lemma put_slice: "slice off (length bs) h = bs \<Longrightarrow> off + length bs \<le> length h \<Longrightarrow> put_at off bs h = h"
  by (metis append_take_drop_id drop_drop put_at_def slice_def add.commute)

lemma slice_replicate: "a + n \<le> k \<Longrightarrow> slice a n (replicate k c) = replicate n c"
  by (simp add: slice_def)

lemma slice_take:
  "slice a 6 h = take 6 (slice a 8 h)" "slice a 11 h = take 11 (slice a 12 h)" "slice a 7 h = take 7 (slice a 8 h)"
  by (simp_all add: slice_def)

lemma octal_value_snoc: "octal_value (ds @ [c]) = octal_value ds * 8 + digit_val c"
  by (simp add: octal_value_def)

lemma octal_value_nat [simp]: "octal_value (octal_nat n) = n"
proof (induction n rule: octal_nat.induct)
  case (1 n)
  show ?case
  proof (cases "n < 8")
    case True
    then show ?thesis by (simp add: octal_nat.simps [of n] octal_value_def)
  next
    case False
    then have "octal_value (octal_nat n) = octal_value (octal_nat (n div 8)) * 8 + n mod 8"
      by (simp add: octal_nat.simps [of n] octal_value_snoc)
    then show ?thesis using 1 [OF False] by simp
  qed
qed

lemma octal_value_zeros [simp]: "octal_value (replicate k (CHR ''0'') @ s) = octal_value s"
proof -
  have "foldl (\<lambda>v c. v * 8 + digit_val c) 0 (replicate k (CHR ''0'')) = (0 :: nat)"
    by (induction k) (simp_all add: digit_val_def)
  then show ?thesis by (simp add: octal_value_def)
qed

lemma octal_length: "n < 8 ^ k \<Longrightarrow> 0 < k \<Longrightarrow> length (octal_nat n) \<le> k"
proof (induction n arbitrary: k rule: octal_nat.induct)
  case (1 n)
  show ?case
  proof (cases "n < 8")
    case False
    then obtain j where j: "k = Suc j" "0 < j" using 1(2,3) by (cases k; cases "k - 1") auto
    then have "n div 8 < 8 ^ j" using 1(2) by (simp add: less_mult_imp_div_less mult.commute)
    then show ?thesis using 1(1) [OF False _ j(2)] False j by (simp add: octal_nat.simps [of n])
  qed (use 1 in \<open>simp add: octal_nat.simps [of n]\<close>)
qed

lemma write_octal_ok:
  assumes "n < 8 ^ (k - 1)" "1 < k"
  obtains f where "write_octal k n = Inr f" "length f = k" "octal_value (take (k - 1) f) = n"
proof -
  have l: "length (octal_nat n) \<le> k - 1" using octal_length [OF assms(1)] assms(2) by simp
  show thesis
    by (rule that [of "replicate (k - 1 - length (octal_nat n)) (CHR ''0'') @ octal_nat n @ [NUL]"])
      (use l assms(2) in \<open>simp_all add: write_octal_def Let_def\<close>)
qed

lemma header_sum_bound: "header_sum h \<le> 255 * length h"
proof (induction h)
  case (Cons c h)
  moreover have "byte_val c \<le> 255" using byte_val_less [of c] by linarith
  ultimately show ?case by (simp add: header_sum_def)
qed (simp add: header_sum_def)

lemma checksum_ok:
  assumes "length h = tar_block_bytes"
  obtains f where "checksum_field (header_sum h) = Inr f" "length f = 8" "octal_value (take 6 f) = header_sum h"
proof -
  have "header_sum h < 8 ^ 6" using header_sum_bound [of h] assms by (simp add: tar_block_bytes_def)
  then have l: "length (octal_nat (header_sum h)) \<le> 6" by (rule octal_length) simp
  show thesis
    by (rule that [of "replicate (6 - length (octal_nat (header_sum h))) (CHR ''0'') @ octal_nat (header_sum h) @ [NUL, CHR '' '']"])
      (use l in \<open>simp_all add: checksum_field_def Let_def\<close>)
qed

lemma split_path_sound:
  assumes "tar_split_path path = Inr (name, pfx)"
  shows "length name \<le> 100" "length pfx \<le> 155" "path = (if pfx = [] then name else pfx @ ''/'' @ name)"
    "path \<noteq> []"
proof -
  have r: "length name \<le> 100 \<and> length pfx \<le> 155 \<and> path = (if pfx = [] then name else pfx @ ''/'' @ name) \<and> path \<noteq> []"
  proof (cases "length path \<le> 100")
    case True
    then show ?thesis using assms by (auto simp: tar_split_path_def split: if_splits)
  next
    case False
    then obtain k where k: "find (\<lambda>split. path ! split = CHR ''/'' \<and> split \<le> 155
        \<and> 0 < length path - split - 1 \<and> length path - split - 1 \<le> 100) (rev [1..<length path]) = Some k"
      "name = drop (k + 1) path" "pfx = take k path"
      using assms by (auto simp: tar_split_path_def split: option.splits if_splits)
    have p: "path ! k = CHR ''/''" "k \<le> 155" "length path - k - 1 \<le> 100" "k \<in> set [1..<length path]"
      using k(1) by (auto simp: find_Some_iff in_set_conv_nth rev_nth)
    then have "path = take k path @ path ! k # drop (Suc k) path" by (intro id_take_nth_drop) simp
    moreover have "pfx \<noteq> []" using p(4) k(3) by auto
    ultimately show ?thesis using k(2,3) p by auto
  qed
  then show "length name \<le> 100" "length pfx \<le> 155" "path = (if pfx = [] then name else pfx @ ''/'' @ name)"
    "path \<noteq> []" by blast+
qed

section \<open>Headers and records read back\<close>

lemma field_text_pad [simp]: "NUL \<notin> set t \<Longrightarrow> field_text (t @ replicate k NUL) = t"
  by (cases k) (auto simp: field_text_def takeWhile_append)

lemma header_reads:
  assumes sp: "tar_split_path path = Inr (name, pfx)" and nul: "NUL \<notin> set path"
    and n: "n < 8 ^ 11" and mode: "0 \<le> mode" "mode < 512"
  obtains h where "build_tar_header path n mode typ = Inr h" "length h = tar_block_bytes" "header_ok h"
    "header_path h = path" "header_size h = n" "header_mode h = nat mode" "slice 156 1 h = [typ]"
proof -
  note so = split_path_sound [OF sp]
  have m: "nat (mode mod 512) = nat mode" "nat mode < 8 ^ (8 - 1)" using mode by simp_all
  obtain fm where fm: "write_octal 8 (nat mode) = Inr fm" "length fm = 8" "octal_value (take (8 - 1) fm) = nat mode"
    by (rule write_octal_ok [OF m(2)]) simp_all
  obtain fs where fs: "write_octal 12 n = Inr fs" "length fs = 12" "octal_value (take (12 - 1) fs) = n"
    by (rule write_octal_ok [of n 12]) (use n in simp_all)
  obtain f0 where f0: "write_octal 8 0 = Inr f0" "length f0 = 8" by (rule write_octal_ok [of 0 8]) simp_all
  obtain ft where ft: "write_octal 12 0 = Inr ft" "length ft = 12" by (rule write_octal_ok [of 0 12]) simp_all
  define h0 where "h0 = put_at 345 (take 155 pfx) (put_at 0 (take 100 name) (replicate tar_block_bytes NUL))"
  define h1 where "h1 = put_at 148 (replicate 8 (CHR '' '')) (put_at 136 ft (put_at 116 f0
    (put_at 108 f0 (put_at 124 fs (put_at 100 fm h0)))))"
  define h where "h = put_at 263 ''00'' (put_at 257 (''ustar'' @ [NUL]) (put_at 156 [typ] h1))"
  have l0: "length h0 = 512" using so(1,2) by (simp add: h0_def tar_block_bytes_def)
  have l1: "length h1 = 512" by (simp add: h1_def l0 fm fs f0 ft)
  have l: "length h = 512" by (simp add: h_def l1)
  obtain fc where fc: "checksum_field (header_sum h) = Inr fc" "length fc = 8" "octal_value (take 6 fc) = header_sum h"
    by (rule checksum_ok [of h]) (simp add: l tar_block_bytes_def)
  let ?h = "put_at 148 fc h"
  note lens = l0 l1 l fm(2) fs(2) f0(2) ft(2) fc(2)
  have built: "build_tar_header path n mode typ = Inr ?h"
    using sp fm fs f0 ft fc(1) by (simp add: build_tar_header_def m h_def h1_def h0_def Let_def)
  have outer: "slice a k ?h = slice a k h0"
    if "a + k \<le> 100 \<or> 345 \<le> a" for a k
    using that by (elim disjE) (simp_all add: slice_put_other lens h_def h1_def del: append.simps)
  have s148: "slice 148 8 h = replicate 8 (CHR '' '')"
    by (simp add: h_def h1_def slice_put_other slice_put_same lens del: append.simps replicate.simps)
  have "put_at 148 (replicate 8 (CHR '' '')) ?h = h"
    using put_put [of "replicate 8 (CHR '' '')" fc 148 h] put_slice [of 148 "replicate 8 (CHR '' '')" h] s148 lens
    by simp
  moreover have "slice 148 6 ?h = take 6 fc"
  proof -
    have "slice 148 8 ?h = fc" by (rule slice_put_same) (simp_all add: lens)
    then show ?thesis using slice_take(1) by metis
  qed
  moreover have "slice 257 8 ?h = ''ustar'' @ [NUL] @ ''00''"
  proof -
    have "slice 257 6 ?h = ''ustar'' @ [NUL]"
      by (simp add: slice_put_other slice_put_same lens h_def)
    moreover have "slice 263 2 ?h = ''00''" by (simp add: slice_put_other slice_put_same lens h_def)
    moreover have "slice 257 8 ?h = slice 257 6 ?h @ slice 263 2 ?h"
      using take_add [of 6 2 "drop 257 ?h"] by (simp add: slice_def)
    ultimately show ?thesis by simp
  qed
  ultimately have ok: "header_ok ?h" using fc(3) by (simp add: header_ok_def)
  have size: "header_size ?h = n"
  proof -
    have "slice 124 12 ?h = fs" by (simp add: slice_put_other slice_put_same lens h_def h1_def)
    then show ?thesis using fs(3) slice_take(2) [of 124 ?h] by (simp add: header_size_def)
  qed
  have md: "header_mode ?h = nat mode"
  proof -
    have "slice 100 8 ?h = fm" by (simp add: slice_put_other slice_put_same lens h_def h1_def)
    then show ?thesis using fm(3) slice_take(3) [of 100 ?h] by (simp add: header_mode_def)
  qed
  have ty: "slice 156 1 ?h = [typ]" by (simp add: slice_put_other slice_put_same lens h_def)
  have "slice 0 100 h0 = name @ replicate (100 - length name) NUL"
    using so(1,2) by (simp add: h0_def slice_put_other slice_put_start slice_replicate tar_block_bytes_def)
  moreover have "slice 345 155 h0 = pfx @ replicate (155 - length pfx) NUL"
    using so(1,2) by (simp add: h0_def slice_put_start slice_put_other slice_replicate tar_block_bytes_def)
  moreover have "NUL \<notin> set name" "NUL \<notin> set pfx" using nul so(3) by (auto split: if_splits)
  ultimately have path: "header_path ?h = path" using so(3) outer by (simp add: header_path_def)
  show thesis by (rule that [OF built _ ok path size md ty]) (simp add: lens tar_block_bytes_def)
qed

lemma itoa_length_cases:
  "n < 10 \<Longrightarrow> length (itoa_nat n) = 1" "10 \<le> n \<Longrightarrow> n < 100 \<Longrightarrow> length (itoa_nat n) = 2"
  "100 \<le> n \<Longrightarrow> n < 1000 \<Longrightarrow> length (itoa_nat n) = 3"
proof -
  show "length (itoa_nat n) = 1" if "n < 10" using that by (simp add: itoa_nat.simps [of n])
  show "length (itoa_nat n) = 2" if "10 \<le> n" "n < 100"
    using itoa_nat_length_le [of n 2] itoa_nat_length_ge [of 1 n] that by simp
  show "length (itoa_nat n) = 3" if "100 \<le> n" "n < 1000"
    using itoa_nat_length_le [of n 3] itoa_nat_length_ge [of 2 n] that by simp
qed

lemma pax_digits_step:
  "pax_digits len d = (let k = length (itoa_nat (len + 7 + d)) in if k = d then Some d else pax_digits len k)"
  by (subst pax_digits.simps) (simp add: Let_def)

lemma pax_digits_ends:
  assumes "1 \<le> len" "len \<le> 511"
  shows "\<exists>d. pax_digits len 1 = Some d \<and> length (itoa_nat (len + 7 + d)) = d \<and> d \<le> 3"
proof -
  consider "len + 7 + 1 < 10" | "10 \<le> len + 7 + 1" "len + 7 + 2 < 100"
    | "len + 7 + 1 < 100" "100 \<le> len + 7 + 2" | "100 \<le> len + 7 + 1" by linarith
  then show ?thesis
  proof cases
    case 1
    then show ?thesis using itoa_length_cases(1) by (subst pax_digits_step) (simp add: Let_def)
  next
    case 2
    then have "length (itoa_nat (len + 7 + 1)) = 2" "length (itoa_nat (len + 7 + 2)) = 2"
      by (intro itoa_length_cases(2); simp)+
    then show ?thesis by (subst pax_digits_step, simp add: Let_def, subst pax_digits_step, simp add: Let_def)
  next
    case 3
    then have "length (itoa_nat (len + 7 + 1)) = 2" "length (itoa_nat (len + 7 + 2)) = 3" "length (itoa_nat (len + 7 + 3)) = 3"
      using assms itoa_length_cases(2) [of "len + 7 + 1"] itoa_length_cases(3) [of "len + 7 + 2"]
        itoa_length_cases(3) [of "len + 7 + 3"] by simp_all
    then show ?thesis
      by (subst pax_digits_step, simp add: Let_def, subst pax_digits_step, simp add: Let_def, subst pax_digits_step,
          simp add: Let_def)
  next
    case 4
    then have "length (itoa_nat (len + 7 + 1)) = 3" "length (itoa_nat (len + 7 + 3)) = 3"
      using assms by (intro itoa_length_cases(3); simp)+
    then show ?thesis by (subst pax_digits_step, simp add: Let_def, subst pax_digits_step, simp add: Let_def)
  qed
qed

lemma pax_record:
  assumes "path \<noteq> []" "length path \<le> 511"
  obtains r where "pax_build_path_record path = Some (Inr r)" "pax_path r = path" "length r \<le> 600"
proof -
  have len: "1 \<le> length path" using assms(1) by (cases path) simp_all
  obtain d where d: "pax_digits (length path) 1 = Some d" "length (itoa_nat (length path + 7 + d)) = d" "d \<le> 3"
    using pax_digits_ends [OF len assms(2)] by blast
  define r where "r = itoa_nat (length path + 7 + d) @ '' path='' @ path @ [CHR ''\<newline>'']"
  have dig: "list_all is_digit (itoa_nat (length path + 7 + d))" by (rule itoa_nat_digits)
  have ns: "\<forall>c \<in> set (itoa_nat (length path + 7 + d)). c \<noteq> CHR '' ''"
    using dig by (auto simp: list_all_iff is_digit_def less_eq_char_def)
  then have "dropWhile (\<lambda>c. c \<noteq> CHR '' '') r = '' path='' @ path @ [CHR ''\<newline>'']"
    unfolding r_def by (subst dropWhile_append2) auto
  then have p: "pax_path r = path" by (simp add: pax_path_def Let_def)
  have "length r = length path + 7 + d" by (simp add: r_def d(2))
  then have "length r \<le> 600" using assms(2) d(3) by simp
  moreover have "pax_build_path_record path = Some (Inr r)"
    using assms d by (simp add: pax_build_path_record_def max_member_path_bytes_def r_def Let_def)
  ultimately show thesis using p that by blast
qed

section \<open>Members read back\<close>

definition storable :: "pkg_member \<Rightarrow> bool" where
  "storable m \<longleftrightarrow> mem_path m \<noteq> [] \<and> length (mem_path m) \<le> max_member_path_bytes \<and> NUL \<notin> set (mem_path m)
     \<and> last (mem_path m) \<noteq> CHR ''/'' \<and> length (mem_content m) < 8 ^ 11
     \<and> (if mem_dir m then mem_content m = [] \<and> mem_mode m = tar_mode_dir
        else mem_mode m \<in> {tar_mode_regular, tar_mode_executable})"

lemma read_header_append: "length h = tar_block_bytes \<Longrightarrow> header_ok h \<Longrightarrow> read_header (h @ s) = Some (h, s)"
  by (simp add: read_header_def)

lemma read_body_append: "read_body (length c) (c @ block_padding (length c) @ s) = Some (c, s)"
  by (simp add: read_body_def Let_def)

lemma drop_slash_simps [simp]: "drop_slash (p @ ''/'') = p" "last p \<noteq> CHR ''/'' \<Longrightarrow> drop_slash p = p"
  by (simp_all add: drop_slash_def)

lemma read_entry_member:
  assumes s: "storable m"
    and h: "header_size h = length (mem_content m)"
      "header_mode h = nat (if mem_dir m then tar_mode_dir else mem_mode m)"
      "slice 156 1 h = [if mem_dir m then tar_type_directory else tar_type_regular]"
    and p: "if mem_dir m then drop_slash path = mem_path m else path = mem_path m"
  shows "read_entry path h ((if mem_dir m then [] else mem_content m @ block_padding (length (mem_content m))) @ rest)
    = Some (m, rest)"
proof (cases "mem_dir m")
  case True
  then show ?thesis using s h p by (simp add: read_entry_def storable_def tar_mode_dir_def)
next
  case False
  then have "int (nat (mem_mode m)) = mem_mode m" using s by (auto simp: storable_def tar_mode_regular_def tar_mode_executable_def)
  then show ?thesis using False h p read_body_append [of "mem_content m" rest]
    by (simp add: read_entry_def tar_type_directory_def tar_type_regular_def)
qed

lemma short_path_splits: "path \<noteq> [] \<Longrightarrow> length path \<le> 100 \<Longrightarrow> tar_split_path path = Inr (path, [])"
  by (simp add: tar_split_path_def max_member_path_bytes_def)

lemma member_reads:
  assumes s: "storable m"
  obtains b where "write_member m = Some (Inr b)" "\<And>rest. read_member (b @ rest) = Inr (m, rest)"
    "length b mod tar_block_bytes = 0"
proof -
  let ?ty = "if mem_dir m then tar_type_directory else tar_type_regular"
  let ?mode = "if mem_dir m then tar_mode_dir else mem_mode m"
  let ?stored = "if mem_dir m then mem_path m @ ''/'' else mem_path m"
  let ?body = "if mem_dir m then [] else mem_content m @ block_padding (length (mem_content m))"
  have mode: "0 \<le> ?mode" "?mode < 512"
    using s by (auto simp: storable_def tar_mode_dir_def tar_mode_regular_def tar_mode_executable_def)
  have n: "length (mem_content m) < 8 ^ 11" using s by (simp add: storable_def)
  have ty: "?ty \<noteq> tar_type_pax_local"
    by (simp add: tar_type_directory_def tar_type_regular_def tar_type_pax_local_def)
  have pad: "(k + length (block_padding k)) mod tar_block_bytes = 0" for k
  proof (cases "k mod tar_block_bytes = 0")
    case False
    have "512 * (k div 512) + k mod 512 = k" "k mod 512 < 512" by simp_all
    then have "k + (512 - k mod 512) = 512 * (k div 512) + 512" by linarith
    then have "(k + (tar_block_bytes - k mod tar_block_bytes)) mod tar_block_bytes = 0"
      unfolding tar_block_bytes_def by simp
    with False show ?thesis by (simp add: block_padding_def)
  qed (simp add: block_padding_def)
  then have body: "length ?body mod tar_block_bytes = 0" by simp
  show thesis
  proof (cases "path_fits_ustar ?stored")
    case True
    then obtain name pfx where sp: "tar_split_path ?stored = Inr (name, pfx)"
      by (auto simp: path_fits_ustar_def split: sum.splits)
    have "NUL \<notin> set ?stored" using s by (simp add: storable_def)
    then obtain h where h: "build_tar_header ?stored (length (mem_content m)) ?mode ?ty = Inr h"
      "length h = tar_block_bytes" "header_ok h" "header_path h = ?stored" "header_size h = length (mem_content m)"
      "header_mode h = nat ?mode" "slice 156 1 h = [?ty]"
      using header_reads [OF sp _ n mode] by metis
    have "write_member m = Some (Inr (h @ ?body))" using True h(1) by (simp add: write_member_def Let_def)
    moreover have "read_member ((h @ ?body) @ rest) = Inr (m, rest)" for rest
      using read_header_append [OF h(2,3), of "?body @ rest"] read_entry_member [OF s h(5-7), of "?stored" rest]
        ty h(4,7) by (simp add: read_member_def)
    ultimately show thesis using that [of "h @ ?body"] body h(2) by (simp add: mod_add_left_eq)
  next
    case False
    obtain r where r: "pax_build_path_record (mem_path m) = Some (Inr r)" "pax_path r = mem_path m" "length r \<le> 600"
      by (rule pax_record [of "mem_path m"]) (use s in \<open>simp_all add: storable_def max_member_path_bytes_def\<close>)
    have p1: "tar_split_path pax_header_path = Inr (pax_header_path, [])" "NUL \<notin> set pax_header_path"
      by (simp_all add: pax_header_path_def short_path_splits)
    have p2: "tar_split_path pax_member_placeholder = Inr (pax_member_placeholder, [])" "NUL \<notin> set pax_member_placeholder"
      by (simp_all add: pax_member_placeholder_def short_path_splits)
    have rn: "length r < 8 ^ 11" using r(3) by simp
    have rm: "0 \<le> tar_mode_regular" "tar_mode_regular < 512" by (simp_all add: tar_mode_regular_def)
    obtain h1 where h1: "build_tar_header pax_header_path (length r) tar_mode_regular tar_type_pax_local = Inr h1"
      "length h1 = tar_block_bytes" "header_ok h1" "header_size h1 = length r" "slice 156 1 h1 = [tar_type_pax_local]"
      by (rule header_reads [OF p1 rn rm, of tar_type_pax_local]) blast
    obtain h where h: "build_tar_header pax_member_placeholder (length (mem_content m)) ?mode ?ty = Inr h"
      "length h = tar_block_bytes" "header_ok h" "header_size h = length (mem_content m)"
      "header_mode h = nat ?mode" "slice 156 1 h = [?ty]"
      by (rule header_reads [OF p2 n mode, of ?ty]) blast
    let ?b = "h1 @ r @ block_padding (length r) @ h @ ?body"
    have "write_member m = Some (Inr ?b)" using False r(1) h1(1) h(1) by (simp add: write_member_def Let_def)
    moreover have "read_member (?b @ rest) = Inr (m, rest)" for rest
    proof -
      have "if mem_dir m then drop_slash (mem_path m) = mem_path m else mem_path m = mem_path m"
        using s by (simp add: storable_def)
      from read_entry_member [OF s h(4-6) this, of rest]
      show ?thesis
        using read_header_append [OF h1(2,3), of "r @ block_padding (length r) @ h @ ?body @ rest"]
          read_body_append [of r "h @ ?body @ rest"] read_header_append [OF h(2,3), of "?body @ rest"]
          h1(4,5) r(2) by (simp add: read_member_def)
    qed
    moreover have "length ?b mod tar_block_bytes = 0"
    proof -
      have "length ?b = tar_block_bytes + (length r + length (block_padding (length r))) + tar_block_bytes + length ?body"
        using h1(2) h(2) by simp
      then show ?thesis using pad [of "length r"] body
        by (simp only: mod_eq_0_iff_dvd dvd_add dvd_refl)
    qed
    ultimately show thesis by (rule that)
  qed
qed

section \<open>The archive as a stream of members\<close>

definition member_put :: "pkg_member \<Rightarrow> bytes option" where
  "member_put m =
     (if storable m then (case write_member m of Some (Inr b) \<Rightarrow> Some b | _ \<Rightarrow> None) else None)"

interpretation tar: stream_codec member_put read_member
proof
  fix m w rest
  assume p: "member_put m = Some w"
  then have s: "storable m" by (simp add: member_put_def split: if_splits)
  obtain b where "write_member m = Some (Inr b)" "\<And>rest. read_member (b @ rest) = Inr (m, rest)"
    by (rule member_reads [OF s]) blast
  then show "read_member (w @ rest) = Inr (m, rest)" using p s by (simp add: member_put_def)
qed

lemma write_members_stream:
  assumes "\<forall>m \<in> set ms. storable m"
  obtains bss where "list_all2 (\<lambda>m w. member_put m = Some w) ms bss" "write_members ms = Some (Inr (concat bss))"
    "length (concat bss) mod tar_block_bytes = 0"
proof -
  have "\<exists>bss. list_all2 (\<lambda>m w. member_put m = Some w) ms bss \<and> write_members ms = Some (Inr (concat bss))
      \<and> length (concat bss) mod tar_block_bytes = 0"
    using assms
  proof (induction ms)
    case (Cons m ms)
    then obtain bss where b: "list_all2 (\<lambda>m w. member_put m = Some w) ms bss"
      "write_members ms = Some (Inr (concat bss))" "length (concat bss) mod tar_block_bytes = 0" by auto
    obtain w where w: "write_member m = Some (Inr w)" "length w mod tar_block_bytes = 0"
      by (rule member_reads [of m]) (use Cons.prems in auto)
    have "member_put m = Some w" using w(1) Cons.prems by (simp add: member_put_def)
    moreover have "length (concat (w # bss)) mod tar_block_bytes = 0"
      using dvd_add [of tar_block_bytes "length w" "length (concat bss)"] w(2) b(3)
      by (simp only: concat.simps length_append mod_eq_0_iff_dvd)
    moreover have "write_members (m # ms) = Some (Inr (concat (w # bss)))" using b(2) w(1) by simp
    moreover have "list_all2 (\<lambda>m w. member_put m = Some w) (m # ms) (w # bss)"
      using b(1) \<open>member_put m = Some w\<close> by simp
    ultimately show ?case by (intro exI [of _ "w # bss"] conjI)
  qed simp
  then show thesis by (elim exE conjE) (rule that)
qed

lemma split_on_covers: "c \<in> set s \<Longrightarrow> c = sep \<or> (\<exists>p \<in> set (split_on sep s). c \<in> set p)"
proof -
  have "c \<in> set (join_with [sep] ps) \<Longrightarrow> c = sep \<or> (\<exists>p \<in> set ps. c \<in> set p)" for ps
    by (induction "[sep]" ps rule: join_with.induct) auto
  then show "c \<in> set s \<Longrightarrow> c = sep \<or> (\<exists>p \<in> set (split_on sep s). c \<in> set p)" by (metis join_split_on)
qed

lemma valid_path_plain:
  assumes "validate_path p = None"
  shows "p \<noteq> []" "length p \<le> max_member_path_bytes" "NUL \<notin> set p" "last p \<noteq> CHR ''/''"
proof -
  have c: "p \<noteq> []" "length p \<le> max_member_path_bytes" and comp: "\<And>x. x \<in> set (split_on (CHR ''/'') p) \<Longrightarrow> validate_component x = None"
    using assms by (auto simp: validate_path_def split: if_splits)
  show "p \<noteq> []" "length p \<le> max_member_path_bytes" by (rule c)+
  show "NUL \<notin> set p"
  proof
    assume "NUL \<in> set p"
    then obtain x where "x \<in> set (split_on (CHR ''/'') p)" "NUL \<in> set x" using split_on_covers [of NUL p "CHR ''/''"] by auto
    then have "list_all component_byte x" using comp [of x] by (simp add: validate_component_def split: if_splits)
    then have "component_byte NUL" using \<open>NUL \<in> set x\<close> by (simp add: list_all_iff)
    then show False by (simp add: component_byte_def byte_defs less_eq_char_def)
  qed
  show "last p \<noteq> CHR ''/''"
  proof
    assume l: "last p = CHR ''/''"
    have "p = butlast p @ CHR ''/'' # []" using c(1) l by (metis append_butlast_last_id)
    then have "split_on (CHR ''/'') p = split_on (CHR ''/'') (butlast p) @ [[]]"
      using split_on_append_sep [of "CHR ''/''" "butlast p" "[]"] by simp
    then have "validate_component [] = None" using comp by simp
    then show False by (simp add: validate_component_def)
  qed
qed

lemma tree_members_storable:
  assumes "tree_members t = Inr ms" "m \<in> set ms"
  shows "storable m"
proof -
  note ok = tree_members_ok [OF assms(1)]
  note p = valid_path_plain [OF ok(4) [OF assms(2)]]
  from assms(2) consider d where "m = dir_member d" | rel where "m = file_member t rel" unfolding ok(7) by auto
  then show ?thesis
  proof cases
    case 1
    then show ?thesis using p by (simp add: storable_def dir_member_def)
  next
    case 2
    then have "\<not> mem_dir m" by (simp add: file_member_def)
    then have "int (length (mem_content m)) \<le> max_regular_payload_bytes" by (rule ok(8) [OF assms(2)])
    then have "length (mem_content m) < 8 ^ 11" by (simp add: max_regular_payload_bytes_def)
    then show ?thesis using p 2 by (simp add: storable_def file_member_def)
  qed
qed

section \<open>Properties\<close>

text \<open>C31: the archive of an accepted package unpacks to exactly its members. Writing it always
  returns and never fails, it is whole blocks long, and a tar reader that honours the checksums,
  the ustar prefix and the PAX path records gets every member back, with its path, kind, mode and
  bytes, in order, and then the two zero blocks.\<close>

theorem the_archive_unpacks_to_its_members:
  assumes "tree_members t = Inr ms"
  shows "\<exists>b. write_canonical_tar ms = Some (Inr b) \<and> length b mod tar_block_bytes = 0
    \<and> read_many read_member (length ms) b = Inr (ms, replicate (2 * tar_block_bytes) NUL)"
proof -
  have "\<forall>m \<in> set ms. storable m" using tree_members_storable [OF assms] by blast
  then obtain bss where b: "list_all2 (\<lambda>m w. member_put m = Some w) ms bss"
    "write_members ms = Some (Inr (concat bss))" "length (concat bss) mod tar_block_bytes = 0"
    by (rule write_members_stream)
  have "write_canonical_tar ms = Some (Inr (concat bss @ replicate (2 * tar_block_bytes) NUL))"
    using b(2) by (simp add: write_canonical_tar_def)
  then show ?thesis using b(3) tar.read_back [OF b(1), of "replicate (2 * tar_block_bytes) NUL"]
    by (intro exI [of _ "concat bss @ replicate (2 * tar_block_bytes) NUL"]) simp
qed

theorem the_archive_unpacks_to_its_members_witness:
  "\<exists>b. write_canonical_tar [dir_member ''p'', dir_member ''p/d'', file_member small_tree ''d/B'',
     file_member small_tree ''d/a''] = Some (Inr b)"
  using the_archive_unpacks_to_its_members [OF small_tree_members] by blast

text \<open>C34: the fixed-point loop of \<open>paxBuildPathRecord\<close> ends for every path the archive admits, and
  the record it gives says its own length: decimal digits of exactly the record's length, a
  space, \<open>path=\<close>, the path and a line feed; the self-consistency error never happens.\<close>

theorem pax_records_say_their_own_length:
  assumes "path \<noteq> []" "length path \<le> max_member_path_bytes"
  shows "\<exists>r n. pax_build_path_record path = Some (Inr r) \<and> r = itoa_nat n @ '' path='' @ path @ [CHR ''\<newline>'']
    \<and> n = length r"
proof -
  have len: "1 \<le> length path" using assms(1) by (cases path) simp_all
  obtain d where d: "pax_digits (length path) 1 = Some d" "length (itoa_nat (length path + 7 + d)) = d"
    using pax_digits_ends [OF len] assms(2) by (auto simp: max_member_path_bytes_def)
  then show ?thesis
    using assms by (intro exI [of _ "itoa_nat (length path + 7 + d) @ '' path='' @ path @ [CHR ''\<newline>'']"]
        exI [of _ "length path + 7 + d"]) (simp add: pax_build_path_record_def Let_def)
qed

theorem pax_records_say_their_own_length_witness:
  "\<exists>r. pax_build_path_record ''ab'' = Some (Inr r)"
  using pax_records_say_their_own_length [of "''ab''"] by (auto simp: max_member_path_bytes_def)

end
