(* ===== verification/GoJson.thy ===== *)
theory GoJson
  imports JsonText "HOL-Library.Finite_Map"
begin

text \<open>
  Reading a JSON document with \<open>json.Decoder\<close>, one \<open>More\<close> and \<open>Token\<close> at a time and with
  \<open>UseNumber\<close>, the way \<open>parseCanonValue\<close> of \<open>pkg/aiiospkg/canonjson.go\<close> and \<open>decodeValue\<close> of
  \<open>pkg/aiiospkg/validation.go\<close> both do. They differ in what they make of a string and of a number;
  those two steps are arguments here. \<open>encoding/json\<close>'s own error texts are one constructor, and a
  Go \<open>map[string]interface{}\<close> is a finite map.
\<close>

section \<open>Errors and values\<close>

datatype json_error =
    InputNotUtf8
  | InvalidEscape
  | UnpairedHigh
  | UnpairedLow
  | BadToken
  | DuplicateKey bytes
  | ObjectNotClosed
  | ArrayNotClosed
  | NulCodePoint
  | BadNumber bytes
  | TrailingContent

datatype 'n json =
    JObj "(bytes, 'n json) fmap"
  | JArr "'n json list"
  | JStr bytes
  | JNum 'n
  | JBool bool
  | JNull

section \<open>The tokens of \<open>encoding/json\<close>\<close>

definition parse_u16 :: "bytes \<Rightarrow> nat option" where
  "parse_u16 s = (if length s < 4 then None else hex4_loop 0 (take 4 s))"

text \<open>
  The text of a string after its opening quote. The input has been checked to be UTF-8, so bytes
  are copied; an escape that is half a surrogate pair becomes U+FFFD, as in Go.
\<close>

definition go_escape :: "bytes \<Rightarrow> (bytes \<times> bytes) option" where
  "go_escape s =
     (case s of
        [] \<Rightarrow> None
      | c # t \<Rightarrow>
          if c = CHR 0x22 \<or> c = CHR 0x5C \<or> c = CHR ''/'' then Some ([c], t)
          else if c = CHR ''b'' then Some ([CHR 0x08], t)
          else if c = CHR ''f'' then Some ([CHR 0x0C], t)
          else if c = CHR ''n'' then Some ([CHR 0x0A], t)
          else if c = CHR ''r'' then Some ([CHR 0x0D], t)
          else if c = CHR ''t'' then Some ([CHR 0x09], t)
          else if c \<noteq> CHR ''u'' then None
          else (case parse_u16 t of
                  None \<Rightarrow> None
                | Some u \<Rightarrow>
                    if \<not> is_surrogate u then Some (encode_rune u, drop 4 t)
                    else if 6 \<le> length (drop 4 t) \<and> t ! 4 = CHR 0x5C \<and> t ! 5 = CHR ''u'' then
                      (case parse_u16 (drop 6 t) of
                         None \<Rightarrow> Some (encode_rune 0xFFFD, drop 4 t)
                       | Some low \<Rightarrow>
                           if decode_surrogates u low = 0xFFFD then Some (encode_rune 0xFFFD, drop 4 t)
                           else Some (encode_rune (decode_surrogates u low), drop 10 t))
                    else Some (encode_rune 0xFFFD, drop 4 t)))"

lemma go_escape_shrinks [shrinks]: "go_escape s = Some (out, t) \<Longrightarrow> length t < length s"
  by (auto simp: go_escape_def split: list.splits if_splits option.splits)

function go_string :: "bytes \<Rightarrow> (bytes \<times> bytes) option" where
  "go_string s =
     (case s of
        [] \<Rightarrow> None
      | c # t \<Rightarrow>
          if c = CHR 0x22 then Some ([], t)
          else if c = CHR 0x5C then
            (case go_escape t of
               None \<Rightarrow> None
             | Some (out, u) \<Rightarrow> (case go_string u of None \<Rightarrow> None | Some (k, v) \<Rightarrow> Some (out @ k, v)))
          else if c < CHR 0x20 then None
          else (case go_string t of None \<Rightarrow> None | Some (k, v) \<Rightarrow> Some (c # k, v)))"
  by pat_completeness auto
termination
  by (relation "measure length") (auto dest: go_escape_shrinks)

declare go_string.simps [simp del]

lemma go_string_shrinks [shrinks]: "go_string s = Some (k, t) \<Longrightarrow> length t < length s"
proof (induction s arbitrary: k t rule: go_string.induct)
  case (1 s)
  then show ?case
    by (subst (asm) (3) go_string.simps)
      (fastforce split: list.splits if_splits option.splits dest: go_escape_shrinks)
qed

definition go_int :: "bytes \<Rightarrow> bytes option" where
  "go_int s =
     (case s of
        [] \<Rightarrow> None
      | c # t \<Rightarrow> if c = CHR ''0'' then Some t
                else if is_digit c then Some (dropWhile is_digit s) else None)"

text \<open>The end of a number token: Go's scanner stops at the first byte that cannot continue it.\<close>

definition go_number :: "bytes \<Rightarrow> bytes option" where
  "go_number s =
     (case go_int (if s \<noteq> [] \<and> hd s = CHR ''-'' then tl s else s) of
        None \<Rightarrow> None
      | Some s1 \<Rightarrow> (case scan_frac s1 of None \<Rightarrow> None | Some s2 \<Rightarrow> scan_exp s2))"

lemma go_int_shrinks [shrinks]: "go_int s = Some t \<Longrightarrow> length t < length s"
  using length_dropWhile_le [of is_digit "tl s"]
  by (auto simp: go_int_def split: list.splits if_splits)

lemma go_number_shrinks [shrinks]: "go_number s = Some t \<Longrightarrow> length t < length s"
  by (cases s) (fastforce simp: go_number_def split: option.splits if_splits
      dest: go_int_shrinks scan_frac_shrinks scan_exp_shrinks)+

section \<open>Parsing\<close>

text \<open>
  The value and the two loops. \<open>num\<close> and \<open>str\<close> are what the caller makes of a number token and of
  a decoded string. \<open>first\<close> is the decoder's state at the head of a loop:
  just after the opening bracket, or after an element, where \<open>Token\<close> wants a comma first.
  \<open>dec.More()\<close> is false at the end of the input and in front of either closing bracket.
\<close>

type_synonym 'n json_leaf = "bytes \<Rightarrow> json_error + 'n json"

function (sequential) json_value :: "'n json_leaf \<Rightarrow> 'n json_leaf \<Rightarrow> bytes \<Rightarrow> json_error + 'n json \<times> bytes"
  and json_members ::
    "'n json_leaf \<Rightarrow> 'n json_leaf \<Rightarrow> (bytes, 'n json) fmap \<Rightarrow> bool \<Rightarrow> bytes \<Rightarrow> json_error + (bytes, 'n json) fmap \<times> bytes"
  and json_elems :: "'n json_leaf \<Rightarrow> 'n json_leaf \<Rightarrow> 'n json list \<Rightarrow> bool \<Rightarrow> bytes \<Rightarrow> json_error + 'n json list \<times> bytes" where
  "json_value num str s =
     (case ws s of
        [] \<Rightarrow> Inl BadToken
      | c # t \<Rightarrow>
          if c = CHR ''{'' then
            (case json_members num str fmempty True t of Inl e \<Rightarrow> Inl e | Inr (m, u) \<Rightarrow> Inr (JObj m, u))
          else if c = CHR ''['' then
            (case json_elems num str [] True t of Inl e \<Rightarrow> Inl e | Inr (vs, u) \<Rightarrow> Inr (JArr vs, u))
          else if c = CHR 0x22 then
            (case go_string t of
               None \<Rightarrow> Inl BadToken
             | Some (k, u) \<Rightarrow> (case str k of Inl e \<Rightarrow> Inl e | Inr v \<Rightarrow> Inr (v, u)))
          else if c = CHR ''-'' \<or> is_digit c then
            (case go_number (c # t) of
               None \<Rightarrow> Inl BadToken
             | Some u \<Rightarrow>
                 (case num (take (length (c # t) - length u) (c # t)) of Inl e \<Rightarrow> Inl e | Inr v \<Rightarrow> Inr (v, u)))
          else if c = CHR ''t'' then
            (case literal ''true'' (c # t) of None \<Rightarrow> Inl BadToken | Some u \<Rightarrow> Inr (JBool True, u))
          else if c = CHR ''f'' then
            (case literal ''false'' (c # t) of None \<Rightarrow> Inl BadToken | Some u \<Rightarrow> Inr (JBool False, u))
          else if c = CHR ''n'' then
            (case literal ''null'' (c # t) of None \<Rightarrow> Inl BadToken | Some u \<Rightarrow> Inr (JNull, u))
          else Inl BadToken)"
| "json_members num str ms first s =
     (case ws s of
        [] \<Rightarrow> Inl ObjectNotClosed
      | c # t \<Rightarrow>
          if c = CHR ''}'' then Inr (ms, t)
          else if c = CHR '']'' then Inl ObjectNotClosed
          else if \<not> first \<and> c \<noteq> CHR '','' then Inl BadToken
          else (case ws (if first then c # t else t) of
                  [] \<Rightarrow> Inl BadToken
                | q # t1 \<Rightarrow>
                    if q \<noteq> CHR 0x22 then Inl BadToken
                    else (case go_string t1 of
                            None \<Rightarrow> Inl BadToken
                          | Some (key, u) \<Rightarrow>
                              if key |\<in>| fmdom ms then Inl (DuplicateKey key)
                              else (case ws u of
                                      [] \<Rightarrow> Inl BadToken
                                    | d # v \<Rightarrow>
                                        if d \<noteq> CHR '':'' then Inl BadToken
                                        else (case json_value num str v of
                                                Inl e \<Rightarrow> Inl e
                                              | Inr (x, w) \<Rightarrow> json_members num str (fmupd key x ms) False w)))))"
| "json_elems num str vs first s =
     (case ws s of
        [] \<Rightarrow> Inl ArrayNotClosed
      | c # t \<Rightarrow>
          if c = CHR '']'' then Inr (vs, t)
          else if c = CHR ''}'' then Inl ArrayNotClosed
          else if \<not> first \<and> c \<noteq> CHR '','' then Inl BadToken
          else (case json_value num str (if first then c # t else t) of
                  Inl e \<Rightarrow> Inl e
                | Inr (x, w) \<Rightarrow> json_elems num str (vs @ [x]) False w))"
  by pat_completeness auto

abbreviation json_dom where "json_dom \<equiv> json_value_json_members_json_elems_dom"

lemma json_shrinks_dom:
  "json_dom (Inl (num, str, s)) \<Longrightarrow> \<forall>v t. json_value num str s = Inr (v, t) \<longrightarrow> length t < length s"
  "json_dom (Inr (Inl (num, str, ms, first, s))) \<Longrightarrow>
     \<forall>m t. json_members num str ms first s = Inr (m, t) \<longrightarrow> length t < length s"
  "json_dom (Inr (Inr (num, str, vs, first, s))) \<Longrightarrow>
     \<forall>v t. json_elems num str vs first s = Inr (v, t) \<longrightarrow> length t < length s"
proof (induction num str s and num str ms first s and num str vs first s rule: json_value_json_members_json_elems.pinduct)
  case (1 num str s)
  show ?case
  proof (cases "ws s")
    case Nil
    with json_value.psimps [OF "1.hyps"] show ?thesis by simp
  next
    case (Cons c t)
    note eq = json_value.psimps [OF "1.hyps"] Cons
    note len = ws_Cons_shrinks [OF Cons]
    show ?thesis
    proof (intro allI impI)
      fix v u
      assume p: "json_value num str s = Inr (v, u)"
      consider "c = CHR ''{''" | "c = CHR ''[''" | "c \<noteq> CHR ''{''" "c \<noteq> CHR ''[''" by blast
      then show "length u < length s"
      proof cases
        case 1
        with p eq obtain m where "json_members num str fmempty True t = Inr (m, u)"
          by (auto split: sum.splits)
        with "1.IH"(1) [OF Cons] 1 len show ?thesis by fastforce
      next
        case 2
        with p eq obtain m where "json_elems num str [] True t = Inr (m, u)"
          by (auto split: sum.splits)
        with "1.IH"(2) [OF Cons] 2 len show ?thesis by fastforce
      next
        case 3
        have "length u < length (c # t)"
        proof (cases "c = CHR 0x22 \<or> c = CHR ''-'' \<or> is_digit c")
          case True
          then have "(\<exists>k. go_string t = Some (k, u)) \<or> go_number (c # t) = Some u"
            using p eq 3 by (auto split: option.splits sum.splits if_splits)
          then show ?thesis using go_string_shrinks [of t _ u] go_number_shrinks [of "c # t" u] by auto
        next
          case False
          then have "\<exists>lit. lit \<noteq> [] \<and> literal lit (c # t) = Some u"
            using p eq 3 by (auto split: option.splits if_splits)
          then show ?thesis using literal_shrinks by blast
        qed
        moreover have "length (c # t) \<le> length s" using ws_shrinks [of s] Cons by simp
        ultimately show ?thesis by simp
      qed
    qed
  qed
next
  case (2 num str ms first s)
  show ?case
  proof (intro allI impI)
    fix m t'
    assume p: "json_members num str ms first s = Inr (m, t')"
    show "length t' < length s"
    proof (cases "ws s")
      case Nil
      with p show ?thesis by (simp add: json_members.psimps [OF "2.hyps"])
    next
      case (Cons c t)
      note len = ws_Cons_shrinks [OF Cons]
      have c: "c \<noteq> CHR '']''" using p Cons by (auto simp: json_members.psimps [OF "2.hyps"])
      show ?thesis
      proof (cases "c = CHR ''}''")
        case True
        with p Cons len show ?thesis by (simp add: json_members.psimps [OF "2.hyps"])
      next
        case False
        have nf: "\<not> (\<not> first \<and> c \<noteq> CHR '','')"
          by (rule ccontr) (use p Cons c False "2.hyps" in \<open>simp add: json_members.psimps\<close>)
        from p Cons c False nf obtain q t1 key u d v x w where a:
          "ws (if first then c # t else t) = q # t1" "q = CHR 0x22" "go_string t1 = Some (key, u)"
          "key |\<notin>| fmdom ms" "ws u = d # v" "d = CHR '':''" "json_value num str v = Inr (x, w)"
          "json_members num str (fmupd key x ms) False w = Inr (m, t')"
          by (auto simp: json_members.psimps [OF "2.hyps"] split: list.splits if_splits option.splits sum.splits)
        have "length w < length v"
          using "2.IH"(1) [OF Cons False c nf a(1) _ a(3) refl a(4) a(5)] a(2,6,7) by simp
        moreover have "length t' < length w"
          using "2.IH"(2) [OF Cons False c nf a(1) _ a(3) refl a(4) a(5) _ a(7) refl] a(2,6,8) by simp
        moreover have "length (if first then c # t else t) \<le> Suc (length t)" by simp
        ultimately show ?thesis
          using len ws_Cons_shrinks [OF a(1)] go_string_shrinks [OF a(3)] ws_Cons_shrinks [OF a(5)]
          by linarith
      qed
    qed
  qed
next
  case (3 num str vs first s)
  show ?case
  proof (intro allI impI)
    fix m t'
    assume p: "json_elems num str vs first s = Inr (m, t')"
    show "length t' < length s"
    proof (cases "ws s")
      case Nil
      with p show ?thesis by (simp add: json_elems.psimps [OF "3.hyps"])
    next
      case (Cons c t)
      note len = ws_Cons_shrinks [OF Cons]
      have c: "c \<noteq> CHR ''}''" using p Cons by (auto simp: json_elems.psimps [OF "3.hyps"])
      show ?thesis
      proof (cases "c = CHR '']''")
        case True
        with p Cons len show ?thesis by (simp add: json_elems.psimps [OF "3.hyps"])
      next
        case False
        have nf: "\<not> (\<not> first \<and> c \<noteq> CHR '','')"
          by (rule ccontr) (use p Cons c False "3.hyps" in \<open>simp add: json_elems.psimps\<close>)
        from p Cons c False nf obtain x w where a:
          "json_value num str (if first then c # t else t) = Inr (x, w)" "json_elems num str (vs @ [x]) False w = Inr (m, t')"
          by (auto simp: json_elems.psimps [OF "3.hyps"] split: if_splits sum.splits)
        have "length w < length (if first then c # t else t)"
          using "3.IH"(1) [OF Cons False c nf] a(1) by simp
        moreover have "length t' < length w"
          using "3.IH"(2) [OF Cons False c nf a(1) refl] a(2) by simp
        moreover have "length (if first then c # t else t) \<le> Suc (length t)" by simp
        ultimately show ?thesis using len by linarith
      qed
    qed
  qed
qed

definition json_measure ::
  "('n json_leaf \<times> 'n json_leaf \<times> bytes)
   + ('n json_leaf \<times> 'n json_leaf \<times> (bytes, 'n json) fmap \<times> bool \<times> bytes)
   + ('n json_leaf \<times> 'n json_leaf \<times> 'n json list \<times> bool \<times> bytes) \<Rightarrow> nat" where
  "json_measure x =
     (case x of Inl (num, str, s) \<Rightarrow> 2 * length s
      | Inr (Inl (num, str, ms, first, s)) \<Rightarrow> 2 * length s + 1
      | Inr (Inr (num, str, vs, first, s)) \<Rightarrow> 2 * length s + 1)"

lemma json_all_dom: "All json_dom"
proof (relation "measure json_measure", goal_cases)
  case (4 num str ms first s c t q t1 k key u d v)
  then show ?case
    using ws_Cons_shrinks [OF 4(1)] ws_Cons_shrinks [OF 4(5)] go_string_shrinks [of t1 key u]
      ws_Cons_shrinks [of u d v]
    by (simp add: json_measure_def split: if_splits)
next
  case (5 num str ms first s c t q t1 k key u d v p x w)
  have "length w < length v" using json_shrinks_dom(1) [OF 5(14)] 5(12) 5(13) [symmetric] by simp
  then show ?case
    using 5 ws_Cons_shrinks [OF 5(1)] ws_Cons_shrinks [OF 5(5)] go_string_shrinks [of t1 key u]
      ws_Cons_shrinks [of u d v]
    by (simp add: json_measure_def split: if_splits)
next
  case (6 num str vs first s c t)
  then show ?case
    using ws_Cons_shrinks [OF 6(1)] by (simp add: json_measure_def split: if_splits)
next
  case (7 num str vs first s c t p x w)
  have "length w < length (if first then c # t else t)" using json_shrinks_dom(1) [OF 7(7)] 7(5) 7(6) [symmetric] by simp
  then show ?case
    using ws_Cons_shrinks [OF 7(1)] by (simp add: json_measure_def split: if_splits)
qed (auto simp: json_measure_def dest!: ws_Cons_shrinks)

termination json_value
  by (rule json_all_dom)

declare json_value.simps [simp del] json_members.simps [simp del] json_elems.simps [simp del]

lemma json_shrinks [shrinks]:
  "json_value num str s = Inr (v, t) \<Longrightarrow> length t < length s"
  "json_members num str ms first s = Inr (m, t) \<Longrightarrow> length t < length s"
  "json_elems num str vs first s = Inr (us, t) \<Longrightarrow> length t < length s"
  using json_shrinks_dom(1) [OF json_all_dom [THEN spec], of num str s]
    json_shrinks_dom(2) [OF json_all_dom [THEN spec], of num str ms first s]
    json_shrinks_dom(3) [OF json_all_dom [THEN spec], of num str vs first s]
  by simp_all

end
