(* ===== verification/CanonJson.thy ===== *)
theory CanonJson
  imports GoJson
begin

text \<open>
  Canonical JSON, \<open>pkg/aiiospkg/canonjson.go\<close>: the one text of a JSON value that the hashes and
  signatures of a package are taken over. A number stays the text it was (\<open>canonNumber\<close>). The index
  \<open>i\<close> of the escape check is the suffix it points at.
\<close>

type_synonym canon_value = "bytes json"

section \<open>Checks on the text\<close>

function unicode_escapes :: "bool \<Rightarrow> bool \<Rightarrow> bytes \<Rightarrow> json_error option" where
  "unicode_escapes in_string escaped s =
     (case s of
        [] \<Rightarrow> None
      | c # t \<Rightarrow>
          if \<not> in_string then unicode_escapes (c = CHR 0x22) escaped t
          else if escaped then
            (if c \<noteq> CHR ''u'' then unicode_escapes in_string False t
             else (case parse_u16 t of
                     None \<Rightarrow> Some InvalidEscape
                   | Some cp \<Rightarrow>
                       if 0xD800 \<le> cp \<and> cp \<le> 0xDBFF then
                         (if length t < 10 \<or> t ! 4 \<noteq> CHR 0x5C \<or> t ! 5 \<noteq> CHR ''u'' then Some UnpairedHigh
                          else (case parse_u16 (drop 6 t) of
                                  None \<Rightarrow> Some UnpairedHigh
                                | Some low \<Rightarrow>
                                    if low < 0xDC00 \<or> 0xDFFF < low then Some UnpairedHigh
                                    else unicode_escapes in_string False (drop 10 t)))
                       else if 0xDC00 \<le> cp \<and> cp \<le> 0xDFFF then Some UnpairedLow
                       else unicode_escapes in_string False (drop 4 t)))
          else unicode_escapes (c \<noteq> CHR 0x22) (c = CHR 0x5C) t)"
  by pat_completeness auto
termination
  by (relation "measure (\<lambda>(_, _, s). length s)") auto

declare unicode_escapes.simps [simp del]

definition validate_unicode_escapes :: "bytes \<Rightarrow> json_error option" where
  "validate_unicode_escapes input = unicode_escapes False False input"

text \<open>\<open>canonicalNumberOK\<close>: no exponent, no superfluous zero, no minus sign on a whole zero.\<close>

definition canonical_frac :: "bytes \<Rightarrow> bool \<Rightarrow> bytes \<Rightarrow> bool" where
  "canonical_frac int_part negative s =
     (if s \<noteq> [] \<and> hd s = CHR ''.'' then
        (let fracs = takeWhile is_digit (tl s)
         in if fracs = [] then False
            else if last fracs = CHR ''0'' then False
            else dropWhile is_digit (tl s) = [])
      else s = [] \<and> \<not> (negative \<and> int_part = ''0''))"

definition canonical_number_ok :: "bytes \<Rightarrow> bool" where
  "canonical_number_ok s =
     (if s = [] \<or> (\<exists>c \<in> set s. c = CHR ''e'' \<or> c = CHR ''E'' \<or> c = CHR ''+'') then False
      else (let negative = (hd s = CHR ''-''); u = (if negative then tl s else s)
            in if u = [] then False
               else if hd u = CHR ''0'' then
                 (if tl u \<noteq> [] \<and> is_digit (hd (tl u)) then False
                  else canonical_frac ''0'' negative (tl u))
               else if CHR ''1'' \<le> hd u \<and> hd u \<le> CHR ''9'' then
                 canonical_frac (takeWhile is_digit u) negative (dropWhile is_digit u)
               else False))"

section \<open>Parsing\<close>

definition canon_string :: "bytes json_leaf" where
  "canon_string k = (if CHR 0x00 \<in> set k then Inl NulCodePoint else Inr (JStr k))"

definition canon_number :: "bytes json_leaf" where
  "canon_number tok = (if canonical_number_ok tok then Inr (JNum tok) else Inl (BadNumber tok))"

definition parse_canon_value :: "bytes \<Rightarrow> json_error + canon_value \<times> bytes" where
  "parse_canon_value = json_value canon_number canon_string"

section \<open>Writing\<close>

definition emit_rune :: "nat \<Rightarrow> bytes" where
  "emit_rune r =
     (if r = 34 then [CHR 0x5C, CHR 0x22]
      else if r = 92 then [CHR 0x5C, CHR 0x5C]
      else if r = 8 then [CHR 0x5C, CHR ''b'']
      else if r = 12 then [CHR 0x5C, CHR ''f'']
      else if r = 10 then [CHR 0x5C, CHR ''n'']
      else if r = 13 then [CHR 0x5C, CHR ''r'']
      else if r = 9 then [CHR 0x5C, CHR ''t'']
      else if r < 0x20 then [CHR 0x5C, CHR ''u'', CHR ''0'', CHR ''0'', hex_digit (r div 16), hex_digit (r mod 16)]
      else encode_rune r)"

text \<open>\<open>for _, r := range s\<close>: a byte that starts no rune is U+FFFD and one byte long.\<close>

function emit_runes :: "bytes \<Rightarrow> bytes" where
  "emit_runes s =
     (case s of
        [] \<Rightarrow> []
      | c # t \<Rightarrow> (case decode_rune s of
                   Some (r, u) \<Rightarrow> emit_rune r @ emit_runes u
                 | None \<Rightarrow> emit_rune 0xFFFD @ emit_runes t))"
  by pat_completeness auto
termination
  by (relation "measure length") (auto dest: decode_rune_shrinks)

declare emit_runes.simps [simp del]

definition emit_string :: "bytes \<Rightarrow> bytes" where
  "emit_string s = CHR 0x22 # emit_runes s @ [CHR 0x22]"

definition emit_members :: "(bytes, bytes) fmap \<Rightarrow> bytes" where
  "emit_members texts =
     CHR ''{'' # join_with '',''
       (map (\<lambda>key. emit_string key @ CHR '':'' # the (fmlookup texts key)) (sorted_list_of_fset (fmdom texts)))
     @ ''}''"

primrec emit_value :: "canon_value \<Rightarrow> bytes" where
  "emit_value (JObj m) = emit_members (fmmap emit_value m)"
| "emit_value (JArr vs) = CHR ''['' # join_with '','' (map emit_value vs) @ '']''"
| "emit_value (JStr s) = emit_string s"
| "emit_value (JNum n) = n"
| "emit_value (JBool b) = (if b then ''true'' else ''false'')"
| "emit_value JNull = ''null''"

section \<open>The entry point\<close>

definition canonical_value :: "bytes \<Rightarrow> json_error + canon_value" where
  "canonical_value input =
     (if \<not> utf8_valid input then Inl InputNotUtf8
      else (case validate_unicode_escapes input of
              Some e \<Rightarrow> Inl e
            | None \<Rightarrow>
                (case parse_canon_value input of
                   Inl e \<Rightarrow> Inl e
                 | Inr (v, rest1) \<Rightarrow> if ws rest1 = [] then Inr v else Inl TrailingContent)))"

definition canonicalize_v1 :: "bytes \<Rightarrow> json_error + bytes" where
  "canonicalize_v1 input =
     (case canonical_value input of Inl e \<Rightarrow> Inl e | Inr v \<Rightarrow> Inr (emit_value v))"

end
