(* ===== verification/GoText.thy ===== *)
theory GoText
  imports Utf8
begin

text \<open>
  Pieces of Go's \<open>strings\<close>, \<open>unicode\<close> and \<open>path\<close> packages that the package checks use: the
  runes of a string, white space and control characters, fields, replacement of a two-byte
  pattern, cutting at a byte, substrings, and the lexical \<open>path.Clean\<close>.
\<close>

section \<open>Runes\<close>

function runes :: "bytes \<Rightarrow> nat list" where
  "runes s =
     (case s of
        [] \<Rightarrow> []
      | c # t \<Rightarrow> (case decode_rune s of Some (r, u) \<Rightarrow> r # runes u | None \<Rightarrow> 0xFFFD # runes t))"
  by pat_completeness auto
termination
  by (relation "measure length") (auto dest: decode_rune_shrinks)

declare runes.simps [simp del]

definition is_space :: "nat \<Rightarrow> bool" where
  "is_space r \<longleftrightarrow> (9 \<le> r \<and> r \<le> 13) \<or> r = 0x20 \<or> r = 0x85 \<or> r = 0xA0 \<or> r = 0x1680
     \<or> (0x2000 \<le> r \<and> r \<le> 0x200A) \<or> r = 0x2028 \<or> r = 0x2029 \<or> r = 0x202F \<or> r = 0x205F \<or> r = 0x3000"

definition is_control :: "nat \<Rightarrow> bool" where
  "is_control r \<longleftrightarrow> r < 0x20 \<or> (0x7F \<le> r \<and> r < 0xA0)"

text \<open>\<open>strings.TrimSpace(s) == ""\<close>.\<close>

definition blank :: "bytes \<Rightarrow> bool" where
  "blank s \<longleftrightarrow> list_all is_space (runes s)"

text \<open>\<open>strings.Fields\<close> on the runes of a string: the maximal runs of runes that are not space.\<close>

fun rune_fields :: "nat list \<Rightarrow> nat list list" where
  "rune_fields [] = []"
| "rune_fields (r # rs) =
     (if is_space r then rune_fields rs
      else (case rs of
              [] \<Rightarrow> [[r]]
            | q # _ \<Rightarrow>
                if is_space q then [r] # rune_fields rs
                else (case rune_fields rs of [] \<Rightarrow> [[r]] | w # ws \<Rightarrow> (r # w) # ws)))"

section \<open>Substrings\<close>

definition starts_with :: "bytes \<Rightarrow> bytes \<Rightarrow> bool" where
  "starts_with s p \<longleftrightarrow> take (length p) s = p"

lemma starts_with_iff: "starts_with s p \<longleftrightarrow> (\<exists>t. s = p @ t)"
proof
  assume "starts_with s p"
  then have "s = p @ drop (length p) s" by (metis append_take_drop_id starts_with_def)
  then show "\<exists>t. s = p @ t" by blast
qed (auto simp: starts_with_def)

text \<open>\<open>strings.Cut(s, sep)\<close>: what is before and after the first \<open>sep\<close>, and whether there is one.\<close>

definition cut_at :: "char \<Rightarrow> bytes \<Rightarrow> bytes \<times> bytes \<times> bool" where
  "cut_at c s =
     (if c \<in> set s then (takeWhile (\<lambda>x. x \<noteq> c) s, tl (dropWhile (\<lambda>x. x \<noteq> c) s), True) else (s, [], False))"

text \<open>\<open>strings.ReplaceAll\<close> of the two bytes \<open>a b\<close> by \<open>r\<close>.\<close>

fun replace_two :: "char \<Rightarrow> char \<Rightarrow> char \<Rightarrow> bytes \<Rightarrow> bytes" where
  "replace_two a b r (c # d # s) =
     (if c = a \<and> d = b then r # replace_two a b r s else c # replace_two a b r (d # s))"
| "replace_two a b r s = s"

section \<open>Paths\<close>

text \<open>
  \<open>path.Clean\<close>: the components, where an empty one and a dot count for nothing and two dots drop
  the component before them. \<open>kept\<close> holds what is kept so far, last first.
\<close>

fun clean_parts :: "bool \<Rightarrow> bytes list \<Rightarrow> bytes list \<Rightarrow> bytes list" where
  "clean_parts rooted kept [] = rev kept"
| "clean_parts rooted kept (p # ps) =
     (if p = [] \<or> p = ''.'' then clean_parts rooted kept ps
      else if p = ''..'' then
        (case kept of
           [] \<Rightarrow> clean_parts rooted (if rooted then [] else [''..'']) ps
         | b # bs \<Rightarrow> if b = ''..'' then clean_parts rooted (''..'' # kept) ps else clean_parts rooted bs ps)
      else clean_parts rooted (p # kept) ps)"

definition path_clean :: "bytes \<Rightarrow> bytes" where
  "path_clean s =
     (if s = [] then ''.''
      else (let rooted = (hd s = CHR ''/'');
                parts = clean_parts rooted [] (split_on (CHR ''/'') s);
                joined = join_with ''/'' parts
            in if rooted then CHR ''/'' # joined else if parts = [] then ''.'' else joined))"

lemma path_clean_relative:
  assumes "s \<noteq> []" "hd s \<noteq> CHR ''/''" "qs = clean_parts False [] (split_on (CHR ''/'') s)"
  shows "path_clean s = (if qs = [] then ''.'' else join_with ''/'' qs)"
proof -
  have "(hd s = CHR ''/'') = False" using assms(2) by simp
  then show ?thesis unfolding path_clean_def Let_def assms(3) using assms(1) by (simp only: if_False)
qed

lemma clean_parts_plain:
  "\<forall>p \<in> set ps. p \<noteq> [] \<and> p \<noteq> ''.'' \<and> p \<noteq> ''..'' \<Longrightarrow> clean_parts rooted kept ps = rev kept @ ps"
  by (induction ps arbitrary: kept) auto

text \<open>What is kept: two dots only at the front, and nothing empty and no dot.\<close>

definition dots_first :: "bytes list \<Rightarrow> bool" where
  "dots_first ps \<longleftrightarrow> (\<forall>p \<in> set ps. p \<noteq> [] \<and> p \<noteq> ''.'')
     \<and> (\<exists>m k. ps = replicate k ''..'' @ m \<and> ''..'' \<notin> set m)"

lemma dots_first_snoc: "dots_first ps \<Longrightarrow> p \<noteq> [] \<Longrightarrow> p \<noteq> ''.'' \<Longrightarrow> p \<noteq> ''..'' \<Longrightarrow> dots_first (ps @ [p])"
proof -
  assume d: "dots_first ps" and p: "p \<noteq> []" "p \<noteq> ''.''" "p \<noteq> ''..''"
  obtain m k where "ps = replicate k ''..'' @ m" "''..'' \<notin> set m" using d by (auto simp: dots_first_def)
  then have "\<exists>m k. ps @ [p] = replicate k ''..'' @ m \<and> ''..'' \<notin> set m"
    using p by (intro exI [of _ "m @ [p]"] exI [of _ k]) simp
  with d p show ?thesis by (simp add: dots_first_def)
qed

lemma dots_first_butlast: "dots_first (ps @ [p]) \<Longrightarrow> p \<noteq> ''..'' \<Longrightarrow> dots_first ps"
proof -
  assume d: "dots_first (ps @ [p])" and p: "p \<noteq> ''..''"
  obtain m k where m: "ps @ [p] = replicate k ''..'' @ m" "''..'' \<notin> set m" using d by (auto simp: dots_first_def)
  have "m \<noteq> []" using m(1) p by (metis append_Nil2 last_replicate last_snoc snoc_eq_iff_butlast replicate_empty)
  then obtain n q where "m = n @ [q]" by (metis rev_exhaust)
  with m have "ps = replicate k ''..'' @ n" "''..'' \<notin> set n" by auto
  then have "\<exists>m k. ps = replicate k ''..'' @ m \<and> ''..'' \<notin> set m" by blast
  with d show ?thesis by (simp add: dots_first_def)
qed

lemma dots_first_dots: "dots_first (ps @ [''..'']) \<Longrightarrow> dots_first (ps @ [''..'', ''..''])"
proof -
  assume d: "dots_first (ps @ [''..''])"
  obtain m k where m: "ps @ [''..''] = replicate k ''..'' @ m" "''..'' \<notin> set m" using d by (auto simp: dots_first_def)
  have "m = []"
  proof (rule ccontr)
    assume "m \<noteq> []"
    then have "last (ps @ [''..'']) \<in> set m" unfolding m(1) by simp
    with m(2) show False by simp
  qed
  then have "ps @ [''..'', ''..''] = replicate (Suc k) ''..'' @ []"
    using m(1) by (metis append.assoc append_Cons append_Nil append_Nil2 replicate_append_same replicate_Suc)
  then have "\<exists>m k. ps @ [''..'', ''..''] = replicate k ''..'' @ m \<and> ''..'' \<notin> set m"
    by (metis empty_iff empty_set)
  with d show ?thesis by (simp add: dots_first_def)
qed

lemma clean_parts_form: "dots_first (rev kept) \<Longrightarrow> dots_first (clean_parts False kept ps)"
proof (induction ps arbitrary: kept)
  case (Cons p ps)
  note IH = Cons.IH
  have d: "dots_first (rev kept)" by (rule Cons.prems)
  consider "p = [] \<or> p = ''.''" | "p = ''..''" | "p \<noteq> []" "p \<noteq> ''.''" "p \<noteq> ''..''" by blast
  then show ?case
  proof cases
    case 1
    with Cons show ?thesis by simp
  next
    case 2
    have "\<exists>m k. [''..''] = replicate k ''..'' @ m \<and> ''..'' \<notin> set m"
      by (rule exI [of _ "[]"], rule exI [of _ 1]) simp
    then have "dots_first [''..'']" by (simp add: dots_first_def)
    show ?thesis
    proof (cases kept)
      case Nil
      with IH [of "[''..'']"] 2 \<open>dots_first [''..'']\<close> show ?thesis by simp
    next
      case (Cons x xs)
      show ?thesis
      proof (cases "x = ''..''")
        case True
        with Cons d have "dots_first (rev (''..'' # kept))"
          using dots_first_dots [of "rev xs"] by simp
        from IH [OF this] True Cons 2 show ?thesis by simp
      next
        case False
        with Cons d have "dots_first (rev xs)"
          using dots_first_butlast [of "rev xs" x] by simp
        from IH [OF this] False Cons 2 show ?thesis by simp
      qed
    qed
  next
    case 3
    with Cons show ?thesis by (simp add: dots_first_snoc)
  qed
qed simp

lemma split_join:
  "ps \<noteq> [] \<Longrightarrow> \<forall>p \<in> set ps. c \<notin> set p \<Longrightarrow> split_on c (join_with [c] ps) = ps"
  by (induction "[c]" ps rule: join_with.induct) (simp_all add: split_on_no_sep split_on_append_sep)

lemma clean_parts_subset: "set (clean_parts rooted kept ps) \<subseteq> set kept \<union> set ps \<union> {''..''}"
  by (induction rooted kept ps rule: clean_parts.induct) (auto split: list.splits if_splits)

end
