(* ===== verification/CheckDoc.thy ===== *)
theory CheckDoc
  imports CanonJson GoText JsonNumber
begin

text \<open>
  The documents behind a package's own checks, the first half of \<open>pkg/aiiospkg/validation.go\<close>:
  strict decoding into values, JSON pointers, the paths a \<open>$ref\<close> may name, and the resolver that
  replaces every \<open>$ref\<close> of a value by what it points at. A JSON number is the \<open>float64\<close>
  \<open>ParseFloat\<close> gives; values are not shared, so \<open>copyValue\<close> is the identity. The member reader is
  an argument: a function from a path to an error, or the bytes of the member if there is one.
\<close>

type_synonym doc = "binary_float json"

section \<open>Strict decoding\<close>

definition decode_number :: "binary_float json_leaf" where
  "decode_number tok = (case parse_float64 tok of None \<Rightarrow> Inl (BadNumber tok) | Some f \<Rightarrow> Inr (JNum f))"

definition decode_value :: "bytes \<Rightarrow> json_error + doc \<times> bytes" where
  "decode_value = json_value decode_number (\<lambda>k. Inr (JStr k))"

definition decode_strict :: "bytes \<Rightarrow> json_error + doc" where
  "decode_strict input =
     (if \<not> utf8_valid input then Inl InputNotUtf8
      else (case validate_unicode_escapes input of
              Some e \<Rightarrow> Inl InvalidEscape
            | None \<Rightarrow>
                (case decode_value input of
                   Inl e \<Rightarrow> Inl e
                 | Inr (v, rest1) \<Rightarrow> if ws rest1 = [] then Inr v else Inl TrailingContent)))"

section \<open>Pointers\<close>

fun tildes_ok :: "bytes \<Rightarrow> bool" where
  "tildes_ok [] = True"
| "tildes_ok (c # s) =
     ((c = CHR ''~'' \<longrightarrow> s \<noteq> [] \<and> (hd s = CHR ''0'' \<or> hd s = CHR ''1'')) \<and> tildes_ok s)"

definition valid_pointer :: "bytes \<Rightarrow> bool" where
  "valid_pointer p = (if p = [] then True else if hd p \<noteq> CHR ''/'' then False else tildes_ok p)"

definition unescape_token :: "bytes \<Rightarrow> bytes" where
  "unescape_token t =
     replace_two (CHR ''~'') (CHR ''0'') (CHR ''~'') (replace_two (CHR ''~'') (CHR ''1'') (CHR ''/'') t)"

definition array_index :: "bytes \<Rightarrow> nat \<Rightarrow> nat option" where
  "array_index token n =
     (if token = [] \<or> (1 < length token \<and> hd token = CHR ''0'') then None
      else (case atoi token of
              None \<Rightarrow> None
            | Some i \<Rightarrow> if i < 0 \<or> int n \<le> i \<or> itoa i \<noteq> token then None else Some (nat i)))"

definition pointer_step :: "doc \<Rightarrow> bytes \<Rightarrow> doc option" where
  "pointer_step cur token =
     (case cur of
        JObj m \<Rightarrow> fmlookup m token
      | JArr vs \<Rightarrow> (case array_index token (length vs) of None \<Rightarrow> None | Some i \<Rightarrow> Some (vs ! i))
      | _ \<Rightarrow> None)"

fun pointer_loop :: "doc \<Rightarrow> bytes list \<Rightarrow> doc option" where
  "pointer_loop cur [] = Some cur"
| "pointer_loop cur (t # ts) =
     (case pointer_step cur (unescape_token t) of None \<Rightarrow> None | Some next \<Rightarrow> pointer_loop next ts)"

definition pointer :: "doc \<Rightarrow> bytes \<Rightarrow> doc option" where
  "pointer d p =
     (if \<not> valid_pointer p then None
      else if p = [] then Some d
      else pointer_loop d (split_on (CHR ''/'') (tl p)))"

section \<open>Members a reference may name\<close>

definition validation_file :: bytes where "validation_file = ''validation.json''"

definition inside_root :: "bytes \<Rightarrow> bool" where
  "inside_root rel \<longleftrightarrow> \<not> starts_with rel ''/'' \<and> CHR 0x5C \<notin> set rel \<and> CHR '':'' \<notin> set rel
     \<and> path_clean rel = rel \<and> rel \<noteq> ''..'' \<and> \<not> starts_with rel ''../''"

section \<open>The resolver\<close>

datatype unresolved =
    NamesItself bytes
  | LeavesRoot bytes
  | NotAPointer bytes bytes
  | PointsAtNothing bytes bytes
  | NotCarried bytes
  | NotJson bytes

datatype 'e walk_error = Unresolved unresolved | RefForm | ReadFailed 'e

record resolver =
  docs :: "bytes \<rightharpoonup> doc"
  bad :: "bytes \<rightharpoonup> unresolved"
  raws :: "bytes \<rightharpoonup> bytes option"
  recordings :: "(bytes \<times> nat) list"

definition new_resolver :: resolver where
  "new_resolver = \<lparr>docs = Map.empty, bad = Map.empty, raws = Map.empty, recordings = []\<rparr>"

type_synonym 'e member_reader = "bytes \<Rightarrow> 'e + bytes option"

definition read_member :: "'e member_reader \<Rightarrow> bytes \<Rightarrow> resolver \<Rightarrow> ('e + bytes option) \<times> resolver" where
  "read_member member rel r =
     (case raws r rel of
        Some m \<Rightarrow> (Inr m, r)
      | None \<Rightarrow>
          (case member rel of
             Inl e \<Rightarrow> (Inl e, r)
           | Inr m \<Rightarrow> (Inr m, r\<lparr>raws := (raws r)(rel \<mapsto> m)\<rparr>)))"

definition read_doc :: "'e member_reader \<Rightarrow> bytes \<Rightarrow> resolver \<Rightarrow> ('e walk_error + doc) \<times> resolver" where
  "read_doc member rel r =
     (case docs r rel of
        Some d \<Rightarrow> (Inr d, r)
      | None \<Rightarrow>
          (case bad r rel of
             Some why \<Rightarrow> (Inl (Unresolved why), r)
           | None \<Rightarrow>
               (case read_member member rel r of
                  (Inl e, r1) \<Rightarrow> (Inl (ReadFailed e), r1)
                | (Inr None, r1) \<Rightarrow>
                    (Inl (Unresolved (NotCarried rel)), r1\<lparr>bad := (bad r1)(rel \<mapsto> NotCarried rel)\<rparr>)
                | (Inr (Some b), r1) \<Rightarrow>
                    (case decode_strict b of
                       Inl e \<Rightarrow> (Inl (Unresolved (NotJson rel)), r1\<lparr>bad := (bad r1)(rel \<mapsto> NotJson rel)\<rparr>)
                     | Inr d \<Rightarrow> (Inr d, r1\<lparr>docs := (docs r1)(rel \<mapsto> d)\<rparr>)))))"

definition resolve_ref :: "'e member_reader \<Rightarrow> bytes \<Rightarrow> resolver \<Rightarrow> ('e walk_error + doc) \<times> resolver" where
  "resolve_ref member s r =
     (let (rel, frag, has_fragment) = cut_at (CHR ''#'') s;
          ptr = (if has_fragment then frag else [])
      in if rel = [] \<or> rel = validation_file then (Inl (Unresolved (NamesItself s)), r)
         else if \<not> inside_root rel then (Inl (Unresolved (LeavesRoot s)), r)
         else if \<not> valid_pointer ptr then (Inl (Unresolved (NotAPointer s ptr)), r)
         else (case read_doc member rel r of
                 (Inl e, r1) \<Rightarrow> (Inl e, r1)
               | (Inr d, r1) \<Rightarrow>
                   (case pointer d ptr of
                      None \<Rightarrow> (Inl (Unresolved (PointsAtNothing s rel)), r1)
                    | Some got \<Rightarrow> (Inr got, r1))))"

type_synonym 'e walker = "resolver \<Rightarrow> ('e walk_error + doc \<times> bool) \<times> resolver"

text \<open>
  \<open>walk\<close> on the members of an object and the elements of an array: each value's own walk is given,
  and runs in order until one fails. The Go map of an object is iterated in an order of its own;
  \<open>order\<close> is that order.
\<close>

fun walk_members ::
  "(bytes \<times> 'e walker) list \<Rightarrow> (bytes, doc) fmap \<Rightarrow> bool \<Rightarrow> resolver
    \<Rightarrow> ('e walk_error + (bytes, doc) fmap \<times> bool) \<times> resolver" where
  "walk_members [] out via r = (Inr (out, via), r)"
| "walk_members ((k, w) # later) out via r =
     (case w r of
        (Inl e, r1) \<Rightarrow> (Inl e, r1)
      | (Inr (got, ref1), r1) \<Rightarrow> walk_members later (fmupd k got out) (via \<or> ref1) r1)"

fun walk_elems ::
  "'e walker list \<Rightarrow> doc list \<Rightarrow> bool \<Rightarrow> resolver \<Rightarrow> ('e walk_error + doc list \<times> bool) \<times> resolver" where
  "walk_elems [] out via r = (Inr (out, via), r)"
| "walk_elems (w # later) out via r =
     (case w r of
        (Inl e, r1) \<Rightarrow> (Inl e, r1)
      | (Inr (got, ref1), r1) \<Rightarrow> walk_elems later (out @ [got]) (via \<or> ref1) r1)"

definition walk_object ::
  "(bytes fset \<Rightarrow> bytes list) \<Rightarrow> 'e member_reader \<Rightarrow> (bytes, doc \<times> 'e walker) fmap \<Rightarrow> 'e walker" where
  "walk_object order member m r =
     (case fmlookup m ''$ref'' of
        Some (ref1, _) \<Rightarrow>
          (case ref1 of
             JStr s \<Rightarrow>
               if fmdom m \<noteq> {|''$ref''|} then (Inl RefForm, r)
               else (case resolve_ref member s r of
                       (Inl e, r1) \<Rightarrow> (Inl e, r1)
                     | (Inr got, r1) \<Rightarrow> (Inr (got, True), r1))
           | _ \<Rightarrow> (Inl RefForm, r))
      | None \<Rightarrow>
          (case walk_members (map (\<lambda>k. (k, snd (the (fmlookup m k)))) (order (fmdom m))) (fmmap fst m) False r of
             (Inl e, r1) \<Rightarrow> (Inl e, r1)
           | (Inr (out, via), r1) \<Rightarrow> (Inr (JObj out, via), r1)))"

primrec walk :: "(bytes fset \<Rightarrow> bytes list) \<Rightarrow> 'e member_reader \<Rightarrow> doc \<Rightarrow> 'e walker" where
  "walk order member (JObj m) = walk_object order member (fmmap (\<lambda>v. (v, walk order member v)) m)"
| "walk order member (JArr vs) =
     (\<lambda>r. case walk_elems (map (walk order member) vs) [] False r of
            (Inl e, r1) \<Rightarrow> (Inl e, r1)
          | (Inr (out, via), r1) \<Rightarrow> (Inr (JArr out, via), r1))"
| "walk order member (JStr s) = (\<lambda>r. (Inr (JStr s, False), r))"
| "walk order member (JNum n) = (\<lambda>r. (Inr (JNum n, False), r))"
| "walk order member (JBool b) = (\<lambda>r. (Inr (JBool b, False), r))"
| "walk order member JNull = (\<lambda>r. (Inr (JNull, False), r))"

section \<open>Paths stay inside\<close>

text \<open>What \<open>insideRoot\<close> accepts: a dot, or plain components only.\<close>

lemma dots_first_hd:
  assumes "dots_first ps" "''..'' \<in> set ps"
  shows "\<exists>qs. ps = ''..'' # qs"
proof -
  obtain m k where m: "ps = replicate k ''..'' @ m" "''..'' \<notin> set m" using assms(1) by (auto simp: dots_first_def)
  with assms(2) have "k \<noteq> 0" by (cases k) auto
  then obtain j where "k = Suc j" by (cases k) auto
  with m show ?thesis by simp
qed

lemma inside_root_iff:
  "inside_root rel \<longleftrightarrow> CHR 0x5C \<notin> set rel \<and> CHR '':'' \<notin> set rel
     \<and> (rel = ''.'' \<or> (\<forall>p \<in> set (split_on (CHR ''/'') rel). p \<noteq> [] \<and> p \<noteq> ''.'' \<and> p \<noteq> ''..''))"
proof -
  define ps where "ps = split_on (CHR ''/'') rel"
  have j: "join_with ''/'' ps = rel" by (simp add: ps_def)
  have slash: "starts_with rel ''/'' \<longleftrightarrow> rel \<noteq> [] \<and> hd rel = CHR ''/''" by (cases rel) (auto simp: starts_with_def)
  have empty: "ps = [[]]" if "rel = []" using that by (simp add: ps_def)
  have hd0: "hd ps = []" if "rel \<noteq> []" "hd rel = CHR ''/''" using that by (cases rel) (simp_all add: ps_def)
  show ?thesis
  proof (cases "\<forall>p \<in> set ps. p \<noteq> [] \<and> p \<noteq> ''.'' \<and> p \<noteq> ''..''")
    case True
    have "hd ps \<in> set ps" by (rule hd_in_set) (simp add: ps_def)
    with True have nonempty: "hd ps \<noteq> []" by blast
    have ne: "rel \<noteq> []" using nonempty empty by auto
    moreover have "hd rel \<noteq> CHR ''/''" using nonempty hd0 ne by blast
    ultimately have ne: "rel \<noteq> []" "hd rel \<noteq> CHR ''/''" .
    have "clean_parts False [] ps = ps" using clean_parts_plain [OF True, of False "[]"] by simp
    moreover have "ps \<noteq> []" by (simp add: ps_def)
    ultimately have c: "path_clean rel = rel"
      using ne j unfolding path_clean_def Let_def ps_def [symmetric] by simp
    have dots: "''..'' \<notin> set ps" using True by blast
    have "rel \<noteq> ''..''"
    proof
      assume "rel = ''..''"
      then have "ps = [''..'']" unfolding ps_def by (simp add: split_on_no_sep)
      with dots show False by simp
    qed
    moreover have "\<not> starts_with rel ''../''"
    proof
      assume "starts_with rel ''../''"
      then obtain t where "rel = ''../'' @ t" unfolding starts_with_iff by blast
      then have "rel = ''..'' @ CHR ''/'' # t" by simp
      then have "ps = split_on (CHR ''/'') ''..'' @ split_on (CHR ''/'') t"
        unfolding ps_def by (simp only: split_on_append_sep)
      moreover have "split_on (CHR ''/'') ''..'' = [''..'']" by (simp add: split_on_no_sep)
      ultimately have "''..'' \<in> set ps" by simp
      with dots show False by blast
    qed
    moreover have "\<not> starts_with rel ''/''" using slash ne by blast
    ultimately show ?thesis using True c unfolding inside_root_def ps_def [symmetric] by blast
  next
    case False
    have "rel = ''.''" if i: "inside_root rel"
    proof -
      have ne: "rel \<noteq> []" using i by (auto simp: inside_root_def path_clean_def)
      have h: "hd rel \<noteq> CHR ''/''" using i slash ne by (simp add: inside_root_def)
      define qs where "qs = clean_parts False [] ps"
      have c: "(if qs = [] then ''.'' else join_with ''/'' qs) = rel"
        using path_clean_relative [OF ne h, of qs] i unfolding inside_root_def qs_def ps_def by simp
      show ?thesis
      proof (cases "qs = []")
        case True
        with c show ?thesis by simp
      next
        case nonempty: False
        have "CHR ''/'' \<notin> set p" if "p \<in> set qs" for p
        proof -
          have "p \<in> set ps \<or> p = ''..''" using that clean_parts_subset [of False "[]" ps] by (auto simp: qs_def)
          then show ?thesis using split_on_parts [of p "CHR ''/''" rel] by (auto simp: ps_def)
        qed
        then have "ps = qs" using split_join [OF nonempty, of "CHR ''/''"] c nonempty by (simp add: ps_def)
        moreover have "dots_first qs" unfolding qs_def by (rule clean_parts_form) (simp add: dots_first_def)
        ultimately have d: "dots_first ps" by simp
        with False have "''..'' \<in> set ps" unfolding dots_first_def by blast
        with d obtain qs' where "ps = ''..'' # qs'" using dots_first_hd by blast
        then have "rel = ''..'' \<or> (\<exists>t. rel = ''../'' @ t)" using j by (cases qs') auto
        then have "rel = ''..'' \<or> starts_with rel ''../''" unfolding starts_with_iff .
        with i show ?thesis unfolding inside_root_def by blast
      qed
    qed
    moreover have "inside_root ''.''" by code_simp
    ultimately show ?thesis using False unfolding ps_def [symmetric] inside_root_def by blast
  qed
qed

section \<open>The caches do not show\<close>

definition doc_of :: "'e member_reader \<Rightarrow> bytes \<Rightarrow> 'e walk_error + doc" where
  "doc_of member rel =
     (case member rel of
        Inl e \<Rightarrow> Inl (ReadFailed e)
      | Inr None \<Rightarrow> Inl (Unresolved (NotCarried rel))
      | Inr (Some b) \<Rightarrow> (case decode_strict b of Inl e \<Rightarrow> Inl (Unresolved (NotJson rel)) | Inr d \<Rightarrow> Inr d))"

definition cache_ok :: "'e member_reader \<Rightarrow> resolver \<Rightarrow> bool" where
  "cache_ok member r \<longleftrightarrow>
     (\<forall>rel m. raws r rel = Some m \<longrightarrow> member rel = Inr m)
     \<and> (\<forall>rel d. docs r rel = Some d \<longrightarrow> doc_of member rel = Inr d)
     \<and> (\<forall>rel why. bad r rel = Some why \<longrightarrow> doc_of member rel = Inl (Unresolved why))"

lemma cache_ok_new: "cache_ok member new_resolver"
  by (simp add: cache_ok_def new_resolver_def)

lemma read_member_ok:
  "cache_ok member r \<Longrightarrow> read_member member rel r = (x, r1)
    \<Longrightarrow> x = member rel \<and> cache_ok member r1 \<and> recordings r1 = recordings r"
  by (auto simp: cache_ok_def read_member_def split: option.splits sum.splits if_splits)

lemma read_doc_ok:
  assumes "cache_ok member r" "read_doc member rel r = (x, r1)"
  shows "x = doc_of member rel \<and> cache_ok member r1 \<and> recordings r1 = recordings r"
proof (cases "docs r rel")
  case Some
  with assms show ?thesis by (auto simp: read_doc_def cache_ok_def)
next
  case None
  show ?thesis
  proof (cases "bad r rel")
    case Some
    with None assms show ?thesis by (auto simp: read_doc_def cache_ok_def)
  next
    case bad: None
    obtain y r2 where y: "read_member member rel r = (y, r2)" by (cases "read_member member rel r")
    then have m: "y = member rel" and c: "cache_ok member r2" and rec: "recordings r2 = recordings r"
      using read_member_ok [OF assms(1)] by auto
    have upd: "cache_ok member (r2\<lparr>bad := (bad r2)(rel \<mapsto> why)\<rparr>)" if "doc_of member rel = Inl (Unresolved why)" for why
      using c that by (simp add: cache_ok_def)
    have upd': "cache_ok member (r2\<lparr>docs := (docs r2)(rel \<mapsto> d)\<rparr>)" if "doc_of member rel = Inr d" for d
      using c that by (simp add: cache_ok_def)
    show ?thesis
      using None bad y m c rec assms(2) upd upd'
      by (auto simp: read_doc_def doc_of_def split: sum.splits option.splits)
  qed
qed

definition target_of :: "'e member_reader \<Rightarrow> bytes \<Rightarrow> doc option" where
  "target_of member s =
     (let (rel, frag, has_fragment) = cut_at (CHR ''#'') s;
          ptr = (if has_fragment then frag else [])
      in if rel = [] \<or> rel = validation_file \<or> \<not> inside_root rel then None
         else (case doc_of member rel of Inl e \<Rightarrow> None | Inr d \<Rightarrow> pointer d ptr))"

lemma resolve_ref_ok:
  assumes "cache_ok member r" "resolve_ref member s r = (x, r1)"
  shows "(case x of Inl e \<Rightarrow> target_of member s = None | Inr d \<Rightarrow> target_of member s = Some d)
    \<and> cache_ok member r1 \<and> recordings r1 = recordings r"
proof -
  obtain rel frag h where cut: "cut_at (CHR ''#'') s = (rel, frag, h)" by (cases "cut_at (CHR ''#'') s")
  obtain y r2 where d: "read_doc member rel r = (y, r2)" by (cases "read_doc member rel r")
  then have y: "y = doc_of member rel" and c: "cache_ok member r2" and rec: "recordings r2 = recordings r"
    using read_doc_ok [OF assms(1)] by auto
  show ?thesis
    using assms cut d y c rec
    by (auto simp: resolve_ref_def target_of_def Let_def pointer_def split: if_splits sum.splits option.splits)
qed

section \<open>What a walk comes to\<close>

text \<open>
  The value with every \<open>$ref\<close> replaced, with no caches, no iteration order and no reason for
  failing: an object that holds \<open>$ref\<close> is its target, an object or array resolves when all it
  holds does.
\<close>

definition resolved_object ::
  "'e member_reader \<Rightarrow> (bytes, doc \<times> doc option) fmap \<Rightarrow> doc option" where
  "resolved_object member m =
     (case fmlookup m ''$ref'' of
        Some (ref1, _) \<Rightarrow>
          (case ref1 of JStr s \<Rightarrow> if fmdom m = {|''$ref''|} then target_of member s else None | _ \<Rightarrow> None)
      | None \<Rightarrow>
          if fBall (fmran m) (\<lambda>(v, got). got \<noteq> None) then Some (JObj (fmmap (\<lambda>(v, got). the got) m)) else None)"

primrec resolved :: "'e member_reader \<Rightarrow> doc \<Rightarrow> doc option" where
  "resolved member (JObj m) = resolved_object member (fmmap (\<lambda>v. (v, resolved member v)) m)"
| "resolved member (JArr vs) =
     (if None \<in> set (map (resolved member) vs) then None else Some (JArr (map the (map (resolved member) vs))))"
| "resolved member (JStr s) = Some (JStr s)"
| "resolved member (JNum n) = Some (JNum n)"
| "resolved member (JBool b) = Some (JBool b)"
| "resolved member JNull = Some JNull"

primrec holds_ref :: "doc \<Rightarrow> bool" where
  "holds_ref (JObj m) \<longleftrightarrow> ''$ref'' |\<in>| fmdom m \<or> fBex (fmran (fmmap holds_ref m)) id"
| "holds_ref (JArr vs) \<longleftrightarrow> True \<in> set (map holds_ref vs)"
| "holds_ref (JStr s) \<longleftrightarrow> False"
| "holds_ref (JNum n) \<longleftrightarrow> False"
| "holds_ref (JBool b) \<longleftrightarrow> False"
| "holds_ref JNull \<longleftrightarrow> False"

text \<open>A walk that is sound and complete for a given outcome, whatever the caches hold.\<close>

definition walks :: "'e member_reader \<Rightarrow> 'e walker \<Rightarrow> doc option \<Rightarrow> bool \<Rightarrow> bool" where
  "walks member w got via \<longleftrightarrow>
     (\<forall>r. cache_ok member r \<longrightarrow>
        cache_ok member (snd (w r)) \<and> recordings (snd (w r)) = recordings r
        \<and> (case fst (w r) of Inl e \<Rightarrow> got = None | Inr (d, v) \<Rightarrow> got = Some d \<and> v = via))"

lemma walksE:
  assumes "walks member w got via" "cache_ok member r"
  obtains (fails) e r1 where "w r = (Inl e, r1)" "cache_ok member r1" "got = None" "recordings r1 = recordings r"
        | (gives) d r1 where "w r = (Inr (d, via), r1)" "cache_ok member r1" "got = Some d" "recordings r1 = recordings r"
  using assms unfolding walks_def by (cases "w r"; cases "fst (w r)") fastforce+

lemma walk_members_ok:
  assumes "\<forall>(k, w) \<in> set steps. walks member w (f k) (g k)" "cache_ok member r"
    "distinct (map fst steps)"
  shows "cache_ok member (snd (walk_members steps out via r))
     \<and> recordings (snd (walk_members steps out via r)) = recordings r
     \<and> (case fst (walk_members steps out via r) of
          Inl e \<Rightarrow> \<exists>k \<in> set (map fst steps). f k = None
        | Inr (out1, via1) \<Rightarrow>
            (\<forall>k \<in> set (map fst steps). f k \<noteq> None \<and> fmlookup out1 k = f k)
            \<and> (\<forall>k. k \<notin> set (map fst steps) \<longrightarrow> fmlookup out1 k = fmlookup out k)
            \<and> via1 = (via \<or> (\<exists>k \<in> set (map fst steps). g k)))"
  using assms
proof (induction steps arbitrary: out via r)
  case (Cons kw later)
  obtain k w where kw: "kw = (k, w)" by (cases kw)
  from Cons.prems(1) kw have w: "walks member w (f k) (g k)" and later: "\<forall>(k, w) \<in> set later. walks member w (f k) (g k)" by auto
  show ?case using w Cons.prems(2)
  proof (cases rule: walksE)
    case (fails e r1)
    then show ?thesis by (simp add: kw)
  next
    case (gives d r1)
    have "distinct (map fst later)" "k \<notin> set (map fst later)" using Cons.prems(3) kw by auto
    with Cons.IH [OF later gives(2), of "fmupd k d out" "via \<or> g k"] gives
    show ?thesis by (auto simp: kw split: sum.splits)
  qed
qed simp

lemma walk_elems_ok:
  assumes "list_all2 (\<lambda>w (got, v). walks member w got v) steps gs" "cache_ok member r"
  shows "cache_ok member (snd (walk_elems steps out via r))
     \<and> recordings (snd (walk_elems steps out via r)) = recordings r
     \<and> (case fst (walk_elems steps out via r) of
          Inl e \<Rightarrow> None \<in> set (map fst gs)
        | Inr (out1, via1) \<Rightarrow>
            None \<notin> set (map fst gs) \<and> out1 = out @ map the (map fst gs) \<and> via1 = (via \<or> True \<in> set (map snd gs)))"
  using assms
proof (induction steps arbitrary: out via r gs)
  case (Cons w later)
  from Cons.prems(1) obtain got v hs where gs: "gs = (got, v) # hs" and w: "walks member w got v"
    and later: "list_all2 (\<lambda>w (got, v). walks member w got v) later hs"
    by (auto simp: list_all2_Cons1)
  show ?case using w Cons.prems(2)
  proof (cases rule: walksE)
    case (fails e r1)
    then show ?thesis by (simp add: gs)
  next
    case (gives d r1)
    with Cons.IH [OF later gives(2), of "out @ [d]" "via \<or> v"] gives
    show ?thesis by (auto simp: gs split: sum.splits)
  qed
qed simp

text \<open>The order a map is iterated in: each of its keys once.\<close>

definition enumerates :: "(bytes fset \<Rightarrow> bytes list) \<Rightarrow> bool" where
  "enumerates order \<longleftrightarrow> (\<forall>A. set (order A) = fset A \<and> distinct (order A))"

lemma fBall_fmran: "fBall (fmran m) P \<longleftrightarrow> (\<forall>k \<in> fmdom' m. P (the (fmlookup m k)))"
proof
  assume all: "fBall (fmran m) P"
  show "\<forall>k \<in> fmdom' m. P (the (fmlookup m k))"
  proof
    fix k assume "k \<in> fmdom' m"
    then obtain y where y: "fmlookup m k = Some y" by (auto simp: fmlookup_dom'_iff)
    then have "y |\<in>| fmran m" by (rule fmranI)
    with all y show "P (the (fmlookup m k))" by simp
  qed
next
  assume all: "\<forall>k \<in> fmdom' m. P (the (fmlookup m k))"
  show "fBall (fmran m) P"
  proof
    fix y assume "y |\<in>| fmran m"
    then obtain k where "fmlookup m k = Some y" by (auto simp: fmlookup_ran_iff)
    moreover from this have "k \<in> fmdom' m" by (rule fmdom'I)
    ultimately show "P y" using all by (metis option.sel)
  qed
qed

lemma fBex_fmran: "fBex (fmran m) P \<longleftrightarrow> (\<exists>k \<in> fmdom' m. P (the (fmlookup m k)))"
  using fBall_fmran [of m "\<lambda>x. \<not> P x"] by blast

lemma walk_object_ok:
  assumes each: "\<And>k v w. fmlookup m k = Some (v, w) \<Longrightarrow> walks member w (resolved member v) (holds_ref v)"
    and order: "enumerates order" and v: "v = JObj (fmmap fst m)"
  shows "walks member (walk_object order member m) (resolved member v) (holds_ref v)"
proof (cases "fmlookup m ''$ref''")
  case (Some p)
  obtain ref1 w where p: "p = (ref1, w)" by (cases p)
  have dom: "''$ref'' |\<in>| fmdom m" using Some by (rule fmdomI)
  have via: "holds_ref v" using dom by (simp add: v)
  show ?thesis
  proof (cases "(\<exists>s. ref1 = JStr s) \<and> fmdom m = {|''$ref''|}")
    case True
    then obtain s where s: "ref1 = JStr s" "fmdom m = {|''$ref''|}" by blast
    have res: "resolved member v = target_of member s"
      using Some s p by (simp add: v resolved_object_def)
    show ?thesis unfolding walks_def
    proof (intro allI impI)
      fix r assume c: "cache_ok member r"
      obtain x r1 where x: "resolve_ref member s r = (x, r1)" by (cases "resolve_ref member s r")
      with resolve_ref_ok [OF c x] res via Some p s
      show "cache_ok member (snd (walk_object order member m r))
         \<and> recordings (snd (walk_object order member m r)) = recordings r \<and>
         (case fst (walk_object order member m r) of
          Inl e \<Rightarrow> resolved member v = None | Inr (d, va) \<Rightarrow> resolved member v = Some d \<and> va = holds_ref v)"
        by (auto simp: walk_object_def split: sum.splits)
    qed
  next
    case False
    then have "resolved member v = None"
      using Some p by (cases ref1) (auto simp: v resolved_object_def)
    moreover have "walk_object order member m r = (Inl RefForm, r)" for r
      using False Some p by (cases ref1) (auto simp: walk_object_def)
    ultimately show ?thesis by (simp add: walks_def)
  qed
next
  case None
  define steps where "steps = map (\<lambda>k. (k, snd (the (fmlookup m k)))) (order (fmdom m))"
  define f where "f k = resolved member (fst (the (fmlookup m k)))" for k
  define g where "g k = holds_ref (fst (the (fmlookup m k)))" for k
  have keys: "map fst steps = order (fmdom m)" by (simp add: steps_def comp_def)
  have dom: "set (order (fmdom m)) = fmdom' m" and dist: "distinct (order (fmdom m))"
    using order by (simp_all add: enumerates_def fmdom'_alt_def)
  have all: "\<forall>(k, w) \<in> set steps. walks member w (f k) (g k)"
    using each dom by (fastforce simp: steps_def f_def g_def fmlookup_dom'_iff)
  have via: "holds_ref v \<longleftrightarrow> (\<exists>k \<in> set (map fst steps). g k)"
    unfolding keys dom using None
    by (simp add: v g_def fmlookup_dom_iff fmap.map_comp fBex_fmran comp_def fmlookup_dom'_iff cong: bex_cong)
  have res: "resolved member v =
      (if \<forall>k \<in> set (map fst steps). f k \<noteq> None then Some (JObj (fmmap (\<lambda>p. the (resolved member (fst p))) m)) else None)"
  proof -
    have "fBall (fmran (fmmap (\<lambda>v. (v, resolved member v)) (fmmap fst m))) (\<lambda>(v, got). got \<noteq> None)
       \<longleftrightarrow> (\<forall>k \<in> set (map fst steps). f k \<noteq> None)"
      unfolding keys dom by (simp add: f_def fmap.map_comp fBall_fmran comp_def case_prod_beta)
    then show ?thesis using None by (auto simp: v resolved_object_def fmap.map_comp comp_def case_prod_beta)
  qed
  show ?thesis unfolding walks_def
  proof (intro allI impI)
    fix r assume c: "cache_ok member r"
    obtain x r1 where x: "walk_members steps (fmmap fst m) False r = (x, r1)"
      by (cases "walk_members steps (fmmap fst m) False r")
    have w: "walk_object order member m r =
        (case x of Inl e \<Rightarrow> (Inl e, r1) | Inr (out, via) \<Rightarrow> (Inr (JObj out, via), r1))"
      using None x by (simp add: walk_object_def steps_def)
    have ok: "cache_ok member r1 \<and> recordings r1 = recordings r \<and> (case x of Inl e \<Rightarrow> \<exists>k \<in> set (map fst steps). f k = None
        | Inr (out1, via1) \<Rightarrow>
            (\<forall>k \<in> set (map fst steps). f k \<noteq> None \<and> fmlookup out1 k = f k)
            \<and> (\<forall>k. k \<notin> set (map fst steps) \<longrightarrow> fmlookup out1 k = fmlookup (fmmap fst m) k)
            \<and> via1 = (False \<or> (\<exists>k \<in> set (map fst steps). g k)))"
      using walk_members_ok [OF all c, of "fmmap fst m" False] dist x by (simp only: keys fst_conv snd_conv)
    show "cache_ok member (snd (walk_object order member m r))
         \<and> recordings (snd (walk_object order member m r)) = recordings r \<and>
         (case fst (walk_object order member m r) of
          Inl e \<Rightarrow> resolved member v = None | Inr (d, va) \<Rightarrow> resolved member v = Some d \<and> va = holds_ref v)"
    proof (cases x)
      case (Inl e)
      with ok w res show ?thesis by auto
    next
      case (Inr y)
      obtain out1 via1 where y: "y = (out1, via1)" by (cases y)
      have "fmlookup out1 k = fmlookup (fmmap (\<lambda>p. the (resolved member (fst p))) m) k" for k
      proof (cases "k |\<in>| fmdom m")
        case True
        then have k: "k \<in> set (map fst steps)" unfolding keys dom by (simp add: fmdom'_alt_def)
        from True obtain v1 w1 where "fmlookup m k = Some (v1, w1)" by (auto simp: fmlookup_dom_iff)
        with k ok Inr y show ?thesis by (force simp: f_def)
      next
        case False
        then have "k \<notin> set (map fst steps)" unfolding keys dom by (simp add: fmdom'_alt_def)
        with False ok Inr y show ?thesis by (simp add: fmdom_notD)
      qed
      then have "out1 = fmmap (\<lambda>p. the (resolved member (fst p))) m" by (intro fmap_ext) simp
      with ok w res via Inr y show ?thesis by simp
    qed
  qed
qed

theorem walk_resolves:
  "enumerates order \<Longrightarrow> walks member (walk order member v) (resolved member v) (holds_ref v)"
proof (induction v)
  case (JObj m)
  show ?case unfolding walk.simps
  proof (rule walk_object_ok [OF _ JObj.prems])
    show "walks member w (resolved member v) (holds_ref v)"
      if k: "fmlookup (fmmap (\<lambda>v. (v, walk order member v)) m) k = Some (v, w)" for k v w
    proof -
      from k have "fmlookup m k = Some v" "w = walk order member v" by auto
      with JObj.IH [of v] JObj.prems show ?thesis by (simp add: fmran'I)
    qed
  qed (simp add: fmap.map_comp comp_def fmap.map_ident)
next
  case (JArr vs)
  define gs where "gs = map (\<lambda>v. (resolved member v, holds_ref v)) vs"
  have all: "list_all2 (\<lambda>w (got, v). walks member w got v) (map (walk order member) vs) gs"
    using JArr by (simp add: gs_def list_all2_conv_all_nth)
  show ?case unfolding walks_def
  proof (intro allI impI)
    fix r assume c: "cache_ok member r"
    obtain x r1 where x: "walk_elems (map (walk order member) vs) [] False r = (x, r1)"
      by (cases "walk_elems (map (walk order member) vs) [] False r")
    with walk_elems_ok [OF all c, of "[]" False]
    show "cache_ok member (snd (walk order member (JArr vs) r))
         \<and> recordings (snd (walk order member (JArr vs) r)) = recordings r \<and>
         (case fst (walk order member (JArr vs) r) of
          Inl e \<Rightarrow> resolved member (JArr vs) = None
        | Inr (d, va) \<Rightarrow> resolved member (JArr vs) = Some d \<and> va = holds_ref (JArr vs))"
      by (auto simp: gs_def comp_def split: sum.splits)
  qed
qed (simp_all add: walks_def)

section \<open>Pointers and the tokens they name\<close>

text \<open>RFC 6901: what a pointer to the given tokens is written as.\<close>

fun escape_token :: "bytes \<Rightarrow> bytes" where
  "escape_token [] = []"
| "escape_token (c # s) =
     (if c = CHR ''~'' then CHR ''~'' # CHR ''0'' # escape_token s
      else if c = CHR ''/'' then CHR ''~'' # CHR ''1'' # escape_token s
      else c # escape_token s)"

definition pointer_of :: "bytes list \<Rightarrow> bytes" where
  "pointer_of ts = concat (map (\<lambda>t. CHR ''/'' # escape_token t) ts)"

definition tokens_of :: "bytes \<Rightarrow> bytes list" where
  "tokens_of p = (if p = [] then [] else map unescape_token (split_on (CHR ''/'') (tl p)))"

fun follow :: "doc \<Rightarrow> bytes list \<Rightarrow> doc option" where
  "follow d [] = Some d"
| "follow d (t # ts) = (case pointer_step d t of None \<Rightarrow> None | Some next \<Rightarrow> follow next ts)"

lemma pointer_loop_follow: "pointer_loop d ts = follow d (map unescape_token ts)"
  by (induction ts arbitrary: d) (simp_all split: option.splits)

lemma pointer_follow: "pointer d p = (if valid_pointer p then follow d (tokens_of p) else None)"
  by (simp add: pointer_def tokens_of_def pointer_loop_follow)

lemma replace_two_other: "c \<noteq> a \<Longrightarrow> replace_two a b r (c # s) = c # replace_two a b r s"
  by (cases s) simp_all

lemma replace_two_half: "d \<noteq> b \<Longrightarrow> d \<noteq> a \<Longrightarrow> replace_two a b r (a # d # s) = a # d # replace_two a b r s"
  by (simp add: replace_two_other)

lemma unescape_token_simps [simp]:
  "unescape_token [] = []"
  "unescape_token (CHR ''~'' # CHR ''0'' # s) = CHR ''~'' # unescape_token s"
  "unescape_token (CHR ''~'' # CHR ''1'' # s) = CHR ''/'' # unescape_token s"
  "c \<noteq> CHR ''~'' \<Longrightarrow> unescape_token (c # s) = c # unescape_token s"
  by (simp_all add: unescape_token_def replace_two_other)

lemma unescape_escape [simp]: "unescape_token (escape_token t) = t"
  by (induction t) auto

lemma escape_unescape: "tildes_ok t \<Longrightarrow> CHR ''/'' \<notin> set t \<Longrightarrow> escape_token (unescape_token t) = t"
proof (induction t rule: length_induct)
  case (1 t)
  show ?case
  proof (cases t)
    case (Cons c s)
    show ?thesis
    proof (cases "c = CHR ''~''")
      case True
      then obtain d u where u: "s = d # u" "d = CHR ''0'' \<or> d = CHR ''1''"
        using 1(2) Cons by (cases s) auto
      have "tildes_ok u" "CHR ''/'' \<notin> set u" using 1(2,3) Cons True u by auto
      with 1(1) have "escape_token (unescape_token u) = u" unfolding Cons u(1) by simp
      with u True Cons show ?thesis by auto
    next
      case False
      with 1 Cons show ?thesis by auto
    qed
  qed simp
qed

lemma escape_token_no_slash: "CHR ''/'' \<notin> set (escape_token t)"
  by (induction t) auto

lemma tildes_ok_escape [simp]: "tildes_ok (escape_token t @ s) = tildes_ok s"
  by (induction t) simp_all

lemma tildes_ok_sep: "tildes_ok (s @ CHR ''/'' # t) \<longleftrightarrow> tildes_ok s \<and> tildes_ok t"
proof (induction s)
  case (Cons c s)
  then show ?case by (cases s) auto
qed simp

lemma tildes_ok_parts: "tildes_ok s \<Longrightarrow> \<forall>p \<in> set (split_on (CHR ''/'') s). tildes_ok p"
proof -
  have "tildes_ok (join_with ''/'' ps) \<Longrightarrow> \<forall>p \<in> set ps. tildes_ok p" for ps
    by (induction "''/''" ps rule: join_with.induct) (auto simp: tildes_ok_sep)
  from this [of "split_on (CHR ''/'') s"] show "tildes_ok s \<Longrightarrow> \<forall>p \<in> set (split_on (CHR ''/'') s). tildes_ok p" by simp
qed

lemma valid_pointer_of: "valid_pointer (pointer_of ts)"
proof -
  have "tildes_ok (pointer_of ts)" by (induction ts) (simp_all add: pointer_of_def)
  then show ?thesis by (cases ts) (simp_all add: valid_pointer_def pointer_of_def)
qed

lemma pointer_of_join: "ts \<noteq> [] \<Longrightarrow> pointer_of ts = CHR ''/'' # join_with ''/'' (map escape_token ts)"
proof (induction ts)
  case (Cons t ts)
  then show ?case by (cases ts) (simp_all add: pointer_of_def)
qed simp

lemma tokens_of_pointer_of: "tokens_of (pointer_of ts) = ts"
proof (cases "ts = []")
  case False
  then have "split_on (CHR ''/'') (tl (pointer_of ts)) = map escape_token ts"
    using split_join [of "map escape_token ts" "CHR ''/''"] escape_token_no_slash by (simp add: pointer_of_join)
  with False show ?thesis by (simp add: tokens_of_def pointer_of_join comp_def)
qed (simp add: tokens_of_def pointer_of_def)

lemma pointer_of_tokens_of: "valid_pointer p \<Longrightarrow> pointer_of (tokens_of p) = p"
proof (cases p)
  case (Cons c s)
  assume v: "valid_pointer p"
  with Cons have c: "c = CHR ''/''" and t: "tildes_ok s" by (auto simp: valid_pointer_def split: if_splits)
  have "map escape_token (tokens_of p) = split_on (CHR ''/'') s"
    using tildes_ok_parts [OF t] split_on_parts [of _ "CHR ''/''" s] Cons
    by (auto simp: tokens_of_def intro!: map_idI escape_unescape)
  moreover have "tokens_of p \<noteq> []" using Cons by (simp add: tokens_of_def)
  ultimately show ?thesis using Cons c by (simp add: pointer_of_join)
qed (simp add: pointer_of_def tokens_of_def)

text \<open>JSON pointers are read as RFC 6901 has them: \<open>Pointer\<close> gives a value exactly when its text is
  some list of tokens written out (\<open>~\<close> as \<open>~0\<close>, \<open>/\<close> as \<open>~1\<close>) and following those tokens one by one
  leads to that value; no other text points anywhere.\<close>

theorem pointers_are_their_tokens:
  "pointer d p = Some v \<longleftrightarrow> (\<exists>ts. p = pointer_of ts \<and> follow d ts = Some v)"
proof
  assume "pointer d p = Some v"
  then have "valid_pointer p" "follow d (tokens_of p) = Some v" by (auto simp: pointer_follow split: if_splits)
  with pointer_of_tokens_of [of p] show "\<exists>ts. p = pointer_of ts \<and> follow d ts = Some v" by metis
next
  assume "\<exists>ts. p = pointer_of ts \<and> follow d ts = Some v"
  then show "pointer d p = Some v" by (auto simp: pointer_follow valid_pointer_of tokens_of_pointer_of)
qed

section \<open>What a walk gives\<close>

text \<open>C28: Resolving references. Whatever the caches of the resolver hold from the checks before, and in
  whatever order Go iterates the members of an object, \<open>walk\<close> gives a value exactly when every
  reference in it resolves, the value is the one with each \<open>$ref\<close> replaced by its target, and the
  flag says whether there was a reference at all.\<close>

theorem walk_is_resolution:
  assumes "enumerates order" "cache_ok member r"
  shows "fst (walk order member v r) = Inr (d, via)
     \<longleftrightarrow> resolved member v = Some d \<and> via = holds_ref v"
  using walk_resolves [OF assms(1), of member v] assms(2)
  by (cases rule: walksE) auto

definition sorted_keys :: "bytes fset \<Rightarrow> bytes list" where
  "sorted_keys A = sorted_list_of_set (fset A)"

lemma sorted_keys_enumerates: "enumerates sorted_keys"
  by (simp add: enumerates_def sorted_keys_def)

definition example_member :: "unit member_reader" where
  "example_member rel = Inr (if rel = ''a.json'' then Some (''['' @ [CHR 0x22] @ ''hi'' @ [CHR 0x22] @ '']'') else None)"

definition example_value :: doc where
  "example_value = JArr [JNull, JObj (fmap_of_list [(''$ref'', JStr ''a.json#/0'')])]"

lemma walk_is_resolution_witness:
  "fst (walk sorted_keys example_member example_value new_resolver) = Inr (JArr [JNull, JStr ''hi''], True)"
proof -
  have "resolved example_member example_value = Some (JArr [JNull, JStr ''hi''])" "holds_ref example_value"
    by code_simp+
  then show ?thesis
    using walk_is_resolution [OF sorted_keys_enumerates cache_ok_new,
        of example_member example_value "JArr [JNull, JStr ''hi'']" True] by simp
qed

text \<open>
  Why a walk fails does depend on the order: two members that both fail, one with a reference of a
  refused form and one naming a member that is not carried. The first refuses the document, the
  second only marks the check as one that can never pass.
\<close>

definition two_faults :: doc where
  "two_faults = JObj (fmap_of_list
     [(''a'', JObj (fmap_of_list [(''$ref'', JNull)])),
      (''b'', JObj (fmap_of_list [(''$ref'', JStr ''gone.json'')]))])"

lemma the_order_chooses_the_fault:
  "fst (walk sorted_keys example_member two_faults new_resolver) = Inl RefForm"
  "fst (walk (rev \<circ> sorted_keys) example_member two_faults new_resolver) =
     Inl (Unresolved (NotCarried ''gone.json''))"
  by code_simp+

end
