(* ===== verification/Recording.thy ===== *)
theory Recording
  imports Prelude "HOL-Library.Word"
begin

text \<open>
  The recordings session checks send (\<open>ReadRecording\<close> of \<open>pkg/aiiospkg/session_checks.go\<close>): a WAV
  file is a run of chunks after a twelve-byte header, each an id, a little-endian length and that
  many bytes, padded to an even count. The offsets stay below \<open>length b + 2 ^ 32\<close>, far inside
  \<open>int\<close> and \<open>int64\<close>, and are naturals here. Also the level meter \<open>Level.Add\<close>, whose sums are
  \<open>int64\<close> and kept as 64-bit words.
\<close>

section \<open>Little-endian numbers\<close>

fun le_value :: "bytes \<Rightarrow> nat" where
  "le_value [] = 0"
| "le_value (c # s) = byte_val c + 256 * le_value s"

fun le_bytes :: "nat \<Rightarrow> nat \<Rightarrow> bytes" where
  "le_bytes 0 n = []"
| "le_bytes (Suc k) n = byte_of n # le_bytes k (n div 256)"

lemma length_le_bytes [simp]: "length (le_bytes k n) = k"
  by (induction k arbitrary: n) simp_all

lemma le_value_bytes: "n < 256 ^ k \<Longrightarrow> le_value (le_bytes k n) = n"
proof (induction k arbitrary: n)
  case (Suc k)
  have "n div 256 < 256 ^ k" using Suc.prems by (simp add: less_mult_imp_div_less mult.commute)
  with Suc.IH show ?case by simp
qed simp

lemma le_value_less: "le_value s < 256 ^ length s"
proof (induction s)
  case (Cons c s)
  have "byte_val c + 256 * le_value s < 256 + 256 * le_value s" by simp
  also have "\<dots> \<le> 256 * 256 ^ length s" using Cons by simp
  finally show ?case by simp
qed simp

definition le_at :: "nat \<Rightarrow> nat \<Rightarrow> bytes \<Rightarrow> nat" where
  "le_at off k b = le_value (take k (drop off b))"

section \<open>Reading a recording\<close>

record wav_format =
  wf_tag :: nat
  wf_channels :: nat
  wf_rate :: nat
  wf_bits :: nat

record recording =
  rec_rate :: nat
  rec_channels :: nat
  rec_pcm :: bytes
  rec_length :: nat

datatype recording_fault =
    NotWav
  | ShortFormat
  | SamplesBeforeFormat
  | NotPcm16
  | UnsupportedShape nat nat
  | WrongDataLength
  | EndsInsideSample
  | BadDuration nat
  | NoDataChunk

text \<open>Durations are in nanoseconds, as \<open>time.Duration\<close> counts them.\<close>

definition second :: nat where "second = 1000000000"
definition min_check_recording :: nat where "min_check_recording = 100000000"
definition max_check_recording :: nat where "max_check_recording = 30 * second"

definition read_format :: "bytes \<Rightarrow> nat \<Rightarrow> nat \<Rightarrow> recording_fault + wav_format" where
  "read_format b body sz =
     (if sz < 16 \<or> length b < body + 16 then Inl ShortFormat
      else Inr \<lparr>wf_tag = le_at body 2 b, wf_channels = le_at (body + 2) 2 b,
                wf_rate = le_at (body + 4) 4 b, wf_bits = le_at (body + 14) 2 b\<rparr>)"

definition check_data :: "nat \<Rightarrow> bytes \<Rightarrow> wav_format \<Rightarrow> recording_fault + recording" where
  "check_data sz pcm f =
     (let d = (length pcm div (2 * wf_channels f)) * second div wf_rate f
      in if wf_tag f \<noteq> 1 \<or> wf_bits f \<noteq> 16 then Inl NotPcm16
         else if wf_channels f < 1 \<or> 2 < wf_channels f \<or> wf_rate f < 8000 \<or> 192000 < wf_rate f
           then Inl (UnsupportedShape (wf_channels f) (wf_rate f))
         else if sz = 0 \<or> sz = 0xFFFFFFFF \<or> sz \<noteq> length pcm then Inl WrongDataLength
         else if length pcm mod (2 * wf_channels f) \<noteq> 0 then Inl EndsInsideSample
         else if d < min_check_recording \<or> max_check_recording < d then Inl (BadDuration d)
         else Inr \<lparr>rec_rate = wf_rate f, rec_channels = wf_channels f, rec_pcm = pcm, rec_length = d\<rparr>)"

definition read_data :: "bytes \<Rightarrow> nat \<Rightarrow> nat \<Rightarrow> wav_format \<Rightarrow> recording_fault + recording" where
  "read_data b body sz f =
     (let stop = (if sz = 0 \<or> sz = 0xFFFFFFFF \<or> length b < body + sz then length b else body + sz)
      in check_data sz (drop body (take stop b)) f)"

function read_chunks :: "bytes \<Rightarrow> nat \<Rightarrow> wav_format option \<Rightarrow> recording_fault + recording" where
  "read_chunks b off fmt =
     (if length b < off + 8 then Inl NoDataChunk
      else (let chunk_id = take 4 (drop off b);
                sz = le_at (off + 4) 4 b;
                body = off + 8;
                next = body + sz + sz mod 2;
                go_on = (\<lambda>fmt1. if length b < next then Inl NoDataChunk else read_chunks b next fmt1)
            in if chunk_id = ''fmt '' then
                 (case read_format b body sz of Inl e \<Rightarrow> Inl e | Inr f \<Rightarrow> go_on (Some f))
               else if chunk_id = ''data'' then
                 (case fmt of None \<Rightarrow> Inl SamplesBeforeFormat | Some f \<Rightarrow> read_data b body sz f)
               else go_on fmt))"
  by pat_completeness auto
termination
  by (relation "measure (\<lambda>(b, off, fmt). length b - off)") auto

declare read_chunks.simps [simp del]

definition read_recording :: "bytes \<Rightarrow> recording_fault + recording" where
  "read_recording b =
     (if length b < 12 \<or> take 4 b \<noteq> ''RIFF'' \<or> take 4 (drop 8 b) \<noteq> ''WAVE'' then Inl NotWav
      else read_chunks b 12 None)"

section \<open>What is read\<close>

definition recording_ok :: "recording \<Rightarrow> bool" where
  "recording_ok r \<longleftrightarrow> (rec_channels r = 1 \<or> rec_channels r = 2)
     \<and> 8000 \<le> rec_rate r \<and> rec_rate r \<le> 192000
     \<and> rec_pcm r \<noteq> [] \<and> length (rec_pcm r) < 0xFFFFFFFF \<and> 2 * rec_channels r dvd length (rec_pcm r)
     \<and> rec_length r = (length (rec_pcm r) div (2 * rec_channels r)) * second div rec_rate r
     \<and> min_check_recording \<le> rec_length r \<and> rec_length r \<le> max_check_recording"

lemma check_data_ok:
  assumes "check_data sz pcm f = Inr r" "sz < 2 ^ 32"
  shows "recording_ok r \<and> rec_pcm r = pcm"
proof -
  have c: "wf_channels f = 1 \<or> wf_channels f = 2" and rate: "8000 \<le> wf_rate f" "wf_rate f \<le> 192000"
    and sz: "sz \<noteq> 0" "sz \<noteq> 0xFFFFFFFF" "sz = length pcm" and m: "length pcm mod (2 * wf_channels f) = 0"
    and d: "\<not> (length pcm div (2 * wf_channels f)) * second div wf_rate f < min_check_recording"
      "\<not> max_check_recording < (length pcm div (2 * wf_channels f)) * second div wf_rate f"
    and r: "r = \<lparr>rec_rate = wf_rate f, rec_channels = wf_channels f, rec_pcm = pcm,
                rec_length = (length pcm div (2 * wf_channels f)) * second div wf_rate f\<rparr>"
    using assms(1) by (auto simp: check_data_def Let_def split: if_splits)
  have "pcm \<noteq> []" "length pcm < 0xFFFFFFFF" using sz assms(2) by auto
  with c rate m d show ?thesis unfolding recording_ok_def r by (auto simp: dvd_eq_mod_eq_0)
qed

lemma read_data_ok:
  assumes "read_data b body sz f = Inr r" "sz < 2 ^ 32"
  shows "recording_ok r \<and> sublist (rec_pcm r) b"
proof -
  obtain stop where "check_data sz (drop body (take stop b)) f = Inr r"
    using assms(1) by (auto simp: read_data_def Let_def)
  from check_data_ok [OF this assms(2)] show ?thesis
    by (metis sublist_drop sublist_take sublist_order.order.trans)
qed

lemma le_at_less: "le_at off 4 b < 2 ^ 32"
proof -
  have "le_at off 4 b < 256 ^ length (take 4 (drop off b))" unfolding le_at_def by (rule le_value_less)
  also have "\<dots> \<le> 256 ^ 4" by (rule power_increasing) simp_all
  finally show ?thesis by simp
qed

lemma read_chunks_ok:
  "read_chunks b off fmt = Inr r \<Longrightarrow> recording_ok r \<and> sublist (rec_pcm r) b"
proof (induction b off fmt rule: read_chunks.induct)
  case (1 b off fmt)
  note unfold = read_chunks.simps [of b off fmt]
  let ?sz = "le_at (off + 4) 4 b"
  let ?next = "off + 8 + ?sz + ?sz mod 2"
  have long: "\<not> length b < off + 8" using 1(2) by (auto simp: unfold)
  have IH: "recording_ok r \<and> sublist (rec_pcm r) b"
    if "\<not> length b < ?next" "read_chunks b ?next fmt1 = Inr r" for fmt1
    using 1(1) [OF long refl refl refl refl that(1)] that(2) by simp
  consider "take 4 (drop off b) = ''data''" | "take 4 (drop off b) = ''fmt ''"
    | "take 4 (drop off b) \<noteq> ''data''" "take 4 (drop off b) \<noteq> ''fmt ''" by blast
  then show ?case
  proof cases
    case 1
    with "1.prems" long obtain f where "read_data b (off + 8) ?sz f = Inr r"
      by (auto simp: unfold Let_def split: option.splits)
    then show ?thesis by (rule read_data_ok) (rule le_at_less)
  next
    case 2
    with "1.prems" long show ?thesis
      by (auto simp: unfold Let_def split: if_splits sum.splits dest: IH)
  next
    case 3
    with "1.prems" long show ?thesis
      by (auto simp: unfold Let_def split: if_splits dest: IH)
  qed
qed

section \<open>Writing one and reading it back\<close>

definition wav_chunk :: "bytes \<times> bytes \<Rightarrow> bytes" where
  "wav_chunk c = (case c of (chunk_id, body) \<Rightarrow>
     chunk_id @ le_bytes 4 (length body) @ body @ (if odd (length body) then [CHR 0x00] else []))"

definition format_body :: "recording \<Rightarrow> bytes \<Rightarrow> bytes \<Rightarrow> bytes" where
  "format_body r fill extra =
     le_bytes 2 1 @ le_bytes 2 (rec_channels r) @ le_bytes 4 (rec_rate r) @ fill @ le_bytes 2 16 @ extra"

definition wav_file ::
  "recording \<Rightarrow> bytes \<Rightarrow> (bytes \<times> bytes) list \<Rightarrow> bytes \<Rightarrow> bytes \<Rightarrow> (bytes \<times> bytes) list \<Rightarrow> bytes \<Rightarrow> bytes" where
  "wav_file r sizes early fill extra between trailing =
     ''RIFF'' @ sizes @ ''WAVE'' @ concat (map wav_chunk early)
     @ wav_chunk (''fmt '', format_body r fill extra) @ concat (map wav_chunk between)
     @ ''data'' @ le_bytes 4 (length (rec_pcm r)) @ rec_pcm r @ trailing"

definition skippable :: "bytes \<times> bytes \<Rightarrow> bool" where
  "skippable c \<longleftrightarrow> length (fst c) = 4 \<and> fst c \<noteq> ''fmt '' \<and> fst c \<noteq> ''data'' \<and> length (snd c) < 2 ^ 32"

lemma length_wav_chunk:
  "length cid = 4 \<Longrightarrow> length (wav_chunk (cid, body)) = 8 + length body + length body mod 2"
  by (simp add: wav_chunk_def) presburger

lemma le_at_drop: "drop off b = s \<Longrightarrow> le_at (off + i) k b = le_value (take k (drop i s))"
  by (auto simp: le_at_def add.commute)

lemma chunk_head:
  assumes "drop off b = cid @ le_bytes 4 n @ more_bytes" "length cid = 4" "n < 2 ^ 32"
  shows "take 4 (drop off b) = cid" "le_at (off + 4) 4 b = n" "off + 8 + length more_bytes = length b"
proof -
  show "take 4 (drop off b) = cid" using assms by simp
  show "le_at (off + 4) 4 b = n" using assms le_value_bytes [of n 4] by (simp add: le_at_drop)
  have "length (drop off b) = 8 + length more_bytes" using assms by simp
  then show "off + 8 + length more_bytes = length b" by simp
qed

lemma read_chunks_skip:
  assumes d: "drop off b = wav_chunk c @ after" and c: "skippable c"
  shows "read_chunks b off fmt = read_chunks b (off + length (wav_chunk c)) fmt"
    and "drop (off + length (wav_chunk c)) b = after"
proof -
  obtain cid body where cb: "c = (cid, body)" by (cases c)
  have len: "length (wav_chunk c) = 8 + length body + length body mod 2"
    using c by (simp add: cb length_wav_chunk skippable_def)
  note head = chunk_head [of off b cid "length body" "body @ (if odd (length body) then [CHR 0x00] else []) @ after"]
  have h: "take 4 (drop off b) = cid" "le_at (off + 4) 4 b = length body" "off + length (wav_chunk c) \<le> length b"
    using head d c len by (auto simp: cb wav_chunk_def skippable_def)
  have "\<not> length b < off + 8" "\<not> length b < off + 8 + length body + length body mod 2" using h(3) len by simp_all
  then show "read_chunks b off fmt = read_chunks b (off + length (wav_chunk c)) fmt"
    using h c len unfolding read_chunks.simps [of b off fmt] by (simp add: cb skippable_def Let_def add.assoc)
  have "drop (off + length (wav_chunk c)) b = drop (length (wav_chunk c)) (drop off b)" by (simp add: add.commute)
  then show "drop (off + length (wav_chunk c)) b = after" using d by simp
qed

lemma read_chunks_skips:
  "drop off b = concat (map wav_chunk cs) @ after \<Longrightarrow> \<forall>c \<in> set cs. skippable c
   \<Longrightarrow> \<exists>off1. drop off1 b = after \<and> read_chunks b off fmt = read_chunks b off1 fmt"
proof (induction cs arbitrary: off)
  case (Cons c cs)
  then have d: "drop off b = wav_chunk c @ concat (map wav_chunk cs) @ after" and c: "skippable c" by simp_all
  from Cons.IH [OF read_chunks_skip(2) [OF d c]] Cons.prems(2) read_chunks_skip(1) [OF d c]
  show ?case by simp
qed auto

lemma read_chunks_format:
  assumes d: "drop off b = wav_chunk (''fmt '', format_body r fill extra) @ after"
    and r: "rec_channels r \<le> 2" "rec_rate r \<le> 192000" and fill: "length fill = 6" and extra: "length extra < 2 ^ 31"
  shows "\<exists>off1. drop off1 b = after \<and> read_chunks b off fmt =
     read_chunks b off1 (Some \<lparr>wf_tag = 1, wf_channels = rec_channels r, wf_rate = rec_rate r, wf_bits = 16\<rparr>)"
proof -
  let ?f = "format_body r fill extra"
  have fl: "length ?f = 16 + length extra" using fill by (simp add: format_body_def)
  then have f32: "length ?f < 2 ^ 32" using extra by simp
  have len: "length (wav_chunk (''fmt '', ?f)) = 8 + length ?f + length ?f mod 2" by (rule length_wav_chunk) simp
  have d': "drop off b = ''fmt '' @ le_bytes 4 (length ?f) @ ?f @ (if odd (length ?f) then [CHR 0x00] else []) @ after"
    using d by (simp add: wav_chunk_def)
  have h: "take 4 (drop off b) = ''fmt ''" "le_at (off + 4) 4 b = length ?f"
    using chunk_head [OF d' _ f32] by simp_all
  have n: "off + length (wav_chunk (''fmt '', ?f)) \<le> length b"
  proof -
    have "length (wav_chunk (''fmt '', ?f)) \<le> length b - off"
      using arg_cong [OF d, of length] by simp
    then show ?thesis using len by linarith
  qed
  have body: "drop (off + 8) b = ?f @ (if odd (length ?f) then [CHR 0x00] else []) @ after"
  proof -
    have "drop (off + 8) b = drop 8 (drop off b)" by (simp add: add.commute)
    then show ?thesis unfolding d' by simp
  qed
  have le: "le_value (le_bytes 2 1) = 1" "le_value (le_bytes 2 16) = 16"
    "le_value (le_bytes 2 (rec_channels r)) = rec_channels r" "le_value (le_bytes 4 (rec_rate r)) = rec_rate r"
    using r by (simp_all add: le_value_bytes)
  have fields: "le_at (off + 8) 2 b = 1" "le_at (off + 8 + 2) 2 b = rec_channels r"
    "le_at (off + 8 + 4) 4 b = rec_rate r" "le_at (off + 8 + 14) 2 b = 16"
    using le_at_drop [OF body, of 0 2] le_at_drop [OF body, of 2 2] le_at_drop [OF body, of 4 4]
      le_at_drop [OF body, of 14 2] le fill by (simp_all add: format_body_def)
  have "read_format b (off + 8) (length ?f) =
      Inr \<lparr>wf_tag = 1, wf_channels = rec_channels r, wf_rate = rec_rate r, wf_bits = 16\<rparr>"
    using fields n len fl by (simp add: read_format_def)
  moreover have "\<not> length b < off + 8" "\<not> length b < off + 8 + length ?f + length ?f mod 2" using n len by simp_all
  ultimately have "read_chunks b off fmt = read_chunks b (off + length (wav_chunk (''fmt '', ?f)))
      (Some \<lparr>wf_tag = 1, wf_channels = rec_channels r, wf_rate = rec_rate r, wf_bits = 16\<rparr>)"
    using h len unfolding read_chunks.simps [of b off fmt] by (simp add: Let_def add.assoc)
  moreover have "drop (off + length (wav_chunk (''fmt '', ?f))) b = after"
  proof -
    have "drop (off + length (wav_chunk (''fmt '', ?f))) b = drop (length (wav_chunk (''fmt '', ?f))) (drop off b)"
      by (simp add: add.commute)
    then show ?thesis using d by simp
  qed
  ultimately show ?thesis by blast
qed

text \<open>C29: A recording the checks can send is read back from every WAV file that holds it: with any
  chunks of other kinds before the format and between it and the samples, whatever the header says
  of the total size, whatever the byte rate, block size and extension of the format chunk are, and
  with anything after the samples.\<close>

theorem recordings_are_read_back:
  assumes r: "recording_ok r" and skip: "\<forall>c \<in> set (early @ between). skippable c"
    and len: "length sizes = 4" "length fill = 6" "length extra < 2 ^ 31"
  shows "read_recording (wav_file r sizes early fill extra between trailing) = Inr r"
proof -
  define b where "b = wav_file r sizes early fill extra between trailing"
  let ?fmt = "\<lparr>wf_tag = 1, wf_channels = rec_channels r, wf_rate = rec_rate r, wf_bits = 16\<rparr>"
  let ?tail = "''data'' @ le_bytes 4 (length (rec_pcm r)) @ rec_pcm r @ trailing"
  have pcm: "rec_pcm r \<noteq> []" "length (rec_pcm r) < 2 ^ 32" "length (rec_pcm r) \<noteq> 0xFFFFFFFF"
    using r by (auto simp: recording_ok_def)
  have head: "\<not> length b < 12" "take 4 b = ''RIFF''" "take 4 (drop 8 b) = ''WAVE''"
    and d0: "drop 12 b = concat (map wav_chunk early) @ wav_chunk (''fmt '', format_body r fill extra)
      @ concat (map wav_chunk between) @ ?tail"
    using len(1) by (auto simp: b_def wav_file_def)
  obtain o1 where o1: "drop o1 b = wav_chunk (''fmt '', format_body r fill extra) @ concat (map wav_chunk between) @ ?tail"
      "read_chunks b 12 None = read_chunks b o1 None"
    using read_chunks_skips [OF d0, of None] skip by auto
  obtain o2 where o2: "drop o2 b = concat (map wav_chunk between) @ ?tail"
      "read_chunks b o1 None = read_chunks b o2 (Some ?fmt)"
    using read_chunks_format [OF o1(1), of None] r len(2,3) by (auto simp: recording_ok_def)
  obtain o3 where o3: "drop o3 b = ?tail" "read_chunks b o2 (Some ?fmt) = read_chunks b o3 (Some ?fmt)"
    using read_chunks_skips [OF o2(1), of "Some ?fmt"] skip by auto
  have h: "take 4 (drop o3 b) = ''data''" "le_at (o3 + 4) 4 b = length (rec_pcm r)"
      "o3 + 8 + length (rec_pcm r @ trailing) = length b"
    using chunk_head [OF o3(1) _ pcm(2)] by simp_all
  have body: "drop (o3 + 8) b = rec_pcm r @ trailing"
  proof -
    have "drop (o3 + 8) b = drop 8 (drop o3 b)" by (simp add: add.commute)
    then show ?thesis unfolding o3(1) by simp
  qed
  have "read_chunks b o3 (Some ?fmt) = read_data b (o3 + 8) (length (rec_pcm r)) ?fmt"
    using h by (simp add: read_chunks.simps [of b o3] Let_def)
  also have "\<dots> = check_data (length (rec_pcm r)) (rec_pcm r) ?fmt"
    using pcm h(3) body by (simp add: read_data_def Let_def drop_take)
  also have "\<dots> = Inr r"
    using r by (auto simp: check_data_def recording_ok_def Let_def dvd_eq_mod_eq_0)
  finally show ?thesis using head o1(2) o2(2) o3(2) unfolding b_def [symmetric] by (simp add: read_recording_def)
qed

definition shortest_recording :: recording where
  "shortest_recording =
     \<lparr>rec_rate = 8000, rec_channels = 1, rec_pcm = replicate 1600 (CHR 0x00), rec_length = 100000000\<rparr>"

lemma recordings_are_read_back_witness:
  "read_recording (wav_file shortest_recording ''size'' [(''LIST'', ''odd'')] ''rate-2'' ''xx'' [(''fact'', [])] ''tail'')
     = Inr shortest_recording"
  by (rule recordings_are_read_back)
    (simp_all add: recording_ok_def shortest_recording_def skippable_def second_def
      min_check_recording_def max_check_recording_def)

theorem recordings_are_fit_to_send:
  "read_recording b = Inr r \<Longrightarrow> recording_ok r \<and> sublist (rec_pcm r) b"
  by (auto simp: read_recording_def split: if_splits dest: read_chunks_ok)

section \<open>The level of a reply\<close>

record level =
  level_sum :: "64 word"
  level_n :: "64 word"

definition no_level :: level where
  "no_level = \<lparr>level_sum = 0, level_n = 0\<rparr>"

definition sample :: "char \<Rightarrow> char \<Rightarrow> 16 word" where
  "sample a b = word_of_nat (le_value [a, b])"

fun level_add :: "level \<Rightarrow> bytes \<Rightarrow> level" where
  "level_add l (a # b # pcm) =
     level_add \<lparr>level_sum = level_sum l + scast (sample a b) * scast (sample a b), level_n = level_n l + 1\<rparr> pcm"
| "level_add l [a] = l"
| "level_add l [] = l"

text \<open>The samples a reply holds, as integers, and the sum of their squares.\<close>

fun samples_of :: "bytes \<Rightarrow> int list" where
  "samples_of (a # b # pcm) = sint (sample a b) # samples_of pcm"
| "samples_of _ = []"

lemma length_samples_of [simp]: "length (samples_of pcm) = length pcm div 2"
  by (induction pcm rule: samples_of.induct) simp_all

lemma sample_square: "(sint (sample a b))\<^sup>2 \<le> 2 ^ 30"
proof -
  have "\<bar>sint (sample a b)\<bar> \<le> 2 ^ 15"
    using sint_ge [of "sample a b"] sint_lt [of "sample a b"] by simp
  then have "\<bar>sint (sample a b)\<bar>\<^sup>2 \<le> (2 ^ 15)\<^sup>2" by (rule power_mono) simp
  then show ?thesis by simp
qed

lemma level_add_word:
  "level_sum (level_add l pcm) = level_sum l + word_of_int (\<Sum>s\<leftarrow>samples_of pcm. s\<^sup>2)
   \<and> level_n (level_add l pcm) = level_n l + word_of_nat (length pcm div 2)"
proof (induction l pcm rule: level_add.induct)
  case (1 l a b pcm)
  have sq: "(scast (sample a b) * scast (sample a b) :: 64 word) = word_of_int ((sint (sample a b))\<^sup>2)"
    unfolding scast_eq power2_eq_square of_int_mult by (rule refl)
  show ?case using "1.IH"
    by (simp only: level_add.simps samples_of.simps list.map sum_list.Cons of_int_add sq level.simps)
      (simp add: add.assoc)
qed simp_all

lemma squares_bound: "(\<Sum>s\<leftarrow>samples_of pcm. s\<^sup>2) \<le> int (length pcm div 2) * 2 ^ 30"
proof (induction pcm rule: samples_of.induct)
  case (1 a b pcm)
  with sample_square [of a b] show ?case by (simp add: algebra_simps)
qed simp_all

lemma squares_nonneg: "0 \<le> (\<Sum>s\<leftarrow>samples_of pcm. s\<^sup>2)"
  by (rule sum_list_nonneg) auto

text \<open>The level meter is exact: up to \<open>2 ^ 33 - 1\<close> samples, sixteen gigabytes, no sum of it wraps,
  and it holds the sum of the squares of the samples and their number.\<close>

theorem level_is_exact:
  assumes "length pcm div 2 < 2 ^ 33"
  shows "sint (level_sum (level_add no_level pcm)) = (\<Sum>s\<leftarrow>samples_of pcm. s\<^sup>2)
     \<and> sint (level_n (level_add no_level pcm)) = int (length (samples_of pcm))"
proof -
  let ?S = "\<Sum>s\<leftarrow>samples_of pcm. s\<^sup>2"
  have "?S \<le> int (length pcm div 2) * 2 ^ 30" by (rule squares_bound)
  also have "\<dots> \<le> (2 ^ 33 - 1) * 2 ^ 30" using assms by (intro mult_right_mono) auto
  finally have S: "?S < 2 ^ 63" by simp
  have "sint (word_of_int ?S :: 64 word) = ?S"
    using S squares_nonneg [of pcm] by (simp add: signed_of_int signed_take_bit_int_eq_self)
  moreover have "sint (word_of_nat (length pcm div 2) :: 64 word) = int (length pcm div 2)"
    using assms by (simp add: signed_of_nat signed_take_bit_int_eq_self)
  ultimately show ?thesis by (simp add: level_add_word no_level_def)
qed

lemma level_is_exact_witness:
  "sint (level_sum (level_add no_level [CHR 0x00, CHR 0x80])) = 2 ^ 30
   \<and> sint (level_n (level_add no_level [CHR 0x00, CHR 0x80])) = 1"
proof -
  have "le_value [CHR 0x00, CHR 0x80] = 32768" by simp
  then have "sample (CHR 0x00) (CHR 0x80) = word_of_nat 32768" by (simp only: sample_def)
  also have "sint (word_of_nat 32768 :: 16 word) = - 32768" by simp
  finally have "samples_of [CHR 0x00, CHR 0x80] = [- 32768]" by (simp only: samples_of.simps)
  moreover have "length [CHR 0x00, CHR 0x80] div 2 < 2 ^ 33" by simp
  note level_is_exact [OF this]
  ultimately show ?thesis by (simp only: list.map sum_list.Cons sum_list.Nil list.size) simp
qed

lemma level_in_pieces: "even (length p) \<Longrightarrow> level_add l (p @ q) = level_add (level_add l p) q"
  by (induction l p rule: level_add.induct) simp_all

end
