(* ===== verification/Versions.thy ===== *)
theory Versions
  imports Prelude
begin

text \<open>
  Host versions and the small declarations of \<open>pkg/aiiospkg\<close> that are lists of names:
  \<open>semver.go\<close>, \<open>variant_preference.go\<close>, \<open>schedule.go\<close> and the host window of
  \<open>author.go\<close>. A Go \<open>map[string]bool\<close> used as a set is a set; a regular expression
  is the predicate it stands for.
\<close>

section \<open>Host versions\<close>

definition all_digits :: "bytes \<Rightarrow> bool" where
  "all_digits s \<longleftrightarrow> s \<noteq> [] \<and> list_all is_digit s"

definition valid_host_version :: "bytes \<Rightarrow> bool" where
  "valid_host_version v \<longleftrightarrow>
     (let parts = split_on (CHR ''.'') v in length parts = 3 \<and> list_all all_digits parts)"

definition trim_zeros :: "bytes \<Rightarrow> bytes" where
  "trim_zeros s = dropWhile (\<lambda>c. c = CHR ''0'') s"

definition strings_compare :: "bytes \<Rightarrow> bytes \<Rightarrow> int" where
  "strings_compare a b = (if a = b then 0 else if a < b then - 1 else 1)"

definition compare_decimal :: "bytes \<Rightarrow> bytes \<Rightarrow> int" where
  "compare_decimal a0 b0 =
     (let a = trim_zeros a0; b = trim_zeros b0
      in if length a \<noteq> length b then (if length a < length b then - 1 else 1)
         else strings_compare a b)"

fun compare_parts :: "bytes list \<Rightarrow> bytes list \<Rightarrow> int" where
  "compare_parts (a # as) (b # bs) =
     (if compare_decimal a b \<noteq> 0 then compare_decimal a b else compare_parts as bs)"
| "compare_parts _ _ = 0"

definition compare_host_version :: "bytes \<Rightarrow> bytes \<Rightarrow> int" where
  "compare_host_version a b = compare_parts (split_on (CHR ''.'') a) (split_on (CHR ''.'') b)"

datatype window_error = NotAHostVersion bytes bytes | EmptyWindow bytes bytes

definition valid_host_window :: "bytes \<Rightarrow> bytes \<Rightarrow> window_error option" where
  "valid_host_window min_host max_host =
     (case first_error (\<lambda>b. if snd b \<noteq> [] \<and> \<not> valid_host_version (snd b)
                            then Some (NotAHostVersion (fst b) (snd b)) else None)
             [(''aiios_min_version'', min_host), (''aiios_max_exclusive_version'', max_host)] of
        Some e \<Rightarrow> Some e
      | None \<Rightarrow>
          if min_host = [] \<or> max_host = [] then None
          else if 0 \<le> compare_host_version min_host max_host then Some (EmptyWindow min_host max_host)
          else None)"

section \<open>Variant preference\<close>

datatype preference_error =
    PreferenceLength nat
  | PreferenceHost bytes
  | UnknownOrRepeated bytes
  | NotEveryVariant

definition variant_preference_min_host :: bytes where
  "variant_preference_min_host = ''0.1.12''"

fun preference_loop :: "bytes set \<Rightarrow> bytes set \<Rightarrow> bytes list \<Rightarrow> preference_error + bytes set" where
  "preference_loop variants seen [] = Inr seen"
| "preference_loop variants seen (v # vs) =
     (if v \<notin> variants \<or> v \<in> seen then Inl (UnknownOrRepeated v)
      else preference_loop variants (insert v seen) vs)"

definition validate_variant_preference ::
  "bytes list \<Rightarrow> bytes \<Rightarrow> bytes set \<Rightarrow> preference_error option" where
  "validate_variant_preference order min_host variants =
     (if length order = 0 \<or> 64 < length order then Some (PreferenceLength (length order))
      else if \<not> valid_host_version min_host
              \<or> compare_host_version min_host variant_preference_min_host < 0
      then Some (PreferenceHost min_host)
      else (case preference_loop variants {} order of
              Inl e \<Rightarrow> Some e
            | Inr seen \<Rightarrow> if card seen \<noteq> card variants then Some NotEveryVariant else None))"

section \<open>Schedules\<close>

record schedule_decl =
  sched_operation :: bytes
  every_seconds :: int

definition max_scheduled :: nat where "max_scheduled = 4"
definition min_schedule_every :: int where "min_schedule_every = 600"
definition max_schedule_every :: int where "max_schedule_every = 7 * 24 * 3600"

datatype schedule_error =
    TooManyScheduled nat
  | NoScheduledOperation
  | ScheduledTwice bytes
  | EverySecondsRange bytes
  | ScheduledUnknown bytes

fun schedule_loop :: "bytes set \<Rightarrow> schedule_decl list \<Rightarrow> schedule_error option" where
  "schedule_loop named [] = None"
| "schedule_loop named (d # ds) =
     (if sched_operation d = [] then Some NoScheduledOperation
      else if sched_operation d \<in> named then Some (ScheduledTwice (sched_operation d))
      else if every_seconds d < min_schedule_every \<or> max_schedule_every < every_seconds d
      then Some (EverySecondsRange (sched_operation d))
      else schedule_loop (insert (sched_operation d) named) ds)"

definition validate_schedule :: "schedule_decl list \<Rightarrow> schedule_error option" where
  "validate_schedule decls =
     (if max_scheduled < length decls then Some (TooManyScheduled (length decls))
      else schedule_loop {} decls)"

definition check_schedule_operations :: "schedule_decl list \<Rightarrow> bytes list \<Rightarrow> schedule_error option" where
  "check_schedule_operations decls operations =
     first_error (\<lambda>d. if sched_operation d \<notin> set operations
                      then Some (ScheduledUnknown (sched_operation d)) else None) decls"

section \<open>Versions compare as the numbers they write\<close>

definition version_numbers :: "bytes \<Rightarrow> nat list" where
  "version_numbers v = map digits_value (split_on (CHR ''.'') v)"

lemma digit_val_order: "is_digit c \<Longrightarrow> is_digit d \<Longrightarrow> (c < d \<longleftrightarrow> digit_val c < digit_val d) \<and> (c = d \<longleftrightarrow> digit_val c = digit_val d)"
  by (auto simp: is_digit_val byte_less_iff digit_val_def simp flip: byte_val_inject)

text \<open>Digit strings of one length order as their values.\<close>

lemma same_length_order:
  assumes "length a = length b" "list_all is_digit a" "list_all is_digit b"
  shows "(a < b \<longleftrightarrow> digits_value a < digits_value b) \<and> (a = b \<longleftrightarrow> digits_value a = digits_value b)"
  using assms
proof (induction a b rule: list_induct2)
  case (Cons c a d b)
  have o: "(c < d \<longleftrightarrow> digit_val c < digit_val d) \<and> (c = d \<longleftrightarrow> digit_val c = digit_val d)"
    using Cons.prems by (simp add: digit_val_order)
  have l: "digits_value a < 10 ^ length a" "digits_value b < 10 ^ length a"
    using digits_value_less [of a] digits_value_less [of b] Cons by simp_all
  have lt: "x * 10 ^ length a + p < y * 10 ^ length a + q" if "x < y" "p < 10 ^ length a" for x y p q :: nat
  proof -
    have "(x + 1) * 10 ^ length a \<le> y * 10 ^ length a" using that(1) by (intro mult_right_mono) simp_all
    then show ?thesis using that(2) by simp
  qed
  show ?case
  proof (cases "digit_val c" "digit_val d" rule: linorder_cases)
    case less
    then show ?thesis using o lt [OF less l(1), of "digits_value b"] Cons.hyps by (auto simp: digits_value_Cons)
  next
    case equal
    then show ?thesis using o Cons by (auto simp: digits_value_Cons)
  next
    case greater
    then show ?thesis using o lt [OF greater l(2), of "digits_value a"] Cons.hyps by (auto simp: digits_value_Cons)
  qed
qed simp

lemma trim_zeros_value [simp]: "digits_value (trim_zeros s) = digits_value s"
  by (induction s) (simp_all add: trim_zeros_def digits_value_Cons digit_val_def)

lemma trim_zeros_digits: "list_all is_digit s \<Longrightarrow> list_all is_digit (trim_zeros s)"
  by (induction s) (simp_all add: trim_zeros_def)

lemma trim_zeros_big:
  assumes "list_all is_digit s" "trim_zeros s = c # t"
  shows "10 ^ length t \<le> digits_value s"
proof -
  have "c \<noteq> CHR ''0''" using assms(2) hd_dropWhile [of "\<lambda>c. c = CHR ''0''" s] by (auto simp: trim_zeros_def)
  moreover have "is_digit c" using trim_zeros_digits [OF assms(1)] assms(2) by simp
  ultimately have "1 \<le> digit_val c" by (metis One_nat_def Suc_leI digit_char_0_iff digit_char_val digit_val_less neq0_conv)
  then have "1 * 10 ^ length t \<le> digit_val c * 10 ^ length t" by (rule mult_right_mono) simp
  moreover have "digits_value s = digit_val c * 10 ^ length t + digits_value t"
    using trim_zeros_value [of s] assms(2) digits_value_Cons by simp
  ultimately show ?thesis by linarith
qed

lemma compare_decimal_value:
  assumes "list_all is_digit a" "list_all is_digit b"
  shows "compare_decimal a b
    = (if digits_value a = digits_value b then 0 else if digits_value a < digits_value b then - 1 else 1)"
proof -
  have shorter: "digits_value x < digits_value y"
    if len: "length (trim_zeros x) < length (trim_zeros y)" and x: "list_all is_digit x" and y: "list_all is_digit y"
    for x y
  proof -
    obtain c t where t: "trim_zeros y = c # t" using len by (cases "trim_zeros y") simp_all
    have "digits_value x < 10 ^ length (trim_zeros x)"
      using digits_value_less [OF trim_zeros_digits [OF x]] by simp
    also have "\<dots> \<le> 10 ^ length t" using len t by (intro power_increasing) simp_all
    also have "\<dots> \<le> digits_value y" by (rule trim_zeros_big [OF y t])
    finally show ?thesis .
  qed
  show ?thesis
  proof (cases "length (trim_zeros a)" "length (trim_zeros b)" rule: linorder_cases)
    case less
    then show ?thesis using shorter [OF less assms] by (simp add: compare_decimal_def Let_def)
  next
    case equal
    then show ?thesis
      using same_length_order [OF equal trim_zeros_digits [OF assms(1)] trim_zeros_digits [OF assms(2)]]
      by (simp add: compare_decimal_def strings_compare_def Let_def)
  next
    case greater
    then show ?thesis using shorter [OF greater assms(2,1)] by (simp add: compare_decimal_def Let_def)
  qed
qed

lemma compare_parts_value:
  assumes "length as = length bs" "list_all (list_all is_digit) as" "list_all (list_all is_digit) bs"
  shows "compare_parts as bs = (if map digits_value as = map digits_value bs then 0
    else if map digits_value as < map digits_value bs then - 1 else 1)"
  using assms
proof (induction as bs rule: list_induct2)
  case (Cons a as b bs)
  then show ?case using compare_decimal_value [of a b] by auto
qed simp

lemma valid_host_parts:
  "valid_host_version v \<Longrightarrow> length (split_on (CHR ''.'') v) = 3 \<and> list_all (list_all is_digit) (split_on (CHR ''.'') v)"
  by (auto simp: valid_host_version_def Let_def all_digits_def list_all_iff)

section \<open>Properties\<close>

text \<open>host versions compare as the numbers they write: on two well-formed versions the result
  is the lexicographic comparison of (major, minor, patch) as naturals of any size, whatever zeros
  lead them, so it is 0 exactly when the triples are equal.\<close>

theorem versions_compare_as_numbers:
  assumes "valid_host_version a" "valid_host_version b"
  shows "compare_host_version a b = (if version_numbers a = version_numbers b then 0
    else if version_numbers a < version_numbers b then - 1 else 1)"
  using compare_parts_value [of "split_on (CHR ''.'') a" "split_on (CHR ''.'') b"]
    valid_host_parts [OF assms(1)] valid_host_parts [OF assms(2)]
  by (simp add: compare_host_version_def version_numbers_def)

theorem versions_compare_as_numbers_witness:
  "compare_host_version ''0.1.9'' ''00.1.12'' = - 1"
  using versions_compare_as_numbers [of "''0.1.9''" "''00.1.12''"]
  by (simp add: valid_host_version_def all_digits_def is_digit_def version_numbers_def digits_value_def
      digit_val_def less_eq_char_def)

lemma preference_loop_ok:
  "preference_loop variants seen order = Inr s \<longleftrightarrow>
     distinct order \<and> set order \<subseteq> variants \<and> set order \<inter> seen = {} \<and> s = seen \<union> set order"
  by (induction variants seen order rule: preference_loop.induct) auto

lemma schedule_loop_ok:
  "schedule_loop named ds = None \<longleftrightarrow>
     distinct (map sched_operation ds) \<and> set (map sched_operation ds) \<inter> named = {}
     \<and> (\<forall>d \<in> set ds. sched_operation d \<noteq> [] \<and> min_schedule_every \<le> every_seconds d
          \<and> every_seconds d \<le> max_schedule_every)"
  by (induction named ds rule: schedule_loop.induct) auto

text \<open>a variant preference is accepted exactly when it is an ordering of the declared variants:
  each named once, none left out, at most 64, on a host from 0.1.12 on.\<close>

theorem preference_is_an_ordering:
  assumes "finite variants"
  shows "validate_variant_preference order min_host variants = None \<longleftrightarrow>
    distinct order \<and> set order = variants \<and> order \<noteq> [] \<and> length order \<le> 64
    \<and> valid_host_version min_host \<and> 0 \<le> compare_host_version min_host variant_preference_min_host"
proof -
  have c: "set order \<subseteq> variants \<and> card (set order) = card variants \<longleftrightarrow> set order = variants"
    using assms card_subset_eq by blast
  show ?thesis
  proof (cases "preference_loop variants {} order")
    case (Inl e)
    then have "\<not> (distinct order \<and> set order \<subseteq> variants)"
      using preference_loop_ok [of variants "{}" order "set order"] by auto
    then show ?thesis using Inl by (auto simp: validate_variant_preference_def)
  next
    case (Inr seen)
    then have "distinct order" "set order \<subseteq> variants" "seen = set order"
      using preference_loop_ok [of variants "{}" order seen] by auto
    then show ?thesis using Inr c by (auto simp: validate_variant_preference_def not_less)
  qed
qed

theorem preference_is_an_ordering_witness:
  "validate_variant_preference [''b'', ''a''] ''0.1.12'' {''a'', ''b''} = None"
  using preference_is_an_ordering [of "{''a'', ''b''}" "[''b'', ''a'']" "''0.1.12''"]
  by (auto simp: valid_host_version_def all_digits_def is_digit_def less_eq_char_def
      variant_preference_min_host_def compare_host_version_def compare_decimal_def strings_compare_def)

end
