(* ===== verification/Declarations.thy ===== *)
theory Declarations
  imports Versions PkgTree JsonNumber Complex_Main
begin

text \<open>
  What a package declares beside its code, and its admission: \<open>settings.go\<close>,
  \<open>webhooks.go\<close> and \<open>subscriptions.go\<close> of \<open>pkg/aiiospkg\<close>. A value of
  type \<open>interface{}\<close> is a \<open>setting_value\<close> (absent and \<open>nil\<close> are \<open>None\<close>); a
  \<open>float64\<close> is a rational, an infinity or not a number. A Go map is an association list in
  the order its iteration happens to take.
\<close>

section \<open>Numbers\<close>

datatype fval = Fin rat | PosInf | NegInf | NaN

fun fval_less :: "fval \<Rightarrow> fval \<Rightarrow> bool" where
  "fval_less (Fin a) (Fin b) = (a < b)"
| "fval_less NegInf (Fin b) = True"
| "fval_less NegInf PosInf = True"
| "fval_less (Fin a) PosInf = True"
| "fval_less _ _ = False"

definition float_rat :: "binary_float \<Rightarrow> rat" where
  "float_rat f =
     (case f of (neg, q, k) \<Rightarrow>
        (let a = (if 0 \<le> k then of_nat q * 2 ^ nat k else of_nat q / 2 ^ nat (- k)) in if neg then - a else a))"

definition float_of_int :: "int \<Rightarrow> fval" where
  "float_of_int n = Fin (float_rat (n < 0, float_round 53 (-1074) (nat \<bar>n\<bar>) 0))"

definition whole_number :: "fval \<Rightarrow> bool" where
  "whole_number f = (case f of Fin r \<Rightarrow> of_int \<lfloor>r\<rfloor> = r | _ \<Rightarrow> False)"

section \<open>Settings\<close>

datatype setting_value =
    VString bytes
  | VBool bool
  | VFloat64 fval
  | VFloat32 fval
  | VInt int
  | VJsonNumber bytes
  | VOther

record setting_decl =
  s_key :: bytes
  s_type :: bytes
  s_title :: bytes
  s_description :: bytes
  s_default :: "setting_value option"
  s_values :: "bytes list"
  s_labels :: "(bytes \<times> bytes) list"
  s_required :: bool
  s_minimum :: "fval option"
  s_maximum :: "fval option"
  s_scope :: bytes
  s_oauth :: "(bytes \<times> bytes list) option"
  s_choices_from :: bytes

definition max_settings :: nat where "max_settings = 16"
definition max_setting_title_bytes :: nat where "max_setting_title_bytes = 64"
definition max_setting_desc_bytes :: nat where "max_setting_desc_bytes = 256"
definition max_setting_string_bytes :: nat where "max_setting_string_bytes = 1024"
definition max_setting_enum_values :: nat where "max_setting_enum_values = 256"
definition max_setting_label_bytes :: nat where "max_setting_label_bytes = 64"

definition re_class :: "(char \<Rightarrow> bool) \<Rightarrow> (char \<Rightarrow> bool) \<Rightarrow> nat \<Rightarrow> bytes \<Rightarrow> bool" where
  "re_class first rest n s =
     (case s of [] \<Rightarrow> False | c # cs \<Rightarrow> first c \<and> list_all rest cs \<and> length cs \<le> n)"

definition re_setting_key :: "bytes \<Rightarrow> bool" where
  "re_setting_key = re_class is_lower (\<lambda>c. is_lower c \<or> is_digit c \<or> c = CHR ''_'') 31"

definition re_setting_handle :: "bytes \<Rightarrow> bool" where
  "re_setting_handle = re_class (\<lambda>c. is_upper c \<or> is_lower c \<or> is_digit c)
     (\<lambda>c. is_upper c \<or> is_lower c \<or> is_digit c \<or> c \<in> {CHR ''_'', CHR ''.'', CHR ''-''}) 63"

definition re_setting_operation :: "bytes \<Rightarrow> bool" where
  "re_setting_operation = re_class is_lower
     (\<lambda>c. is_lower c \<or> is_digit c \<or> c \<in> {CHR ''_'', CHR ''.'', CHR ''-''}) 63"

datatype value_error =
    NotAString | StringTooLong | NotANumber | NotWhole | BelowMinimum | AboveMaximum
  | NotABool | NotAnEnumValue | NotAHandle | UndeclaredType

definition setting_number :: "setting_value \<Rightarrow> fval option" where
  "setting_number v =
     (let f = (case v of
                 VFloat64 f \<Rightarrow> Some f
               | VFloat32 f \<Rightarrow> Some f
               | VInt n \<Rightarrow> Some (float_of_int n)
               | VJsonNumber s \<Rightarrow> map_option (\<lambda>b. Fin (float_rat b)) (parse_float64 s)
               | _ \<Rightarrow> None)
      in case f of Some (Fin r) \<Rightarrow> Some (Fin r) | _ \<Rightarrow> None)"

definition check_setting_value :: "setting_decl \<Rightarrow> setting_value \<Rightarrow> value_error option" where
  "check_setting_value d v =
     (if s_type d = ''string'' then
        (case v of VString s \<Rightarrow> if max_setting_string_bytes < length s then Some StringTooLong else None
                 | _ \<Rightarrow> Some NotAString)
      else if s_type d = ''number'' \<or> s_type d = ''integer'' then
        (case setting_number v of
           None \<Rightarrow> Some NotANumber
         | Some f \<Rightarrow>
             if s_type d = ''integer'' \<and> \<not> whole_number f then Some NotWhole
             else if (case s_minimum d of Some m \<Rightarrow> fval_less f m | None \<Rightarrow> False) then Some BelowMinimum
             else if (case s_maximum d of Some m \<Rightarrow> fval_less m f | None \<Rightarrow> False) then Some AboveMaximum
             else None)
      else if s_type d = ''boolean'' then (case v of VBool b \<Rightarrow> None | _ \<Rightarrow> Some NotABool)
      else if s_type d = ''enum'' then
        (case v of VString s \<Rightarrow> if s \<in> set (s_values d) then None else Some NotAnEnumValue
                 | _ \<Rightarrow> Some NotAnEnumValue)
      else if s_type d = ''secret'' then
        (case v of VString s \<Rightarrow> if re_setting_handle s then None else Some NotAHandle
                 | _ \<Rightarrow> Some NotAHandle)
      else Some UndeclaredType)"

datatype setting_error =
    TooManySettings nat
  | SettingKey bytes
  | SettingTwice bytes
  | SettingTitle bytes
  | SettingDescription bytes
  | SettingType bytes
  | SettingScope bytes
  | OAuthNotSecret bytes
  | OAuthProvider bytes
  | OAuthServices bytes
  | OAuthService bytes bytes
  | ChoicesNotString bytes
  | ChoicesOperation bytes
  | EnumCount bytes
  | EnumValues bytes
  | LabelUnknown bytes bytes
  | LabelLength bytes
  | ValuesNotEnum bytes
  | LabelsNotEnum bytes
  | BoundsNotNumber bytes
  | BoundsOrder bytes
  | BoundsWhole bytes
  | SecretDefault bytes
  | SettingDefault bytes value_error
  | ChoicesUnknown bytes

definition check_oauth :: "setting_decl \<Rightarrow> setting_error option" where
  "check_oauth d =
     (case s_oauth d of
        None \<Rightarrow> None
      | Some (provider, services) \<Rightarrow>
          if s_type d \<noteq> ''secret'' then Some (OAuthNotSecret (s_key d))
          else if \<not> re_setting_handle provider then Some (OAuthProvider (s_key d))
          else if max_setting_enum_values < length services then Some (OAuthServices (s_key d))
          else first_error (\<lambda>v. if re_setting_key v then None else Some (OAuthService (s_key d) v)) services)"

definition check_choices :: "setting_decl \<Rightarrow> setting_error option" where
  "check_choices d =
     (if s_choices_from d = [] then None
      else if s_type d \<noteq> ''string'' then Some (ChoicesNotString (s_key d))
      else if \<not> re_setting_operation (s_choices_from d) then Some (ChoicesOperation (s_key d))
      else None)"

fun enum_values_loop :: "bytes \<Rightarrow> bytes set \<Rightarrow> bytes list \<Rightarrow> setting_error + bytes set" where
  "enum_values_loop key vs [] = Inr vs"
| "enum_values_loop key vs (v # rest) =
     (if v = [] \<or> max_setting_title_bytes < length v \<or> v \<in> vs then Inl (EnumValues key)
      else enum_values_loop key (insert v vs) rest)"

definition check_enum :: "setting_decl \<Rightarrow> setting_error option" where
  "check_enum d =
     (if s_type d = ''enum'' then
        (if s_values d = [] \<or> max_setting_enum_values < length (s_values d) then Some (EnumCount (s_key d))
         else (case enum_values_loop (s_key d) {} (s_values d) of
                 Inl e \<Rightarrow> Some e
               | Inr vs \<Rightarrow>
                   first_error (\<lambda>(v, label). if v \<notin> vs then Some (LabelUnknown (s_key d) v)
                       else if label = [] \<or> max_setting_label_bytes < length label then Some (LabelLength (s_key d))
                       else None) (s_labels d)))
      else if s_values d \<noteq> [] then Some (ValuesNotEnum (s_key d))
      else if s_labels d \<noteq> [] then Some (LabelsNotEnum (s_key d))
      else None)"

definition check_bounds :: "setting_decl \<Rightarrow> setting_error option" where
  "check_bounds d =
     (let numeric = s_type d = ''number'' \<or> s_type d = ''integer''
      in if \<not> numeric \<and> (s_minimum d \<noteq> None \<or> s_maximum d \<noteq> None) then Some (BoundsNotNumber (s_key d))
         else if (case (s_minimum d, s_maximum d) of (Some lo, Some hi) \<Rightarrow> fval_less hi lo | _ \<Rightarrow> False)
         then Some (BoundsOrder (s_key d))
         else if s_type d = ''integer''
              \<and> (\<exists>b \<in> set [s_minimum d, s_maximum d]. case b of Some f \<Rightarrow> \<not> whole_number f | None \<Rightarrow> False)
         then Some (BoundsWhole (s_key d))
         else None)"

definition check_default :: "setting_decl \<Rightarrow> setting_error option" where
  "check_default d =
     (case s_default d of
        None \<Rightarrow> None
      | Some v \<Rightarrow>
          if s_type d = ''secret'' then Some (SecretDefault (s_key d))
          else map_option (SettingDefault (s_key d)) (check_setting_value d v))"

definition setting_types :: "bytes list" where
  "setting_types = [''string'', ''number'', ''integer'', ''boolean'', ''enum'', ''secret'']"

definition setting_scopes :: "bytes list" where
  "setting_scopes = [[], ''hearing'', ''speaking'', ''session'']"

definition check_setting :: "setting_decl \<Rightarrow> setting_error option" where
  "check_setting d =
     (if s_title d = [] \<or> max_setting_title_bytes < length (s_title d) then Some (SettingTitle (s_key d))
      else if max_setting_desc_bytes < length (s_description d) then Some (SettingDescription (s_key d))
      else if s_type d \<notin> set setting_types then Some (SettingType (s_key d))
      else if s_scope d \<notin> set setting_scopes then Some (SettingScope (s_key d))
      else first_error (\<lambda>check. check d) [check_oauth, check_choices, check_enum, check_bounds, check_default])"

fun settings_loop :: "bytes set \<Rightarrow> setting_decl list \<Rightarrow> setting_error option" where
  "settings_loop seen [] = None"
| "settings_loop seen (d # ds) =
     (if \<not> re_setting_key (s_key d) then Some (SettingKey (s_key d))
      else if s_key d \<in> seen then Some (SettingTwice (s_key d))
      else (case check_setting d of
              Some e \<Rightarrow> Some e
            | None \<Rightarrow> settings_loop (insert (s_key d) seen) ds))"

definition validate_settings :: "setting_decl list \<Rightarrow> setting_error option" where
  "validate_settings decls =
     (if max_settings < length decls then Some (TooManySettings (length decls)) else settings_loop {} decls)"

definition effective_setting ::
  "(bytes \<Rightarrow> setting_value option) \<Rightarrow> setting_decl \<Rightarrow> (bytes \<Rightarrow> setting_value option) \<Rightarrow> bytes \<Rightarrow> setting_value option" where
  "effective_setting vals d out =
     (let out1 = (case s_default d of Some v \<Rightarrow> out(s_key d \<mapsto> v) | None \<Rightarrow> out)
      in case vals (s_key d) of
           Some v \<Rightarrow> if check_setting_value d v = None then out1(s_key d \<mapsto> v) else out1
         | None \<Rightarrow> out1)"

definition effective_settings ::
  "setting_decl list \<Rightarrow> (bytes \<Rightarrow> setting_value option) \<Rightarrow> bytes \<Rightarrow> setting_value option" where
  "effective_settings decls vals = fold (effective_setting vals) decls (\<lambda>_. None)"

definition check_setting_operations :: "setting_decl list \<Rightarrow> bytes list \<Rightarrow> setting_error option" where
  "check_setting_operations decls operations =
     first_error (\<lambda>d. if s_choices_from d \<noteq> [] \<and> s_choices_from d \<notin> set operations
                      then Some (ChoicesUnknown (s_key d)) else None) decls"

section \<open>Webhooks\<close>

record webhook_signature =
  w_scheme :: bytes
  w_header :: bytes
  w_prefix :: bytes
  w_secret_setting :: bytes
  w_email_setting :: bytes

record webhook_decl =
  w_path :: bytes
  w_operation :: bytes
  w_signature :: "webhook_signature option"
  w_max_body_bytes :: int

definition max_webhooks :: nat where "max_webhooks = 16"
definition max_webhook_bytes :: int where "max_webhook_bytes = 256 * 1024"

definition re_webhook_path :: "bytes \<Rightarrow> bool" where
  "re_webhook_path s =
     (let segs = split_on (CHR ''/'') s
      in length segs \<le> 4
         \<and> list_all (re_class (\<lambda>c. is_lower c \<or> is_digit c)
              (\<lambda>c. is_lower c \<or> is_digit c \<or> c = CHR ''_'' \<or> c = CHR ''-'') 63) segs)"

definition re_header_name :: "bytes \<Rightarrow> bool" where
  "re_header_name = re_class (\<lambda>c. is_upper c \<or> is_lower c \<or> is_digit c \<or> c = CHR ''-'')
     (\<lambda>c. is_upper c \<or> is_lower c \<or> is_digit c \<or> c = CHR ''-'') 63"

datatype webhook_error =
    TooManyWebhooks nat
  | WebhookPath bytes
  | WebhookTwice bytes
  | WebhookNoOperation bytes
  | WebhookUnsigned bytes
  | WebhookScheme bytes
  | WebhookHeader bytes
  | WebhookPrefix bytes
  | OidcHeader bytes
  | OidcSecret bytes
  | OidcEmail bytes
  | EmailNotOidc bytes
  | WebhookSecret bytes
  | WebhookBody bytes
  | WebhookUnknown bytes

definition webhook_schemes :: "bytes list" where
  "webhook_schemes = [''hmac-sha256-hex'', ''hmac-sha256-base64'', ''twilio'', ''token'', ''google-oidc'']"

definition check_signature :: "bytes set \<Rightarrow> bytes set \<Rightarrow> bytes \<Rightarrow> webhook_signature \<Rightarrow> webhook_error option" where
  "check_signature secrets strs path g =
     (if w_scheme g \<notin> set webhook_schemes then Some (WebhookScheme path)
      else if \<not> re_header_name (w_header g) then Some (WebhookHeader path)
      else if 32 < length (w_prefix g) then Some (WebhookPrefix path)
      else if w_scheme g = ''google-oidc''
      then (if lower_bytes (w_header g) \<noteq> ''authorization'' \<or> w_prefix g \<noteq> ''Bearer '' then Some (OidcHeader path)
            else if w_secret_setting g \<noteq> [] then Some (OidcSecret path)
            else if w_email_setting g \<notin> strs then Some (OidcEmail path)
            else None)
      else (if w_email_setting g \<noteq> [] then Some (EmailNotOidc path)
            else if w_secret_setting g \<notin> secrets then Some (WebhookSecret path)
            else None))"

fun webhooks_loop :: "bytes set \<Rightarrow> bytes set \<Rightarrow> bytes set \<Rightarrow> webhook_decl list \<Rightarrow> webhook_error option" where
  "webhooks_loop secrets strs paths [] = None"
| "webhooks_loop secrets strs paths (d # ds) =
     (if \<not> re_webhook_path (w_path d) then Some (WebhookPath (w_path d))
      else if w_path d \<in> paths then Some (WebhookTwice (w_path d))
      else if w_operation d = [] then Some (WebhookNoOperation (w_path d))
      else (case w_signature d of
              None \<Rightarrow> Some (WebhookUnsigned (w_path d))
            | Some g \<Rightarrow>
                (case check_signature secrets strs (w_path d) g of
                   Some e \<Rightarrow> Some e
                 | None \<Rightarrow>
                     if w_max_body_bytes d < 0 \<or> max_webhook_bytes < w_max_body_bytes d
                     then Some (WebhookBody (w_path d))
                     else webhooks_loop secrets strs (insert (w_path d) paths) ds)))"

definition settings_of_type :: "bytes \<Rightarrow> setting_decl list \<Rightarrow> bytes set" where
  "settings_of_type ty settings = set (map s_key (filter (\<lambda>s. s_type s = ty) settings))"

definition validate_webhooks :: "webhook_decl list \<Rightarrow> setting_decl list \<Rightarrow> webhook_error option" where
  "validate_webhooks decls settings =
     (if max_webhooks < length decls then Some (TooManyWebhooks (length decls))
      else webhooks_loop (settings_of_type ''secret'' settings) (settings_of_type ''string'' settings) {} decls)"

definition check_webhook_operations :: "webhook_decl list \<Rightarrow> bytes list \<Rightarrow> webhook_error option" where
  "check_webhook_operations decls operations =
     first_error (\<lambda>d. if w_operation d \<notin> set operations then Some (WebhookUnknown (w_path d)) else None) decls"

section \<open>Subscriptions\<close>

record subscription_decl =
  sub_topic :: bytes
  sub_delivery :: bytes
  sub_operation :: bytes
  sub_filter :: "(bytes \<times> bytes) list"

definition max_subscriptions :: nat where "max_subscriptions = 16"

definition topics :: "bytes list" where
  "topics = [''tool.called'', ''turn.started'', ''turn.ended'', ''ledger.appended'', ''alarm.fired'',
     ''work.started'', ''work.delivered'', ''work.harvested'', ''subagent.spawned'']"

datatype subscription_error =
    TooManySubscriptions nat
  | CalibrationUnsupported bytes
  | TopicUnknown bytes
  | SubscriptionNoOperation bytes
  | FilterFields bytes
  | FilterField bytes bytes
  | CalibrationShared
  | SubscriptionUnknown bytes bytes

text \<open>The loop carries \<open>calTarget\<close> and returns it.\<close>

fun subscriptions_loop :: "bytes \<Rightarrow> subscription_decl list \<Rightarrow> subscription_error + bytes" where
  "subscriptions_loop cal [] = Inr cal"
| "subscriptions_loop cal (d # ds) =
     (if sub_delivery d \<noteq> [] \<and> (sub_delivery d \<noteq> ''calibration_v1'' \<or> sub_topic d \<noteq> ''tool.called''
         \<or> length (sub_filter d) \<noteq> 0 \<or> cal \<noteq> [])
      then Inl (CalibrationUnsupported (sub_topic d))
      else if sub_topic d \<notin> set topics then Inl (TopicUnknown (sub_topic d))
      else if sub_operation d = [] then Inl (SubscriptionNoOperation (sub_topic d))
      else if 8 < length (sub_filter d) then Inl (FilterFields (sub_topic d))
      else (case first_error (\<lambda>(k, v). if \<not> re_setting_key k \<or> 256 < length v
                     then Some (FilterField (sub_topic d) k) else None) (sub_filter d) of
              Some e \<Rightarrow> Inl e
            | None \<Rightarrow> subscriptions_loop (if sub_delivery d \<noteq> [] then sub_operation d else cal) ds))"

definition validate_subscriptions :: "subscription_decl list \<Rightarrow> subscription_error option" where
  "validate_subscriptions decls =
     (if max_subscriptions < length decls then Some (TooManySubscriptions (length decls))
      else (case subscriptions_loop [] decls of
              Inl e \<Rightarrow> Some e
            | Inr cal \<Rightarrow>
                if cal \<noteq> [] \<and> length (filter (\<lambda>d. sub_operation d = cal) decls) \<noteq> 1 then Some CalibrationShared
                else None))"

definition check_subscription_operations :: "subscription_decl list \<Rightarrow> bytes list \<Rightarrow> subscription_error option" where
  "check_subscription_operations decls operations =
     first_error (\<lambda>d. if sub_operation d \<notin> set operations
                      then Some (SubscriptionUnknown (sub_topic d) (sub_operation d)) else None) decls"

section \<open>Properties\<close>

lemma settings_loop_ok:
  "settings_loop seen ds = None \<longleftrightarrow>
     distinct (map s_key ds) \<and> set (map s_key ds) \<inter> seen = {}
     \<and> (\<forall>d \<in> set ds. re_setting_key (s_key d) \<and> check_setting d = None)"
  by (induction seen ds rule: settings_loop.induct) (auto split: option.splits)

lemma check_setting_default:
  assumes "check_setting d = None" "s_default d = Some v"
  shows "check_setting_value d v = None" "s_type d \<noteq> ''secret''"
proof -
  have "check_default d = None"
    using assms(1) by (simp add: check_setting_def del: first_error.simps split: if_splits)
  then show "check_setting_value d v = None" "s_type d \<noteq> ''secret''"
    using assms(2) by (auto simp: check_default_def split: if_splits)
qed

definition setting_in_force :: "(bytes \<Rightarrow> setting_value option) \<Rightarrow> setting_decl \<Rightarrow> setting_value option" where
  "setting_in_force vals d =
     (case vals (s_key d) of
        Some v \<Rightarrow> if check_setting_value d v = None then Some v else s_default d
      | None \<Rightarrow> s_default d)"

lemma effective_setting_key:
  "effective_setting vals d out k =
     (if k = s_key d then (case setting_in_force vals d of Some v \<Rightarrow> Some v | None \<Rightarrow> out k) else out k)"
  by (auto simp: effective_setting_def setting_in_force_def Let_def split: option.splits)

lemma effective_settings_fold:
  assumes "distinct (map s_key ds)"
  shows "fold (effective_setting vals) ds out k =
     (case find (\<lambda>d. s_key d = k) ds of
        None \<Rightarrow> out k
      | Some d \<Rightarrow> (case setting_in_force vals d of Some v \<Rightarrow> Some v | None \<Rightarrow> out k))"
  using assms
proof (induction ds arbitrary: out)
  case (Cons d ds)
  have "find (\<lambda>e. s_key e = k) ds = None" if "s_key d = k"
    using that Cons.prems by (auto simp: find_None_iff image_iff)
  then show ?case using Cons by (simp add: effective_setting_key split: option.splits)
qed simp

lemma find_distinct:
  "distinct (map f xs) \<Longrightarrow> x \<in> set xs \<Longrightarrow> find (\<lambda>y. f y = f x) xs = Some x"
  by (induction xs) (auto simp: rev_image_eqI)

text \<open>C33: the settings a plugin gets are the ones its package admits. With admitted declarations,
  the value in force for a declared key is the operator's when it fits the declaration and the
  default otherwise; every value handed over passes the check of the declaration of its key, and a
  key no declaration names is never handed over, whatever the operator wrote.\<close>

theorem effective_settings_are_admitted:
  assumes "validate_settings decls = None"
  shows "(\<forall>d \<in> set decls. effective_settings decls vals (s_key d) =
       (case vals (s_key d) of
          Some v \<Rightarrow> if check_setting_value d v = None then Some v else s_default d
        | None \<Rightarrow> s_default d))
    \<and> (\<forall>k v. effective_settings decls vals k = Some v \<longrightarrow>
         (\<exists>d \<in> set decls. s_key d = k \<and> check_setting_value d v = None))"
proof -
  have ok: "distinct (map s_key decls)" "\<And>d. d \<in> set decls \<Longrightarrow> check_setting d = None"
    using assms by (auto simp: validate_settings_def settings_loop_ok split: if_splits)
  have eff: "effective_settings decls vals k =
      (case find (\<lambda>d. s_key d = k) decls of None \<Rightarrow> None | Some d \<Rightarrow> setting_in_force vals d)" for k
    using effective_settings_fold [OF ok(1), of vals "\<lambda>_. None" k]
    by (simp add: effective_settings_def split: option.splits)
  show ?thesis
  proof (intro conjI ballI allI impI)
    fix d
    assume "d \<in> set decls"
    then show "effective_settings decls vals (s_key d) =
       (case vals (s_key d) of
          Some v \<Rightarrow> if check_setting_value d v = None then Some v else s_default d
        | None \<Rightarrow> s_default d)"
      using find_distinct [OF ok(1)] by (simp add: eff setting_in_force_def)
  next
    fix k v
    assume "effective_settings decls vals k = Some v"
    then obtain d where d: "find (\<lambda>d. s_key d = k) decls = Some d" "setting_in_force vals d = Some v"
      by (auto simp: eff split: option.splits)
    then have m: "d \<in> set decls" "s_key d = k" by (auto simp: find_Some_iff)
    have "check_setting_value d v = None"
      using d(2) check_setting_default(1) [OF ok(2) [OF m(1)]]
      by (auto simp: setting_in_force_def split: option.splits if_splits)
    then show "\<exists>d \<in> set decls. s_key d = k \<and> check_setting_value d v = None" using m by blast
  qed
qed

definition voice_setting :: setting_decl where
  "voice_setting = \<lparr>s_key = ''voice'', s_type = ''enum'', s_title = ''Voice'', s_description = [],
     s_default = Some (VString ''amy''), s_values = [''amy'', ''bob''], s_labels = [], s_required = False,
     s_minimum = None, s_maximum = None, s_scope = [], s_oauth = None, s_choices_from = []\<rparr>"

theorem effective_settings_are_admitted_witness:
  "effective_settings [voice_setting] [''voice'' \<mapsto> VString ''eve''] ''voice'' = Some (VString ''amy'')"
proof -
  have "validate_settings [voice_setting] = None"
    by (simp add: validate_settings_def voice_setting_def check_setting_def check_oauth_def check_choices_def
        check_enum_def check_bounds_def check_default_def check_setting_value_def re_setting_key_def re_class_def
        byte_defs less_eq_char_def setting_types_def setting_scopes_def max_settings_def
        max_setting_title_bytes_def max_setting_desc_bytes_def max_setting_enum_values_def)
  from effective_settings_are_admitted [OF this, of "[''voice'' \<mapsto> VString ''eve'']"]
  show ?thesis by (simp add: voice_setting_def check_setting_value_def)
qed

end
