(* ===== verification/SessionJudge.thy ===== *)
theory SessionJudge
  imports GoText Declarations "HOL-Library.Word" "HOL-Library.Signed_Division"
begin

text \<open>
  How a session check is judged (\<open>Normalize\<close>, \<open>JudgeSession\<close> and \<open>containsRun\<close> of
  \<open>pkg/aiiospkg/session_checks.go\<close>). The tables of Go's \<open>unicode\<close> package are an argument: what is
  a letter, a digit, a nonspacing mark, and the lower case of a rune. The words of a verdict are the
  arguments of the format they are printed with.
\<close>

record unicode =
  u_lower :: "nat \<Rightarrow> nat"
  u_letter :: "nat \<Rightarrow> bool"
  u_digit :: "nat \<Rightarrow> bool"
  u_mark :: "nat \<Rightarrow> bool"

section \<open>Words\<close>

definition encode_runes :: "nat list \<Rightarrow> bytes" where
  "encode_runes rs = concat (map encode_rune rs)"

definition fields :: "bytes \<Rightarrow> bytes list" where
  "fields s = map encode_runes (rune_fields (runes s))"

definition contractions :: "(bytes \<times> bytes) list" where
  "contractions =
     [(''don'' @ [CHR 0x27] @ ''t'', ''do not''), (''won'' @ [CHR 0x27] @ ''t'', ''will not''),
      (''can'' @ [CHR 0x27] @ ''t'', ''cannot''), (''isn'' @ [CHR 0x27] @ ''t'', ''is not''),
      (''aren'' @ [CHR 0x27] @ ''t'', ''are not''), (''wasn'' @ [CHR 0x27] @ ''t'', ''was not''),
      (''weren'' @ [CHR 0x27] @ ''t'', ''were not''), (''doesn'' @ [CHR 0x27] @ ''t'', ''does not''),
      (''didn'' @ [CHR 0x27] @ ''t'', ''did not''), (''couldn'' @ [CHR 0x27] @ ''t'', ''could not''),
      (''shouldn'' @ [CHR 0x27] @ ''t'', ''should not''), (''wouldn'' @ [CHR 0x27] @ ''t'', ''would not''),
      (''haven'' @ [CHR 0x27] @ ''t'', ''have not''), (''hasn'' @ [CHR 0x27] @ ''t'', ''has not''),
      (''it'' @ [CHR 0x27] @ ''s'', ''it is''), (''that'' @ [CHR 0x27] @ ''s'', ''that is''),
      (''there'' @ [CHR 0x27] @ ''s'', ''there is''), (''what'' @ [CHR 0x27] @ ''s'', ''what is''),
      (''here'' @ [CHR 0x27] @ ''s'', ''here is''), (''he'' @ [CHR 0x27] @ ''s'', ''he is''),
      (''she'' @ [CHR 0x27] @ ''s'', ''she is''), (''who'' @ [CHR 0x27] @ ''s'', ''who is''),
      (''i'' @ [CHR 0x27] @ ''m'', ''i am''), (''i'' @ [CHR 0x27] @ ''ve'', ''i have''),
      (''i'' @ [CHR 0x27] @ ''ll'', ''i will''), (''i'' @ [CHR 0x27] @ ''d'', ''i would''),
      (''we'' @ [CHR 0x27] @ ''re'', ''we are''), (''we'' @ [CHR 0x27] @ ''ve'', ''we have''),
      (''we'' @ [CHR 0x27] @ ''ll'', ''we will''), (''they'' @ [CHR 0x27] @ ''re'', ''they are''),
      (''they'' @ [CHR 0x27] @ ''ve'', ''they have''), (''they'' @ [CHR 0x27] @ ''ll'', ''they will''),
      (''you'' @ [CHR 0x27] @ ''re'', ''you are''), (''you'' @ [CHR 0x27] @ ''ve'', ''you have''),
      (''you'' @ [CHR 0x27] @ ''ll'', ''you will''), (''let'' @ [CHR 0x27] @ ''s'', ''let us'')]"

definition digit_word :: "char \<Rightarrow> bytes" where
  "digit_word c =
     [''zero'', ''one'', ''two'', ''three'', ''four'', ''five'', ''six'', ''seven'', ''eight'', ''nine''] ! digit_val c"

definition all_ascii_digits :: "bytes \<Rightarrow> bool" where
  "all_ascii_digits w \<longleftrightarrow> w \<noteq> [] \<and> list_all is_digit w"

text \<open>What one rune of the lowered text is written as: itself, an apostrophe, or a space.\<close>

definition word_rune :: "unicode \<Rightarrow> nat \<Rightarrow> nat" where
  "word_rune u r =
     (if u_letter u r \<or> u_digit u r \<or> u_mark u r then r
      else if r = 0x27 \<or> r = 0x2019 then 0x27 else 0x20)"

definition word_out :: "bytes \<Rightarrow> bytes list" where
  "word_out w =
     (case map_of contractions w of
        Some expanded \<Rightarrow> fields expanded
      | None \<Rightarrow>
          (let bare = filter (\<lambda>c. c \<noteq> CHR 0x27) w
           in if all_ascii_digits bare then map digit_word bare else if bare \<noteq> [] then [bare] else []))"

definition normalize :: "unicode \<Rightarrow> bytes \<Rightarrow> bytes list" where
  "normalize u s =
     concat (map (\<lambda>w. word_out (encode_runes w)) (rune_fields (map (\<lambda>r. word_rune u (u_lower u r)) (runes s))))"

section \<open>Judging an answer\<close>

record audio_floor =
  floor_ms :: int
  floor_dbfs :: fval

record events_expect =
  x_order :: "bytes list"
  x_phrases :: "bytes list"
  x_floor :: "audio_floor option"

record session_event =
  se_type :: bytes
  se_text :: bytes
  se_withheld :: bool
  se_synthesis :: bytes
  se_reason :: bytes
  se_code :: bytes
  se_retry :: bool

record session_refusal =
  sr_control :: bytes
  sr_words :: bytes

record session_answer =
  sa_events :: "session_event list"
  sa_complete :: bool
  sa_refused :: "session_refusal option"
  sa_synthesis :: bytes
  sa_samples :: int
  sa_rate :: int
  sa_level :: fval

datatype session_outcome = Passed | Wrong | TimedOut

datatype verdict_words =
    NoWords
  | EngineRefused bytes bytes
  | FailedRetry bytes bytes
  | FailedForGood bytes bytes
  | CancelledOwn bytes bytes
  | EndedEarly bytes bytes
  | ReplyNeverEnded
  | InputNeverFinished
  | ExpectsNothing
  | LacksEvent bytes "bytes list" "bytes list"
  | LacksPhrase bytes "bytes list" nat
  | TooShort int int
  | Silent fval
  | TooQuiet fval fval

definition event_verdict :: "session_answer \<Rightarrow> session_event \<Rightarrow> (session_outcome \<times> verdict_words) option" where
  "event_verdict a ev =
     (if se_type ev = ''failure'' \<and> se_retry ev then Some (TimedOut, FailedRetry (se_reason ev) (se_code ev))
      else if se_type ev = ''failure'' then Some (Wrong, FailedForGood (se_reason ev) (se_code ev))
      else if (se_type ev = ''synthesis_cancelled'' \<or> se_type ev = ''cancellation'')
          \<and> se_synthesis ev \<noteq> [] \<and> se_synthesis ev = sa_synthesis a
        then Some (Wrong, CancelledOwn (se_reason ev) (se_code ev))
      else if se_type ev = ''session_end'' \<or> (se_type ev = ''cancellation'' \<and> se_synthesis ev = [])
        then Some (Wrong, EndedEarly (se_reason ev) (se_code ev))
      else None)"

text \<open>The order loop: the events still asked for, and the types said so far.\<close>

fun order_loop :: "bytes list \<Rightarrow> bytes list \<Rightarrow> session_event list \<Rightarrow> bytes list \<times> bytes list" where
  "order_loop asked said [] = (asked, said)"
| "order_loop asked said (ev # evs) =
     (if se_withheld ev then order_loop asked said evs
      else if asked \<noteq> [] \<and> se_type ev = hd asked then order_loop (tl asked) (said @ [se_type ev]) evs
      else order_loop asked (said @ [se_type ev]) evs)"

fun transcript_loop :: "bytes list \<Rightarrow> nat \<Rightarrow> session_event list \<Rightarrow> bytes list \<times> nat" where
  "transcript_loop texts withheld [] = (texts, withheld)"
| "transcript_loop texts withheld (ev # evs) =
     (if se_type ev \<noteq> ''transcript_final'' then transcript_loop texts withheld evs
      else if se_withheld ev then transcript_loop texts (withheld + 1) evs
      else transcript_loop (texts @ [se_text ev]) withheld evs)"

fun run_at :: "bytes list \<Rightarrow> bytes list \<Rightarrow> bool" where
  "run_at heard [] = True"
| "run_at (h # hs) (w # want) = (if h \<noteq> w then False else run_at hs want)"
| "run_at [] (w # want) = False"

fun run_from :: "bytes list \<Rightarrow> bytes list \<Rightarrow> bool" where
  "run_from heard want =
     (if length heard < length want then False
      else if run_at heard want then True
      else (case heard of [] \<Rightarrow> False | _ # hs \<Rightarrow> run_from hs want))"

declare run_from.simps [simp del]

definition contains_run :: "bytes list \<Rightarrow> bytes list \<Rightarrow> bool" where
  "contains_run heard want = (if want = [] then False else run_from heard want)"

definition fval_le :: "fval \<Rightarrow> fval \<Rightarrow> bool" where
  "fval_le x y \<longleftrightarrow> fval_less x y \<or> (x = y \<and> x \<noteq> NaN)"

definition int64 :: "int \<Rightarrow> int" where
  "int64 i = sint (word_of_int i :: 64 word)"

definition floor_verdict :: "audio_floor \<Rightarrow> session_answer \<Rightarrow> (session_outcome \<times> verdict_words) option" where
  "floor_verdict f a =
     (if sa_rate a \<le> 0 \<or> int64 (sa_samples a * 1000) < int64 (floor_ms f * sa_rate a)
        then Some (Wrong, TooShort (if 0 < sa_rate a then int64 (sa_samples a * 1000) sdiv sa_rate a else 0)
                     (floor_ms f))
      else if sa_level a = NegInf then Some (Wrong, Silent (floor_dbfs f))
      else if \<not> fval_le (floor_dbfs f) (sa_level a) then Some (Wrong, TooQuiet (sa_level a) (floor_dbfs f))
      else None)"

definition judge_session ::
  "unicode \<Rightarrow> events_expect option \<Rightarrow> bool \<Rightarrow> session_answer \<Rightarrow> session_outcome \<times> verdict_words" where
  "judge_session u e speaks_text a =
     (case sa_refused a of
        Some ref1 \<Rightarrow> (Wrong, EngineRefused (sr_control ref1) (sr_words ref1))
      | None \<Rightarrow>
     (case first_error (event_verdict a) (sa_events a) of
        Some v \<Rightarrow> v
      | None \<Rightarrow>
     if \<not> sa_complete a then (TimedOut, if speaks_text then ReplyNeverEnded else InputNeverFinished)
     else (case e of
        None \<Rightarrow> (Wrong, ExpectsNothing)
      | Some x \<Rightarrow>
          (let (asked, said) = order_loop (x_order x) [] (sa_events a) in
           if asked \<noteq> [] then (Wrong, LacksEvent (hd asked) (x_order x) said)
           else
          (let (texts, withheld) = transcript_loop [] 0 (sa_events a);
               heard = normalize u (join_with '' '' texts)
           in case first_error (\<lambda>p. if contains_run heard (normalize u p) then None
                                     else Some (Wrong, LacksPhrase p heard withheld)) (x_phrases x) of
                Some v \<Rightarrow> v
              | None \<Rightarrow>
                  (case (case x_floor x of None \<Rightarrow> None | Some f \<Rightarrow> floor_verdict f a) of
                     Some v \<Rightarrow> v
                   | None \<Rightarrow> (Passed, NoWords)))))))"

section \<open>What a pass means\<close>

lemma run_at_iff: "run_at heard want \<longleftrightarrow> prefix want heard"
  by (induction heard want rule: run_at.induct) auto

lemma run_from_iff: "want \<noteq> [] \<Longrightarrow> run_from heard want \<longleftrightarrow> sublist want heard"
proof (induction heard)
  case (Cons h hs)
  have "run_from (h # hs) want \<longleftrightarrow> length want \<le> length (h # hs) \<and> (prefix want (h # hs) \<or> run_from hs want)"
    by (subst run_from.simps) (auto simp: run_at_iff)
  also have "\<dots> \<longleftrightarrow> sublist want (h # hs)"
    using Cons by (auto simp: sublist_Cons_right dest: sublist_length_le prefix_length_le)
  finally show ?case .
qed (simp add: run_from.simps)

lemma contains_run_iff: "contains_run heard want \<longleftrightarrow> want \<noteq> [] \<and> sublist want heard"
  by (simp add: contains_run_def run_from_iff)

definition said_types :: "session_event list \<Rightarrow> bytes list" where
  "said_types evs = map se_type (filter (\<lambda>ev. \<not> se_withheld ev) evs)"

definition final_texts :: "session_event list \<Rightarrow> bytes list" where
  "final_texts evs = map se_text (filter (\<lambda>ev. se_type ev = ''transcript_final'' \<and> \<not> se_withheld ev) evs)"

lemma order_loop_asked: "fst (order_loop asked said evs) = [] \<longleftrightarrow> subseq asked (said_types evs)"
proof (induction asked said evs rule: order_loop.induct)
  case (2 asked said ev evs)
  then show ?case by (cases asked) (auto simp: said_types_def)
qed (auto simp: said_types_def)

lemma transcript_loop_texts: "fst (transcript_loop texts n evs) = texts @ final_texts evs"
  by (induction texts n evs rule: transcript_loop.induct) (auto simp: final_texts_def)

text \<open>Events after which no answer counts, and the demands of a check.\<close>

definition ends_check :: "session_answer \<Rightarrow> session_event \<Rightarrow> bool" where
  "ends_check a ev \<longleftrightarrow> se_type ev = ''failure'' \<or> se_type ev = ''session_end''
     \<or> (se_type ev = ''cancellation'' \<and> (se_synthesis ev = [] \<or> se_synthesis ev = sa_synthesis a))
     \<or> (se_type ev = ''synthesis_cancelled'' \<and> se_synthesis ev \<noteq> [] \<and> se_synthesis ev = sa_synthesis a)"

definition floor_met :: "audio_floor \<Rightarrow> session_answer \<Rightarrow> bool" where
  "floor_met f a \<longleftrightarrow> 0 < sa_rate a \<and> int64 (floor_ms f * sa_rate a) \<le> int64 (sa_samples a * 1000)
     \<and> sa_level a \<noteq> NegInf \<and> fval_le (floor_dbfs f) (sa_level a)"

definition demands_met :: "unicode \<Rightarrow> events_expect \<Rightarrow> session_answer \<Rightarrow> bool" where
  "demands_met u x a \<longleftrightarrow>
     subseq (x_order x) (said_types (sa_events a))
     \<and> (\<forall>p \<in> set (x_phrases x).
          normalize u p \<noteq> [] \<and> sublist (normalize u p) (normalize u (join_with '' '' (final_texts (sa_events a)))))
     \<and> (\<forall>f. x_floor x = Some f \<longrightarrow> floor_met f a)"

lemma event_verdict_None: "event_verdict a ev = None \<longleftrightarrow> \<not> ends_check a ev"
  by (auto simp: event_verdict_def ends_check_def)

lemma event_verdict_outcome: "event_verdict a ev = Some v \<Longrightarrow> fst v \<noteq> Passed"
  by (auto simp: event_verdict_def split: if_splits)

lemma floor_verdict_None: "floor_verdict f a = None \<longleftrightarrow> floor_met f a"
  by (auto simp: floor_verdict_def floor_met_def not_le not_less)

lemma floor_verdict_outcome: "floor_verdict f a = Some v \<Longrightarrow> fst v = Wrong"
  by (auto simp: floor_verdict_def split: if_splits)

text \<open>The last part of the judgement, once the answer is complete.\<close>

definition demands_verdict :: "unicode \<Rightarrow> events_expect \<Rightarrow> session_answer \<Rightarrow> session_outcome \<times> verdict_words" where
  "demands_verdict u x a =
     (let (asked, said) = order_loop (x_order x) [] (sa_events a) in
      if asked \<noteq> [] then (Wrong, LacksEvent (hd asked) (x_order x) said)
      else
     (let (texts, withheld) = transcript_loop [] 0 (sa_events a);
          heard = normalize u (join_with '' '' texts)
      in case first_error (\<lambda>p. if contains_run heard (normalize u p) then None
                                else Some (Wrong, LacksPhrase p heard withheld)) (x_phrases x) of
           Some v \<Rightarrow> v
         | None \<Rightarrow>
             (case (case x_floor x of None \<Rightarrow> None | Some f \<Rightarrow> floor_verdict f a) of
                Some v \<Rightarrow> v
              | None \<Rightarrow> (Passed, NoWords))))"

lemma demands_verdict_outcome:
  "fst (demands_verdict u x a) = (if demands_met u x a then Passed else Wrong)"
proof -
  obtain asked said where o: "order_loop (x_order x) [] (sa_events a) = (asked, said)" by (cases "order_loop (x_order x) [] (sa_events a)")
  then have asked: "asked = [] \<longleftrightarrow> subseq (x_order x) (said_types (sa_events a))"
    using order_loop_asked [of "x_order x" "[]" "sa_events a"] by simp
  obtain texts n where t: "transcript_loop [] 0 (sa_events a) = (texts, n)" by (cases "transcript_loop [] 0 (sa_events a)")
  then have finals: "texts = final_texts (sa_events a)"
    using transcript_loop_texts [of "[]" 0 "sa_events a"] by simp
  define heard where "heard = normalize u (join_with '' '' texts)"
  define f where "f p = (if contains_run heard (normalize u p) then None else Some (Wrong, LacksPhrase p heard n))" for p
  have ph: "first_error f (x_phrases x) = None \<longleftrightarrow>
      (\<forall>p \<in> set (x_phrases x). normalize u p \<noteq> [] \<and> sublist (normalize u p) heard)"
    by (simp add: f_def contains_run_iff)
  have phw: "fst v = Wrong" if "first_error f (x_phrases x) = Some v" for v
    using first_error_Some [OF that] by (auto simp: f_def split: if_splits)
  have v: "demands_verdict u x a =
     (if asked \<noteq> [] then (Wrong, LacksEvent (hd asked) (x_order x) said)
      else (case first_error f (x_phrases x) of
              Some v \<Rightarrow> v
            | None \<Rightarrow> (case (case x_floor x of None \<Rightarrow> None | Some f \<Rightarrow> floor_verdict f a) of
                Some v \<Rightarrow> v | None \<Rightarrow> (Passed, NoWords))))"
    unfolding demands_verdict_def o t Let_def f_def heard_def by simp
  have met: "demands_met u x a \<longleftrightarrow> asked = [] \<and> first_error f (x_phrases x) = None
      \<and> (\<forall>f. x_floor x = Some f \<longrightarrow> floor_met f a)"
    unfolding demands_met_def asked ph heard_def finals by (rule refl)
  show ?thesis
  proof (cases "asked = [] \<and> first_error f (x_phrases x) = None")
    case False
    then show ?thesis unfolding v met by (auto split: option.splits dest: phw)
  next
    case True
    then have e: "asked = []" "first_error f (x_phrases x) = None" by blast+
    show ?thesis
    proof (cases "x_floor x")
      case None
      then show ?thesis unfolding v met by (simp add: e del: first_error_None)
    next
      case (Some g)
      then show ?thesis unfolding v met
        using floor_verdict_None [of g a] floor_verdict_outcome [of g a]
        by (cases "floor_verdict g a") (simp_all add: e del: first_error_None)
    qed
  qed
qed

lemma judge_session_parts:
  "judge_session u e speaks a =
     (case sa_refused a of
        Some ref1 \<Rightarrow> (Wrong, EngineRefused (sr_control ref1) (sr_words ref1))
      | None \<Rightarrow>
     (case first_error (event_verdict a) (sa_events a) of
        Some v \<Rightarrow> v
      | None \<Rightarrow>
          if \<not> sa_complete a then (TimedOut, if speaks then ReplyNeverEnded else InputNeverFinished)
          else (case e of None \<Rightarrow> (Wrong, ExpectsNothing) | Some x \<Rightarrow> demands_verdict u x a)))"
  unfolding judge_session_def demands_verdict_def by (rule refl)

text \<open>C16: What passing a session check means. The check passes exactly when the engine refused
  nothing, no event ended the check, the answer is complete, and what the check expects is there:
  the types it lists are a subsequence of the types said, every phrase it lists is a run of words
  of the final transcripts, and a reply is long and loud enough; and whoever it fails for a retry,
  it is because the first event that ended it said so, or for want of a complete answer.\<close>

theorem passing_a_session_check:
  "(fst (judge_session u e speaks a) = Passed \<longleftrightarrow>
      sa_refused a = None \<and> filter (ends_check a) (sa_events a) = [] \<and> sa_complete a
      \<and> (\<exists>x. e = Some x \<and> demands_met u x a))
   \<and> (fst (judge_session u e speaks a) = TimedOut \<longleftrightarrow>
      sa_refused a = None
      \<and> (case filter (ends_check a) (sa_events a) of
           [] \<Rightarrow> \<not> sa_complete a
         | ev # _ \<Rightarrow> se_type ev = ''failure'' \<and> se_retry ev))"
proof (cases "sa_refused a")
  case Some
  then show ?thesis by (simp add: judge_session_parts)
next
  case None
  have first: "first_error (event_verdict a) evs =
      (case filter (ends_check a) evs of [] \<Rightarrow> None | ev # _ \<Rightarrow> event_verdict a ev)" for evs
  proof (induction evs)
    case (Cons ev evs)
    then show ?case using event_verdict_None [of a ev] by (cases "event_verdict a ev") simp_all
  qed simp
  show ?thesis
  proof (cases "filter (ends_check a) (sa_events a)")
    case Nil
    with None show ?thesis
      by (auto simp: judge_session_parts first demands_verdict_outcome split: option.splits)
  next
    case (Cons ev evs)
    then have "ends_check a ev" by (metis filter_eq_ConsD)
    then obtain v where v: "event_verdict a ev = Some v" using event_verdict_None by (cases "event_verdict a ev") auto
    moreover have "fst v = TimedOut \<longleftrightarrow> se_type ev = ''failure'' \<and> se_retry ev"
      using v by (auto simp: event_verdict_def split: if_splits)
    ultimately show ?thesis
      using None Cons event_verdict_outcome [OF v] by (simp add: judge_session_parts first)
  qed
qed

end
