(* ===== verification/Validation.thy ===== *)
theory Validation
  imports CheckDoc Recording SessionJudge
begin

text \<open>
  The checks a package carries on itself (\<open>validation.json\<close>): the rest of
  \<open>pkg/aiiospkg/validation.go\<close>, with \<open>sessionInput\<close> and \<open>sessionEvents\<close> of
  \<open>session_checks.go\<close>. \<open>ParseValidation\<close> reads the document, every check in turn; a fault of
  the document refuses it, while a check that names something the package does not have is kept and
  marked as one that can never pass. A nil map or pointer is \<open>None\<close>; a duration is a number of
  nanoseconds.
\<close>

section \<open>Values of the checks\<close>

definition operation_lane :: bytes where "operation_lane = ''operation''"
definition embeddings_lane :: bytes where "embeddings_lane = ''embeddings''"
definition session_lane_name :: bytes where "session_lane_name = ''session''"
definition all_sets :: bytes where "all_sets = ''*''"
definition max_checks :: nat where "max_checks = 32"
definition max_check_name_chars :: nat where "max_check_name_chars = 120"
definition max_check_within_ms :: int where "max_check_within_ms = 600000"
definition max_check_text_chars :: nat where "max_check_text_chars = 1000"
definition max_event_order :: nat where "max_event_order = 16"
definition max_transcript_words :: nat where "max_transcript_words = 16"
definition max_phrase_chars :: nat where "max_phrase_chars = 120"
definition max_audio_floor_ms :: int where "max_audio_floor_ms = 600000"
definition max_check_audio_bytes :: nat where "max_check_audio_bytes = 8 * 1024 * 1024"
definition max_session_event_name :: nat where "max_session_event_name = 64"

definition known_lane :: "bytes \<Rightarrow> bool" where
  "known_lane lane \<longleftrightarrow> lane = operation_lane \<or> lane = embeddings_lane \<or> lane = session_lane_name"

record json_expect =
  je_path :: bytes
  je_equals :: doc
  je_at_least :: "binary_float option"

record cosine_expect =
  cs_reference :: "binary_float list"
  cs_min :: binary_float

record expect =
  x_contains :: "bytes list"
  x_json :: "json_expect option"
  x_cosine :: "cosine_expect option"
  x_events :: "events_expect option"

datatype event_fault =
    EventsNotObject
  | EventsUnknownMember
  | OrderCount
  | NotAnEventType doc
  | OrderTelemetry bytes
  | OrderTerminal bytes
  | OrderInput bytes
  | PhrasesOfText
  | PhrasesCount
  | PhraseLength
  | PhraseNoWord bytes
  | FloorOfRecording
  | FloorForm
  | FloorMs
  | FloorDbfs

datatype hold_fault =
    NotMilliseconds
  | ArgumentsNotObject
  | EmbedInputForm
  | SessionInputNotObject
  | SessionInputUnknownMember
  | SessionInputOneOf
  | SessionAudioName
  | SessionTextLength
  | ContainsForm
  | EventsFault event_fault
  | NotANumber
  | NotACosine
  | VectorForm
  | VectorEntry nat
  | VectorLength

datatype never_pass =
    ReferenceFails unresolved
  | ReferenceBrings hold_fault
  | RecordingIsValidation bytes
  | RecordingLeaves bytes
  | RecordingNotCarried bytes
  | RecordingBad bytes recording_fault
  | ShorterThanRecording int nat

record check =
  c_name :: bytes
  c_sets :: "bytes list"
  c_lane :: bytes
  c_operation :: bytes
  c_arguments :: "(bytes, doc) fmap option"
  c_kind :: bytes
  c_text :: bytes
  c_audio :: bytes
  c_wav :: "bytes option"
  c_recording :: nat
  c_expect :: expect
  c_within :: int
  c_unresolved :: "(bytes \<times> never_pass) option"

definition no_expect :: expect where
  "no_expect = \<lparr>x_contains = [], x_json = None, x_cosine = None, x_events = None\<rparr>"

definition new_check :: "bytes \<Rightarrow> bytes list \<Rightarrow> bytes \<Rightarrow> check" where
  "new_check name sets lane =
     \<lparr>c_name = name, c_sets = sets, c_lane = lane, c_operation = [], c_arguments = None, c_kind = [],
      c_text = [], c_audio = [], c_wav = None, c_recording = 0, c_expect = no_expect, c_within = 0,
      c_unresolved = None\<rparr>"

definition check_for :: "check \<Rightarrow> bytes \<Rightarrow> bool" where
  "check_for c variant \<longleftrightarrow> list_ex (\<lambda>s. s = all_sets \<or> s = variant) (c_sets c)"

section \<open>What a value may be\<close>

definition has_control :: "bytes \<Rightarrow> bool" where
  "has_control s \<longleftrightarrow> list_ex is_control (runes s)"

definition valid_check_name :: "bytes \<Rightarrow> bool" where
  "valid_check_name s \<longleftrightarrow> utf8_valid s \<and> \<not> blank s \<and> length (runes s) \<le> max_check_name_chars \<and> \<not> has_control s"

definition re_variant_id :: "bytes \<Rightarrow> bool" where
  "re_variant_id s \<longleftrightarrow> s \<noteq> []
     \<and> list_all (\<lambda>c. is_lower c \<or> is_digit c \<or> c \<in> {CHR ''.'', CHR ''_'', CHR ''-''}) s"

definition check_milliseconds :: "doc \<Rightarrow> int option" where
  "check_milliseconds v =
     (case v of
        JNum f \<Rightarrow> if float_rat f \<noteq> of_int (float_trunc f) \<or> 2 ^ 53 < \<bar>float_rat f\<bar> then None
                  else Some (int64_of_float f)
      | _ \<Rightarrow> None)"

fun strings_of :: "doc list \<Rightarrow> bytes list option" where
  "strings_of [] = Some []"
| "strings_of (JStr s # vs) = (if s = [] then None else map_option ((#) s) (strings_of vs))"
| "strings_of (v # vs) = None"

definition contains_list :: "doc \<Rightarrow> hold_fault + bytes list" where
  "contains_list v =
     (case v of
        JStr s \<Rightarrow> if s = [] then Inl ContainsForm else Inr [s]
      | JArr vs \<Rightarrow>
          if vs = [] then Inl ContainsForm
          else (case strings_of vs of None \<Rightarrow> Inl ContainsForm | Some ss \<Rightarrow> Inr ss)
      | _ \<Rightarrow> Inl ContainsForm)"

text \<open>
  The nearest double to a rational that is not negative; \<open>None\<close> is the infinity it overflows to.
\<close>

definition round64 :: "rat \<Rightarrow> rat option" where
  "round64 x =
     (case quotient_of x of (n, d) \<Rightarrow>
        let num = nat n; den = nat d in
        if num = 0 then Some 0
        else (let k = max (binary_exponent num den - 53 + 1) (-1074);
                  q = round_half_even (num * 2 ^ nat (- k)) (den * 2 ^ nat k);
                  y = (if 0 \<le> k then of_nat q * 2 ^ nat k else of_nat q / 2 ^ nat (- k))
              in if 2 ^ 1024 \<le> y then None else Some y))"

definition norm_step :: "rat option \<Rightarrow> binary_float \<Rightarrow> rat option" where
  "norm_step acc f =
     (case acc of
        None \<Rightarrow> None
      | Some n \<Rightarrow> (case round64 (float_rat f * float_rat f) of None \<Rightarrow> None | Some sq \<Rightarrow> round64 (n + sq)))"

fun vector_loop :: "nat \<Rightarrow> binary_float list \<Rightarrow> rat option \<Rightarrow> doc list \<Rightarrow> hold_fault + binary_float list \<times> rat option" where
  "vector_loop i out acc [] = Inr (out, acc)"
| "vector_loop i out acc (v # vs) =
     (case v of
        JNum f \<Rightarrow> vector_loop (i + 1) (out @ [f]) (norm_step acc f) vs
      | _ \<Rightarrow> Inl (VectorEntry (i + 1)))"

definition reference_vector :: "doc \<Rightarrow> hold_fault + binary_float list" where
  "reference_vector v =
     (case v of
        JArr vs \<Rightarrow>
          if vs = [] then Inl VectorForm
          else (case vector_loop 0 [] (Some 0) vs of
                  Inl e \<Rightarrow> Inl e
                | Inr (out, acc) \<Rightarrow> if acc = Some 0 \<or> acc = None then Inl VectorLength else Inr out)
      | _ \<Rightarrow> Inl VectorForm)"

definition only_members :: "(bytes, 'a) fmap \<Rightarrow> bytes list \<Rightarrow> bool" where
  "only_members m known \<longleftrightarrow> fBall (fmdom m) (\<lambda>k. k \<in> set known)"

definition audio_input :: "doc \<Rightarrow> hold_fault + bytes \<times> bytes" where
  "audio_input a =
     (case a of JStr p \<Rightarrow> if p = [] then Inl SessionAudioName else Inr (p, []) | _ \<Rightarrow> Inl SessionAudioName)"

definition text_input :: "doc \<Rightarrow> hold_fault + bytes \<times> bytes" where
  "text_input t =
     (case t of
        JStr s \<Rightarrow> if blank s \<or> max_check_text_chars < length (runes s) then Inl SessionTextLength else Inr ([], s)
      | _ \<Rightarrow> Inl SessionTextLength)"

definition session_input :: "doc \<Rightarrow> hold_fault + bytes \<times> bytes" where
  "session_input v =
     (case v of
        JObj m \<Rightarrow>
          if \<not> only_members m [''audio'', ''text''] then Inl SessionInputUnknownMember
          else (case fmlookup m ''audio'' of
                  Some a \<Rightarrow> if fmlookup m ''text'' \<noteq> None then Inl SessionInputOneOf else audio_input a
                | None \<Rightarrow> (case fmlookup m ''text'' of Some t \<Rightarrow> text_input t | None \<Rightarrow> Inl SessionInputOneOf))
      | _ \<Rightarrow> Inl SessionInputNotObject)"

definition valid_event_name :: "bytes \<Rightarrow> bool" where
  "valid_event_name s \<longleftrightarrow> s \<noteq> [] \<and> length s \<le> max_session_event_name \<and> is_lower (hd s)
     \<and> list_all (\<lambda>b. is_lower b \<or> is_digit b \<or> b = CHR ''_'') s"

definition telemetry_events :: "bytes list" where
  "telemetry_events = [''vad_probability'', ''transcript_partial'']"

definition terminal_events :: "bytes list" where
  "terminal_events = [''session_end'', ''cancellation'', ''failure'']"

definition input_events :: "bytes list" where
  "input_events = [''transcript_partial'', ''transcript_final'', ''speaker_observation'', ''input_finished'']"

fun order_items :: "bool \<Rightarrow> doc list \<Rightarrow> event_fault + bytes list" where
  "order_items speaks_text [] = Inr []"
| "order_items speaks_text (item # items) =
     (case item of
        JStr t \<Rightarrow>
          if \<not> valid_event_name t then Inl (NotAnEventType item)
          else if t \<in> set telemetry_events then Inl (OrderTelemetry t)
          else if t \<in> set terminal_events then Inl (OrderTerminal t)
          else if t \<in> set input_events \<and> speaks_text then Inl (OrderInput t)
          else (case order_items speaks_text items of Inl e \<Rightarrow> Inl e | Inr ts \<Rightarrow> Inr (t # ts))
      | _ \<Rightarrow> Inl (NotAnEventType item))"

fun phrase_items :: "unicode \<Rightarrow> doc list \<Rightarrow> event_fault + bytes list" where
  "phrase_items u [] = Inr []"
| "phrase_items u (item # items) =
     (case item of
        JStr p \<Rightarrow>
          if p = [] \<or> max_phrase_chars < length (runes p) then Inl PhraseLength
          else if normalize u p = [] then Inl (PhraseNoWord p)
          else (case phrase_items u items of Inl e \<Rightarrow> Inl e | Inr ps \<Rightarrow> Inr (p # ps))
      | _ \<Rightarrow> Inl PhraseLength)"

definition order_member :: "bool \<Rightarrow> doc option \<Rightarrow> event_fault + bytes list" where
  "order_member speaks_text v =
     (case v of
        None \<Rightarrow> Inr []
      | Some (JArr items) \<Rightarrow>
          if items = [] \<or> max_event_order < length items then Inl OrderCount else order_items speaks_text items
      | Some _ \<Rightarrow> Inl OrderCount)"

definition phrases_member :: "unicode \<Rightarrow> bool \<Rightarrow> doc option \<Rightarrow> event_fault + bytes list" where
  "phrases_member u speaks_text v =
     (case v of
        None \<Rightarrow> Inr []
      | Some p \<Rightarrow>
          if speaks_text then Inl PhrasesOfText
          else (case p of
                  JArr items \<Rightarrow>
                    if items = [] \<or> max_transcript_words < length items then Inl PhrasesCount else phrase_items u items
                | _ \<Rightarrow> Inl PhrasesCount))"

definition floor_member :: "bool \<Rightarrow> doc option \<Rightarrow> event_fault + audio_floor option" where
  "floor_member hears_audio v =
     (case v of
        None \<Rightarrow> Inr None
      | Some a \<Rightarrow>
          if hears_audio then Inl FloorOfRecording
          else (case a of
                  JObj m \<Rightarrow>
                    (let ms = (case fmlookup m ''ms'' of None \<Rightarrow> None | Some x \<Rightarrow> check_milliseconds x) in
                     if fcard (fmdom m) \<noteq> 2 then Inl FloorForm
                     else (case ms of
                             None \<Rightarrow> Inl FloorMs
                           | Some n \<Rightarrow>
                               if n < 1 \<or> max_audio_floor_ms < n then Inl FloorMs
                               else (case fmlookup m ''rms_dbfs'' of
                                       Some (JNum f) \<Rightarrow>
                                         if float_rat f < - 120 \<or> 0 < float_rat f then Inl FloorDbfs
                                         else Inr (Some \<lparr>floor_ms = n, floor_dbfs = Fin (float_rat f)\<rparr>)
                                     | _ \<Rightarrow> Inl FloorDbfs)))
                | _ \<Rightarrow> Inl FloorForm))"

definition session_events :: "unicode \<Rightarrow> bool \<Rightarrow> bool \<Rightarrow> doc \<Rightarrow> event_fault + events_expect" where
  "session_events u hears_audio speaks_text v =
     (case v of
        JObj m \<Rightarrow>
          if m = fmempty then Inl EventsNotObject
          else if \<not> only_members m [''order'', ''transcript_contains'', ''audio_at_least''] then Inl EventsUnknownMember
          else (case order_member speaks_text (fmlookup m ''order'') of
                  Inl e \<Rightarrow> Inl e
                | Inr order1 \<Rightarrow>
                    (case phrases_member u speaks_text (fmlookup m ''transcript_contains'') of
                       Inl e \<Rightarrow> Inl e
                     | Inr phrases \<Rightarrow>
                         (case floor_member hears_audio (fmlookup m ''audio_at_least'') of
                            Inl e \<Rightarrow> Inl e
                          | Inr fl \<Rightarrow> Inr \<lparr>x_order = order1, x_phrases = phrases, x_floor = fl\<rparr>)))
      | _ \<Rightarrow> Inl EventsNotObject)"

section \<open>Reading one check\<close>

datatype refusal =
    NotAnObject
  | UnknownMembers
  | NameMissing
  | NameNotString
  | NameForm
  | SetsNotStrings
  | SetsMissing
  | AllStandsAlone
  | SetNotId bytes
  | SetTwice bytes
  | LaneMissing
  | LaneNotString
  | WithinMissing
  | WithinForm
  | NotTheGrammars bytes
  | ExpectMissing
  | ExpectCount nat
  | CallOperationNotString
  | CallMissing
  | CallNotInput
  | OperationExpects
  | CallOperationForm
  | InputMissing
  | InputNotCall
  | EmbeddingsExpects
  | SessionExpects
  | PathNotString
  | PathNotPointer
  | EqualsOrAtLeast
  | CosineMembers
  | ReferenceForm bytes
  | Holds bytes hold_fault
  | NameOfAnother bytes

datatype 'e fault = Refused nat refusal | MemberFailed 'e

definition check_members :: "bytes list" where
  "check_members = [''name'', ''sets'', ''lane'', ''input'', ''call'', ''expect'', ''within_ms'']"
definition call_members :: "bytes list" where
  "call_members = [''operation'', ''arguments'']"
definition expect_members :: "bytes list" where
  "expect_members = [''result_contains'', ''json'', ''vector_cosine_at_least'', ''events'']"
definition json_expect_members :: "bytes list" where
  "json_expect_members = [''path'', ''equals'', ''at_least'']"
definition cosine_members :: "bytes list" where
  "cosine_members = [''reference'', ''min'']"

type_synonym members = "(bytes, doc) fmap"

text \<open>A member that is absent or \<open>null\<close> counts as not there.\<close>

definition non_null :: "members \<Rightarrow> bytes \<Rightarrow> doc option" where
  "non_null m key = (case fmlookup m key of Some v \<Rightarrow> if v = JNull then None else Some v | None \<Rightarrow> None)"

definition object_member :: "members \<Rightarrow> bytes \<Rightarrow> bytes list \<Rightarrow> refusal + members option" where
  "object_member m key known =
     (case non_null m key of
        None \<Rightarrow> Inr None
      | Some (JObj ob) \<Rightarrow> if only_members ob known then Inr (Some ob) else Inl (NotTheGrammars key)
      | Some _ \<Rightarrow> Inl (NotTheGrammars key))"

definition member_of :: "members option \<Rightarrow> bytes \<Rightarrow> doc option" where
  "member_of m key = (case m of None \<Rightarrow> None | Some ob \<Rightarrow> fmlookup ob key)"

fun set_names :: "doc list \<Rightarrow> bytes list option" where
  "set_names [] = Some []"
| "set_names (JStr s # vs) = map_option ((#) s) (set_names vs)"
| "set_names (v # vs) = None"

fun sets_loop :: "bool \<Rightarrow> bytes set \<Rightarrow> bytes list \<Rightarrow> refusal option" where
  "sets_loop alone seen [] = None"
| "sets_loop alone seen (s # ss) =
     (if s = all_sets \<and> \<not> alone then Some AllStandsAlone
      else if s \<noteq> all_sets \<and> \<not> re_variant_id s then Some (SetNotId s)
      else if s \<in> seen then Some (SetTwice s)
      else sets_loop alone (insert s seen) ss)"

definition check_sets :: "members \<Rightarrow> refusal + bytes list" where
  "check_sets m =
     (case (case non_null m ''sets'' of
              None \<Rightarrow> Inr []
            | Some (JArr vs) \<Rightarrow> (case set_names vs of None \<Rightarrow> Inl SetsNotStrings | Some ss \<Rightarrow> Inr ss)
            | Some _ \<Rightarrow> Inl SetsNotStrings) of
        Inl e \<Rightarrow> Inl e
      | Inr sets \<Rightarrow>
          if sets = [] then Inl SetsMissing
          else (case sets_loop (length sets = 1) {} sets of Some e \<Rightarrow> Inl e | None \<Rightarrow> Inr sets))"

text \<open>The members every check has, before its lane is looked at: name, sets and lane.\<close>

definition sets_and_lane :: "members \<Rightarrow> bytes \<Rightarrow> refusal + bytes \<times> bytes list \<times> bytes" where
  "sets_and_lane m name =
     (case check_sets m of
        Inl e \<Rightarrow> Inl e
      | Inr sets \<Rightarrow>
          (case non_null m ''lane'' of
             None \<Rightarrow> Inl LaneMissing
           | Some (JStr lane) \<Rightarrow> Inr (name, sets, lane)
           | Some _ \<Rightarrow> Inl LaneNotString))"

definition name_and_rest :: "members \<Rightarrow> refusal + bytes \<times> bytes list \<times> bytes" where
  "name_and_rest m =
     (case non_null m ''name'' of
        None \<Rightarrow> Inl NameMissing
      | Some (JStr name) \<Rightarrow> if \<not> valid_check_name name then Inl NameForm else sets_and_lane m name
      | Some _ \<Rightarrow> Inl NameNotString)"

definition check_head :: "members \<Rightarrow> refusal + bytes \<times> bytes list \<times> bytes" where
  "check_head m =
     (if (case fmlookup m ''lane'' of Some (JStr l) \<Rightarrow> known_lane l | _ \<Rightarrow> False) \<and> \<not> only_members m check_members
        then Inl UnknownMembers
      else name_and_rest m)"

record form =
  fm_within :: doc
  fm_input :: "doc option"
  fm_call :: "members option"
  fm_contains :: "doc option"
  fm_json :: "members option"
  fm_cosine :: "members option"
  fm_events :: "doc option"
  fm_operation :: bytes
  fm_path :: bytes

text \<open>The refusals of the lane: which of \<open>call\<close> and \<open>input\<close> is there, and what may be expected.\<close>

definition lane_refusal ::
  "bytes \<Rightarrow> members option \<Rightarrow> doc option \<Rightarrow> members option \<Rightarrow> doc option \<Rightarrow> bytes \<Rightarrow> refusal option" where
  "lane_refusal lane call input cosine events op =
     (if lane = operation_lane then
        (if (case member_of call ''operation'' of Some (JStr s) \<Rightarrow> False | Some JNull \<Rightarrow> False | Some _ \<Rightarrow> True | None \<Rightarrow> False)
           then Some CallOperationNotString
         else if call = None then Some CallMissing
         else if input \<noteq> None then Some CallNotInput
         else if cosine \<noteq> None \<or> events \<noteq> None then Some OperationExpects
         else if op = [] \<or> 128 < length op \<or> has_control op then Some CallOperationForm
         else None)
      else if lane = embeddings_lane then
        (if input = None then Some InputMissing
         else if call \<noteq> None then Some InputNotCall
         else if cosine = None then Some EmbeddingsExpects
         else None)
      else if lane = session_lane_name then
        (if input = None then Some InputMissing
         else if call \<noteq> None then Some InputNotCall
         else if events = None then Some SessionExpects
         else None)
      else None)"

definition json_path :: "members option \<Rightarrow> refusal + bytes" where
  "json_path js =
     (case js of
        None \<Rightarrow> Inr []
      | Some m \<Rightarrow>
          (case (case non_null m ''path'' of None \<Rightarrow> Inr [] | Some (JStr p) \<Rightarrow> Inr p | Some _ \<Rightarrow> Inl PathNotString) of
             Inl e \<Rightarrow> Inl e
           | Inr p \<Rightarrow>
               if \<not> valid_pointer p then Inl PathNotPointer
               else if (fmlookup m ''equals'' \<noteq> None) = (fmlookup m ''at_least'' \<noteq> None) then Inl EqualsOrAtLeast
               else Inr p))"

definition form_of :: "members \<Rightarrow> bytes \<Rightarrow> members \<Rightarrow> members option \<Rightarrow> members option \<Rightarrow> refusal + form" where
  "form_of m lane expect json cosine =
     (let contains = fmlookup expect ''result_contains''; events = fmlookup expect ''events'';
          forms = length (filter id [contains \<noteq> None, json \<noteq> None, cosine \<noteq> None, events \<noteq> None])
      in if forms \<noteq> 1 then Inl (ExpectCount forms)
         else (case object_member m ''call'' call_members of
                 Inl e \<Rightarrow> Inl e
               | Inr call \<Rightarrow>
                   (let input = fmlookup m ''input'';
                        op = (case member_of call ''operation'' of Some (JStr s) \<Rightarrow> s | _ \<Rightarrow> [])
                    in case lane_refusal lane call input cosine events op of
                         Some e \<Rightarrow> Inl e
                       | None \<Rightarrow>
                           (case fmlookup m ''within_ms'' of
                              None \<Rightarrow> Inl WithinMissing
                            | Some bound \<Rightarrow>
                                (case json_path json of
                                   Inl e \<Rightarrow> Inl e
                                 | Inr p \<Rightarrow>
                                     if cosine \<noteq> None
                                        \<and> (member_of cosine ''reference'' = None \<or> member_of cosine ''min'' = None)
                                     then Inl CosineMembers
                                     else Inr \<lparr>fm_within = bound, fm_input = input, fm_call = call,
                                                fm_contains = contains, fm_json = json, fm_cosine = cosine,
                                                fm_events = events, fm_operation = op, fm_path = p\<rparr>)))))"

definition check_form :: "members \<Rightarrow> bytes \<Rightarrow> refusal + form" where
  "check_form m lane =
     (case object_member m ''expect'' expect_members of
        Inl e \<Rightarrow> Inl e
      | Inr None \<Rightarrow> Inl ExpectMissing
      | Inr (Some expect) \<Rightarrow>
          (case object_member expect ''json'' json_expect_members of
             Inl e \<Rightarrow> Inl e
           | Inr json \<Rightarrow>
               (case object_member expect ''vector_cosine_at_least'' cosine_members of
                  Inl e \<Rightarrow> Inl e
                | Inr cosine \<Rightarrow> form_of m lane expect json cosine)))"

section \<open>Taking its values\<close>

text \<open>
  A step changes the check and the resolver, or fails. \<open>take_value\<close> resolves a value and gives it to
  the holder: a reference that fails, or brings what the holder does not hold, marks the check; what
  the document itself spells wrong refuses it.
\<close>

type_synonym 'e step = "check \<Rightarrow> resolver \<Rightarrow> 'e fault option \<times> check \<times> resolver"

definition mark :: "bytes \<Rightarrow> never_pass \<Rightarrow> check \<Rightarrow> check" where
  "mark what why c = (if c_unresolved c = None then c\<lparr>c_unresolved := Some (what, why)\<rparr> else c)"

definition take_value ::
  "nat \<Rightarrow> (bytes fset \<Rightarrow> bytes list) \<Rightarrow> 'e member_reader \<Rightarrow> doc \<Rightarrow> bytes
    \<Rightarrow> (doc \<Rightarrow> check \<Rightarrow> hold_fault + check) \<Rightarrow> 'e step" where
  "take_value n order member v what hold c r =
     (case walk order member v r of
        (Inl (Unresolved why), r1) \<Rightarrow> (None, mark what (ReferenceFails why) c, r1)
      | (Inl RefForm, r1) \<Rightarrow> (Some (Refused n (ReferenceForm what)), c, r1)
      | (Inl (ReadFailed e), r1) \<Rightarrow> (Some (MemberFailed e), c, r1)
      | (Inr (got, via), r1) \<Rightarrow>
          (case hold got c of
             Inr c1 \<Rightarrow> (None, c1, r1)
           | Inl h \<Rightarrow>
               if \<not> via then (Some (Refused n (Holds what h)), c, r1)
               else (None, mark what (ReferenceBrings h) c, r1)))"

definition hold_within :: "doc \<Rightarrow> check \<Rightarrow> hold_fault + check" where
  "hold_within v c =
     (case check_milliseconds v of
        None \<Rightarrow> Inl NotMilliseconds
      | Some ms \<Rightarrow>
          if ms < 1 \<or> max_check_within_ms < ms then Inl NotMilliseconds else Inr (c\<lparr>c_within := ms * 1000000\<rparr>))"

definition hold_arguments :: "doc \<Rightarrow> check \<Rightarrow> hold_fault + check" where
  "hold_arguments v c = (case v of JObj m \<Rightarrow> Inr (c\<lparr>c_arguments := Some m\<rparr>) | _ \<Rightarrow> Inl ArgumentsNotObject)"

definition hold_embed_input :: "doc \<Rightarrow> check \<Rightarrow> hold_fault + check" where
  "hold_embed_input v c =
     (case v of
        JObj m \<Rightarrow>
          (case (fmlookup m ''kind'', fmlookup m ''text'') of
             (Some (JStr kind), Some (JStr text)) \<Rightarrow>
               if fcard (fmdom m) \<noteq> 2 \<or> kind = [] \<or> text = [] then Inl EmbedInputForm
               else Inr (c\<lparr>c_kind := kind, c_text := text\<rparr>)
           | _ \<Rightarrow> Inl EmbedInputForm)
      | _ \<Rightarrow> Inl EmbedInputForm)"

definition hold_session_input :: "doc \<Rightarrow> check \<Rightarrow> hold_fault + check" where
  "hold_session_input v c =
     (case session_input v of
        Inl e \<Rightarrow> Inl e
      | Inr (audio, text) \<Rightarrow> Inr (c\<lparr>c_audio := audio, c_text := text\<rparr>))"

definition set_expect :: "(expect \<Rightarrow> expect) \<Rightarrow> check \<Rightarrow> check" where
  "set_expect f c = c\<lparr>c_expect := f (c_expect c)\<rparr>"

definition hold_contains :: "doc \<Rightarrow> check \<Rightarrow> hold_fault + check" where
  "hold_contains v c =
     (case contains_list v of
        Inl e \<Rightarrow> Inl e | Inr want \<Rightarrow> Inr (set_expect (x_contains_update (\<lambda>_. want)) c))"

definition hold_events :: "unicode \<Rightarrow> doc \<Rightarrow> check \<Rightarrow> hold_fault + check" where
  "hold_events u v c =
     (case session_events u (c_audio c \<noteq> []) (c_text c \<noteq> []) v of
        Inl e \<Rightarrow> Inl (EventsFault e)
      | Inr ev \<Rightarrow> Inr (set_expect (x_events_update (\<lambda>_. Some ev)) c))"

definition hold_equals :: "doc \<Rightarrow> check \<Rightarrow> hold_fault + check" where
  "hold_equals v c = Inr (set_expect (x_json_update (map_option (je_equals_update (\<lambda>_. v)))) c)"

definition hold_at_least :: "doc \<Rightarrow> check \<Rightarrow> hold_fault + check" where
  "hold_at_least v c =
     (case v of
        JNum f \<Rightarrow> Inr (set_expect (x_json_update (map_option (je_at_least_update (\<lambda>_. Some f)))) c)
      | _ \<Rightarrow> Inl NotANumber)"

definition hold_reference :: "doc \<Rightarrow> check \<Rightarrow> hold_fault + check" where
  "hold_reference v c =
     (case reference_vector v of
        Inl e \<Rightarrow> Inl e
      | Inr vec \<Rightarrow> Inr (set_expect (x_cosine_update (map_option (cs_reference_update (\<lambda>_. vec)))) c))"

definition hold_min :: "doc \<Rightarrow> check \<Rightarrow> hold_fault + check" where
  "hold_min v c =
     (case v of
        JNum f \<Rightarrow>
          if float_rat f < - 1 \<or> 1 < float_rat f then Inl NotACosine
          else Inr (set_expect (x_cosine_update (map_option (cs_min_update (\<lambda>_. f)))) c)
      | _ \<Rightarrow> Inl NotACosine)"

definition take_recording :: "'e member_reader \<Rightarrow> 'e step" where
  "take_recording member c r =
     (let rel = c_audio c in
      if rel = [] \<or> c_unresolved c \<noteq> None then (None, c, r)
      else if rel = validation_file then (None, mark ''input.audio'' (RecordingIsValidation rel) c, r)
      else if \<not> inside_root rel then (None, mark ''input.audio'' (RecordingLeaves rel) c, r)
      else (case read_member member rel r of
              (Inl e, r1) \<Rightarrow> (Some (MemberFailed e), c, r1)
            | (Inr None, r1) \<Rightarrow> (None, mark ''input.audio'' (RecordingNotCarried rel) c, r1)
            | (Inr (Some raw), r1) \<Rightarrow>
                (let r2 = r1\<lparr>recordings := AList.update rel (length raw) (recordings r1)\<rparr> in
                 case read_recording raw of
                   Inl f \<Rightarrow> (None, mark ''input.audio'' (RecordingBad rel f) c, r2)
                 | Inr rec \<Rightarrow> (None, c\<lparr>c_wav := Some raw, c_recording := rec_length rec\<rparr>, r2))))"

definition check_time :: "'e step" where
  "check_time c r =
     (None,
      if c_unresolved c = None \<and> c_within c < int (c_recording c)
        then c\<lparr>c_unresolved := Some (''within_ms'', ShorterThanRecording (c_within c) (c_recording c))\<rparr> else c, r)"

definition lane_steps ::
  "nat \<Rightarrow> (bytes fset \<Rightarrow> bytes list) \<Rightarrow> 'e member_reader \<Rightarrow> bytes \<Rightarrow> form \<Rightarrow> 'e step list" where
  "lane_steps n order member lane fm =
     (if lane = operation_lane then
        [take_value n order member
           (case member_of (fm_call fm) ''arguments'' of None \<Rightarrow> JObj fmempty | Some v \<Rightarrow> v)
           ''call.arguments'' hold_arguments]
      else if lane = embeddings_lane then
        [take_value n order member (the (fm_input fm)) ''input'' hold_embed_input]
      else if lane = session_lane_name then
        [take_value n order member (the (fm_input fm)) ''input'' hold_session_input, take_recording member]
      else [])"

definition expect_steps ::
  "unicode \<Rightarrow> nat \<Rightarrow> (bytes fset \<Rightarrow> bytes list) \<Rightarrow> 'e member_reader \<Rightarrow> form \<Rightarrow> 'e step list" where
  "expect_steps u n order member fm =
     (case fm_contains fm of
        Some v \<Rightarrow> [take_value n order member v ''expect.result_contains'' hold_contains]
      | None \<Rightarrow>
     (case fm_events fm of
        Some v \<Rightarrow> [take_value n order member v ''expect.events'' (hold_events u), check_time]
      | None \<Rightarrow>
     (case fm_json fm of
        Some js \<Rightarrow>
          (case fmlookup js ''equals'' of
             Some v \<Rightarrow> [take_value n order member v ''expect.json.equals'' hold_equals]
           | None \<Rightarrow>
               [take_value n order member (the (fmlookup js ''at_least'')) ''expect.json.at_least'' hold_at_least])
      | None \<Rightarrow>
          [take_value n order member (the (member_of (fm_cosine fm) ''reference''))
             ''expect.vector_cosine_at_least.reference'' hold_reference,
           take_value n order member (the (member_of (fm_cosine fm) ''min''))
             ''expect.vector_cosine_at_least.min'' hold_min])))"

fun run_steps :: "'e step list \<Rightarrow> 'e step" where
  "run_steps [] c r = (None, c, r)"
| "run_steps (s # ss) c r =
     (case s c r of
        (Some e, c1, r1) \<Rightarrow> (Some e, c1, r1)
      | (None, c1, r1) \<Rightarrow> run_steps ss c1 r1)"

definition start_check :: "bytes \<Rightarrow> bytes list \<Rightarrow> bytes \<Rightarrow> form \<Rightarrow> check" where
  "start_check name sets lane fm =
     (new_check name sets lane)\<lparr>
        c_operation := (if lane = operation_lane then fm_operation fm else []),
        c_expect := no_expect\<lparr>
          x_json := (if fm_contains fm = None \<and> fm_events fm = None \<and> fm_json fm \<noteq> None
                     then Some \<lparr>je_path = fm_path fm, je_equals = JNull, je_at_least = None\<rparr> else None),
          x_cosine := (if fm_contains fm = None \<and> fm_events fm = None \<and> fm_json fm = None
                       then Some \<lparr>cs_reference = [], cs_min = (False, 0, 0)\<rparr> else None)\<rparr>\<rparr>"

text \<open>A check on a lane this host does not know: only its bound is read.\<close>

definition unknown_lane_check ::
  "nat \<Rightarrow> (bytes fset \<Rightarrow> bytes list) \<Rightarrow> 'e member_reader \<Rightarrow> members \<Rightarrow> check \<Rightarrow> resolver
    \<Rightarrow> ('e fault + check) \<times> resolver" where
  "unknown_lane_check n order member m c r =
     (case fmlookup m ''within_ms'' of
        None \<Rightarrow> (Inl (Refused n WithinMissing), r)
      | Some bound \<Rightarrow>
          (case take_value n order member bound ''within_ms'' hold_within c r of
             (Some e, c1, r1) \<Rightarrow> (Inl e, r1)
           | (None, c1, r1) \<Rightarrow> (Inr c1, r1)))"

definition read_check ::
  "unicode \<Rightarrow> (bytes fset \<Rightarrow> bytes list) \<Rightarrow> 'e member_reader \<Rightarrow> nat \<Rightarrow> doc \<Rightarrow> resolver
    \<Rightarrow> ('e fault + check) \<times> resolver" where
  "read_check u order member n item r =
     (case item of
        JObj m \<Rightarrow>
          (case check_head m of
             Inl e \<Rightarrow> (Inl (Refused n e), r)
           | Inr (name, sets, lane) \<Rightarrow>
               if \<not> known_lane lane then unknown_lane_check n order member m (new_check name sets lane) r
               else (case check_form m lane of
                       Inl e \<Rightarrow> (Inl (Refused n e), r)
                     | Inr fm \<Rightarrow>
                         (case run_steps
                                 (take_value n order member (fm_within fm) ''within_ms'' hold_within
                                  # lane_steps n order member lane fm @ expect_steps u n order member fm)
                                 (start_check name sets lane fm) r of
                            (Some e, c1, r1) \<Rightarrow> (Inl e, r1)
                          | (None, c1, r1) \<Rightarrow> (Inr c1, r1))))
      | _ \<Rightarrow> (Inl (Refused n NotAnObject), r))"

section \<open>Reading the document\<close>

datatype 'e validation_error =
    NotChecks json_error
  | NotOneMember
  | ChecksCount
  | CheckFault "'e fault"
  | TooMuchAudio nat

fun checks_loop ::
  "unicode \<Rightarrow> (bytes fset \<Rightarrow> bytes list) \<Rightarrow> 'e member_reader \<Rightarrow> nat \<Rightarrow> doc list \<Rightarrow> bytes set \<Rightarrow> check list \<Rightarrow> resolver
    \<Rightarrow> ('e fault + check list) \<times> resolver" where
  "checks_loop u order member i [] names out r = (Inr out, r)"
| "checks_loop u order member i (item # items) names out r =
     (case read_check u order member (i + 1) item r of
        (Inl e, r1) \<Rightarrow> (Inl e, r1)
      | (Inr c, r1) \<Rightarrow>
          if c_name c \<in> names then (Inl (Refused (i + 1) (NameOfAnother (c_name c))), r1)
          else checks_loop u order member (i + 1) items (insert (c_name c) names) (out @ [c]) r1)"

definition checks_of :: "doc \<Rightarrow> members option" where
  "checks_of d = (case d of JObj ob \<Rightarrow> if only_members ob [''checks''] then Some ob else None | _ \<Rightarrow> None)"

definition parse_validation ::
  "unicode \<Rightarrow> (bytes fset \<Rightarrow> bytes list) \<Rightarrow> 'e member_reader \<Rightarrow> bytes \<Rightarrow> 'e validation_error + check list" where
  "parse_validation u order member raw =
     (case decode_strict raw of
        Inl e \<Rightarrow> Inl (NotChecks e)
      | Inr d \<Rightarrow>
          (case checks_of d of
             None \<Rightarrow> Inl NotOneMember
           | Some ob \<Rightarrow>
               (let items = (case fmlookup ob ''checks'' of Some (JArr vs) \<Rightarrow> vs | _ \<Rightarrow> []) in
                if items = [] \<or> max_checks < length items then Inl ChecksCount
                else (case checks_loop u order member 0 items {} [] new_resolver of
                        (Inl e, r) \<Rightarrow> Inl (CheckFault e)
                      | (Inr out, r) \<Rightarrow>
                          (let audio = sum_list (map snd (recordings r)) in
                           if max_check_audio_bytes < audio then Inl (TooMuchAudio audio) else Inr out)))))"

end
