(* ===== verification/PackageChecks.thy ===== *)
theory PackageChecks
  imports Validation "HOL-Library.Code_Target_Nat" "HOL-Library.Code_Target_Int"
begin

text \<open>
  \<open>ValidatePackageChecks\<close>: the checks against the package that carries them, and what the two steps
  together promise. A nil \<open>Expect.Cosine\<close> of an embeddings check would be a nil dereference, the
  value \<open>NilCosine\<close> here; no check \<open>ParseValidation\<close> gives has one.
\<close>

record operation_contract =
  oc_effects :: bytes
  oc_confirms :: bool

record package_checks =
  pc_variants :: "bytes list"
  pc_source :: "int option"
  pc_operations :: "bytes \<Rightarrow> operation_contract option"
  pc_speech :: bool
  pc_native :: "bytes \<Rightarrow> bool"

definition embed_kinds :: "bytes list" where "embed_kinds = [''memory'', ''cue'']"
definition max_embed_chars :: nat where "max_embed_chars = 8000"

datatype package_refusal =
    UnknownLane bytes bytes
  | NeverPasses bytes bytes never_pass
  | SetUndeclared bytes bytes
  | NotASource bytes
  | EmbedKindBad bytes bytes
  | EmbedTextBad bytes
  | EmbedDimension bytes nat int
  | NotASpeechEngine bytes
  | NotANativeSet bytes bytes
  | OperationUndeclared bytes bytes
  | OperationEffects bytes bytes bytes
  | OperationConfirms bytes bytes
  | NilCosine

definition embeddings_refusal :: "package_checks \<Rightarrow> check \<Rightarrow> package_refusal option" where
  "embeddings_refusal p c =
     (case pc_source p of
        None \<Rightarrow> Some (NotASource (c_name c))
      | Some n \<Rightarrow>
          if c_kind c \<notin> set embed_kinds then Some (EmbedKindBad (c_name c) (c_kind c))
          else if max_embed_chars < length (runes (c_text c)) \<or> blank (c_text c) then Some (EmbedTextBad (c_name c))
          else (case x_cosine (c_expect c) of
                  None \<Rightarrow> Some NilCosine
                | Some cs \<Rightarrow>
                    if int (length (cs_reference cs)) \<noteq> n
                      then Some (EmbedDimension (c_name c) (length (cs_reference cs)) n) else None))"

definition session_refusal_of :: "package_checks \<Rightarrow> check \<Rightarrow> package_refusal option" where
  "session_refusal_of p c =
     (if \<not> pc_speech p then Some (NotASpeechEngine (c_name c))
      else first_error (\<lambda>s. if pc_native p s then None else Some (NotANativeSet (c_name c) s))
             (if length (c_sets c) = 1 \<and> c_sets c ! 0 = all_sets then pc_variants p else c_sets c))"

definition operation_refusal :: "package_checks \<Rightarrow> check \<Rightarrow> package_refusal option" where
  "operation_refusal p c =
     (case pc_operations p (c_operation c) of
        None \<Rightarrow> Some (OperationUndeclared (c_name c) (c_operation c))
      | Some op \<Rightarrow>
          if oc_effects op \<noteq> ''read.internal'' \<and> oc_effects op \<noteq> ''read.external''
            then Some (OperationEffects (c_name c) (c_operation c)
                         (if oc_effects op = [] then ''none'' else oc_effects op))
          else if oc_confirms op then Some (OperationConfirms (c_name c) (c_operation c))
          else None)"

definition check_refusal :: "package_checks \<Rightarrow> check \<Rightarrow> package_refusal option" where
  "check_refusal p c =
     (if \<not> known_lane (c_lane c) then Some (UnknownLane (c_name c) (c_lane c))
      else (case c_unresolved c of
              Some (what, why) \<Rightarrow> Some (NeverPasses (c_name c) what why)
            | None \<Rightarrow>
                (case first_error (\<lambda>s. if s \<noteq> all_sets \<and> s \<notin> set (pc_variants p)
                                       then Some (SetUndeclared (c_name c) s) else None) (c_sets c) of
                   Some e \<Rightarrow> Some e
                 | None \<Rightarrow>
                     if c_lane c = embeddings_lane then embeddings_refusal p c
                     else if c_lane c = session_lane_name then session_refusal_of p c
                     else operation_refusal p c)))"

definition validate_package_checks :: "check list \<Rightarrow> package_checks \<Rightarrow> package_refusal option" where
  "validate_package_checks cs p = first_error (check_refusal p) cs"

section \<open>The order of a map does not decide what is accepted\<close>

text \<open>
  Two resolvers that have both read from the same members, and have counted the same recordings.
\<close>

definition alike :: "'e member_reader \<Rightarrow> resolver \<Rightarrow> resolver \<Rightarrow> bool" where
  "alike member r r' \<longleftrightarrow> cache_ok member r \<and> cache_ok member r' \<and> recordings r = recordings r'"

text \<open>
  A step never lifts a mark: what it leaves able to pass was able to pass before. And a step under one
  order is the same as a step under another where what it leaves can still pass.
\<close>

definition marks_stay :: "'e step \<Rightarrow> bool" where
  "marks_stay s \<longleftrightarrow>
     (\<forall>c r c1 r1. s c r = (None, c1, r1) \<longrightarrow> c_unresolved c1 = None \<longrightarrow> c_unresolved c = None)"

definition same_step :: "'e member_reader \<Rightarrow> 'e step \<Rightarrow> 'e step \<Rightarrow> bool" where
  "same_step member s s' \<longleftrightarrow> marks_stay s \<and>
     (\<forall>c r r' c1 r1. alike member r r' \<longrightarrow> s c r = (None, c1, r1) \<longrightarrow> c_unresolved c1 = None \<longrightarrow>
        (\<exists>r1'. s' c r' = (None, c1, r1') \<and> alike member r1 r1'))"

lemma same_stepI:
  assumes "marks_stay s"
    and "\<And>c r r' c1 r1. alike member r r' \<Longrightarrow> s c r = (None, c1, r1) \<Longrightarrow> c_unresolved c1 = None
      \<Longrightarrow> \<exists>r1'. s' c r' = (None, c1, r1') \<and> alike member r1 r1'"
  shows "same_step member s s'"
  using assms unfolding same_step_def by blast

lemma same_stepD:
  assumes "same_step member s s'" "alike member r r'" "s c r = (None, c1, r1)" "c_unresolved c1 = None"
  obtains r1' where "s' c r' = (None, c1, r1')" "alike member r1 r1'"
  using assms unfolding same_step_def by blast

definition keeps_marks :: "(doc \<Rightarrow> check \<Rightarrow> hold_fault + check) \<Rightarrow> bool" where
  "keeps_marks hold \<longleftrightarrow> (\<forall>v c c1. hold v c = Inr c1 \<longrightarrow> c_unresolved c1 = c_unresolved c)"

lemma keeps_marks_holds:
  "keeps_marks hold_within" "keeps_marks hold_arguments" "keeps_marks hold_embed_input"
  "keeps_marks hold_session_input" "keeps_marks hold_contains" "keeps_marks (hold_events u)"
  "keeps_marks hold_equals" "keeps_marks hold_at_least" "keeps_marks hold_reference" "keeps_marks hold_min"
  by (auto simp: keeps_marks_def hold_within_def hold_arguments_def hold_embed_input_def
    hold_session_input_def hold_contains_def hold_events_def hold_equals_def hold_at_least_def
    hold_reference_def hold_min_def set_expect_def
    split: option.splits if_splits json.splits sum.splits)

lemma mark_unresolved [simp]: "c_unresolved (mark what why c) \<noteq> None"
  by (simp add: mark_def)

lemma walk_alike:
  assumes "enumerates order1" "enumerates order2" "alike member r r'"
    and "walk order1 member v r = (Inr (got, via), r1)"
  shows "\<exists>r1'. walk order2 member v r' = (Inr (got, via), r1') \<and> alike member r1 r1'"
proof -
  from assms(3) have c: "cache_ok member r" "cache_ok member r'" and rec: "recordings r = recordings r'"
    by (simp_all add: alike_def)
  have res: "resolved member v = Some got" "via = holds_ref v" "cache_ok member r1" "recordings r1 = recordings r"
    using walk_resolves [OF assms(1), of member v] c(1) assms(4) by (auto elim: walksE)
  from walk_resolves [OF assms(2), of member v] c(2) res(1) obtain d r2
    where "walk order2 member v r' = (Inr (d, holds_ref v), r2)" "cache_ok member r2"
      "resolved member v = Some d" "recordings r2 = recordings r'"
    by (auto elim: walksE)
  with res rec show ?thesis by (auto simp: alike_def)
qed

lemma take_value_holds:
  assumes "take_value n order member v what hold c r = (None, c1, r1)" "c_unresolved c1 = None"
  obtains got via where "walk order member v r = (Inr (got, via), r1)" "hold got c = Inr c1"
  using assms mark_unresolved [of what] unfolding take_value_def
  by (auto split: prod.splits sum.splits walk_error.splits if_splits)

lemma take_value_marks: "keeps_marks hold \<Longrightarrow> marks_stay (take_value n order member v what hold)"
  unfolding marks_stay_def by (metis keeps_marks_def take_value_holds)

lemma take_value_same:
  assumes o: "enumerates order1" "enumerates order2" and h: "keeps_marks hold"
  shows "same_step member (take_value n order1 member v what hold) (take_value n order2 member v what hold)"
proof (rule same_stepI [OF take_value_marks [OF h]])
  fix c r r' c1 r1
  assume a: "alike member r r'" and t: "take_value n order1 member v what hold c r = (None, c1, r1)"
    and u: "c_unresolved c1 = None"
  obtain got via where w: "walk order1 member v r = (Inr (got, via), r1)" and hold: "hold got c = Inr c1"
    using t u by (rule take_value_holds)
  from walk_alike [OF o a w] obtain r1' where "walk order2 member v r' = (Inr (got, via), r1')" "alike member r1 r1'" by blast
  then show "\<exists>r1'. take_value n order2 member v what hold c r' = (None, c1, r1') \<and> alike member r1 r1'"
    using hold by (simp add: take_value_def)
qed

lemma take_recording_marks: "marks_stay (take_recording member)"
  unfolding marks_stay_def using mark_unresolved [of "''input.audio''"]
  by (auto simp: take_recording_def Let_def split: if_splits sum.splits option.splits prod.splits)

lemma take_recording_same: "same_step member (take_recording member) (take_recording member)"
proof (rule same_stepI [OF take_recording_marks])
  fix c r r' c1 r1
  assume a: "alike member r r'" and t: "take_recording member c r = (None, c1, r1)" and u: "c_unresolved c1 = None"
  obtain x r2 where x: "read_member member (c_audio c) r = (x, r2)" by (cases "read_member member (c_audio c) r")
  obtain y r3 where y: "read_member member (c_audio c) r' = (y, r3)" by (cases "read_member member (c_audio c) r'")
  have xy: "x = y" "cache_ok member r2" "cache_ok member r3" "recordings r2 = recordings r3"
    using a x y read_member_ok [of member r "c_audio c" x r2] read_member_ok [of member r' "c_audio c" y r3]
    by (auto simp: alike_def)
  have upd: "alike member (r2\<lparr>recordings := z\<rparr>) (r3\<lparr>recordings := z\<rparr>)" for z
    using xy by (simp add: alike_def cache_ok_def)
  show "\<exists>r1'. take_recording member c r' = (None, c1, r1') \<and> alike member r1 r1'"
    using t u a x y xy upd mark_unresolved [of "''input.audio''"]
    by (auto simp: take_recording_def Let_def split: if_splits sum.splits option.splits)
qed

lemma check_time_same: "same_step member check_time check_time"
  by (rule same_stepI) (auto simp: marks_stay_def check_time_def split: if_splits)

lemma run_steps_marks: "\<forall>s \<in> set ss. marks_stay s \<Longrightarrow> marks_stay (run_steps ss)"
proof (induction ss)
  case (Cons s ss)
  then have s: "marks_stay s" and IH: "marks_stay (run_steps ss)" by simp_all
  show ?case unfolding marks_stay_def
  proof (intro allI impI)
    fix c r c1 r1
    assume t: "run_steps (s # ss) c r = (None, c1, r1)" and u: "c_unresolved c1 = None"
    obtain c2 r2 where "s c r = (None, c2, r2)" "run_steps ss c2 r2 = (None, c1, r1)"
      using t by (auto split: prod.splits option.splits)
    with s IH u show "c_unresolved c = None" unfolding marks_stay_def by blast
  qed
qed (simp add: marks_stay_def)

lemma same_steps_mark: "list_all2 (same_step member) ss ss' \<Longrightarrow> \<forall>s \<in> set ss. marks_stay s"
  by (induction ss ss' rule: list_all2_induct) (simp_all add: same_step_def)

lemma run_steps_same:
  "list_all2 (same_step member) ss ss' \<Longrightarrow> same_step member (run_steps ss) (run_steps ss')"
proof (induction ss arbitrary: ss')
  case Nil
  then show ?case by (simp add: same_step_def marks_stay_def)
next
  case (Cons s ss)
  then obtain t ts where ss': "ss' = t # ts" and s: "same_step member s t" and l: "list_all2 (same_step member) ss ts"
    by (auto simp: list_all2_Cons1)
  have all: "\<forall>s' \<in> set (s # ss). marks_stay s'"
    using Cons.prems by (rule same_steps_mark)
  show ?case
  proof (rule same_stepI [OF run_steps_marks [OF all]])
    fix c r r' c1 r1
    assume a: "alike member r r'" and t1: "run_steps (s # ss) c r = (None, c1, r1)" and u: "c_unresolved c1 = None"
    obtain c2 r2 where s2: "s c r = (None, c2, r2)" and later: "run_steps ss c2 r2 = (None, c1, r1)"
      using t1 by (auto split: prod.splits option.splits)
    have "marks_stay (run_steps ss)" using all by (intro run_steps_marks) simp
    with later u have u2: "c_unresolved c2 = None" unfolding marks_stay_def by blast
    obtain r2' where "t c r' = (None, c2, r2')" "alike member r2 r2'" using same_stepD [OF s a s2 u2] .
    moreover from same_stepD [OF Cons.IH [OF l] this(2) later u]
    obtain r1' where "run_steps ts c2 r2' = (None, c1, r1')" "alike member r1 r1'" .
    ultimately show "\<exists>r1'. run_steps ss' c r' = (None, c1, r1') \<and> alike member r1 r1'" by (simp add: ss')
  qed
qed

lemma read_check_same:
  assumes o: "enumerates order1" "enumerates order2" and a: "alike member r r'"
    and c: "read_check u order1 member n item r = (Inr c, r1)" "c_unresolved c = None"
  shows "\<exists>r1'. read_check u order2 member n item r' = (Inr c, r1') \<and> alike member r1 r1'"
proof -
  note same = take_value_same [OF o] keeps_marks_holds
  obtain m name sets lane where m: "item = JObj m" and head: "check_head m = Inr (name, sets, lane)"
    using c(1) by (auto simp: read_check_def split: json.splits sum.splits)
  show ?thesis
  proof (cases "known_lane lane")
    case False
    obtain bound where b: "fmlookup m ''within_ms'' = Some bound"
      using c(1) False by (auto simp: read_check_def m head unknown_lane_check_def split: option.splits)
    have s: "same_step member (take_value n order1 member bound ''within_ms'' hold_within)
        (take_value n order2 member bound ''within_ms'' hold_within)" by (rule same)+
    have t: "take_value n order1 member bound ''within_ms'' hold_within (new_check name sets lane) r = (None, c, r1)"
      using c(1) False by (auto simp: read_check_def m head unknown_lane_check_def b split: prod.splits option.splits)
    obtain r1' where "take_value n order2 member bound ''within_ms'' hold_within (new_check name sets lane) r' = (None, c, r1')"
      "alike member r1 r1'" using same_stepD [OF s a t c(2)] .
    with False show ?thesis by (simp add: read_check_def m head unknown_lane_check_def b)
  next
    case True
    obtain fm where fm: "check_form m lane = Inr fm"
      using c(1) True by (auto simp: read_check_def m head split: sum.splits)
    let ?steps = "\<lambda>order. take_value n order member (fm_within fm) ''within_ms'' hold_within
                    # lane_steps n order member lane fm @ expect_steps u n order member fm"
    have "list_all2 (same_step member) (lane_steps n order1 member lane fm) (lane_steps n order2 member lane fm)"
      by (simp add: lane_steps_def same take_recording_same)
    moreover have "list_all2 (same_step member) (expect_steps u n order1 member fm) (expect_steps u n order2 member fm)"
      by (simp add: expect_steps_def same check_time_same split: option.split)
    ultimately have s: "same_step member (run_steps (?steps order1)) (run_steps (?steps order2))"
      by (intro run_steps_same) (simp add: same list_all2_appendI)
    have t: "run_steps (?steps order1) (start_check name sets lane fm) r = (None, c, r1)"
      using c(1) True by (auto simp: read_check_def m head fm simp del: run_steps.simps split: prod.splits option.splits)
    obtain r1' where "run_steps (?steps order2) (start_check name sets lane fm) r' = (None, c, r1')" "alike member r1 r1'"
      using same_stepD [OF s a t c(2)] .
    with True show ?thesis by (simp add: read_check_def m head fm del: run_steps.simps)
  qed
qed

lemma checks_loop_extends:
  "checks_loop u order member i items names out r = (Inr cs, r1) \<Longrightarrow> set out \<subseteq> set cs"
proof (induction items arbitrary: i names out r)
  case (Cons item items)
  then obtain c r2 where "checks_loop u order member (i + 1) items (insert (c_name c) names) (out @ [c]) r2 = (Inr cs, r1)"
    by (auto split: prod.splits sum.splits if_splits)
  from Cons.IH [OF this] show ?case by simp
qed auto

lemma checks_loop_same:
  assumes o: "enumerates order1" "enumerates order2" and ok: "\<forall>c \<in> set cs. c_unresolved c = None"
  shows "alike member r r' \<Longrightarrow> checks_loop u order1 member i items names out r = (Inr cs, r1)
    \<Longrightarrow> \<exists>r1'. checks_loop u order2 member i items names out r' = (Inr cs, r1') \<and> alike member r1 r1'"
proof (induction items arbitrary: i names out r r')
  case (Cons item items)
  obtain c r2 where c: "read_check u order1 member (i + 1) item r = (Inr c, r2)" "c_name c \<notin> names"
    and later: "checks_loop u order1 member (i + 1) items (insert (c_name c) names) (out @ [c]) r2 = (Inr cs, r1)"
    using Cons.prems(2) by (auto split: prod.splits sum.splits if_splits)
  have "c \<in> set cs" using checks_loop_extends [OF later] by simp
  with ok have "c_unresolved c = None" by blast
  from read_check_same [OF o Cons.prems(1) c(1) this] obtain r2'
    where "read_check u order2 member (i + 1) item r' = (Inr c, r2')" "alike member r2 r2'" by blast
  with Cons.IH [OF this(2) later] c(2) show ?case by simp
qed auto

lemma check_refusal_unresolved: "check_refusal p c = None \<Longrightarrow> known_lane (c_lane c) \<and> c_unresolved c = None"
  unfolding check_refusal_def by (cases "c_unresolved c") (simp_all split: if_splits prod.splits)

text \<open>C8: What is accepted does not depend on the order Go iterates maps in: where a validation document
  is read and all its checks fit the package, reading it under any other order gives the same checks,
  though the same is not so of documents that are refused or carry a check that can never pass.\<close>

theorem acceptance_has_no_order:
  assumes "enumerates order1" "enumerates order2"
    and "parse_validation u order1 member raw = Inr cs" "validate_package_checks cs p = None"
  shows "parse_validation u order2 member raw = Inr cs"
proof -
  have ok: "\<forall>c \<in> set cs. c_unresolved c = None"
    using assms(4) unfolding validate_package_checks_def first_error_None by (auto dest: check_refusal_unresolved)
  obtain d ob where d: "decode_strict raw = Inr d" "checks_of d = Some ob"
    using assms(3) by (auto simp: parse_validation_def split: sum.splits option.splits)
  define items where "items = (case fmlookup ob ''checks'' of Some (JArr vs) \<Rightarrow> vs | _ \<Rightarrow> [])"
  have n: "\<not> (items = [] \<or> max_checks < length items)"
    using assms(3) d by (auto simp: parse_validation_def items_def [symmetric])
  then obtain r where l: "checks_loop u order1 member 0 items {} [] new_resolver = (Inr cs, r)"
    and audio: "\<not> max_check_audio_bytes < sum_list (map snd (recordings r))"
    using assms(3) d by (auto simp: parse_validation_def items_def [symmetric] Let_def split: prod.splits sum.splits if_splits)
  have "alike member new_resolver new_resolver" by (simp add: alike_def cache_ok_new)
  from checks_loop_same [OF assms(1,2) ok this l] obtain r'
    where "checks_loop u order2 member 0 items {} [] new_resolver = (Inr cs, r')" "recordings r = recordings r'"
    by (auto simp: alike_def)
  with d n audio show ?thesis by (simp add: parse_validation_def items_def [symmetric] Let_def)
qed

definition ascii_unicode :: unicode where
  "ascii_unicode =
     \<lparr>u_lower = (\<lambda>r. if 65 \<le> r \<and> r \<le> 90 then r + 32 else r), u_letter = (\<lambda>r. 97 \<le> r \<and> r \<le> 122),
      u_digit = (\<lambda>r. 48 \<le> r \<and> r \<le> 57), u_mark = (\<lambda>r. False)\<rparr>"

definition quoted :: "bytes \<Rightarrow> bytes" where
  "quoted s = map (\<lambda>c. if c = CHR ''!'' then CHR 0x22 else c) s"

definition example_document :: bytes where
  "example_document = quoted (''{!checks!:[{!name!:!a!,!sets!:[!*!],!lane!:!operation!,'' @
     ''!call!:{!operation!:!p!},!within_ms!:5,!expect!:{!result_contains!:!x!}}]}'')"

definition example_check :: check where
  "example_check = (new_check ''a'' [''*''] ''operation'')\<lparr>c_operation := ''p'', c_arguments := Some fmempty,
     c_within := 5000000, c_expect := no_expect\<lparr>x_contains := [''x'']\<rparr>\<rparr>"

definition example_package :: package_checks where
  "example_package = \<lparr>pc_variants = [], pc_source = None,
     pc_operations = [''p'' \<mapsto> \<lparr>oc_effects = ''read.internal'', oc_confirms = False\<rparr>],
     pc_speech = False, pc_native = (\<lambda>s. False)\<rparr>"

lemma float64_overflows_code [code]:
  "float64_overflows m e =
     (if 0 \<le> e \<and> e \<le> 20 \<and> m < 10 ^ 20 then False
      else if 0 \<le> e then 2 ^ 1024 - 2 ^ 970 \<le> m * 10 ^ nat e
      else (2 ^ 1024 - 2 ^ 970) * 10 ^ nat (- e) \<le> m)"
proof (cases "0 \<le> e \<and> e \<le> 20 \<and> m < 10 ^ 20")
  case True
  then have "m * 10 ^ nat e < 10 ^ 20 * 10 ^ nat e" by simp
  also have "\<dots> \<le> 10 ^ 20 * 10 ^ 20" using True by (intro mult_left_mono power_increasing) auto
  also have "\<dots> \<le> (2 ^ 1024 - 2 ^ 970 :: nat)" by simp
  finally show ?thesis using True by (simp add: float64_overflows_def)
next
  case False
  then show ?thesis unfolding float64_overflows_def by (simp only: if_False)
qed

lemma example_parses:
  "parse_validation ascii_unicode sorted_keys example_member example_document = Inr [example_check]"
  by code_simp

lemma rev_sorted_keys_enumerates: "enumerates (rev \<circ> sorted_keys)"
  using sorted_keys_enumerates by (simp add: enumerates_def)

lemma acceptance_has_no_order_witness:
  "parse_validation ascii_unicode (rev \<circ> sorted_keys) example_member example_document = Inr [example_check]"
proof (rule acceptance_has_no_order [OF sorted_keys_enumerates rev_sorted_keys_enumerates example_parses])
  show "validate_package_checks [example_check] example_package = None" by code_simp
qed

end
