(* ===== verification/ChecksFormed.thy ===== *)
theory ChecksFormed
  imports PackageChecks
begin

text \<open>
  What a check that can pass looks like once \<open>ParseValidation\<close> has read it, lane by lane, and what it
  means that a package's checks are accepted.
\<close>

section \<open>The form of a check\<close>

definition sets_formed :: "bytes list \<Rightarrow> bool" where
  "sets_formed sets \<longleftrightarrow> sets \<noteq> [] \<and> distinct sets \<and> (sets = [all_sets] \<or> (\<forall>s \<in> set sets. re_variant_id s))"

definition order_type :: "bool \<Rightarrow> bytes \<Rightarrow> bool" where
  "order_type speaks t \<longleftrightarrow> valid_event_name t \<and> t \<notin> set telemetry_events \<and> t \<notin> set terminal_events
     \<and> (speaks \<longrightarrow> t \<notin> set input_events)"

definition events_formed :: "unicode \<Rightarrow> bool \<Rightarrow> bool \<Rightarrow> events_expect \<Rightarrow> bool" where
  "events_formed u hears speaks x \<longleftrightarrow>
     (x_order x \<noteq> [] \<or> x_phrases x \<noteq> [] \<or> x_floor x \<noteq> None)
     \<and> length (x_order x) \<le> max_event_order \<and> length (x_phrases x) \<le> max_transcript_words
     \<and> (\<forall>t \<in> set (x_order x). order_type speaks t)
     \<and> (\<forall>p \<in> set (x_phrases x). normalize u p \<noteq> [])
     \<and> (speaks \<longrightarrow> x_phrases x = []) \<and> (hears \<longrightarrow> x_floor x = None)
     \<and> (\<forall>f. x_floor x = Some f \<longrightarrow> 1 \<le> floor_ms f \<and> floor_ms f \<le> max_audio_floor_ms
          \<and> (\<exists>d. floor_dbfs f = Fin d \<and> - 120 \<le> d \<and> d \<le> 0))"

definition operation_formed :: "check \<Rightarrow> bool" where
  "operation_formed c \<longleftrightarrow>
     c_operation c \<noteq> [] \<and> length (c_operation c) \<le> 128 \<and> \<not> has_control (c_operation c) \<and> c_arguments c \<noteq> None
     \<and> x_cosine (c_expect c) = None \<and> x_events (c_expect c) = None
     \<and> (case x_json (c_expect c) of
          None \<Rightarrow> x_contains (c_expect c) \<noteq> [] \<and> [] \<notin> set (x_contains (c_expect c))
        | Some j \<Rightarrow> valid_pointer (je_path j) \<and> x_contains (c_expect c) = [])"

definition embeddings_formed :: "check \<Rightarrow> bool" where
  "embeddings_formed c \<longleftrightarrow>
     c_kind c \<noteq> [] \<and> c_text c \<noteq> []
     \<and> (\<exists>cs. x_cosine (c_expect c) = Some cs \<and> cs_reference cs \<noteq> []
          \<and> - 1 \<le> float_rat (cs_min cs) \<and> float_rat (cs_min cs) \<le> 1)"

definition session_formed :: "unicode \<Rightarrow> check \<Rightarrow> bool" where
  "session_formed u c \<longleftrightarrow>
     (c_audio c = []) \<noteq> (c_text c = [])
     \<and> (\<exists>x. x_events (c_expect c) = Some x \<and> events_formed u (c_audio c \<noteq> []) (c_text c \<noteq> []) x)
     \<and> (c_audio c \<noteq> [] \<longrightarrow>
          inside_root (c_audio c) \<and> c_audio c \<noteq> validation_file
          \<and> (\<exists>raw rec. c_wav c = Some raw \<and> read_recording raw = Inr rec \<and> c_recording c = rec_length rec))
     \<and> int (c_recording c) \<le> c_within c"

definition check_formed :: "unicode \<Rightarrow> check \<Rightarrow> bool" where
  "check_formed u c \<longleftrightarrow>
     valid_check_name (c_name c) \<and> sets_formed (c_sets c)
     \<and> 1000000 \<le> c_within c \<and> c_within c \<le> max_check_within_ms * 1000000
     \<and> (c_lane c = operation_lane \<longrightarrow> operation_formed c)
     \<and> (c_lane c = embeddings_lane \<longrightarrow> embeddings_formed c)
     \<and> (c_lane c = session_lane_name \<longrightarrow> session_formed u c)"

section \<open>What the values give\<close>

lemma strings_of_full: "strings_of vs = Some ss \<Longrightarrow> length ss = length vs \<and> [] \<notin> set ss"
  by (induction vs arbitrary: ss rule: strings_of.induct) (auto split: if_splits)

lemma contains_list_full: "contains_list v = Inr ss \<Longrightarrow> ss \<noteq> [] \<and> [] \<notin> set ss"
  by (auto simp: contains_list_def split: json.splits if_splits option.splits dest: strings_of_full)

lemma vector_loop_length: "vector_loop i out acc vs = Inr (vec, norm1) \<Longrightarrow> length vec = length out + length vs"
  by (induction i out acc vs rule: vector_loop.induct) (auto split: json.splits)

lemma reference_vector_full: "reference_vector v = Inr vec \<Longrightarrow> vec \<noteq> []"
  by (auto simp: reference_vector_def split: json.splits if_splits sum.splits dest: vector_loop_length)

lemma sets_loop_formed:
  "sets_loop alone seen ss = None \<Longrightarrow> distinct ss \<and> set ss \<inter> seen = {}
     \<and> (\<forall>s \<in> set ss. s = all_sets \<or> re_variant_id s) \<and> (\<not> alone \<longrightarrow> all_sets \<notin> set ss)"
  by (induction alone seen ss rule: sets_loop.induct) (auto split: if_splits)

lemma check_sets_formed: "check_sets m = Inr sets \<Longrightarrow> sets_formed sets"
proof -
  assume a: "check_sets m = Inr sets"
  then have n: "sets \<noteq> []" and l: "sets_loop (length sets = 1) {} sets = None"
    by (auto simp: check_sets_def split: sum.splits option.splits if_splits)
  note f = sets_loop_formed [OF l]
  show ?thesis
  proof (cases "length sets = 1")
    case True
    then obtain s where "sets = [s]" by (cases sets) auto
    with f show ?thesis by (auto simp: sets_formed_def)
  next
    case False
    with f n show ?thesis by (auto simp: sets_formed_def)
  qed
qed

lemma sets_and_lane_formed:
  "sets_and_lane m n = Inr (name, sets, lane) \<Longrightarrow> n = name \<and> sets_formed sets"
  by (cases "check_sets m") (auto simp: sets_and_lane_def dest: check_sets_formed split: option.splits json.splits)

lemma check_head_formed:
  assumes "check_head m = Inr (name, sets, lane)"
  shows "valid_check_name name \<and> sets_formed sets"
proof -
  have "name_and_rest m = Inr (name, sets, lane)"
    using assms unfolding check_head_def by (simp split: if_split_asm)
  then obtain n where "valid_check_name n" "sets_and_lane m n = Inr (name, sets, lane)"
    unfolding name_and_rest_def by (auto split: option.splits json.splits if_splits)
  with sets_and_lane_formed show ?thesis by blast
qed

lemma blank_empty: "blank []"
  by (simp add: blank_def runes.simps [of "[]"])

lemma audio_input_one: "audio_input a = Inr (audio, text) \<Longrightarrow> audio \<noteq> [] \<and> text = []"
  by (cases a) (auto simp: audio_input_def split: if_splits)

lemma text_input_one: "text_input t = Inr (audio, text) \<Longrightarrow> audio = [] \<and> text \<noteq> []"
  using blank_empty by (cases t) (auto simp: text_input_def split: if_splits)

lemma session_input_one: "session_input v = Inr (audio, text) \<Longrightarrow> (audio = []) \<noteq> (text = [])"
  by (cases v) (auto simp: session_input_def split: if_splits option.splits
      dest: audio_input_one text_input_one)

lemma order_items_formed:
  "order_items speaks items = Inr ts \<Longrightarrow> length ts = length items \<and> (\<forall>t \<in> set ts. order_type speaks t)"
proof (induction items arbitrary: ts)
  case (Cons item items)
  obtain t ts1 where "item = JStr t" "order_type speaks t" "order_items speaks items = Inr ts1" "ts = t # ts1"
    using Cons.prems by (cases item) (simp_all add: order_type_def split: if_split_asm sum.splits, blast)
  with Cons.IH show ?case by simp
qed simp

lemma phrase_items_formed:
  "phrase_items u items = Inr ps \<Longrightarrow> length ps = length items \<and> (\<forall>p \<in> set ps. normalize u p \<noteq> [])"
proof (induction items arbitrary: ps)
  case (Cons item items)
  obtain p ps1 where "item = JStr p" "normalize u p \<noteq> []" "phrase_items u items = Inr ps1" "ps = p # ps1"
    using Cons.prems by (cases item) (simp_all split: if_split_asm sum.splits)
  with Cons.IH show ?case by simp
qed simp

lemma order_member_formed:
  assumes "order_member speaks v = Inr ts"
  shows "(v \<noteq> None \<longrightarrow> ts \<noteq> []) \<and> length ts \<le> max_event_order
   \<and> (\<forall>t \<in> set ts. order_type speaks t)"
proof (cases v)
  case (Some d)
  with assms obtain items where "d = JArr items" "items \<noteq> []" "length items \<le> max_event_order"
      "order_items speaks items = Inr ts"
    by (cases d) (auto simp: order_member_def split: if_splits)
  with order_items_formed [of speaks items ts] show ?thesis by auto
qed (use assms in \<open>simp add: order_member_def\<close>)

lemma phrases_member_formed:
  assumes "phrases_member u speaks v = Inr ps"
  shows "(v \<noteq> None \<longrightarrow> ps \<noteq> []) \<and> length ps \<le> max_transcript_words
   \<and> (\<forall>p \<in> set ps. normalize u p \<noteq> []) \<and> (speaks \<longrightarrow> ps = [])"
proof (cases v)
  case (Some d)
  with assms obtain items where "d = JArr items" "items \<noteq> []" "length items \<le> max_transcript_words"
      "phrase_items u items = Inr ps" "\<not> speaks"
    by (cases d) (auto simp: phrases_member_def split: if_splits)
  with phrase_items_formed [of u items ps] show ?thesis by auto
qed (use assms in \<open>simp add: phrases_member_def\<close>)

lemma floor_member_formed:
  assumes "floor_member hears v = Inr fl"
  shows "(v \<noteq> None \<longrightarrow> fl \<noteq> None) \<and> (hears \<longrightarrow> fl = None)
   \<and> (\<forall>f. fl = Some f \<longrightarrow> 1 \<le> floor_ms f \<and> floor_ms f \<le> max_audio_floor_ms
        \<and> (\<exists>d. floor_dbfs f = Fin d \<and> - 120 \<le> d \<and> d \<le> 0))"
proof (cases v)
  case (Some d)
  with assms show ?thesis
    by (cases d) (auto simp: floor_member_def Let_def not_less split: if_splits option.splits json.splits)
qed (use assms in \<open>simp add: floor_member_def\<close>)

lemma session_events_formed: "session_events u hears speaks v = Inr x \<Longrightarrow> events_formed u hears speaks x"
proof -
  assume a: "session_events u hears speaks v = Inr x"
  then obtain m order1 phrases fl where m: "v = JObj m" "m \<noteq> fmempty"
      "only_members m [''order'', ''transcript_contains'', ''audio_at_least'']"
    and o: "order_member speaks (fmlookup m ''order'') = Inr order1"
    and p: "phrases_member u speaks (fmlookup m ''transcript_contains'') = Inr phrases"
    and f: "floor_member hears (fmlookup m ''audio_at_least'') = Inr fl"
    and x: "x = \<lparr>x_order = order1, x_phrases = phrases, x_floor = fl\<rparr>"
    by (auto simp: session_events_def split: json.splits if_splits sum.splits)
  obtain k y where "fmlookup m k = Some y" using m(2) by (metis fmap_ext fmempty_lookup not_None_eq)
  moreover from this have "k |\<in>| fmdom m" by (rule fmdomI)
  with m(3) have "k \<in> {''order'', ''transcript_contains'', ''audio_at_least''}" by (auto simp: only_members_def)
  ultimately have "fmlookup m ''order'' \<noteq> None \<or> fmlookup m ''transcript_contains'' \<noteq> None
      \<or> fmlookup m ''audio_at_least'' \<noteq> None" by auto
  with order_member_formed [OF o] phrases_member_formed [OF p] floor_member_formed [OF f]
  show ?thesis unfolding events_formed_def x by auto
qed

section \<open>What the steps lead to\<close>

text \<open>
  \<open>leads s P Q\<close>: where a step leaves a check that can still pass, \<open>P\<close> before it gives \<open>Q\<close> after.
\<close>

definition leads :: "'e step \<Rightarrow> (check \<Rightarrow> bool) \<Rightarrow> (check \<Rightarrow> bool) \<Rightarrow> bool" where
  "leads s P Q \<longleftrightarrow> (\<forall>c r c1 r1. s c r = (None, c1, r1) \<longrightarrow> c_unresolved c1 = None \<longrightarrow> P c \<longrightarrow> Q c1)"

lemma leadsD: "leads s P Q \<Longrightarrow> s c r = (None, c1, r1) \<Longrightarrow> c_unresolved c1 = None \<Longrightarrow> P c \<Longrightarrow> Q c1"
  unfolding leads_def by blast

lemma leads_take:
  "(\<And>got c c1. hold got c = Inr c1 \<Longrightarrow> P c \<Longrightarrow> Q c1) \<Longrightarrow> leads (take_value n order member v what hold) P Q"
  unfolding leads_def by (metis take_value_holds)

lemma leads_run_Nil: "leads (run_steps []) P P"
  by (simp add: leads_def)

lemma leads_run_Cons:
  assumes "leads s P Q" "leads (run_steps ss) Q R" "marks_stay (run_steps ss)"
  shows "leads (run_steps (s # ss)) P R"
  unfolding leads_def
proof (intro allI impI)
  fix c r c1 r1
  assume t: "run_steps (s # ss) c r = (None, c1, r1)" and u: "c_unresolved c1 = None" and p: "P c"
  obtain c2 r2 where s: "s c r = (None, c2, r2)" and l: "run_steps ss c2 r2 = (None, c1, r1)"
    using t by (auto split: prod.splits option.splits)
  have "c_unresolved c2 = None" using assms(3) l u unfolding marks_stay_def by blast
  with assms(1) s p have "Q c2" unfolding leads_def by blast
  with assms(2) l u show "R c1" unfolding leads_def by blast
qed

lemma leads_weaken: "leads s P Q \<Longrightarrow> (\<And>c. P' c \<Longrightarrow> P c) \<Longrightarrow> (\<And>c. Q c \<Longrightarrow> Q' c) \<Longrightarrow> leads s P' Q'"
  unfolding leads_def by blast

lemma step_marks:
  "marks_stay (take_value n order member v what hold_within)"
  "\<forall>s \<in> set (lane_steps n order member lane fm). marks_stay s"
  "\<forall>s \<in> set (expect_steps u n order member fm). marks_stay s"
  using check_time_same
  by (auto simp: lane_steps_def expect_steps_def same_step_def take_recording_marks
      intro: take_value_marks keeps_marks_holds split: option.splits)

text \<open>What the members of a lane's check say before its values are taken.\<close>

definition headed :: "bytes \<Rightarrow> bytes list \<Rightarrow> bytes \<Rightarrow> check \<Rightarrow> bool" where
  "headed name sets lane c \<longleftrightarrow> c_name c = name \<and> c_sets c = sets \<and> c_lane c = lane"

definition timed :: "check \<Rightarrow> bool" where
  "timed c \<longleftrightarrow> 1000000 \<le> c_within c \<and> c_within c \<le> max_check_within_ms * 1000000"

lemma leads_within:
  assumes "\<And>c w. P c \<Longrightarrow> P (c\<lparr>c_within := w\<rparr>)"
  shows "leads (take_value n order member v what hold_within) P (\<lambda>c. P c \<and> timed c)"
proof (rule leads_take)
  fix got c c1 assume h: "hold_within got c = Inr c1" and p: "P c"
  obtain ms where ms: "check_milliseconds got = Some ms"
    using h by (cases "check_milliseconds got") (simp_all add: hold_within_def)
  with h have "1 \<le> ms" "ms \<le> max_check_within_ms" "c1 = c\<lparr>c_within := ms * 1000000\<rparr>"
    by (simp_all add: hold_within_def split: if_split_asm)
  with assms [OF p] show "P c1 \<and> timed c1" by (simp add: timed_def)
qed

lemma fm_facts:
  assumes "check_form m lane = Inr fm"
  shows "lane_refusal lane (fm_call fm) (fm_input fm) (fm_cosine fm) (fm_events fm) (fm_operation fm) = None"
    and "json_path (fm_json fm) = Inr (fm_path fm)"
    and "length (filter id [fm_contains fm \<noteq> None, fm_json fm \<noteq> None, fm_cosine fm \<noteq> None, fm_events fm \<noteq> None]) = 1"
    and "fm_cosine fm \<noteq> None \<longrightarrow> member_of (fm_cosine fm) ''reference'' \<noteq> None \<and> member_of (fm_cosine fm) ''min'' \<noteq> None"
proof -
  obtain expect json cosine where f: "form_of m lane expect json cosine = Inr fm"
    using assms by (auto simp: check_form_def split: sum.splits option.splits)
  then show "lane_refusal lane (fm_call fm) (fm_input fm) (fm_cosine fm) (fm_events fm) (fm_operation fm) = None"
    "json_path (fm_json fm) = Inr (fm_path fm)"
    "length (filter id [fm_contains fm \<noteq> None, fm_json fm \<noteq> None, fm_cosine fm \<noteq> None, fm_events fm \<noteq> None]) = 1"
    "fm_cosine fm \<noteq> None \<longrightarrow> member_of (fm_cosine fm) ''reference'' \<noteq> None \<and> member_of (fm_cosine fm) ''min'' \<noteq> None"
    unfolding form_of_def Let_def by (simp_all split: if_split_asm sum.splits option.splits, auto)
qed

text \<open>A check before its expectation is filled in.\<close>

definition started :: "bytes \<Rightarrow> bytes list \<Rightarrow> bytes \<Rightarrow> form \<Rightarrow> check \<Rightarrow> bool" where
  "started name sets lane fm c \<longleftrightarrow> headed name sets lane c
     \<and> c_operation c = c_operation (start_check name sets lane fm)
     \<and> c_expect c = c_expect (start_check name sets lane fm)"

lemma started_start: "started name sets lane fm (start_check name sets lane fm)"
  by (simp add: started_def headed_def start_check_def new_check_def)

lemma started_within: "started name sets lane fm c \<Longrightarrow> started name sets lane fm (c\<lparr>c_within := w\<rparr>)"
  by (simp add: started_def headed_def)

lemma leads_lane:
  assumes l: "leads (run_steps (lane_steps n order member lane fm @ expect_steps u n order member fm))
      (\<lambda>c. P c \<and> timed c) Q"
    and p: "\<And>c w. P c \<Longrightarrow> P (c\<lparr>c_within := w\<rparr>)"
  shows "leads (run_steps (take_value n order member v what hold_within
      # lane_steps n order member lane fm @ expect_steps u n order member fm)) P Q"
proof (rule leads_run_Cons [OF leads_within [where P = P] l], erule p)
  show "marks_stay (run_steps (lane_steps n order member lane fm @ expect_steps u n order member fm))"
    using step_marks(2) [of n order member lane fm] step_marks(3) [of u n order member fm]
    by (intro run_steps_marks) auto
qed

lemma hold_contains_leads:
  "leads (take_value n order member v what hold_contains) P
     (\<lambda>c. \<exists>c0 want. P c0 \<and> want \<noteq> [] \<and> [] \<notin> set want \<and> c = set_expect (x_contains_update (\<lambda>_. want)) c0)"
  by (rule leads_take) (auto simp: hold_contains_def split: sum.splits dest: contains_list_full)

lemma leads_run_one: "leads s P Q \<Longrightarrow> leads (run_steps [s]) P Q"
  by (rule leads_run_Cons [OF _ leads_run_Nil]) (simp_all add: marks_stay_def)

lemma operation_leads:
  assumes fm: "check_form m operation_lane = Inr fm"
  shows "leads (run_steps (take_value n order member v what hold_within
      # lane_steps n order member operation_lane fm @ expect_steps u n order member fm))
    (started name sets operation_lane fm)
    (\<lambda>c. headed name sets operation_lane c \<and> timed c \<and> operation_formed c)"
proof -
  note f = fm_facts [OF fm]
  have op: "fm_cosine fm = None" "fm_events fm = None" "fm_operation fm \<noteq> []" "length (fm_operation fm) \<le> 128"
    "\<not> has_control (fm_operation fm)"
    using f(1) by (auto simp: lane_refusal_def split: if_splits)
  define pre where "pre c \<longleftrightarrow> headed name sets operation_lane c \<and> timed c \<and> c_arguments c \<noteq> None
     \<and> c_operation c = fm_operation fm \<and> c_expect c = c_expect (start_check name sets operation_lane fm)" for c
  obtain args where lane: "lane_steps n order member operation_lane fm =
      [take_value n order member args ''call.arguments'' hold_arguments]"
    by (simp add: lane_steps_def)
  have first: "leads (take_value n order member args ''call.arguments'' hold_arguments)
      (\<lambda>c. started name sets operation_lane fm c \<and> timed c) pre"
    by (rule leads_take)
      (auto simp: hold_arguments_def pre_def started_def headed_def timed_def start_check_def new_check_def split: json.splits)
  have second: "leads (run_steps (expect_steps u n order member fm)) pre
      (\<lambda>c. headed name sets operation_lane c \<and> timed c \<and> operation_formed c)"
  proof (cases "fm_contains fm")
    case (Some w)
    then have js: "fm_json fm = None" using f(3) op by (auto split: if_splits)
    have e: "expect_steps u n order member fm = [take_value n order member w ''expect.result_contains'' hold_contains]"
      by (simp add: expect_steps_def Some)
    show ?thesis unfolding e
      by (rule leads_run_one, rule leads_weaken [OF hold_contains_leads [of n order member w _ pre]])
        (auto simp: pre_def set_expect_def headed_def timed_def operation_formed_def start_check_def
          new_check_def no_expect_def Some js op)
  next
    case None
    then obtain js where js: "fm_json fm = Some js" using f(3) op by (cases "fm_json fm") auto
    have path: "valid_pointer (fm_path fm)"
      using f(2) by (auto simp: json_path_def js split: option.splits json.splits if_splits)
    have E: "c_expect (start_check name sets operation_lane fm) =
        no_expect\<lparr>x_json := Some \<lparr>je_path = fm_path fm, je_equals = JNull, je_at_least = None\<rparr>\<rparr>"
      by (simp add: start_check_def new_check_def None js op no_expect_def)
    have eq: "leads (take_value n order member w what hold_equals) pre
        (\<lambda>c. headed name sets operation_lane c \<and> timed c \<and> operation_formed c)" for w what
      by (rule leads_take)
        (auto simp: hold_equals_def pre_def E set_expect_def headed_def timed_def operation_formed_def no_expect_def op path)
    have al: "leads (take_value n order member w what hold_at_least) pre
        (\<lambda>c. headed name sets operation_lane c \<and> timed c \<and> operation_formed c)" for w what
      by (rule leads_take)
        (auto simp: hold_at_least_def pre_def E set_expect_def headed_def timed_def operation_formed_def no_expect_def op path
          split: json.splits)
    show ?thesis
      by (auto simp: expect_steps_def None js op intro!: leads_run_one eq al split: option.split)
  qed
  have marks: "marks_stay (run_steps (expect_steps u n order member fm))"
    by (rule run_steps_marks) (rule step_marks)
  show ?thesis
    by (rule leads_lane) (use leads_run_Cons [OF first second marks] in \<open>simp_all add: lane started_within\<close>)
qed

lemma embeddings_leads:
  assumes fm: "check_form m embeddings_lane = Inr fm"
  shows "leads (run_steps (take_value n order member v what hold_within
      # lane_steps n order member embeddings_lane fm @ expect_steps u n order member fm))
    (started name sets embeddings_lane fm)
    (\<lambda>c. headed name sets embeddings_lane c \<and> timed c \<and> embeddings_formed c)"
proof -
  note f = fm_facts [OF fm]
  have cos: "fm_cosine fm \<noteq> None"
    using f(1) by (auto simp: lane_refusal_def operation_lane_def embeddings_lane_def split: if_splits)
  have other: "fm_contains fm = None" "fm_events fm = None" "fm_json fm = None"
    using f(3) cos by (auto split: if_splits)
  define pre where "pre c \<longleftrightarrow> headed name sets embeddings_lane c \<and> timed c \<and> c_kind c \<noteq> [] \<and> c_text c \<noteq> []" for c
  define start where "start c \<longleftrightarrow> pre c \<and> x_cosine (c_expect c) \<noteq> None" for c
  define mid where "mid c \<longleftrightarrow> pre c \<and> (\<exists>cs. x_cosine (c_expect c) = Some cs \<and> cs_reference cs \<noteq> [])" for c
  have lane: "lane_steps n order member embeddings_lane fm =
      [take_value n order member (the (fm_input fm)) ''input'' hold_embed_input]"
    by (simp add: lane_steps_def operation_lane_def embeddings_lane_def)
  have E: "\<exists>y. x_cosine (c_expect (start_check nm ss embeddings_lane fm)) = Some y" for nm ss
    by (simp add: start_check_def new_check_def other)
  have first: "leads (take_value n order member (the (fm_input fm)) ''input'' hold_embed_input)
      (\<lambda>c. started name sets embeddings_lane fm c \<and> timed c) start"
    by (rule leads_take)
      (auto simp: hold_embed_input_def pre_def start_def started_def headed_def timed_def E
        split: json.splits option.splits if_splits)
  have vec: "leads (take_value n order member w what hold_reference) start mid" for w what
    by (rule leads_take)
      (auto simp: hold_reference_def start_def mid_def pre_def set_expect_def headed_def timed_def
        split: sum.splits dest: reference_vector_full)
  have low: "leads (take_value n order member w what hold_min) mid
      (\<lambda>c. headed name sets embeddings_lane c \<and> timed c \<and> embeddings_formed c)" for w what
    by (rule leads_take)
      (auto simp: hold_min_def mid_def pre_def set_expect_def headed_def timed_def embeddings_formed_def not_less
        split: json.splits if_splits)
  have second: "leads (run_steps (expect_steps u n order member fm)) start
      (\<lambda>c. headed name sets embeddings_lane c \<and> timed c \<and> embeddings_formed c)"
    unfolding expect_steps_def other option.case
    by (rule leads_run_Cons [OF vec leads_run_one [OF low]])
      (auto intro!: run_steps_marks take_value_marks keeps_marks_holds)
  have marks: "marks_stay (run_steps (expect_steps u n order member fm))"
    by (rule run_steps_marks) (rule step_marks)
  show ?thesis
    by (rule leads_lane) (use leads_run_Cons [OF first second marks] in \<open>simp_all add: lane started_within\<close>)
qed

definition session_pre :: "check \<Rightarrow> bool" where
  "session_pre c \<longleftrightarrow> (c_audio c = []) \<noteq> (c_text c = [])
     \<and> (c_audio c \<noteq> [] \<longrightarrow>
          inside_root (c_audio c) \<and> c_audio c \<noteq> validation_file
          \<and> (\<exists>raw rec. c_wav c = Some raw \<and> read_recording raw = Inr rec \<and> c_recording c = rec_length rec))"

lemma take_recording_leads:
  "leads (take_recording member) (\<lambda>c. headed name sets lane c \<and> timed c \<and> (c_audio c = []) \<noteq> (c_text c = []))
     (\<lambda>c. headed name sets lane c \<and> timed c \<and> session_pre c)"
  unfolding leads_def
proof (intro allI impI)
  fix c r c1 r1
  assume t: "take_recording member c r = (None, c1, r1)" and u: "c_unresolved c1 = None"
    and p: "headed name sets lane c \<and> timed c \<and> (c_audio c = []) \<noteq> (c_text c = [])"
  have c: "c_unresolved c = None" using take_recording_marks t u unfolding marks_stay_def by blast
  show "headed name sets lane c1 \<and> timed c1 \<and> session_pre c1"
  proof (cases "c_audio c = []")
    case True
    with t p show ?thesis by (simp add: take_recording_def session_pre_def)
  next
    case False
    obtain x r2 where x: "read_member member (c_audio c) r = (x, r2)" by (cases "read_member member (c_audio c) r")
    have i: "c_audio c \<noteq> validation_file" "inside_root (c_audio c)"
      using t u c False mark_unresolved [of "''input.audio''"] by (auto simp: take_recording_def Let_def split: if_splits)
    then obtain raw where raw: "x = Inr (Some raw)"
      using t u c False x mark_unresolved [of "''input.audio''"]
      by (auto simp: take_recording_def Let_def split: sum.splits option.splits)
    with i obtain rec where "read_recording raw = Inr rec"
        "c1 = c\<lparr>c_wav := Some raw, c_recording := rec_length rec\<rparr>"
      using t u c False x mark_unresolved [of "''input.audio''"]
      by (auto simp: take_recording_def Let_def split: sum.splits)
    with p i False show ?thesis by (simp add: session_pre_def headed_def timed_def)
  qed
qed

lemma check_time_marks: "marks_stay check_time"
  by (auto simp: marks_stay_def check_time_def split: if_splits)

lemma session_leads:
  assumes fm: "check_form m session_lane_name = Inr fm"
  shows "leads (run_steps (take_value n order member v what hold_within
      # lane_steps n order member session_lane_name fm @ expect_steps u n order member fm))
    (started name sets session_lane_name fm)
    (\<lambda>c. headed name sets session_lane_name c \<and> timed c \<and> session_formed u c)"
proof -
  note f = fm_facts [OF fm]
  obtain ev where ev: "fm_events fm = Some ev"
    using f(1) by (cases "fm_events fm")
      (auto simp: lane_refusal_def operation_lane_def embeddings_lane_def session_lane_name_def split: if_splits)
  have other: "fm_contains fm = None" using f(3) ev by (auto split: if_splits)
  define pre where "pre c \<longleftrightarrow> headed name sets session_lane_name c \<and> timed c \<and> session_pre c" for c
  define mid where "mid c \<longleftrightarrow> pre c
     \<and> (\<exists>x. x_events (c_expect c) = Some x \<and> events_formed u (c_audio c \<noteq> []) (c_text c \<noteq> []) x)" for c
  have lane: "lane_steps n order member session_lane_name fm =
      [take_value n order member (the (fm_input fm)) ''input'' hold_session_input, take_recording member]"
    by (simp add: lane_steps_def operation_lane_def embeddings_lane_def session_lane_name_def)
  have first: "leads (take_value n order member (the (fm_input fm)) ''input'' hold_session_input)
      (\<lambda>c. started name sets session_lane_name fm c \<and> timed c)
      (\<lambda>c. headed name sets session_lane_name c \<and> timed c \<and> (c_audio c = []) \<noteq> (c_text c = []))"
    by (rule leads_take)
      (auto simp: hold_session_input_def started_def headed_def timed_def split: sum.splits dest: session_input_one)
  have rec: "leads (take_recording member)
      (\<lambda>c. headed name sets session_lane_name c \<and> timed c \<and> (c_audio c = []) \<noteq> (c_text c = [])) pre"
    unfolding pre_def [abs_def] by (rule take_recording_leads)
  have events: "leads (take_value n order member ev what (hold_events u)) pre mid" for what
    by (rule leads_take)
      (auto simp: hold_events_def mid_def pre_def session_pre_def set_expect_def headed_def timed_def
        split: sum.splits dest!: session_events_formed)
  have last: "leads check_time mid (\<lambda>c. headed name sets session_lane_name c \<and> timed c \<and> session_formed u c)"
    by (auto simp: leads_def check_time_def mid_def pre_def session_pre_def session_formed_def split: if_splits)
  have second: "leads (run_steps (expect_steps u n order member fm)) pre
      (\<lambda>c. headed name sets session_lane_name c \<and> timed c \<and> session_formed u c)"
    unfolding expect_steps_def other ev option.case
    by (rule leads_run_Cons [OF events leads_run_one [OF last]])
      (auto intro!: run_steps_marks check_time_marks)
  have marks: "marks_stay (run_steps (expect_steps u n order member fm))"
    by (rule run_steps_marks) (rule step_marks)
  have marks2: "marks_stay (run_steps (take_recording member # expect_steps u n order member fm))"
    using step_marks(3) [of u n order member fm] by (intro run_steps_marks) (auto simp: take_recording_marks)
  show ?thesis
    by (rule leads_lane)
      (use leads_run_Cons [OF first leads_run_Cons [OF rec second marks] marks2] in \<open>simp_all add: lane started_within\<close>)
qed

section \<open>What is read, and what is accepted\<close>

lemma read_check_formed:
  assumes c: "read_check u order member n item r = (Inr c, r1)" "c_unresolved c = None"
  shows "check_formed u c"
proof -
  obtain m name sets lane where m: "item = JObj m" and head: "check_head m = Inr (name, sets, lane)"
    using c(1) by (auto simp: read_check_def split: json.splits sum.splits)
  note formed = check_head_formed [OF head]
  show ?thesis
  proof (cases "known_lane lane")
    case False
    then obtain bound where t: "take_value n order member bound ''within_ms'' hold_within (new_check name sets lane) r = (None, c, r1)"
      using c(1) by (auto simp: read_check_def m head unknown_lane_check_def split: prod.splits option.splits)
    have "leads (take_value n order member bound ''within_ms'' hold_within) (headed name sets lane)
        (\<lambda>c. headed name sets lane c \<and> timed c)"
      by (rule leads_within) (simp add: headed_def)
    with t c(2) have "headed name sets lane c \<and> timed c"
      unfolding leads_def by (metis headed_def new_check_def check.select_convs(1-3))
    with formed False show ?thesis
      by (auto simp: check_formed_def headed_def timed_def known_lane_def)
  next
    case True
    obtain fm where fm: "check_form m lane = Inr fm"
      using c(1) True by (auto simp: read_check_def m head split: sum.splits)
    let ?run = "run_steps (take_value n order member (fm_within fm) ''within_ms'' hold_within
                    # lane_steps n order member lane fm @ expect_steps u n order member fm)"
    have t: "?run (start_check name sets lane fm) r = (None, c, r1)"
      using c(1) True by (auto simp: read_check_def m head fm simp del: run_steps.simps split: prod.splits option.splits)
    have lanes: "operation_lane \<noteq> embeddings_lane" "operation_lane \<noteq> session_lane_name"
      "embeddings_lane \<noteq> session_lane_name"
      by (simp_all add: operation_lane_def embeddings_lane_def session_lane_name_def)
    have "headed name sets lane c \<and> timed c
        \<and> (lane = operation_lane \<longrightarrow> operation_formed c)
        \<and> (lane = embeddings_lane \<longrightarrow> embeddings_formed c)
        \<and> (lane = session_lane_name \<longrightarrow> session_formed u c)"
    proof -
      consider "lane = operation_lane" | "lane = embeddings_lane" | "lane = session_lane_name"
        using True by (auto simp: known_lane_def)
      then show ?thesis
      proof cases
        case 1
        with fm have fm1: "check_form m operation_lane = Inr fm" by simp
        from leadsD [OF operation_leads [OF fm1] t [unfolded 1] c(2) started_start] show ?thesis using 1 lanes by simp
      next
        case 2
        with fm have fm1: "check_form m embeddings_lane = Inr fm" by simp
        from leadsD [OF embeddings_leads [OF fm1] t [unfolded 2] c(2) started_start] show ?thesis using 2 lanes by simp
      next
        case 3
        with fm have fm1: "check_form m session_lane_name = Inr fm" by simp
        from leadsD [OF session_leads [OF fm1] t [unfolded 3] c(2) started_start] show ?thesis using 3 lanes by simp
      qed
    qed
    with formed show ?thesis by (auto simp: check_formed_def headed_def timed_def)
  qed
qed

lemma checks_loop_formed:
  "checks_loop u order member i items names out r = (Inr cs, r1)
   \<Longrightarrow> distinct (map c_name out) \<and> set (map c_name out) = names
   \<Longrightarrow> \<forall>c \<in> set out. c_unresolved c = None \<longrightarrow> check_formed u c
   \<Longrightarrow> distinct (map c_name cs) \<and> length cs = length out + length items
       \<and> (\<forall>c \<in> set cs. c_unresolved c = None \<longrightarrow> check_formed u c)"
proof (induction items arbitrary: i names out r)
  case (Cons item items)
  obtain c r2 where c: "read_check u order member (i + 1) item r = (Inr c, r2)" "c_name c \<notin> names"
    and later: "checks_loop u order member (i + 1) items (insert (c_name c) names) (out @ [c]) r2 = (Inr cs, r1)"
    using Cons.prems(1) by (auto split: prod.splits sum.splits if_splits)
  have "c_unresolved c = None \<longrightarrow> check_formed u c" using read_check_formed [OF c(1)] by blast
  then have "\<forall>c' \<in> set (out @ [c]). c_unresolved c' = None \<longrightarrow> check_formed u c'" using Cons.prems(3) by auto
  moreover have "distinct (map c_name (out @ [c])) \<and> set (map c_name (out @ [c])) = insert (c_name c) names"
    using Cons.prems(2) c(2) by auto
  ultimately show ?case using Cons.IH [OF later] by simp
qed simp

lemma parse_validation_formed:
  assumes "parse_validation u order member raw = Inr cs"
  shows "cs \<noteq> [] \<and> length cs \<le> max_checks \<and> distinct (map c_name cs)
     \<and> (\<forall>c \<in> set cs. c_unresolved c = None \<longrightarrow> check_formed u c)"
proof -
  obtain d ob where d: "decode_strict raw = Inr d" "checks_of d = Some ob"
    using assms by (auto simp: parse_validation_def split: sum.splits option.splits)
  define items where "items = (case fmlookup ob ''checks'' of Some (JArr vs) \<Rightarrow> vs | _ \<Rightarrow> [])"
  have n: "\<not> (items = [] \<or> max_checks < length items)"
    using assms d by (auto simp: parse_validation_def items_def [symmetric])
  then obtain r where l: "checks_loop u order member 0 items {} [] new_resolver = (Inr cs, r)"
    using assms d by (auto simp: parse_validation_def items_def [symmetric] Let_def split: prod.splits sum.splits if_splits)
  from checks_loop_formed [OF l] n show ?thesis by auto
qed

section \<open>The recording a check carries\<close>

text \<open>
  A check's recording is what the member reader gives for its path, whatever the caches held. A step
  takes caches that agree with the reader, and a check with \<open>P\<close>, to such caches and a check with
  \<open>Q\<close>.
\<close>

definition carried :: "'e member_reader \<Rightarrow> check \<Rightarrow> bool" where
  "carried member c \<longleftrightarrow> (\<forall>raw. c_wav c = Some raw \<longrightarrow> member (c_audio c) = Inr (Some raw))"

definition sound_step :: "'e member_reader \<Rightarrow> 'e step \<Rightarrow> (check \<Rightarrow> bool) \<Rightarrow> (check \<Rightarrow> bool) \<Rightarrow> bool" where
  "sound_step member s P Q \<longleftrightarrow>
     (\<forall>c r c1 r1. s c r = (None, c1, r1) \<longrightarrow> cache_ok member r \<longrightarrow> P c \<longrightarrow> cache_ok member r1 \<and> Q c1)"

lemma sound_stepD:
  "sound_step member s P Q \<Longrightarrow> s c r = (None, c1, r1) \<Longrightarrow> cache_ok member r \<Longrightarrow> P c \<Longrightarrow> cache_ok member r1 \<and> Q c1"
  unfolding sound_step_def by blast

definition no_wav :: "check \<Rightarrow> bool" where
  "no_wav c \<longleftrightarrow> c_wav c = None"

definition carries_recording :: "'e member_reader \<Rightarrow> check \<Rightarrow> bool" where
  "carries_recording member c \<longleftrightarrow>
     (c_lane c = session_lane_name \<longrightarrow> c_audio c \<noteq> [] \<longrightarrow>
        (\<exists>raw rec. member (c_audio c) = Inr (Some raw) \<and> c_wav c = Some raw
           \<and> read_recording raw = Inr rec \<and> c_recording c = rec_length rec))"

lemma carries_recordingI: "carried member c \<Longrightarrow> check_formed u c \<Longrightarrow> carries_recording member c"
  by (auto simp: carries_recording_def carried_def check_formed_def session_formed_def)

lemma no_wav_carried: "no_wav c \<Longrightarrow> carried member c"
  by (simp add: no_wav_def carried_def)

lemma mark_keeps [simp]: "c_wav (mark what why c) = c_wav c" "c_audio (mark what why c) = c_audio c"
  by (simp_all add: mark_def)

lemma sound_take:
  assumes "enumerates order" "\<And>got c c1. hold got c = Inr c1 \<Longrightarrow> P c \<Longrightarrow> Q c1"
    and "\<And>why c. P c \<Longrightarrow> Q (mark what why c)"
  shows "sound_step member (take_value n order member v what hold) P Q"
  unfolding sound_step_def
proof (intro allI impI)
  fix c r c1 r1
  assume t: "take_value n order member v what hold c r = (None, c1, r1)" and r: "cache_ok member r" and p: "P c"
  from walk_resolves [OF assms(1), of member v] r show "cache_ok member r1 \<and> Q c1"
  proof (cases rule: walksE)
    case (fails e r2)
    with t assms(3) p show ?thesis by (auto simp: take_value_def split: walk_error.splits)
  next
    case (gives d r2)
    with t assms(2,3) p show ?thesis by (auto simp: take_value_def split: sum.splits if_splits)
  qed
qed

lemma sound_run_Nil: "sound_step member (run_steps []) P P"
  by (simp add: sound_step_def)

lemma sound_run_Cons:
  assumes "sound_step member s P Q" "sound_step member (run_steps ss) Q R"
  shows "sound_step member (run_steps (s # ss)) P R"
  using assms unfolding sound_step_def by (auto split: prod.splits option.splits)

lemma sound_run_all: "(\<And>s. s \<in> set ss \<Longrightarrow> sound_step member s P P) \<Longrightarrow> sound_step member (run_steps ss) P P"
proof (induction ss)
  case (Cons s ss)
  show ?case by (rule sound_run_Cons [where Q = P]) (simp_all add: Cons)
qed (rule sound_run_Nil)

text \<open>Steps that leave the recording alone.\<close>

definition stable :: "(check \<Rightarrow> bool) \<Rightarrow> bool" where
  "stable P \<longleftrightarrow> (\<forall>c c1. c_wav c1 = c_wav c \<longrightarrow> c_audio c1 = c_audio c \<longrightarrow> P c \<longrightarrow> P c1)"

lemma stable_facts: "stable no_wav" "stable (carried member)"
  by (simp_all add: stable_def no_wav_def carried_def)

definition quiet :: "(doc \<Rightarrow> check \<Rightarrow> hold_fault + check) \<Rightarrow> bool" where
  "quiet hold \<longleftrightarrow> (\<forall>v c c1. hold v c = Inr c1 \<longrightarrow> c_wav c1 = c_wav c \<and> c_audio c1 = c_audio c)"

lemma quiet_holds:
  "quiet hold_within" "quiet hold_arguments" "quiet hold_embed_input" "quiet hold_contains" "quiet (hold_events u)"
  "quiet hold_equals" "quiet hold_at_least" "quiet hold_reference" "quiet hold_min"
  by (auto simp: quiet_def hold_within_def hold_arguments_def hold_embed_input_def hold_contains_def
    hold_events_def hold_equals_def hold_at_least_def hold_reference_def hold_min_def set_expect_def
    split: option.splits if_splits json.splits sum.splits)

lemma sound_quiet:
  assumes "enumerates order" "quiet hold" "stable P"
  shows "sound_step member (take_value n order member v what hold) P P"
proof (rule sound_take [OF assms(1)])
  show "P c1" if "hold got c = Inr c1" "P c" for got c c1
    using assms(2,3) that unfolding quiet_def stable_def by blast
  show "P (mark what why c)" if "P c" for why c
    using assms(3) that unfolding stable_def by (metis mark_keeps)
qed

lemma sound_check_time: "stable P \<Longrightarrow> sound_step member check_time P P"
  by (auto simp: sound_step_def check_time_def stable_def split: if_splits)

lemma sound_recording: "sound_step member (take_recording member) no_wav (carried member)"
  unfolding sound_step_def
proof (intro allI impI)
  fix c r c1 r1
  assume t: "take_recording member c r = (None, c1, r1)" and r: "cache_ok member r" and p: "no_wav c"
  obtain x r2 where x: "read_member member (c_audio c) r = (x, r2)" by (cases "read_member member (c_audio c) r")
  with read_member_ok [OF r x] have m: "x = member (c_audio c)" "cache_ok member r2" by simp_all
  have upd: "cache_ok member (r2\<lparr>recordings := z\<rparr>)" for z using m(2) by (simp add: cache_ok_def)
  have c: "carried member c" using p by (rule no_wav_carried)
  then have marked: "carried member (mark what why c)" for what why by (simp add: carried_def)
  show "cache_ok member r1 \<and> carried member c1"
    using t x m upd c marked r
    by (auto simp: take_recording_def Let_def carried_def split: if_splits sum.splits option.splits)
qed

lemma sound_expect:
  assumes "enumerates order" "s \<in> set (expect_steps u n order member fm)"
  shows "sound_step member s (carried member) (carried member)"
proof -
  have "sound_step member (take_value n order member v what hold) (carried member) (carried member)"
    if "quiet hold" for v what hold
    by (rule sound_quiet [OF assms(1) that stable_facts(2)])
  moreover have "sound_step member check_time (carried member) (carried member)"
    by (rule sound_check_time [OF stable_facts(2)])
  ultimately show ?thesis using assms(2) quiet_holds by (auto simp: expect_steps_def split: option.splits)
qed

lemma sound_lane:
  assumes o: "enumerates order"
  shows "sound_step member (run_steps (take_value n order member v what hold_within
      # lane_steps n order member lane fm @ expect_steps u n order member fm)) no_wav (carried member)"
proof -
  have after: "sound_step member (run_steps (expect_steps u n order member fm)) (carried member) (carried member)"
    by (rule sound_run_all) (rule sound_expect [OF o])
  have before: "sound_step member (take_value n order member w what' hold) no_wav no_wav" if "quiet hold" for w what' hold
    by (rule sound_quiet [OF o that stable_facts(1)])
  have input: "sound_step member (take_value n order member w what' hold_session_input) no_wav no_wav" for w what'
    by (rule sound_take [OF o]) (auto simp: hold_session_input_def no_wav_def split: sum.splits)
  have weak: "sound_step member (run_steps (expect_steps u n order member fm)) no_wav (carried member)"
    using after no_wav_carried unfolding sound_step_def by blast
  have "sound_step member (run_steps (lane_steps n order member lane fm @ expect_steps u n order member fm))
      no_wav (carried member)"
    using sound_run_Cons [OF before [OF quiet_holds(2)] weak] sound_run_Cons [OF before [OF quiet_holds(3)] weak]
      sound_run_Cons [OF input sound_run_Cons [OF sound_recording after]] weak
    by (simp add: lane_steps_def del: run_steps.simps)
  with before [OF quiet_holds(1)] show ?thesis by (rule sound_run_Cons)
qed

lemma read_check_carried:
  assumes o: "enumerates order" and r: "cache_ok member r" and c: "read_check u order member n item r = (Inr c, r1)"
  shows "cache_ok member r1 \<and> carried member c"
proof -
  obtain m name sets lane where m: "item = JObj m" and head: "check_head m = Inr (name, sets, lane)"
    using c by (auto simp: read_check_def split: json.splits sum.splits)
  have new: "no_wav (new_check name sets lane)" by (simp add: no_wav_def new_check_def)
  then have start: "no_wav (start_check name sets lane fm)" for fm by (simp add: no_wav_def start_check_def)
  show ?thesis
  proof (cases "known_lane lane")
    case False
    then obtain bound where t: "take_value n order member bound ''within_ms'' hold_within (new_check name sets lane) r = (None, c, r1)"
      using c by (auto simp: read_check_def m head unknown_lane_check_def split: prod.splits option.splits)
    from sound_stepD [OF sound_quiet [OF o quiet_holds(1) stable_facts(1)] t r new] no_wav_carried show ?thesis
      by blast
  next
    case True
    obtain fm where fm: "check_form m lane = Inr fm"
      using c True by (auto simp: read_check_def m head split: sum.splits)
    have t: "run_steps (take_value n order member (fm_within fm) ''within_ms'' hold_within
        # lane_steps n order member lane fm @ expect_steps u n order member fm) (start_check name sets lane fm) r
        = (None, c, r1)"
      using c True by (auto simp: read_check_def m head fm simp del: run_steps.simps split: prod.splits option.splits)
    note sound = sound_lane [OF o, of member n "fm_within fm" "''within_ms''" lane fm u]
    show ?thesis by (rule sound_stepD [OF sound t r start])
  qed
qed

lemma checks_loop_carried:
  "enumerates order \<Longrightarrow> cache_ok member r \<Longrightarrow> checks_loop u order member i items names out r = (Inr cs, r1)
   \<Longrightarrow> \<forall>c \<in> set out. carried member c \<Longrightarrow> \<forall>c \<in> set cs. carried member c"
proof (induction items arbitrary: i names out r)
  case (Cons item items)
  obtain c r2 where c: "read_check u order member (i + 1) item r = (Inr c, r2)"
    and later: "checks_loop u order member (i + 1) items (insert (c_name c) names) (out @ [c]) r2 = (Inr cs, r1)"
    using Cons.prems(3) by (auto split: prod.splits sum.splits if_splits)
  from read_check_carried [OF Cons.prems(1,2) c] Cons.IH [OF Cons.prems(1) _ later] Cons.prems(4) show ?case by auto
qed simp

lemma parse_validation_carried:
  assumes "enumerates order" "parse_validation u order member raw = Inr cs"
  shows "\<forall>c \<in> set cs. carried member c"
proof -
  obtain d ob where d: "decode_strict raw = Inr d" "checks_of d = Some ob"
    using assms(2) by (auto simp: parse_validation_def split: sum.splits option.splits)
  define items where "items = (case fmlookup ob ''checks'' of Some (JArr vs) \<Rightarrow> vs | _ \<Rightarrow> [])"
  obtain r where "checks_loop u order member 0 items {} [] new_resolver = (Inr cs, r)"
    using assms(2) d by (auto simp: parse_validation_def items_def [symmetric] Let_def split: prod.splits sum.splits if_splits)
  from checks_loop_carried [OF assms(1) cache_ok_new this] show ?thesis by simp
qed

definition runnable :: "package_checks \<Rightarrow> check \<Rightarrow> bool" where
  "runnable p c \<longleftrightarrow>
     (\<forall>s \<in> set (c_sets c). s = all_sets \<or> s \<in> set (pc_variants p))
     \<and> (c_lane c = operation_lane \<longrightarrow>
          (\<exists>op. pc_operations p (c_operation c) = Some op
             \<and> (oc_effects op = ''read.internal'' \<or> oc_effects op = ''read.external'') \<and> \<not> oc_confirms op))
     \<and> (c_lane c = embeddings_lane \<longrightarrow>
          pc_source p = Some (int (length (cs_reference (the (x_cosine (c_expect c))))))
          \<and> c_kind c \<in> set embed_kinds \<and> \<not> blank (c_text c) \<and> length (runes (c_text c)) \<le> max_embed_chars)
     \<and> (c_lane c = session_lane_name \<longrightarrow>
          pc_speech p \<and> (\<forall>s \<in> set (if c_sets c = [all_sets] then pc_variants p else c_sets c). pc_native p s))"

lemma check_refusal_runnable:
  assumes "check_refusal p c = None"
  shows "known_lane (c_lane c) \<and> c_unresolved c = None \<and> runnable p c"
proof -
  have u: "known_lane (c_lane c)" "c_unresolved c = None" using check_refusal_unresolved [OF assms] by auto
  have lanes: "operation_lane \<noteq> embeddings_lane" "operation_lane \<noteq> session_lane_name"
    "embeddings_lane \<noteq> session_lane_name"
    by (simp_all add: operation_lane_def embeddings_lane_def session_lane_name_def)
  let ?undeclared = "\<lambda>s. if s \<noteq> all_sets \<and> s \<notin> set (pc_variants p) then Some (SetUndeclared (c_name c) s) else None"
  have sets: "first_error ?undeclared (c_sets c) = None"
    using assms u unfolding check_refusal_def by (cases "first_error ?undeclared (c_sets c)") simp_all
  have lane: "(if c_lane c = embeddings_lane then embeddings_refusal p c
         else if c_lane c = session_lane_name then session_refusal_of p c else operation_refusal p c) = None"
    using assms u sets unfolding check_refusal_def by (simp only: option.case not_True_eq_False if_False)
  have declared: "\<forall>s \<in> set (c_sets c). s = all_sets \<or> s \<in> set (pc_variants p)"
  proof
    fix s assume "s \<in> set (c_sets c)"
    then have "?undeclared s = None" using sets unfolding first_error_None by blast
    then show "s = all_sets \<or> s \<in> set (pc_variants p)" by (cases "s = all_sets"; cases "s \<in> set (pc_variants p)") simp_all
  qed
  have one: "(length (c_sets c) = Suc 0 \<and> c_sets c ! 0 = all_sets) = (c_sets c = [all_sets])"
    by (cases "c_sets c") auto
  show ?thesis
    using u declared lane lanes
    by (auto simp: runnable_def embeddings_refusal_def session_refusal_of_def operation_refusal_def one
        split: option.splits if_splits)
qed

text \<open>A document whose check sends a recording that the package carries.\<close>

definition session_document :: bytes where
  "session_document = quoted (''{!checks!:[{!name!:!a!,!sets!:[!*!],!lane!:!session!,'' @
     ''!input!:{!audio!:!s!},!within_ms!:500,!expect!:{!events!:{!order!:[!x!]}}}]}'')"

definition carried_file :: bytes where
  "carried_file = wav_file shortest_recording ''size'' [] ''rate-2'' [] [] []"

definition carrying :: "unit member_reader" where
  "carrying rel = Inr (if rel = ''s'' then Some carried_file else None)"

definition session_input_value :: doc where
  "session_input_value = JObj (fmap_of_list [(''audio'', JStr ''s'')])"

definition session_events_value :: doc where
  "session_events_value = JObj (fmap_of_list [(''order'', JArr [JStr ''x''])])"

definition session_check :: check where
  "session_check = (new_check ''a'' [''*''] session_lane_name)\<lparr>c_audio := ''s'', c_wav := Some carried_file,
     c_recording := 100000000, c_within := 500000000,
     c_expect := no_expect\<lparr>x_events := Some \<lparr>x_order = [''x''], x_phrases = [], x_floor = None\<rparr>\<rparr>\<rparr>"

definition session_package :: package_checks where
  "session_package = example_package\<lparr>pc_speech := True\<rparr>"

lemma sorted_keys_one: "sorted_keys {|k|} = [k]"
proof -
  have "set (sorted_keys {|k|}) = {k}" "distinct (sorted_keys {|k|})"
    using sorted_keys_enumerates by (simp_all add: enumerates_def)
  then have "length (sorted_keys {|k|}) = 1" by (metis distinct_card is_singletonI is_singleton_altdef)
  then obtain x where "sorted_keys {|k|} = [x]" by (auto simp: length_Suc_conv)
  with \<open>set (sorted_keys {|k|}) = {k}\<close> show ?thesis by simp
qed

lemma walk_one_member:
  assumes "k \<noteq> ''$ref''" "walk sorted_keys member v r = (Inr (v, False), r)"
  shows "walk sorted_keys member (JObj (fmap_of_list [(k, v)])) r = (Inr (JObj (fmap_of_list [(k, v)]), False), r)"
proof -
  have "fmupd k v (fmmap fst (fmmap (\<lambda>v. (v, walk sorted_keys member v)) (fmupd k v fmempty))) = fmupd k v fmempty"
    by (rule fmap_ext) simp
  with assms show ?thesis by (simp add: walk_object_def sorted_keys_one)
qed

definition session_fm :: "form \<Rightarrow> bool" where
  "session_fm fm \<longleftrightarrow> (case fm_within fm of JNum x \<Rightarrow> check_milliseconds (JNum x) = Some 500 | _ \<Rightarrow> False)
     \<and> fm_contains fm = None \<and> fm_json fm = None \<and> fm_cosine fm = None
     \<and> fm_input fm = Some session_input_value \<and> fm_events fm = Some session_events_value"

lemma session_parts:
  "case decode_strict session_document of
     Inr (JObj ob) \<Rightarrow> only_members ob [''checks'']
       \<and> (case fmlookup ob ''checks'' of
            Some (JArr [JObj m]) \<Rightarrow> check_head m = Inr (''a'', [''*''], session_lane_name)
              \<and> (case check_form m session_lane_name of Inr fm \<Rightarrow> session_fm fm | _ \<Rightarrow> False)
          | _ \<Rightarrow> False)
   | _ \<Rightarrow> False"
  by code_simp

lemma session_values:
  "session_input session_input_value = Inr (''s'', [])"
  "session_events ascii_unicode True False session_events_value =
     Inr \<lparr>x_order = [''x''], x_phrases = [], x_floor = None\<rparr>"
  by code_simp+

lemma carried_recording: "read_recording carried_file = Inr shortest_recording"
  unfolding carried_file_def by (rule recordings_are_read_back)
    (simp_all add: recording_ok_def shortest_recording_def skippable_def second_def
      min_check_recording_def max_check_recording_def)

lemma session_steps:
  "take_value n sorted_keys carrying session_input_value what hold_session_input c r =
     (None, c\<lparr>c_audio := ''s'', c_text := []\<rparr>, r)"
  "c_audio c = ''s'' \<Longrightarrow> c_text c = [] \<Longrightarrow>
   take_value n sorted_keys carrying session_events_value what (hold_events ascii_unicode) c r =
     (None, set_expect (x_events_update (\<lambda>_. Some \<lparr>x_order = [''x''], x_phrases = [], x_floor = None\<rparr>)) c, r)"
  "check_milliseconds (JNum x) = Some 500 \<Longrightarrow>
   take_value n sorted_keys carrying (JNum x) what hold_within c r = (None, c\<lparr>c_within := 500000000\<rparr>, r)"
  "c_audio c = ''s'' \<Longrightarrow> c_unresolved c = None \<Longrightarrow> raws r ''s'' = None \<Longrightarrow>
   \<exists>r1. recordings r1 = AList.update ''s'' (length carried_file) (recordings r) \<and> take_recording carrying c r =
     (None, c\<lparr>c_wav := Some carried_file, c_recording := 100000000\<rparr>, r1)"
proof -
  have i: "inside_root ''s''" by code_simp
  show "take_value n sorted_keys carrying session_input_value what hold_session_input c r =
     (None, c\<lparr>c_audio := ''s'', c_text := []\<rparr>, r)"
    using walk_one_member [of "''audio''" carrying "JStr ''s''" r]
    by (simp add: take_value_def session_input_value_def [symmetric] hold_session_input_def session_values del: fmap_of_list_simps)
  show "take_value n sorted_keys carrying session_events_value what (hold_events ascii_unicode) c r =
     (None, set_expect (x_events_update (\<lambda>_. Some \<lparr>x_order = [''x''], x_phrases = [], x_floor = None\<rparr>)) c, r)"
    if "c_audio c = ''s''" "c_text c = []"
    using that walk_one_member [of "''order''" carrying "JArr [JStr ''x'']" r]
    by (simp add: take_value_def session_events_value_def [symmetric] hold_events_def session_values del: fmap_of_list_simps)
  show "take_value n sorted_keys carrying (JNum x) what hold_within c r = (None, c\<lparr>c_within := 500000000\<rparr>, r)"
    if "check_milliseconds (JNum x) = Some 500"
    using that by (simp add: take_value_def hold_within_def max_check_within_ms_def)
  show "\<exists>r1. recordings r1 = AList.update ''s'' (length carried_file) (recordings r) \<and> take_recording carrying c r =
     (None, c\<lparr>c_wav := Some carried_file, c_recording := 100000000\<rparr>, r1)"
    if "c_audio c = ''s''" "c_unresolved c = None" "raws r ''s'' = None"
    using that i carried_recording
    by (simp add: take_recording_def read_member_def carrying_def validation_file_def shortest_recording_def Let_def)
qed

lemma object_in: "(case x of Inr (JObj ob) \<Rightarrow> P ob | _ \<Rightarrow> False) \<Longrightarrow> \<exists>ob. x = Inr (JObj ob) \<and> P ob"
  by (auto split: sum.split_asm json.split_asm)

lemma only_object_in: "(case x of Some (JArr [JObj m]) \<Rightarrow> P m | _ \<Rightarrow> False) \<Longrightarrow> \<exists>m. x = Some (JArr [JObj m]) \<and> P m"
proof -
  assume a: "case x of Some (JArr [JObj m]) \<Rightarrow> P m | _ \<Rightarrow> False"
  then obtain v vs where x: "x = Some (JArr (v # vs))"
    by (cases x) (auto split: json.split_asm list.split_asm)
  with a obtain m where "v = JObj m" by (cases v) (simp_all split: list.split_asm)
  with a x show ?thesis by (cases vs) simp_all
qed

lemma number_in: "(case v of JNum x \<Rightarrow> P x | _ \<Rightarrow> False) \<Longrightarrow> \<exists>x. v = JNum x \<and> P x"
  by (cases v) auto

lemma session_parses:
  "parse_validation ascii_unicode sorted_keys carrying session_document = Inr [session_check]"
proof -
  obtain ob where d: "decode_strict session_document = Inr (JObj ob)" "only_members ob [''checks'']"
    and c: "case fmlookup ob ''checks'' of
            Some (JArr [JObj m]) \<Rightarrow> check_head m = Inr (''a'', [''*''], session_lane_name)
              \<and> (case check_form m session_lane_name of Inr fm \<Rightarrow> session_fm fm | _ \<Rightarrow> False)
          | _ \<Rightarrow> False"
    using object_in [OF session_parts] by blast
  obtain m where m: "fmlookup ob ''checks'' = Some (JArr [JObj m])" "check_head m = Inr (''a'', [''*''], session_lane_name)"
    and f: "case check_form m session_lane_name of Inr fm \<Rightarrow> session_fm fm | _ \<Rightarrow> False"
    using only_object_in [OF c] by blast
  then obtain fm where fm: "check_form m session_lane_name = Inr fm" "session_fm fm"
    by (cases "check_form m session_lane_name") auto
  then obtain x where x: "fm_within fm = JNum x" "check_milliseconds (JNum x) = Some 500"
    unfolding session_fm_def using number_in by blast
  have rest: "fm_contains fm = None" "fm_json fm = None" "fm_cosine fm = None"
      "fm_input fm = Some session_input_value" "fm_events fm = Some session_events_value"
    using fm(2) by (simp_all add: session_fm_def)
  have lanes: "session_lane_name \<noteq> operation_lane" "session_lane_name \<noteq> embeddings_lane" "known_lane session_lane_name"
    by (simp_all add: known_lane_def operation_lane_def embeddings_lane_def session_lane_name_def)
  define start where "start = start_check ''a'' [''*''] session_lane_name fm"
  have start: "start = new_check ''a'' [''*''] session_lane_name"
    by (simp add: start_def start_check_def rest lanes new_check_def no_expect_def)
  let ?c = "start\<lparr>c_within := 500000000, c_audio := ''s'', c_text := []\<rparr>"
  obtain r1 where r1: "recordings r1 = AList.update ''s'' (length carried_file) (recordings new_resolver)"
      "take_recording carrying ?c new_resolver = (None, ?c\<lparr>c_wav := Some carried_file, c_recording := 100000000\<rparr>, r1)"
    using session_steps(4) [of ?c new_resolver] by (auto simp: start new_check_def new_resolver_def)
  have "read_check ascii_unicode sorted_keys carrying 1 (JObj m) new_resolver = (Inr session_check, r1)"
    using r1(2)
    by (simp add: read_check_def m lanes fm(1) x rest start_def [symmetric] lane_steps_def expect_steps_def session_steps
        check_time_def set_expect_def)
      (simp add: start new_check_def session_check_def)
  moreover have "length carried_file \<le> max_check_audio_bytes"
    by (simp add: carried_file_def wav_file_def wav_chunk_def format_body_def shortest_recording_def max_check_audio_bytes_def)
  ultimately show ?thesis
    using d m r1(1) by (simp add: parse_validation_def checks_of_def max_checks_def new_resolver_def session_check_def new_check_def)
qed

lemma session_accepted: "validate_package_checks [session_check] session_package = None"
  by (simp add: validate_package_checks_def check_refusal_def session_refusal_of_def session_check_def new_check_def
      session_package_def example_package_def known_lane_def operation_lane_def embeddings_lane_def session_lane_name_def
      all_sets_def)

text \<open>C7: What is known of a package whose checks are accepted: there are between one and thirty-two, of
  different names, and every one of them is fully resolved and could pass. It has a bound of one
  millisecond to ten minutes, expects what its lane can answer and expects something, a recording it
  sends is the one the package carries under its path (the member reader's bytes, a WAV) and fits its
  bound, and it only calls declared operations that read and need no operator, only declared sets,
  and an engine or source the package has.\<close>

theorem accepted_checks_can_run:
  assumes "parse_validation u order member raw = Inr cs" "validate_package_checks cs p = None"
  shows "cs \<noteq> [] \<and> length cs \<le> max_checks \<and> distinct (map c_name cs)
     \<and> (\<forall>c \<in> set cs. known_lane (c_lane c) \<and> c_unresolved c = None \<and> check_formed u c \<and> runnable p c)
     \<and> (enumerates order \<longrightarrow> (\<forall>c \<in> set cs. carries_recording member c))"
proof -
  have "\<forall>c \<in> set cs. known_lane (c_lane c) \<and> c_unresolved c = None \<and> runnable p c"
    using assms(2) check_refusal_runnable unfolding validate_package_checks_def first_error_None by blast
  moreover have "enumerates order \<longrightarrow> (\<forall>c \<in> set cs. carried member c)"
    using parse_validation_carried assms(1) by blast
  ultimately show ?thesis using parse_validation_formed [OF assms(1)] carries_recordingI by blast
qed

lemma accepted_checks_can_run_witness:
  "check_formed ascii_unicode example_check \<and> runnable example_package example_check
     \<and> check_formed ascii_unicode session_check \<and> carries_recording carrying session_check"
proof -
  have "validate_package_checks [example_check] example_package = None" by code_simp
  from accepted_checks_can_run [OF example_parses this]
    accepted_checks_can_run [OF session_parses session_accepted] sorted_keys_enumerates
  show ?thesis by simp
qed

lemma check_refusal_nil:
  assumes "check_refusal p c = Some NilCosine"
  shows "c_unresolved c = None \<and> c_lane c = embeddings_lane \<and> x_cosine (c_expect c) = None"
proof -
  let ?undeclared = "\<lambda>s. if s \<noteq> all_sets \<and> s \<notin> set (pc_variants p) then Some (SetUndeclared (c_name c) s) else None"
  have k: "known_lane (c_lane c)"
    using assms unfolding check_refusal_def by (cases "known_lane (c_lane c)") simp_all
  have "c_unresolved c = None"
  proof (cases "c_unresolved c")
    case (Some w)
    with assms k show ?thesis unfolding check_refusal_def by (cases w) simp
  qed
  with k have u: "known_lane (c_lane c)" "c_unresolved c = None" by simp_all
  have sets: "first_error ?undeclared (c_sets c) = None"
  proof (cases "first_error ?undeclared (c_sets c)")
    case (Some e)
    then have "Some e = Some NilCosine"
      using assms u unfolding check_refusal_def by (simp only: option.case not_True_eq_False if_False)
    moreover obtain s where "?undeclared s = Some e" using first_error_Some [OF Some] by blast
    ultimately show ?thesis by (cases "s \<noteq> all_sets \<and> s \<notin> set (pc_variants p)") simp_all
  qed
  have lane: "(if c_lane c = embeddings_lane then embeddings_refusal p c
         else if c_lane c = session_lane_name then session_refusal_of p c else operation_refusal p c) = Some NilCosine"
    using assms u sets unfolding check_refusal_def by (simp only: option.case not_True_eq_False if_False)
  have "session_refusal_of p c \<noteq> Some NilCosine"
  proof
    let ?other = "\<lambda>s. if pc_native p s then None else Some (NotANativeSet (c_name c) s)"
    assume a: "session_refusal_of p c = Some NilCosine"
    then have pc: "pc_speech p" unfolding session_refusal_of_def by (cases "pc_speech p") simp_all
    have "first_error ?other
        (if length (c_sets c) = 1 \<and> c_sets c ! 0 = all_sets then pc_variants p else c_sets c) = Some NilCosine"
      using a unfolding session_refusal_of_def by (simp only: pc not_True_eq_False if_False)
    from first_error_Some [OF this] obtain s where "?other s = Some NilCosine" by blast
    then show False by (simp split: if_split_asm)
  qed
  moreover have "operation_refusal p c \<noteq> Some NilCosine"
    by (auto simp: operation_refusal_def split: option.splits)
  moreover have "embeddings_refusal p c = Some NilCosine \<Longrightarrow> x_cosine (c_expect c) = None"
    by (auto simp: embeddings_refusal_def split: option.splits if_split_asm)
  ultimately show ?thesis using u lane by (auto split: if_split_asm)
qed

text \<open>No check a document gives makes \<open>ValidatePackageChecks\<close> follow a nil pointer: it dereferences
  the cosine expectation of a check on the embeddings lane without a test, and every such check that
  gets that far has one.\<close>

theorem no_nil_expectation:
  assumes "parse_validation u order member raw = Inr cs"
  shows "validate_package_checks cs p \<noteq> Some NilCosine"
proof
  assume "validate_package_checks cs p = Some NilCosine"
  then have "\<exists>c \<in> set cs. check_refusal p c = Some NilCosine"
    unfolding validate_package_checks_def by (rule first_error_Some)
  then obtain c where c: "c \<in> set cs" "check_refusal p c = Some NilCosine" by blast
  from check_refusal_nil [OF this(2)] have u: "c_unresolved c = None" and e: "c_lane c = embeddings_lane"
    "x_cosine (c_expect c) = None" by auto
  from c(1) u parse_validation_formed [OF assms] e show False
    by (auto simp: check_formed_def embeddings_formed_def)
qed

lemma no_nil_expectation_witness:
  "validate_package_checks [example_check] example_package \<noteq> Some NilCosine"
  by (rule no_nil_expectation [OF example_parses])

end
