(* ===== verification/HostCall.thy ===== *)
theory HostCall
  imports PluginRpc JsonNumber
begin

text \<open>
  What a plugin asks of its host: \<open>pkg/aiiosdk/hostcall.go\<close> and \<open>settings.go\<close>. The host itself
  (the import of a guest, or the transport of a native plugin) is an argument: a function from its
  state and the bytes of a call to its new state and either an error or the bytes of a reply. An
  error of the code is one constructor per message, with the chain its \<open>Unwrap\<close> gives; an \<open>int\<close>
  has 64 bits. A nil slice of a result is the empty one, which the code never tells apart.
\<close>

section \<open>Errors\<close>

datatype host_error =
    OperationMissing
  | TargetNotWritten marshal_error
  | ArgumentsNotWritten marshal_error
  | HostFailed go_error
  | EmptyReply
  | ReplyNotStrict
  | ReplyNotObject
  | CodeNotInteger
  | MessageNotString
  | HostDenied int bytes bytes bytes
  | StatusNotString
  | SuccessNotBoolean
  | NoOutcome
  | CallFailed bytes bytes bytes
  | NoValueString
  | NoKeysArray
  | NoVectors
  | MethodUnknown bytes
  | NotAStream
  | ChunkNotBase64
  | StreamTooLong int
  | NoValuesObject

fun error_chain :: "host_error \<Rightarrow> go_error" where
  "error_chain (HostFailed e) = e"
| "error_chain (HostDenied code message reason_code denied_at) = DeniedError code message reason_code denied_at"
| "error_chain (CallFailed status reason_code reason) = OperationError status reason_code reason"
| "error_chain (TargetNotWritten e) = OtherError (Some (OtherError None))"
| "error_chain (ArgumentsNotWritten e) = OtherError (Some (OtherError None))"
| "error_chain ChunkNotBase64 = OtherError (Some (OtherError None))"
| "error_chain e = OtherError None"

fun as_operation_error :: "go_error \<Rightarrow> (bytes \<times> bytes \<times> bytes) option" where
  "as_operation_error (OperationError status reason_code reason) = Some (status, reason_code, reason)"
| "as_operation_error (DeniedError code message reason_code denied_at) = None"
| "as_operation_error (OtherError None) = None"
| "as_operation_error (OtherError (Some e)) = as_operation_error e"

fun as_denied :: "go_error \<Rightarrow> (int \<times> bytes \<times> bytes \<times> bytes) option" where
  "as_denied (DeniedError code message reason_code denied_at) = Some (code, message, reason_code, denied_at)"
| "as_denied (OperationError status reason_code reason) = None"
| "as_denied (OtherError None) = None"
| "as_denied (OtherError (Some e)) = as_denied e"

definition has_reason_code :: "host_error \<Rightarrow> bytes \<Rightarrow> bool" where
  "has_reason_code err code =
     (case as_operation_error (error_chain err) of
        None \<Rightarrow> False
      | Some (status, reason_code, reason) \<Rightarrow> reason_code = code)"

definition effect_unknown :: "host_error option \<Rightarrow> bool" where
  "effect_unknown err = (case err of None \<Rightarrow> False | Some e \<Rightarrow> has_reason_code e ''NET_EFFECT_UNKNOWN'')"

section \<open>The reply\<close>

record invoke_result =
  ir_status :: bytes
  ir_operation_result :: bytes
  ir_reason :: bytes
  ir_reason_code :: bytes
  ir_external_receipt :: bytes
  ir_raw :: bytes

type_synonym outcome = "invoke_result option \<times> host_error option"

definition or_empty :: "bytes option \<Rightarrow> bytes" where
  "or_empty b = (case b of None \<Rightarrow> [] | Some x \<Rightarrow> x)"

definition string_member :: "member list \<Rightarrow> bytes \<Rightarrow> bytes option" where
  "string_member members key = decode_json_string_opt (member_by_key members key)"

definition reason_code_of :: "member list \<Rightarrow> bytes" where
  "reason_code_of members =
     (case string_member members ''reasonCode'' of
        Some rc \<Rightarrow> rc
      | None \<Rightarrow> or_empty (string_member members ''reason_code''))"

definition is_denial :: "member list \<Rightarrow> bool" where
  "is_denial members \<longleftrightarrow>
     member_by_key members ''code'' \<noteq> None \<and> member_by_key members ''message'' \<noteq> None
     \<and> member_by_key members ''status'' = None \<and> member_by_key members ''ok'' = None
     \<and> member_by_key members ''success'' = None"

definition decode_denial :: "member list \<Rightarrow> host_error" where
  "decode_denial members =
     (case atoi (or_empty (member_by_key members ''code'')) of
        None \<Rightarrow> CodeNotInteger
      | Some code \<Rightarrow>
          (case string_member members ''message'' of
             None \<Rightarrow> MessageNotString
           | Some msg \<Rightarrow>
               (case object_members (or_empty (member_by_key members ''data'')) of
                  None \<Rightarrow> HostDenied code msg [] []
                | Some data \<Rightarrow>
                    HostDenied code msg (reason_code_of data) (or_empty (string_member data ''denied_at'')))))"

definition not_boolean :: "bytes option \<Rightarrow> bool" where
  "not_boolean b \<longleftrightarrow> b \<noteq> None \<and> b \<noteq> Some ''true'' \<and> b \<noteq> Some ''false''"

definition decode_outcome :: "bytes \<Rightarrow> member list \<Rightarrow> outcome" where
  "decode_outcome reply members =
     (let status_raw = member_by_key members ''status'';
          ok_raw = member_by_key members ''ok'';
          success_raw = member_by_key members ''success'';
          status = or_empty (decode_json_string_opt status_raw)
      in if status_raw \<noteq> None \<and> status = [] then (None, Some StatusNotString)
         else if not_boolean ok_raw \<or> not_boolean success_raw then (None, Some SuccessNotBoolean)
         else if status_raw = None \<and> ok_raw = None \<and> success_raw = None then (None, Some NoOutcome)
         else (let status' = (if status = []
                              then (if ok_raw = Some ''false'' \<or> success_raw = Some ''false'' then ''failed''
                                    else ''succeeded'')
                              else status);
                   res = \<lparr>ir_status = status',
                          ir_operation_result = or_empty (member_by_key members ''operation_result''),
                          ir_reason = or_empty (string_member members ''reason''),
                          ir_reason_code = reason_code_of members,
                          ir_external_receipt = or_empty (member_by_key members ''external_receipt''),
                          ir_raw = reply\<rparr>
               in if status' \<noteq> ''succeeded''
                  then (Some res, Some (CallFailed status' (ir_reason_code res) (ir_reason res)))
                  else (Some res, None)))"

definition decode_host_reply :: "bytes \<Rightarrow> outcome" where
  "decode_host_reply reply =
     (if reply = [] then (None, Some EmptyReply)
      else if \<not> validate_strict reply then (None, Some ReplyNotStrict)
      else (case object_members reply of
              None \<Rightarrow> (None, Some ReplyNotObject)
            | Some members \<Rightarrow>
                if is_denial members then (None, Some (decode_denial members))
                else decode_outcome reply members))"

section \<open>The call\<close>

type_synonym 's host = "'s \<Rightarrow> bytes \<Rightarrow> (go_error + bytes) \<times> 's"

definition value_member :: "(marshal_error \<Rightarrow> host_error) \<Rightarrow> bytes \<Rightarrow> goval option \<Rightarrow> host_error + bytes" where
  "value_member err label v =
     (case v of
        None \<Rightarrow> Inr []
      | Some x \<Rightarrow> (case marshal_value x of Inl e \<Rightarrow> Inl (err e) | Inr raw \<Rightarrow> Inr (label @ raw)))"

definition invoke_params :: "bytes \<Rightarrow> goval option \<Rightarrow> goval option \<Rightarrow> host_error + bytes" where
  "invoke_params operation target arguments =
     (case value_member TargetNotWritten '',\"target\":'' target of
        Inl e \<Rightarrow> Inl e
      | Inr t \<Rightarrow>
          (case value_member ArgumentsNotWritten '',\"arguments\":'' arguments of
             Inl e \<Rightarrow> Inl e
           | Inr a \<Rightarrow> Inr (''{\"operation\":'' @ append_json_string operation @ t @ a @ ''}'')))"

definition invoke_call :: "'s host \<Rightarrow> bytes \<Rightarrow> goval option \<Rightarrow> goval option \<Rightarrow> 's \<Rightarrow> outcome \<times> 's" where
  "invoke_call host operation target arguments s =
     (if operation = [] then ((None, Some OperationMissing), s)
      else (case invoke_params operation target arguments of
              Inl e \<Rightarrow> ((None, Some e), s)
            | Inr params \<Rightarrow>
                (case host s params of
                   (Inl e, s') \<Rightarrow> ((None, Some (HostFailed e)), s')
                 | (Inr reply, s') \<Rightarrow> (decode_host_reply reply, s'))))"

definition op_result :: "outcome \<Rightarrow> bytes" where
  "op_result r = (case fst r of None \<Rightarrow> [] | Some res \<Rightarrow> ir_operation_result res)"

definition int_of_member :: "bytes \<Rightarrow> bytes \<Rightarrow> int" where
  "int_of_member ob key = (case obj_int ob key of None \<Rightarrow> 0 | Some n \<Rightarrow> n)"

definition text_of :: "bytes \<Rightarrow> bytes \<Rightarrow> bytes" where
  "text_of ob key = or_empty (obj_string ob key)"

section \<open>Storage\<close>

record kv_put_result =
  kp_stored :: bool
  kp_key :: bytes
  kp_value_bytes :: int
  kp_scope :: bytes

definition kv_put :: "'s host \<Rightarrow> bytes \<Rightarrow> bytes \<Rightarrow> 's \<Rightarrow> (host_error + kv_put_result) \<times> 's" where
  "kv_put host key v s =
     (case invoke_call host ''kv.put'' (Some (GMap [(''key'', GString key)])) (Some (GMap [(''value'', GString v)])) s of
        (r, s') \<Rightarrow>
          (case snd r of
             Some e \<Rightarrow> (Inl e, s')
           | None \<Rightarrow>
               (Inr \<lparr>kp_stored = (obj_bool (op_result r) ''stored'' = Some True),
                     kp_key = text_of (op_result r) ''key'',
                     kp_value_bytes = int_of_member (op_result r) ''value_bytes'',
                     kp_scope = text_of (op_result r) ''scope''\<rparr>, s')))"

definition kv_get :: "'s host \<Rightarrow> bytes \<Rightarrow> 's \<Rightarrow> (host_error + bytes option) \<times> 's" where
  "kv_get host key s =
     (case invoke_call host ''kv.get'' (Some (GMap [(''key'', GString key)])) None s of
        (r, s') \<Rightarrow>
          (case snd r of
             Some e \<Rightarrow> (if has_reason_code e ''KV_NOT_FOUND'' then Inr None else Inl e, s')
           | None \<Rightarrow>
               (case obj_string (op_result r) ''value'' of
                  None \<Rightarrow> (Inl NoValueString, s')
                | Some v \<Rightarrow> (Inr (Some v), s'))))"

definition kv_delete :: "'s host \<Rightarrow> bytes \<Rightarrow> 's \<Rightarrow> (host_error + bool) \<times> 's" where
  "kv_delete host key s =
     (case invoke_call host ''kv.delete'' (Some (GMap [(''key'', GString key)])) None s of
        (r, s') \<Rightarrow>
          (case snd r of
             Some e \<Rightarrow> (Inl e, s')
           | None \<Rightarrow> (Inr (obj_bool (op_result r) ''deleted'' = Some True), s')))"

text \<open>A nil map of arguments is still an interface that is not nil: it is sent as \<open>{}\<close>.\<close>

definition kv_list :: "'s host \<Rightarrow> bytes \<Rightarrow> int \<Rightarrow> 's \<Rightarrow> (host_error + bytes list \<times> bool) \<times> 's" where
  "kv_list host key_prefix limit s =
     (case invoke_call host ''kv.list'' (Some (GMap [(''prefix'', GString key_prefix)]))
             (Some (GMap (if 0 < limit then [(''limit'', GInt limit)] else []))) s of
        (r, s') \<Rightarrow>
          (case snd r of
             Some e \<Rightarrow> (Inl e, s')
           | None \<Rightarrow>
               (case obj_string_array (op_result r) ''keys'' of
                  None \<Rightarrow> (Inl NoKeysArray, s')
                | Some keys \<Rightarrow> (Inr (keys, obj_bool (op_result r) ''truncated'' = Some True), s'))))"

section \<open>Embeddings and settings\<close>

record embeddings_result =
  er_model :: bytes
  er_dimensions :: int
  er_vectors :: "binary_float list list"

definition embeddings_create :: "'s host \<Rightarrow> bytes list \<Rightarrow> 's \<Rightarrow> (embeddings_result \<times> host_error option) \<times> 's" where
  "embeddings_create host inputs s =
     (case invoke_call host ''embeddings.create'' None
             (Some (GMap [(''input'', GSlice (map GString inputs))])) s of
        (r, s') \<Rightarrow>
          (case snd r of
             Some e \<Rightarrow> ((\<lparr>er_model = [], er_dimensions = 0, er_vectors = []\<rparr>, Some e), s')
           | None \<Rightarrow>
               (let out = \<lparr>er_model = text_of (op_result r) ''model'',
                           er_dimensions = int_of_member (op_result r) ''dimensions'', er_vectors = []\<rparr>
                in case obj_float_matrix (op_result r) ''vectors'' of
                     None \<Rightarrow> ((out, Some NoVectors), s')
                   | Some vectors \<Rightarrow> ((out\<lparr>er_vectors := vectors\<rparr>, None), s'))))"

text \<open>The settings of the plugin: the raw object, or no settings at all.\<close>

definition settings_load :: "'s host \<Rightarrow> 's \<Rightarrow> (host_error + bytes) \<times> 's" where
  "settings_load host s =
     (case invoke_call host ''settings.get'' None None s of
        (r, s') \<Rightarrow>
          (case snd r of
             Some e \<Rightarrow> (Inl e, s')
           | None \<Rightarrow>
               (if obj_object (op_result r) ''values'' = [] then (Inl NoValuesObject, s')
                else (Inr (obj_object (op_result r) ''values''), s'))))"

definition values_has :: "bytes \<Rightarrow> bytes \<Rightarrow> bool" where
  "values_has v key \<longleftrightarrow> v \<noteq> [] \<and> obj_has v key"

definition values_string :: "bytes \<Rightarrow> bytes \<Rightarrow> bytes option" where
  "values_string v key = (if v = [] then None else obj_string v key)"

definition values_number :: "bytes \<Rightarrow> bytes \<Rightarrow> binary_float option" where
  "values_number v key = (if v = [] then None else obj_float v key)"

definition values_int :: "bytes \<Rightarrow> bytes \<Rightarrow> int option" where
  "values_int v key = (if v = [] then None else obj_int v key)"

definition values_bool :: "bytes \<Rightarrow> bytes \<Rightarrow> bool option" where
  "values_bool v key = (if v = [] then None else obj_bool v key)"

section \<open>HTTP\<close>

record http_options =
  ho_timeout_ms :: int
  ho_auth_profile :: bytes
  ho_body :: bytes
  ho_content_type :: bytes
  ho_headers :: "(bytes \<times> bytes) list"
  ho_follow_redirects :: "bool option"
  ho_idempotent :: bool

definition option_members :: "http_options \<Rightarrow> (bytes \<times> goval) list" where
  "option_members opts =
     (if 0 < ho_timeout_ms opts then [(''timeout_ms'', GInt (ho_timeout_ms opts))] else [])
     @ (if ho_auth_profile opts \<noteq> [] then [(''auth_profile'', GString (ho_auth_profile opts))] else [])
     @ (if ho_body opts \<noteq> [] \<or> ho_content_type opts \<noteq> []
        then [(''body'', GString (ho_body opts)), (''content_type'', GString (ho_content_type opts))] else [])
     @ (if ho_headers opts \<noteq> [] then [(''headers'', GMap (map (\<lambda>(k, v). (k, GString v)) (ho_headers opts)))] else [])
     @ (case ho_follow_redirects opts of None \<Rightarrow> [] | Some b \<Rightarrow> [(''follow_redirects'', GBool b)])
     @ (if ho_idempotent opts then [(''idempotent'', GBool True)] else [])"

definition http_args :: "http_options option \<Rightarrow> bool \<Rightarrow> goval" where
  "http_args opts stream =
     GMap ((case opts of None \<Rightarrow> [] | Some x \<Rightarrow> option_members x)
           @ (if stream then [(''stream'', GBool True)] else []))"

record http_result =
  hr_status :: int
  hr_content_type :: bytes
  hr_location :: bytes
  hr_body :: "bytes option"
  hr_effect :: bytes
  hr_retry_after_s :: "int option"

definition no_http_result :: http_result where
  "no_http_result = \<lparr>hr_status = 0, hr_content_type = [], hr_location = [], hr_body = None,
     hr_effect = [], hr_retry_after_s = None\<rparr>"

definition retry_after :: "bytes \<Rightarrow> int option" where
  "retry_after ob =
     (case obj_int ob ''retry_after_s'' of None \<Rightarrow> None | Some n \<Rightarrow> if 0 \<le> n then Some n else None)"

definition read_http_result :: "invoke_result option \<Rightarrow> http_result" where
  "read_http_result res =
     (case res of
        None \<Rightarrow> no_http_result
      | Some r \<Rightarrow>
          (let ob = ir_operation_result r;
               out = (if ob = [] then no_http_result
                      else no_http_result\<lparr>hr_status := int_of_member ob ''http_status'',
                             hr_content_type := text_of ob ''content_type'',
                             hr_location := text_of ob ''location'',
                             hr_retry_after_s := retry_after ob,
                             hr_body := obj_raw ob ''body''\<rparr>)
           in if ir_external_receipt r = [] then out
              else out\<lparr>hr_effect := text_of (ir_external_receipt r) ''effect''\<rparr>))"

definition http_do :: "'s host \<Rightarrow> bytes \<Rightarrow> bytes \<Rightarrow> http_options option \<Rightarrow> 's \<Rightarrow> (http_result \<times> host_error option) \<times> 's" where
  "http_do host op url opts s =
     (case invoke_call host op (Some (GMap [(''url'', GString url)])) (Some (http_args opts False)) s of
        (r, s') \<Rightarrow> ((read_http_result (fst r), snd r), s'))"

definition http_get :: "'s host \<Rightarrow> bytes \<Rightarrow> http_options option \<Rightarrow> 's \<Rightarrow> (http_result \<times> host_error option) \<times> 's" where
  "http_get host = http_do host ''http.get''"

definition http_post :: "'s host \<Rightarrow> bytes \<Rightarrow> http_options option \<Rightarrow> 's \<Rightarrow> (http_result \<times> host_error option) \<times> 's" where
  "http_post host = http_do host ''http.post''"

definition http_put :: "'s host \<Rightarrow> bytes \<Rightarrow> http_options option \<Rightarrow> 's \<Rightarrow> (http_result \<times> host_error option) \<times> 's" where
  "http_put host = http_do host ''http.put''"

definition http_patch :: "'s host \<Rightarrow> bytes \<Rightarrow> http_options option \<Rightarrow> 's \<Rightarrow> (http_result \<times> host_error option) \<times> 's" where
  "http_patch host = http_do host ''http.patch''"

definition http_delete :: "'s host \<Rightarrow> bytes \<Rightarrow> http_options option \<Rightarrow> 's \<Rightarrow> (http_result \<times> host_error option) \<times> 's" where
  "http_delete host = http_do host ''http.delete''"

section \<open>Base64\<close>

text \<open>
  \<open>base64.StdEncoding.DecodeString\<close>: line ends are skipped, the text is padded to groups of four,
  and the bits a padded group has over are not looked at.
\<close>

definition base64_digit :: "char \<Rightarrow> nat option" where
  "base64_digit c =
     (let n = byte_val c
      in if CHR ''A'' \<le> c \<and> c \<le> CHR ''Z'' then Some (n - 65)
         else if CHR ''a'' \<le> c \<and> c \<le> CHR ''z'' then Some (n - 71)
         else if is_digit c then Some (n + 4)
         else if c = CHR ''+'' then Some 62
         else if c = CHR ''/'' then Some 63
         else None)"

definition three_bytes :: "nat \<Rightarrow> bytes" where
  "three_bytes n = [byte_of (n div 65536), byte_of (n div 256), byte_of n]"

definition base64_group :: "char \<Rightarrow> char \<Rightarrow> char \<Rightarrow> char \<Rightarrow> bytes option" where
  "base64_group a b c d =
     (case (base64_digit a, base64_digit b, base64_digit c, base64_digit d) of
        (Some i, Some j, Some k, Some l) \<Rightarrow> Some (three_bytes (((i * 64 + j) * 64 + k) * 64 + l))
      | _ \<Rightarrow> None)"

definition base64_last :: "char \<Rightarrow> char \<Rightarrow> char \<Rightarrow> char \<Rightarrow> bytes option" where
  "base64_last a b c d =
     (if d \<noteq> CHR ''='' then base64_group a b c d
      else if c = CHR ''='' then map_option (take 1) (base64_group a b (CHR ''A'') (CHR ''A''))
      else map_option (take 2) (base64_group a b c (CHR ''A'')))"

fun base64_groups :: "bytes \<Rightarrow> bytes option" where
  "base64_groups [] = Some []"
| "base64_groups [a, b, c, d] = base64_last a b c d"
| "base64_groups (a # b # c # d # e # r) =
     (case (base64_group a b c d, base64_groups (e # r)) of
        (Some x, Some y) \<Rightarrow> Some (x @ y)
      | _ \<Rightarrow> None)"
| "base64_groups _ = None"

definition base64_decode :: "bytes \<Rightarrow> bytes option" where
  "base64_decode s = base64_groups (filter (\<lambda>c. c \<noteq> CHR 0x0A \<and> c \<noteq> CHR 0x0D) s)"

section \<open>Streamed bodies\<close>

record http_stream =
  hs_id :: bytes
  hs_status :: int
  hs_content_type :: bytes
  hs_location :: bytes
  hs_chunk_max :: int
  hs_total :: int
  hs_chunks :: int
  hs_done :: bool

definition stream_operation :: "bytes \<Rightarrow> bytes option" where
  "stream_operation meth =
     (if meth = ''GET'' then Some ''http.get''
      else if meth = ''POST'' then Some ''http.post''
      else if meth = ''PUT'' then Some ''http.put''
      else if meth = ''PATCH'' then Some ''http.patch''
      else if meth = ''DELETE'' then Some ''http.delete''
      else None)"

definition http_open :: "'s host \<Rightarrow> bytes \<Rightarrow> bytes \<Rightarrow> http_options option \<Rightarrow> 's \<Rightarrow> (host_error + http_stream) \<times> 's" where
  "http_open host meth url opts s =
     (case stream_operation meth of
        None \<Rightarrow> (Inl (MethodUnknown meth), s)
      | Some op \<Rightarrow>
          (case invoke_call host op (Some (GMap [(''url'', GString url)])) (Some (http_args opts True)) s of
             (r, s') \<Rightarrow>
               (case snd r of
                  Some e \<Rightarrow> (Inl e, s')
                | None \<Rightarrow>
                    (let ob = op_result r
                     in if text_of ob ''stream_id'' = [] then (Inl NotAStream, s')
                        else (Inr \<lparr>hs_id = text_of ob ''stream_id'',
                                   hs_status = int_of_member ob ''http_status'',
                                   hs_content_type = text_of ob ''content_type'',
                                   hs_location = text_of ob ''location'',
                                   hs_chunk_max = int_of_member ob ''chunk_max_bytes'',
                                   hs_total = 0, hs_chunks = 0, hs_done = False\<rparr>, s')))))"

text \<open>One \<open>http.read\<close>: the chunk of its result, and what it says of the stream.\<close>

definition read_chunk :: "bytes \<Rightarrow> bytes option" where
  "read_chunk ob =
     (case obj_string ob ''data_b64'' of
        None \<Rightarrow> Some []
      | Some b64 \<Rightarrow> if b64 = [] then Some [] else base64_decode b64)"

definition read_counts :: "bytes \<Rightarrow> http_stream \<Rightarrow> http_stream" where
  "read_counts ob st =
     st\<lparr>hs_total := (case obj_int ob ''total_bytes'' of None \<Rightarrow> hs_total st | Some n \<Rightarrow> n),
        hs_chunks := (case obj_int ob ''seq'' of None \<Rightarrow> hs_chunks st | Some n \<Rightarrow> n)\<rparr>"

definition next_result :: "outcome \<Rightarrow> http_stream \<Rightarrow> (bytes \<times> bool \<times> host_error option) \<times> http_stream" where
  "next_result r st =
     (let ob = op_result r
      in if ob \<noteq> [] \<and> read_chunk ob = None then (([], True, Some ChunkNotBase64), st\<lparr>hs_done := True\<rparr>)
         else (let chunk = (if ob = [] then [] else or_empty (read_chunk ob));
                   st' = (if ob = [] then st else read_counts ob st);
                   fin = (snd r \<noteq> None \<or> ob \<noteq> [] \<and> obj_bool ob ''done'' = Some True)
               in ((chunk, fin, snd r), if fin then st'\<lparr>hs_done := True\<rparr> else st')))"

definition stream_target :: "http_stream \<Rightarrow> goval option" where
  "stream_target st = Some (GMap [(''stream_id'', GString (hs_id st))])"

definition next_chunk :: "'s host \<Rightarrow> http_stream \<Rightarrow> 's \<Rightarrow> (bytes \<times> bool \<times> host_error option) \<times> http_stream \<times> 's" where
  "next_chunk host st s =
     (if hs_done st then (([], True, None), st, s)
      else (case invoke_call host ''http.read'' (stream_target st) None s of
              (r, s') \<Rightarrow> (case next_result r st of (x, st') \<Rightarrow> (x, st', s'))))"

definition close_stream :: "'s host \<Rightarrow> http_stream \<Rightarrow> 's \<Rightarrow> host_error option \<times> http_stream \<times> 's" where
  "close_stream host st s =
     (if hs_done st then (None, st, s)
      else (case invoke_call host ''http.close'' (stream_target st) None s of
              (r, s') \<Rightarrow> (snd r, st\<lparr>hs_done := True\<rparr>, s')))"

text \<open>\<open>ReadAll\<close> has no bound of its own: not returning is \<open>None\<close>.\<close>

partial_function (option) read_all_loop ::
    "'s host \<Rightarrow> int \<Rightarrow> bytes \<Rightarrow> http_stream \<Rightarrow> 's \<Rightarrow> ((bytes \<times> host_error option) \<times> http_stream \<times> 's) option" where
  "read_all_loop host limit out st s =
     (case next_chunk host st s of
        ((chunk, fin, err), st', s') \<Rightarrow>
          (if err \<noteq> None then Some ((out @ chunk, err), st', s')
           else if 0 < limit \<and> limit < int (length (out @ chunk))
           then (case close_stream host st' s' of
                   (e, st'', s'') \<Rightarrow> Some ((out @ chunk, Some (StreamTooLong limit)), st'', s''))
           else if fin then Some ((out @ chunk, None), st', s')
           else read_all_loop host limit (out @ chunk) st' s'))"

definition read_all :: "'s host \<Rightarrow> int \<Rightarrow> http_stream \<Rightarrow> 's \<Rightarrow> ((bytes \<times> host_error option) \<times> http_stream \<times> 's) option" where
  "read_all host limit st s = read_all_loop host limit [] st s"

section \<open>Errors and outcomes\<close>

lemma as_operation_error_other [simp]: "as_operation_error (OtherError (Some (OtherError None))) = None"
  by simp

lemma decode_denial_chain: "as_operation_error (error_chain (decode_denial members)) = None"
  by (simp add: decode_denial_def split: option.split)

definition stated_success :: "member list \<Rightarrow> bool" where
  "stated_success members \<longleftrightarrow>
     \<not> is_denial members
     \<and> \<not> not_boolean (member_by_key members ''ok'') \<and> \<not> not_boolean (member_by_key members ''success'')
     \<and> (case member_by_key members ''status'' of
          Some st \<Rightarrow> decode_json_string st = Some ''succeeded''
        | None \<Rightarrow> (member_by_key members ''ok'' \<noteq> None \<or> member_by_key members ''success'' \<noteq> None)
            \<and> member_by_key members ''ok'' \<noteq> Some ''false'' \<and> member_by_key members ''success'' \<noteq> Some ''false'')"

definition outcome_ok :: "bytes \<Rightarrow> outcome \<Rightarrow> bool" where
  "outcome_ok reply r \<longleftrightarrow>
     (case r of
        (None, None) \<Rightarrow> False
      | (None, Some e) \<Rightarrow> as_operation_error (error_chain e) = None
      | (Some res, None) \<Rightarrow> ir_status res = ''succeeded'' \<and> ir_raw res = reply
      | (Some res, Some e) \<Rightarrow> ir_status res \<noteq> [] \<and> ir_status res \<noteq> ''succeeded'' \<and> ir_raw res = reply
          \<and> e = CallFailed (ir_status res) (ir_reason_code res) (ir_reason res))"

lemma decode_outcome_ok: "outcome_ok reply (decode_outcome reply members)"
  by (simp add: outcome_ok_def decode_outcome_def Let_def)

lemma decode_host_reply_ok: "outcome_ok reply (decode_host_reply reply)"
  by (simp add: decode_host_reply_def decode_outcome_ok decode_denial_chain outcome_ok_def [of _ "(None, _)"]
      split: option.split)

lemma decode_outcome_success:
  assumes "\<not> is_denial members"
  shows "snd (decode_outcome reply members) = None \<longleftrightarrow> stated_success members"
proof (cases "member_by_key members ''status''")
  case None
  then show ?thesis using assms
    by (simp add: decode_outcome_def stated_success_def Let_def decode_json_string_opt_def or_empty_def)
next
  case (Some st)
  then show ?thesis using assms
    by (cases "decode_json_string st")
      (simp_all add: decode_outcome_def stated_success_def Let_def decode_json_string_opt_def or_empty_def)
qed

section \<open>The text of a call\<close>

lemma invoke_params_obj:
  assumes "value_member TargetNotWritten '',\"target\":'' target = Inr t"
    "value_member ArgumentsNotWritten '',\"arguments\":'' arguments = Inr a"
  shows "invoke_params operation target arguments = Inr (obj_text ((''operation'', append_json_string operation)
    # (case target of None \<Rightarrow> [] | Some v \<Rightarrow> [(''target'', projr (marshal_value v))])
    @ (case arguments of None \<Rightarrow> [] | Some v \<Rightarrow> [(''arguments'', projr (marshal_value v))])))"
  using assms
  by (cases target; cases arguments)
    (auto simp: invoke_params_def value_member_def obj_text_def pair_text_def append_json_string_def
      escape_byte_def split: sum.splits)

lemma marshal_text_map: "marshal_value (GMap [(k, GString v)]) = Inr (obj_text [(k, append_json_string v)])"
  by (simp add: marshal_value_def append_value.simps [of 0 "GMap [(k, GString v)]"]
      append_value.simps [of "Suc 0" "GString v"] max_marshal_depth_def obj_text_def pair_text_def)

definition map_value :: "goval \<Rightarrow> bool" where
  "map_value v \<longleftrightarrow> (\<exists>m. v = GMap m) \<and> writable 2 v"

lemma map_value_text:
  assumes "map_value v" "marshal_value v = Inr raw"
  shows "object_arg raw"
proof -
  obtain m where v: "v = GMap m" "writable 2 v" using assms(1) by (auto simp: map_value_def)
  have "hd raw = CHR ''{''"
    using assms(2) v(1) by (auto simp: marshal_value_def append_value.simps split: sum.splits if_splits)
  then show ?thesis using marshal_value_valid [OF assms(2) v(2)] by (simp add: object_arg_def)
qed

lemma value_member_text:
  "map_value v \<Longrightarrow> value_member err label (Some v) = Inr t \<Longrightarrow> \<exists>raw. marshal_value v = Inr raw \<and> object_arg raw"
  by (auto simp: value_member_def split: sum.splits intro: map_value_text)

lemma invoke_params_Inr:
  assumes "invoke_params operation target arguments = Inr ps"
    "\<forall>v. target = Some v \<longrightarrow> map_value v" "\<forall>v. arguments = Some v \<longrightarrow> map_value v"
  obtains t a where "ps = obj_text ((''operation'', append_json_string operation)
      # (case t of None \<Rightarrow> [] | Some r \<Rightarrow> [(''target'', r)]) @ (case a of None \<Rightarrow> [] | Some r \<Rightarrow> [(''arguments'', r)]))"
    "map_option marshal_value target = map_option Inr t" "map_option marshal_value arguments = map_option Inr a"
    "\<forall>r. t = Some r \<longrightarrow> object_arg r" "\<forall>r. a = Some r \<longrightarrow> object_arg r"
proof -
  obtain x y where xy: "value_member TargetNotWritten '',\"target\":'' target = Inr x"
      "value_member ArgumentsNotWritten '',\"arguments\":'' arguments = Inr y"
    using assms(1) by (auto simp: invoke_params_def split: sum.splits)
  have t: "\<exists>t. map_option marshal_value target = map_option Inr t \<and> (\<forall>r. t = Some r \<longrightarrow> object_arg r)"
  proof (cases target)
    case (Some v)
    then obtain r where "marshal_value v = Inr r" "object_arg r"
      using value_member_text [of v] xy(1) assms(2) by blast
    then show ?thesis using Some by (intro exI [of _ "Some r"]) simp
  qed simp
  have a: "\<exists>a. map_option marshal_value arguments = map_option Inr a \<and> (\<forall>r. a = Some r \<longrightarrow> object_arg r)"
  proof (cases arguments)
    case (Some v)
    then obtain r where "marshal_value v = Inr r" "object_arg r"
      using value_member_text [of v] xy(2) assms(3) by blast
    then show ?thesis using Some by (intro exI [of _ "Some r"]) simp
  qed simp
  obtain t a where ta: "map_option marshal_value target = map_option Inr t"
      "map_option marshal_value arguments = map_option Inr a"
      "\<forall>r. t = Some r \<longrightarrow> object_arg r" "\<forall>r. a = Some r \<longrightarrow> object_arg r"
    using t a by blast
  have mt: "(case target of None \<Rightarrow> [] | Some v \<Rightarrow> [(''target'', projr (marshal_value v))])
      = (case t of None \<Rightarrow> [] | Some r \<Rightarrow> [(''target'', r)])"
    using ta(1) by (cases target; cases t) simp_all
  have ma: "(case arguments of None \<Rightarrow> [] | Some v \<Rightarrow> [(''arguments'', projr (marshal_value v))])
      = (case a of None \<Rightarrow> [] | Some r \<Rightarrow> [(''arguments'', r)])"
    using ta(2) by (cases arguments; cases a) simp_all
  have "ps = obj_text ((''operation'', append_json_string operation)
      # (case t of None \<Rightarrow> [] | Some r \<Rightarrow> [(''target'', r)]) @ (case a of None \<Rightarrow> [] | Some r \<Rightarrow> [(''arguments'', r)]))"
    using invoke_params_obj [OF xy, of operation] assms(1) mt ma by simp
  then show thesis by (rule that [OF _ ta])
qed

lemma params_plain:
  assumes "json_text_ok operation" "\<forall>r. t = Some r \<longrightarrow> object_arg r" "\<forall>r. a = Some r \<longrightarrow> object_arg r"
  shows "plain_members 2 ((''operation'', append_json_string operation)
      # (case t of None \<Rightarrow> [] | Some r \<Rightarrow> [(''target'', r)]) @ (case a of None \<Rightarrow> [] | Some r \<Rightarrow> [(''arguments'', r)]))"
  using assms by (cases t; cases a) (simp_all add: object_arg_def)

lemma vtext_shift: "vtext (Suc d) v \<Longrightarrow> vtext d v"
  using vtext_shallower(1) [of "Suc d" v] by simp

section \<open>Results and errors through the envelope\<close>

lemma outcome_keys [simp]:
  "no_nul ''ok''" "utf8_valid ''ok''" "no_nul ''success''" "utf8_valid ''success''"
  "no_nul ''value''" "utf8_valid ''value''" "no_nul ''key''" "utf8_valid ''key''"
  using printable_ok by (simp_all add: printable_def)

lemma json_text_ok_Nil [simp]: "json_text_ok []"
  by (simp add: json_text_ok_def no_nul_def)

lemma obj_text_ne [simp]: "obj_text k \<noteq> []"
  by (simp add: obj_text_def)

lemma decode_obj_text:
  assumes "plain_members 1 ms"
  shows "decode_host_reply (obj_text ms) =
    (if is_denial ms then (None, Some (decode_denial ms)) else decode_outcome (obj_text ms) ms)"
  using object_members_obj_text [OF assms] strict_obj_text [OF assms] by (simp add: decode_host_reply_def)

lemma succeeded_text: "append_json_string ''succeeded'' = ''\"succeeded\"''" "json_text_ok ''succeeded''"
  using printable_ok by (simp_all add: append_json_string_def escape_byte_def printable_def)

lemma decode_success_result:
  assumes "vtext 1 t" "utf8_valid t"
  shows "decode_host_reply (success_result t) =
    (Some \<lparr>ir_status = ''succeeded'', ir_operation_result = t, ir_reason = [], ir_reason_code = [],
       ir_external_receipt = [], ir_raw = success_result t\<rparr>, None)"
proof -
  have pm: "plain_members 1 [(''status'', ''\"succeeded\"''), (''operation_result'', t)]"
    using assms json_text_okD [OF succeeded_text(2)] by (simp add: succeeded_text(1))
  have d: "decode_json_string ''\"succeeded\"'' = Some ''succeeded''"
    using decode_string_text [OF succeeded_text(2)] by (simp add: succeeded_text(1))
  show ?thesis
    unfolding success_result_obj decode_obj_text [OF pm]
    by (simp add: is_denial_def decode_outcome_def not_boolean_def decode_json_string_opt_def d or_empty_def
        string_member_def reason_code_of_def)
qed

lemma decode_failure_result:
  assumes "json_text_ok st" "json_text_ok rc" "json_text_ok reason" "st \<noteq> []" "st \<noteq> ''succeeded''"
  shows "decode_host_reply (failure_result st rc reason) =
    (Some \<lparr>ir_status = st, ir_operation_result = [], ir_reason = (if reason = [] then rc else reason),
       ir_reason_code = rc, ir_external_receipt = [], ir_raw = failure_result st rc reason\<rparr>,
     Some (CallFailed st rc (if reason = [] then rc else reason)))"
proof -
  define ms where "ms = [(''status'', append_json_string st), (''reason'', append_json_string (if reason = [] then rc else reason))]
       @ (if rc \<noteq> [] then [(''reasonCode'', append_json_string rc), (''reason_code'', append_json_string rc)] else [])"
  have pm: "plain_members 1 ms" using assms by (cases "rc = []") (auto simp: ms_def)
  show ?thesis
    unfolding failure_result_obj ms_def [symmetric] decode_obj_text [OF pm]
    using assms
    by (simp add: ms_def is_denial_def decode_outcome_def not_boolean_def decode_json_string_opt_def or_empty_def
        string_member_def reason_code_of_def decode_string_text)
qed

lemma obj_object_result:
  assumes "reply_id_ok i" "vtext 1 r" "utf8_valid r" "hd r = CHR ''{''" "r \<noteq> []"
  shows "obj_object (result_response i r) ''result'' = r"
proof -
  have "plain_members 1 [(''jsonrpc'', ''\"2.0\"''), (''id'', i), (''result'', r)]"
    using assms by (simp add: reply_id_ok_def)
  from obj_raw_obj_text [OF this, of "''result''"] have "obj_raw (result_response i r) ''result'' = Some r"
    by (simp add: result_response_obj)
  with assms(4,5) show ?thesis by (cases r) (simp_all add: obj_object_def)
qed

definition request_frame :: "bytes \<Rightarrow> bytes \<Rightarrow> bytes" where
  "request_frame i params =
     obj_text [(''jsonrpc'', ''\"2.0\"''), (''id'', i), (''method'', append_json_string ''invoke.call''),
       (''params'', params)]"

lemma respond_invoke:
  assumes i: "reply_id_ok i" "scalar_id i" and op: "json_text_ok operation" "operation \<noteq> []"
    and fn: "find_handler p operation = Some fn"
    and ps: "invoke_params operation target (Some arguments) = Inr ps"
    and m: "\<forall>v. target = Some v \<longrightarrow> map_value v" "map_value arguments"
    and raws: "map_option marshal_value target = map_option Inr t" "marshal_value arguments = Inr a"
  shows "respond p (request_frame i ps) =
    guarded_reply i (handler_reply i
      (fn \<lparr>call_operation = operation, call_target = t, call_arguments = a, call_host_work_session = None\<rparr>))"
proof -
  have "\<forall>v. Some arguments = Some v \<longrightarrow> map_value v" using m(2) by simp
  from invoke_params_Inr [OF ps m(1) this] obtain t' a' where
      e: "ps = obj_text ((''operation'', append_json_string operation)
        # (case t' of None \<Rightarrow> [] | Some r \<Rightarrow> [(''target'', r)]) @ (case a' of None \<Rightarrow> [] | Some r \<Rightarrow> [(''arguments'', r)]))"
      and ts: "map_option marshal_value target = map_option Inr t'"
        "map_option marshal_value (Some arguments) = map_option Inr a'"
      and o: "\<forall>r. t' = Some r \<longrightarrow> object_arg r" "\<forall>r. a' = Some r \<longrightarrow> object_arg r" .
  have "t' = t" using ts(1) raws(1) by (cases t; cases t'; cases target) auto
  moreover have "a' = Some a" using ts(2) raws(2) by (cases a') auto
  ultimately have "request_frame i ps = call_frame i operation t a" and "object_arg a" "\<forall>r. t = Some r \<longrightarrow> object_arg r"
    using e o by (simp_all add: request_frame_def call_frame_def)
  then show ?thesis using respond_call_frame [OF i op _ _ fn] by simp
qed

lemma guarded_result:
  assumes "reply_id_ok i" "vtext 1 r" "utf8_valid r" "length (result_response i r) \<le> max_control_frame_bytes"
  shows "guarded_reply i (result_response i r) = result_response i r"
proof -
  have "plain_members 1 [(''jsonrpc'', ''\"2.0\"''), (''id'', i), (''result'', r)]"
    using assms by (simp add: reply_id_ok_def)
  from strict_obj_text [OF this] assms(4) show ?thesis by (simp add: guarded_reply_def result_response_obj)
qed

lemma success_text: "vtext 2 t \<Longrightarrow> utf8_valid t \<Longrightarrow> vtext 1 (success_result t) \<and> utf8_valid (success_result t)"
  using obj_text_grammar [of 1 "[(''status'', ''\"succeeded\"''), (''operation_result'', t)]"]
    json_text_okD [OF succeeded_text(2)]
  by (simp add: success_result_obj max_scan_depth_def numeral_2_eq_2 succeeded_text(1))

section \<open>The properties of a host call\<close>

text \<open>whatever bytes the host replies, they are exactly one outcome: a result that succeeded and
  no error, a result that did not with an \<open>OperationError\<close> of the same status and reason, or no
  result and an error no caller can take for an \<open>OperationError\<close>. And a call succeeds exactly when
  the reply is strict JSON, an object that is not a denial, whose booleans are booleans and which
  states a success.\<close>

theorem a_host_reply_is_one_outcome:
  "outcome_ok reply (decode_host_reply reply)
   \<and> (snd (decode_host_reply reply) = None \<longleftrightarrow>
        validate_strict reply \<and> (case object_members reply of None \<Rightarrow> False | Some ms \<Rightarrow> stated_success ms))"
proof -
  have e: "\<not> validate_strict []" by code_simp
  have "snd (decode_host_reply reply) = None \<longleftrightarrow>
        validate_strict reply \<and> (case object_members reply of None \<Rightarrow> False | Some ms \<Rightarrow> stated_success ms)"
  proof (cases "object_members reply")
    case None
    then show ?thesis by (simp add: decode_host_reply_def)
  next
    case (Some ms)
    then show ?thesis using e decode_outcome_success [of ms reply]
      by (cases "is_denial ms") (auto simp: decode_host_reply_def stated_success_def [of ms])
  qed
  then show ?thesis using decode_host_reply_ok by simp
qed

text \<open>C4: a call one plugin makes and another answers: the handler gets the raw target and arguments
  the caller wrote, and the caller gets the payload the handler returned, or an \<open>OperationError\<close>
  with the status, reason code and reason of the handler's error (the reason code where there is no
  reason), when the reply fits a control frame.\<close>

theorem a_caller_gets_what_the_handler_gave:
  assumes "reply_id_ok i" "scalar_id i" "json_text_ok operation" "operation \<noteq> []"
    "find_handler p operation = Some fn"
    "invoke_params operation target (Some arguments) = Inr ps"
    "\<forall>v. target = Some v \<longrightarrow> map_value v" "map_value arguments"
    "map_option marshal_value target = map_option Inr t" "marshal_value arguments = Inr a"
    "fn \<lparr>call_operation = operation, call_target = t, call_arguments = a, call_host_work_session = None\<rparr> = out"
    "length (handler_reply i out) \<le> max_control_frame_bytes"
    "r = decode_host_reply (obj_object (respond p (request_frame i ps)) ''result'')"
  shows "(classify_handler_error (snd out) = NoError \<and> writable 2 (fst out) \<and> marshal_value (fst out) = Inr payload \<longrightarrow>
            snd r = None \<and> op_result r = payload)
    \<and> (classify_handler_error (snd out) = OpFailed st rc reason \<and> json_text_ok rc \<and> json_text_ok reason \<longrightarrow>
            snd r = Some (CallFailed st rc (if reason = [] then rc else reason)))"
proof (intro conjI impI)
  have g: "respond p (request_frame i ps) = guarded_reply i (handler_reply i out)"
    using respond_invoke [OF assms(1-5,6-10)] assms(11) by simp
  {
    assume h: "classify_handler_error (snd out) = NoError \<and> writable 2 (fst out) \<and> marshal_value (fst out) = Inr payload"
    then have hr: "handler_reply i out = result_response i (success_result payload)" by (simp add: handler_reply_def)
    have t: "vtext 2 payload" "utf8_valid payload" using marshal_value_valid h by blast+
    note s = success_text [OF t]
    have "obj_object (respond p (request_frame i ps)) ''result'' = success_result payload"
      using g hr guarded_result [OF assms(1) s [THEN conjunct1] s [THEN conjunct2]] assms(12)
        obj_object_result [OF assms(1) s [THEN conjunct1] s [THEN conjunct2]]
      by (simp add: success_result_def)
    then show "snd r = None" "op_result r = payload"
      using decode_success_result [OF vtext_shift t(2)] t(1) assms(13)
      by (simp_all add: op_result_def numeral_2_eq_2)
  }
  assume h: "classify_handler_error (snd out) = OpFailed st rc reason \<and> json_text_ok rc \<and> json_text_ok reason"
  then have hr: "handler_reply i out = result_response i (failure_result st rc reason)" by (simp add: handler_reply_def)
  have st: "st = ''failed'' \<or> st = ''denied''"
    using h classify_chain_status by (auto simp: classify_handler_error_def split: option.splits)
  then have "json_text_ok st" using printable_ok by (auto simp: printable_def)
  then have s: "vtext 1 (failure_result st rc reason) \<and> utf8_valid (failure_result st rc reason)"
    using h by (intro conjI vtext_failure_result) simp_all
  have "obj_object (respond p (request_frame i ps)) ''result'' = failure_result st rc reason"
    using g hr guarded_result [OF assms(1) s [THEN conjunct1] s [THEN conjunct2]] assms(12)
      obj_object_result [OF assms(1) s [THEN conjunct1] s [THEN conjunct2]]
    by (simp add: failure_result_def)
  moreover have "st \<noteq> []" "st \<noteq> ''succeeded''" using st by auto
  ultimately show "snd r = Some (CallFailed st rc (if reason = [] then rc else reason))"
    using decode_failure_result [OF \<open>json_text_ok st\<close>, of rc reason] h assms(13) by simp
qed

theorem a_caller_gets_what_the_handler_gave_witness:
  "snd (decode_host_reply (obj_object (respond
     (new_plugin ''x''\<lparr>p_handlers := [(''op'', \<lambda>c. (GRaw (call_arguments c), None))]\<rparr>)
     (request_frame ''\"7\"'' (projr (invoke_params ''op'' None (Some (GMap [])))))) ''result'')) = None"
proof -
  have t: "json_text_ok ''7''" "json_text_ok ''op''" using printable_ok by (simp_all add: printable_def)
  have "append_json_string ''7'' = ''\"7\"''" by (simp add: append_json_string_def escape_byte_def)
  then have i: "reply_id_ok ''\"7\"''"
    using json_text_okD(1) [OF t(1), of 1] json_text_okD(2) [OF t(1)] by (simp add: reply_id_ok_def)
  have o: "object_arg ''{}''" using v_object0 [of 2 "[]"] by (simp add: object_arg_def max_scan_depth_def)
  have m: "map_value (GMap [])" by (simp add: map_value_def max_marshal_depth_def max_scan_depth_def)
  have e: "marshal_value (GMap []) = Inr ''{}''" "marshal_value (GRaw ''{}'') = Inr ''{}''" by code_simp+
  have w: "writable 2 (GRaw ''{}'')" using o by (simp add: object_arg_def)
  have ps: "invoke_params ''op'' None (Some (GMap [])) = Inr (projr (invoke_params ''op'' None (Some (GMap []))))"
    by (simp add: invoke_params_def value_member_def e)
  show ?thesis
    using a_caller_gets_what_the_handler_gave [OF i _ t(2) _ _ ps, of
        "new_plugin ''x''\<lparr>p_handlers := [(''op'', \<lambda>c. (GRaw (call_arguments c), None))]\<rparr>"
        "\<lambda>c. (GRaw (call_arguments c), None)" None "''{}''" "(GRaw ''{}'', None)" _ "''{}''"] m e w
    by (simp add: scalar_id_def find_handler_def new_plugin_def handler_reply_def classify_handler_error_def
        result_response_def success_result_def max_control_frame_bytes_def)
qed

section \<open>Reading a stream to its end\<close>

lemma next_chunk_flags:
  assumes "next_chunk host st s = ((c, fin, e), st', s')"
  shows "e \<noteq> None \<Longrightarrow> fin" "fin \<longleftrightarrow> hs_done st'"
  using assms
  by (auto simp: next_chunk_def next_result_def Let_def read_counts_def split: if_split_asm prod.split_asm)

lemma done_reads_nothing:
  "hs_done st \<Longrightarrow> next_chunk host st s = (([], True, None), st, s) \<and> close_stream host st s = (None, st, s)"
  by (simp add: next_chunk_def close_stream_def)

lemma close_stream_done: "close_stream host st s = (e, st', s') \<Longrightarrow> hs_done st'"
  by (auto simp: close_stream_def split: if_split_asm prod.split_asm)

text \<open>The first \<open>n\<close> calls of \<open>Next\<close>.\<close>

primrec next_run :: "'s host \<Rightarrow> nat \<Rightarrow> http_stream \<Rightarrow> 's \<Rightarrow> (bytes \<times> bool \<times> host_error option) list \<times> http_stream \<times> 's" where
  "next_run host 0 st s = ([], st, s)"
| "next_run host (Suc n) st s =
     (case next_chunk host st s of
        (x, st', s') \<Rightarrow> (case next_run host n st' s' of (xs, r) \<Rightarrow> (x # xs, r)))"

definition within :: "int \<Rightarrow> bytes \<Rightarrow> bool" where
  "within limit out \<longleftrightarrow> (0 < limit \<longrightarrow> int (length out) \<le> limit)"

lemma within_append: "within limit (out @ c) \<Longrightarrow> within limit out"
  by (auto simp: within_def)

definition read_to :: "'s host \<Rightarrow> int \<Rightarrow> bytes \<Rightarrow> http_stream \<Rightarrow> 's \<Rightarrow>
    ((bytes \<times> host_error option) \<times> http_stream \<times> 's) option \<Rightarrow> bool" where
  "read_to host limit out st s r \<longleftrightarrow>
     (\<exists>err st' s' xs x. r = Some ((out @ concat (map fst (xs @ [x])), err), st', s')
        \<and> fst (next_run host (Suc (length xs)) st s) = xs @ [x]
        \<and> (\<forall>y \<in> set xs. snd y = (False, None)) \<and> within limit (out @ concat (map fst xs))
        \<and> hs_done st'
        \<and> (err = None \<longleftrightarrow> snd x = (True, None) \<and> within limit (out @ concat (map fst (xs @ [x]))))
        \<and> (snd (snd x) = None \<longrightarrow> err \<in> {None, Some (StreamTooLong limit)}))"

lemma read_all_loop_stop:
  assumes n: "next_chunk host st s = ((c, fin, e), st', s')" and w: "within limit out"
    and stop: "fin \<or> \<not> within limit (out @ c)"
  shows "read_to host limit out st s (read_all_loop host limit out st s)"
proof -
  note f = next_chunk_flags [OF n]
  obtain ce cst cs where cl: "close_stream host st' s' = (ce, cst, cs)" by (cases "close_stream host st' s'")
  have run: "fst (next_run host (Suc (length [])) st s) = [] @ [(c, fin, e)]" using n by simp
  have nw: "0 < limit \<and> limit < int (length (out @ c)) \<longleftrightarrow> \<not> within limit (out @ c)" by (auto simp: within_def)
  have "\<exists>err st2 s2. read_all_loop host limit out st s = Some ((out @ c, err), st2, s2) \<and> hs_done st2
      \<and> (err = None \<longleftrightarrow> (fin, e) = (True, None) \<and> within limit (out @ c))
      \<and> (e = None \<longrightarrow> err \<in> {None, Some (StreamTooLong limit)})"
  proof (cases "e = None")
    case False
    then show ?thesis using n f by (auto simp: read_all_loop.simps [of host limit out])
  next
    case True
    then show ?thesis using n f stop cl close_stream_done [OF cl]
      by (cases "within limit (out @ c)") (simp_all add: read_all_loop.simps [of host limit out] nw [simplified])
  qed
  then obtain err st2 s2 where r: "read_all_loop host limit out st s = Some ((out @ c, err), st2, s2)" "hs_done st2"
      "err = None \<longleftrightarrow> (fin, e) = (True, None) \<and> within limit (out @ c)"
      "e = None \<longrightarrow> err \<in> {None, Some (StreamTooLong limit)}" by blast
  show ?thesis unfolding read_to_def
    by (intro exI [of _ err] exI [of _ st2] exI [of _ s2] exI [of _ "[]"] exI [of _ "(c, fin, e)"] conjI)
      (use r run w in simp_all)
qed

lemma read_all_loop_ends:
  assumes "next_run host n st s = (ys, stn, sn)" "within limit out"
    "hs_done stn \<or> \<not> within limit (out @ concat (map fst ys))"
  shows "read_to host limit out st s (read_all_loop host limit out st s)"
  using assms
proof (induction n arbitrary: out st s ys)
  case 0
  then have "hs_done st" by auto
  from done_reads_nothing [OF this, of host s] show ?case using 0 by (intro read_all_loop_stop) auto
next
  case (Suc n)
  obtain c fin e st' s' where nx: "next_chunk host st s = ((c, fin, e), st', s')"
    by (cases "next_chunk host st s"; cases "fst (next_chunk host st s)") auto
  show ?case
  proof (cases "fin \<or> \<not> within limit (out @ c)")
    case True
    then show ?thesis using read_all_loop_stop [OF nx Suc.prems(2)] by blast
  next
    case False
    then have e: "e = None" "\<not> fin" "within limit (out @ c)" using next_chunk_flags(1) [OF nx] by (cases e; simp)+
    obtain zs where run: "next_run host n st' s' = (zs, stn, sn)" "ys = (c, fin, e) # zs"
      using Suc.prems(1) nx by (auto split: prod.splits)
    have "read_to host limit (out @ c) st' s' (read_all_loop host limit (out @ c) st' s')"
      using Suc.IH [OF run(1) e(3)] Suc.prems(3) run(2) by simp
    then obtain err st2 s2 xs x where
        r: "read_all_loop host limit (out @ c) st' s' = Some (((out @ c) @ concat (map fst (xs @ [x])), err), st2, s2)"
        "fst (next_run host (Suc (length xs)) st' s') = xs @ [x]"
        "\<forall>y \<in> set xs. snd y = (False, None)" "within limit ((out @ c) @ concat (map fst xs))" "hs_done st2"
        "err = None \<longleftrightarrow> snd x = (True, None) \<and> within limit ((out @ c) @ concat (map fst (xs @ [x])))"
        "snd (snd x) = None \<longrightarrow> err \<in> {None, Some (StreamTooLong limit)}"
      unfolding read_to_def by (elim exE conjE) (rule that)
    have "\<not> (0 < limit \<and> limit < int (length (out @ c)))" using e(3) by (auto simp: within_def)
    then have l: "read_all_loop host limit out st s = read_all_loop host limit (out @ c) st' s'"
      using nx e by (auto simp: read_all_loop.simps [of host limit out])
    have "fst (next_run host (Suc (length ((c, fin, e) # xs))) st s) = ((c, fin, e) # xs) @ [x]"
      using nx r(2) by (simp add: split_beta)
    then show ?thesis unfolding read_to_def l
      by (intro exI [of _ err] exI [of _ st2] exI [of _ s2] exI [of _ "(c, fin, e) # xs"] exI [of _ x] conjI)
        (use r e in simp_all)
  qed
qed

text \<open>C13: \<open>ReadAll\<close> on a stream whose reads come to an end, or go past the limit the plugin set,
  returns, with the bytes of all its reads in order. No read but the last was final or failed, and
  before the last the bytes were within the limit; it returns without an error exactly when the last
  read was final and all of it is within the limit; whatever it returns, the stream is closed, and
  neither \<open>Next\<close> nor \<open>Close\<close> makes another host call.\<close>

theorem reading_a_stream_ends:
  assumes "next_run host n st s = (ys, stn, sn)" "hs_done stn \<or> \<not> within limit (concat (map fst ys))"
  shows "\<exists>out err st' s' xs x. read_all host limit st s = Some ((out, err), st', s')
     \<and> fst (next_run host (Suc (length xs)) st s) = xs @ [x] \<and> out = concat (map fst (xs @ [x]))
     \<and> (\<forall>y \<in> set xs. snd y = (False, None)) \<and> within limit (concat (map fst xs))
     \<and> (err = None \<longleftrightarrow> snd x = (True, None) \<and> within limit out)
     \<and> (\<forall>s2. next_chunk host st' s2 = (([], True, None), st', s2) \<and> close_stream host st' s2 = (None, st', s2))"
proof -
  have "read_to host limit [] st s (read_all_loop host limit [] st s)"
    using assms by (intro read_all_loop_ends [of host n st s ys stn sn]) (simp_all add: within_def)
  then obtain err st' s' xs x where
      r: "read_all_loop host limit [] st s = Some (([] @ concat (map fst (xs @ [x])), err), st', s')"
        "fst (next_run host (Suc (length xs)) st s) = xs @ [x]" "\<forall>y \<in> set xs. snd y = (False, None)"
        "within limit ([] @ concat (map fst xs))" "hs_done st'"
        "err = None \<longleftrightarrow> snd x = (True, None) \<and> within limit ([] @ concat (map fst (xs @ [x])))"
    unfolding read_to_def by (elim exE conjE) (rule that)
  show ?thesis unfolding read_all_def
    by (intro exI [of _ "concat (map fst (xs @ [x]))"] exI [of _ err] exI [of _ st'] exI [of _ s']
        exI [of _ xs] exI [of _ x] conjI allI)
      (use r done_reads_nothing [OF r(5), THEN conjunct1] done_reads_nothing [OF r(5), THEN conjunct2] in simp_all)
qed

definition last_chunk :: bytes where
  "last_chunk = obj_text [(''data_b64'', append_json_string ''aGk=''), (''done'', ''true'')]"

lemma last_chunk_read:
  "vtext 1 last_chunk" "utf8_valid last_chunk" "obj_string last_chunk ''data_b64'' = Some ''aGk=''"
  "obj_bool last_chunk ''done'' = Some True" "last_chunk \<noteq> []"
  "obj_int last_chunk ''total_bytes'' = None" "obj_int last_chunk ''seq'' = None"
proof -
  have k: "json_text_ok ''aGk=''" "no_nul ''data_b64''" "utf8_valid ''data_b64''" "no_nul ''done''" "utf8_valid ''done''"
    "utf8_valid ''true''"
    using printable_ok by (simp_all add: printable_def)
  have pm: "plain_members (Suc 1) [(''data_b64'', append_json_string ''aGk=''), (''done'', ''true'')]"
    using k by (simp add: v_true)
  show "vtext 1 last_chunk" "utf8_valid last_chunk" "last_chunk \<noteq> []"
    using obj_text_grammar [OF pm] by (simp_all add: last_chunk_def max_scan_depth_def)
  note raw = obj_raw_obj_text [OF pm]
  show "obj_string last_chunk ''data_b64'' = Some ''aGk=''" "obj_bool last_chunk ''done'' = Some True"
    "obj_int last_chunk ''total_bytes'' = None" "obj_int last_chunk ''seq'' = None"
    using decode_string_text [OF k(1)]
    by (simp_all add: obj_string_def obj_bool_def obj_int_def last_chunk_def raw decode_json_string_opt_def)
qed

theorem reading_a_stream_ends_witness:
  "\<exists>r. read_all (\<lambda>k p. (Inr (success_result last_chunk), Suc k)) 10
     \<lparr>hs_id = ''s'', hs_status = 200, hs_content_type = [], hs_location = [], hs_chunk_max = 0, hs_total = 0,
       hs_chunks = 0, hs_done = False\<rparr> (0 :: nat) = Some r \<and> fst r = (''hi'', None)"
proof -
  define host where "host = (\<lambda>(k :: nat) (p :: bytes). (Inr (success_result last_chunk) :: go_error + bytes, Suc k))"
  define st where "st = \<lparr>hs_id = ''s'', hs_status = 200, hs_content_type = [], hs_location = [], hs_chunk_max = 0,
       hs_total = 0, hs_chunks = 0, hs_done = False\<rparr>"
  have b: "base64_decode ''aGk='' = Some ''hi''"
    by (simp add: base64_decode_def base64_last_def base64_group_def base64_digit_def three_bytes_def byte_of_def is_digit_def
        char_of_def bit_0)
  have "invoke_call host ''http.read'' (stream_target st) None 0 = (decode_host_reply (success_result last_chunk), 1)"
    by (simp add: invoke_call_def invoke_params_def value_member_def stream_target_def st_def host_def marshal_text_map)
  then have n: "next_chunk host st 0 = ((''hi'', True, None), st\<lparr>hs_done := True\<rparr>, 1)"
    using last_chunk_read b
    by (simp add: next_chunk_def decode_success_result next_result_def op_result_def read_chunk_def read_counts_def
        or_empty_def st_def)
  then have r: "next_run host (Suc 0) st 0 = ([(''hi'', True, None)], st\<lparr>hs_done := True\<rparr>, 1)" by simp
  have "hs_done (st\<lparr>hs_done := True\<rparr>)" by simp
  note ends = reading_a_stream_ends [OF r disjI1 [OF this], of 10]
  obtain out err st' s' xs x where o: "read_all host 10 st 0 = Some ((out, err), st', s')"
      "fst (next_run host (Suc (length xs)) st 0) = xs @ [x]" "out = concat (map fst (xs @ [x]))"
      "\<forall>y \<in> set xs. snd y = (False, None)" "err = None \<longleftrightarrow> snd x = (True, None) \<and> within 10 out"
    using ends by (elim exE conjE) (rule that)
  have "xs = []" using o(2,4) n by (cases xs) (auto split: prod.splits)
  then have "x = (''hi'', True, None)" using o(2) n by simp
  then have "out = ''hi'' \<and> err = None" using o(3,5) \<open>xs = []\<close> by (simp add: within_def)
  then show ?thesis using o(1) unfolding host_def st_def by simp
qed

end
