(* ===== verification/SendWindow.thy ===== *)
theory SendWindow
  imports HostCall "HOL-Library.Multiset"
begin

text \<open>
  How a channel counts what it sends, \<open>pkg/aiiosdk/sendwindow.go\<close>: the times of its recent sends are
  kept under one key of the plugin's storage, as the JSON text of a list of milliseconds. \<open>Admit\<close>
  compares those of the last minutes with the limit of the settings; \<open>Record\<close> adds one. A failed
  host call is an argument of the error; the two steps of \<open>encoding/json\<close> on a list of \<open>int64\<close> are
  written out. Sums of milliseconds wrap at 64 bits.
\<close>

section \<open>The list of times\<close>

fun ints_text :: "int list \<Rightarrow> bytes" where
  "ints_text [] = []"
| "ints_text [n] = itoa n"
| "ints_text (n # ns) = itoa n @ CHR '','' # ints_text ns"

definition times_text :: "int list \<Rightarrow> bytes" where
  "times_text ns = CHR ''['' # ints_text ns @ '']''"

text \<open>
  \<open>json.Unmarshal\<close> into a \<open>[]int64\<close>: every element is \<open>null\<close>, which leaves the zero it finds, or a
  number token that \<open>ParseInt\<close> takes; anything else is an error, whatever the other elements are.
\<close>

definition scan_time :: "bytes \<Rightarrow> (int \<times> bytes) option" where
  "scan_time s =
     (case literal ''null'' s of
        Some t \<Rightarrow> Some (0, t)
      | None \<Rightarrow>
          (case number_end s of
             None \<Rightarrow> None
           | Some t \<Rightarrow>
               (case atoi (take (length s - length t) s) of None \<Rightarrow> None | Some n \<Rightarrow> Some (n, t))))"

lemma scan_time_shrinks [shrinks]: "scan_time s = Some (n, t) \<Longrightarrow> length t < length s"
proof -
  assume a: "scan_time s = Some (n, t)"
  consider "literal ''null'' s = Some t" | "number_end s = Some t"
    using a by (auto simp: scan_time_def split: option.splits)
  then show ?thesis
  proof cases
    case 1
    then show ?thesis by (auto simp: literal_def split: if_splits)
  next
    case 2
    from number_end_sound [OF this] obtain k where "s = k @ t" "number_text k" by blast
    then show ?thesis by (auto simp: number_text_def int_text_def)
  qed
qed

lemma ws_length: "length (ws s) \<le> length s"
  by (simp add: ws_def length_dropWhile_le)

function times_loop :: "int list \<Rightarrow> bytes \<Rightarrow> int list option" where
  "times_loop out s =
     (case scan_time (ws s) of
        None \<Rightarrow> None
      | Some (n, t) \<Rightarrow>
          (case ws t of
             [] \<Rightarrow> None
           | c # u \<Rightarrow>
               if c = CHR '','' then times_loop (out @ [n]) u
               else if c = CHR '']'' \<and> ws u = [] then Some (out @ [n])
               else None))"
  by pat_completeness auto
termination
proof (relation "measure (\<lambda>(out, s). length s)", goal_cases)
  case (2 out s p n t c u)
  then have "length t < length (ws s)" using scan_time_shrinks [of "ws s" n t] by simp
  moreover have "length u < length (c # u)" "length (c # u) \<le> length t"
    using 2(3) ws_length [of t] by simp_all
  ultimately show ?case using ws_length [of s] by simp
qed simp

declare times_loop.simps [simp del]

definition times_of :: "bytes \<Rightarrow> int list option" where
  "times_of raw =
     (case literal ''null'' (ws raw) of
        Some t \<Rightarrow> if ws t = [] then Some [] else None
      | None \<Rightarrow>
          (case ws raw of
             [] \<Rightarrow> None
           | c # t \<Rightarrow>
               if c \<noteq> CHR ''['' then None
               else (case ws t of
                       [] \<Rightarrow> None
                     | d # u \<Rightarrow>
                         if d = CHR '']'' then (if ws u = [] then Some [] else None)
                         else times_loop [] t)))"

section \<open>Errors and verdicts\<close>

datatype send_error =
    SettingsUnread host_error
  | LimitOutOfRange int
  | MinutesOutOfRange int
  | NoHostClock
  | StorageNotGranted bytes
  | StorageFailed host_error

record send_verdict =
  sv_ok :: bool
  sv_sent :: int
  sv_limit :: int
  sv_minutes :: int
  sv_retry_at :: "int option"

definition default_send_limit :: int where "default_send_limit = 20"
definition default_send_minutes :: int where "default_send_minutes = 60"
definition max_send_limit :: int where "max_send_limit = 1000"
definition max_send_minutes :: int where "max_send_minutes = 1440"
definition send_clock_skew :: int where "send_clock_skew = 60000"

definition window_kv :: "host_error \<Rightarrow> send_error" where
  "window_kv e =
     (case as_denied (error_chain e) of
        Some (code, message, reason_code, denied_at) \<Rightarrow> StorageNotGranted reason_code
      | None \<Rightarrow> StorageFailed e)"

definition window_settings :: "'s host \<Rightarrow> 's \<Rightarrow> (send_error + int \<times> int) \<times> 's" where
  "window_settings host s =
     (case settings_load host s of
        (Inl e, s') \<Rightarrow> (Inl (SettingsUnread e), s')
      | (Inr vals, s') \<Rightarrow>
          (let limit = (case values_int vals ''send_limit'' of Some v \<Rightarrow> v | None \<Rightarrow> default_send_limit);
               minutes = (case values_int vals ''send_window_minutes'' of Some v \<Rightarrow> v | None \<Rightarrow> default_send_minutes)
           in if limit < 1 \<or> max_send_limit < limit then (Inl (LimitOutOfRange limit), s')
              else if minutes < 1 \<or> max_send_minutes < minutes then (Inl (MinutesOutOfRange minutes), s')
              else (Inr (limit, minutes), s')))"

section \<open>The window\<close>

definition in_window :: "int \<Rightarrow> int \<Rightarrow> int \<Rightarrow> bool" where
  "in_window now minutes t \<longleftrightarrow>
     wrap_int (now - wrap_int (minutes * 60000)) < t \<and> t \<le> wrap_int (now + send_clock_skew)"

definition kept_times :: "int \<Rightarrow> int \<Rightarrow> bytes option \<Rightarrow> int list" where
  "kept_times now minutes raw =
     (case raw of
        None \<Rightarrow> []
      | Some r \<Rightarrow>
          (case times_of r of None \<Rightarrow> [] | Some ts \<Rightarrow> sort (filter (in_window now minutes) ts)))"

definition recent :: "'s host \<Rightarrow> bytes \<Rightarrow> int \<Rightarrow> int \<Rightarrow> 's \<Rightarrow> (send_error + int list) \<times> 's" where
  "recent host key now minutes s =
     (case kv_get host key s of
        (Inl e, s') \<Rightarrow> (Inl (window_kv e), s')
      | (Inr raw, s') \<Rightarrow> (Inr (kept_times now minutes raw), s'))"

definition host_now_millis :: "call \<Rightarrow> int option" where
  "host_now_millis c = obj_int (call_arguments c) ''_host_now_ms''"

definition verdict :: "int \<Rightarrow> int \<Rightarrow> int list \<Rightarrow> send_verdict" where
  "verdict limit minutes ts =
     (let ok = (int (length ts) < limit)
      in \<lparr>sv_ok = ok, sv_sent = int (length ts), sv_limit = limit, sv_minutes = minutes,
          sv_retry_at = (if ok then None
            else Some (wrap_int (ts ! (length ts - nat limit) + wrap_int (minutes * 60000))))\<rparr>)"

definition admit :: "'s host \<Rightarrow> bytes \<Rightarrow> call \<Rightarrow> 's \<Rightarrow> (send_error + send_verdict) \<times> 's" where
  "admit host key c s =
     (case window_settings host s of
        (Inl e, s') \<Rightarrow> (Inl e, s')
      | (Inr (limit, minutes), s') \<Rightarrow>
          (case host_now_millis c of
             None \<Rightarrow> (Inl NoHostClock, s')
           | Some now \<Rightarrow>
               (case recent host key now minutes s' of
                  (Inl e, s'') \<Rightarrow> (Inl e, s'')
                | (Inr ts, s'') \<Rightarrow> (Inr (verdict limit minutes ts), s''))))"

definition add_time :: "int list \<Rightarrow> int \<Rightarrow> int list" where
  "add_time ts now =
     (let tsx = ts @ [now]
      in if nat max_send_limit < length tsx then drop (length tsx - nat max_send_limit) tsx else tsx)"

definition record_send :: "'s host \<Rightarrow> bytes \<Rightarrow> call \<Rightarrow> send_verdict \<Rightarrow> 's \<Rightarrow> send_error option \<times> 's" where
  "record_send host key c v s =
     (case host_now_millis c of
        None \<Rightarrow> (Some NoHostClock, s)
      | Some now \<Rightarrow>
          (case recent host key now (sv_minutes v) s of
             (Inl e, s') \<Rightarrow> (Some e, s')
           | (Inr ts, s') \<Rightarrow>
               (case kv_put host key (times_text (add_time ts now)) s' of
                  (Inl e, s'') \<Rightarrow> (Some (window_kv e), s'')
                | (Inr r, s'') \<Rightarrow> (None, s''))))"

definition counts :: "host_error option \<Rightarrow> bool" where
  "counts err \<longleftrightarrow> err = None \<or> effect_unknown err"

section \<open>The list of times is read back\<close>

lemma times_ws_skip: "list_all is_ws w \<Longrightarrow> ws (w @ s) = ws s"
  unfolding ws_def by (induction w) auto


lemma itoa_start: "\<exists>c t. itoa n = c # t \<and> (is_digit c \<or> c = CHR ''-'')"
  using itoa_nat_digits [of "nat n"] by (cases "itoa_nat (nat n)") (auto simp: itoa_def)

lemma time_char: "is_digit c \<or> c = CHR ''-'' \<Longrightarrow> \<not> is_ws c \<and> c \<noteq> CHR '']'' \<and> c \<noteq> CHR ''n'' \<and> c \<noteq> CHR ''[''"
  by (auto simp: is_digit_def is_ws_def)

lemma ws_itoa [simp]: "ws (itoa n @ t) = itoa n @ t"
proof -
  obtain c u where "itoa n = c # u" "is_digit c \<or> c = CHR ''-''" using itoa_start by blast
  then show ?thesis using time_char [of c] by (simp add: ws_def)
qed

lemma scan_time_itoa:
  assumes "int_range n" "e = CHR '','' \<or> e = CHR '']''"
  shows "scan_time (itoa n @ e # t) = Some (n, e # t)"
proof -
  obtain c u where c: "itoa n = c # u" "is_digit c \<or> c = CHR ''-''" using itoa_start by blast
  have "literal ''null'' (itoa n @ e # t) = None" using c time_char [of c] by (simp add: literal_def)
  moreover have "number_end (itoa n @ e # t) = Some (e # t)"
    using number_end_complete [OF number_text_itoa, of "e # t" n] assms(2) by (auto simp: is_digit_def)
  ultimately show ?thesis using atoi_itoa [OF assms(1)] by (simp add: scan_time_def)
qed

lemma times_loop_text:
  "list_all int_range ns \<Longrightarrow> ns \<noteq> [] \<Longrightarrow> times_loop out (ints_text ns @ '']'') = Some (out @ ns)"
proof (induction ns arbitrary: out rule: ints_text.induct)
  case (2 n)
  then show ?case by (simp add: times_loop.simps [of out] scan_time_itoa ws_def [of "'']''"] ws_def [of "[]"] is_ws_def)
next
  case (3 n m ns)
  then show ?case
    by (simp add: times_loop.simps [of out] scan_time_itoa ws_def [of "CHR '','' # _"] is_ws_def)
qed simp

lemma times_round_trip: "list_all int_range ns \<Longrightarrow> times_of (times_text ns) = Some ns"
proof (cases ns)
  case Nil
  then show ?thesis by (simp add: times_of_def times_text_def literal_def ws_def is_ws_def)
next
  case (Cons n r)
  assume a: "list_all int_range ns"
  obtain c u where c: "itoa n = c # u" "is_digit c \<or> c = CHR ''-''" using itoa_start by blast
  obtain v where v: "ints_text ns = c # v" using c(1) Cons by (cases r) auto
  have "times_loop [] (ints_text ns @ '']'') = Some ns" using times_loop_text [OF a, of "[]"] Cons by simp
  then show ?thesis using c(2) v time_char [of c]
    by (simp add: times_of_def times_text_def literal_def ws_def is_ws_def)
qed

lemma times_text_ok: "json_text_ok (times_text ns)"
proof -
  have d: "is_digit c \<Longrightarrow> 0 < byte_val c \<and> byte_val c < 128" for c by (simp add: is_digit_val)
  have i: "printable (itoa n)" for n
    using itoa_nat_digits by (auto simp: printable_def itoa_def list_all_iff d)
  have "printable (ints_text ns)"
    by (induction ns rule: ints_text.induct) (use i in \<open>auto simp: printable_def\<close>)
  then have "printable (times_text ns)" by (auto simp: printable_def times_text_def)
  then show ?thesis using printable_ok by blast
qed

section \<open>When the next send can go\<close>

lemma count_above:
  assumes "sorted ks" "0 < n" "n \<le> length ks"
  shows "length (filter (\<lambda>x. a < x) ks) < n \<longleftrightarrow> ks ! (length ks - n) \<le> (a :: int)"
proof
  let ?i = "length ks - n"
  assume le: "ks ! ?i \<le> a"
  have "x \<le> a" if x: "x \<in> set (take (Suc ?i) ks)" for x
  proof -
    obtain j where "j < length (take (Suc ?i) ks)" "x = take (Suc ?i) ks ! j"
      using x unfolding in_set_conv_nth by blast
    then have "x = ks ! j" "j \<le> ?i" "j < length ks" by simp_all
    moreover have "?i < length ks" using assms by simp
    ultimately show ?thesis using sorted_nth_mono [OF assms(1), of j ?i] le by simp
  qed
  then have "filter (\<lambda>x. a < x) (take (Suc ?i) ks) = []"
    unfolding filter_empty_conv by (meson not_le)
  moreover have "length (filter (\<lambda>x. a < x) (drop (Suc ?i) ks)) \<le> length (drop (Suc ?i) ks)" by (rule length_filter_le)
  ultimately have "length (filter (\<lambda>x. a < x) (take (Suc ?i) ks @ drop (Suc ?i) ks)) \<le> length ks - Suc ?i"
    unfolding filter_append by simp
  then show "length (filter (\<lambda>x. a < x) ks) < n" using assms by simp
next
  let ?i = "length ks - n"
  assume lt: "length (filter (\<lambda>x. a < x) ks) < n"
  show "ks ! ?i \<le> a"
  proof (rule ccontr)
    assume "\<not> ks ! ?i \<le> a"
    moreover have "ks ! ?i \<le> x" if x: "x \<in> set (drop ?i ks)" for x
    proof -
      obtain j where "x = ks ! (?i + j)" "?i + j < length ks" using x by (auto simp: in_set_conv_nth)
      then show ?thesis using sorted_nth_mono [OF assms(1), of ?i "?i + j"] by simp
    qed
    ultimately have "filter (\<lambda>x. a < x) (drop ?i ks) = drop ?i ks" by (fastforce simp: filter_id_conv)
    then have "length (filter (\<lambda>x. a < x) (take ?i ks @ drop ?i ks)) \<ge> n"
      unfolding filter_append using assms by simp
    with lt show False by simp
  qed
qed

definition clock_ok :: "int \<Rightarrow> bool" where
  "clock_ok now \<longleftrightarrow> 0 \<le> now \<and> now < 2 ^ 62"

definition minutes_ok :: "int \<Rightarrow> bool" where
  "minutes_ok minutes \<longleftrightarrow> 1 \<le> minutes \<and> minutes \<le> max_send_minutes"

lemma in_window_iff:
  assumes "clock_ok now" "minutes_ok minutes"
  shows "in_window now minutes t \<longleftrightarrow> now - minutes * 60000 < t \<and> t \<le> now + 60000"
proof -
  have "int_range (minutes * 60000)" "int_range (now - minutes * 60000)" "int_range (now + 60000)"
    using assms by (auto simp: clock_ok_def minutes_ok_def int_range_def max_send_minutes_def)
  then show ?thesis by (simp add: in_window_def send_clock_skew_def)
qed

definition stored_times :: "bytes option \<Rightarrow> int list" where
  "stored_times raw =
     (case raw of None \<Rightarrow> [] | Some r \<Rightarrow> (case times_of r of None \<Rightarrow> [] | Some ts \<Rightarrow> ts))"

lemma kept_times_stored: "kept_times now minutes raw = sort (filter (in_window now minutes) (stored_times raw))"
  by (simp add: kept_times_def stored_times_def split: option.split)

lemma length_filter_sort: "length (filter P (sort xs)) = length (filter P (xs :: int list))"
proof -
  have "mset (filter P (sort xs)) = mset (filter P xs)" by (simp add: mset_filter)
  then show ?thesis by (metis size_mset)
qed

section \<open>A channel's sends\<close>

text \<open>
  What the plugin's storage and settings are relied on for: a read gives what the last write under
  the key stored, a write succeeds, and the settings say the same limit and minutes throughout.
\<close>

definition storage_ok :: "'s host \<Rightarrow> bytes \<Rightarrow> ('s \<Rightarrow> bytes option) \<Rightarrow> bool" where
  "storage_ok host key store \<longleftrightarrow>
     (\<forall>s. \<exists>s'. kv_get host key s = (Inr (store s), s') \<and> store s' = store s)
     \<and> (\<forall>s v. json_text_ok v \<longrightarrow> (\<exists>r s'. kv_put host key v s = (Inr r, s') \<and> store s' = Some v))"

definition settings_ok :: "'s host \<Rightarrow> ('s \<Rightarrow> bytes option) \<Rightarrow> int \<Rightarrow> int \<Rightarrow> bool" where
  "settings_ok host store limit minutes \<longleftrightarrow>
     (\<forall>s. \<exists>s'. window_settings host s = (Inr (limit, minutes), s') \<and> store s' = store s)"

text \<open>One call of a channel that sends: admitted, it sends and records; the clock of each send.\<close>

fun sends :: "'s host \<Rightarrow> bytes \<Rightarrow> call list \<Rightarrow> 's \<Rightarrow> int list \<times> 's" where
  "sends host key [] s = ([], s)"
| "sends host key (c # cs) s =
     (case admit host key c s of
        (Inl e, s') \<Rightarrow> sends host key cs s'
      | (Inr v, s') \<Rightarrow>
          if sv_ok v
          then (case record_send host key c v s' of
                  (e, s'') \<Rightarrow> (case sends host key cs s'' of
                     (ts, t) \<Rightarrow> (the (host_now_millis c) # ts, t)))
          else sends host key cs s')"

definition clocks :: "call list \<Rightarrow> int list" where
  "clocks cs = map (\<lambda>c. the (host_now_millis c)) cs"

definition bounded_sends :: "int \<Rightarrow> int \<Rightarrow> int list \<Rightarrow> bool" where
  "bounded_sends w limit ts \<longleftrightarrow> (\<forall>t. int (length (filter (\<lambda>x. t - w < x \<and> x \<le> t) ts)) \<le> limit)"

text \<open>The sends still in the window are all among the stored ones.\<close>

definition window_kept :: "int \<Rightarrow> int \<Rightarrow> int list \<Rightarrow> bytes option \<Rightarrow> bool" where
  "window_kept w now ts raw \<longleftrightarrow>
     mset (filter (\<lambda>x. now - w < x) ts) \<subseteq># mset (stored_times raw) \<and> (\<forall>x \<in> set ts. x \<le> now)"

lemma bounded_snoc:
  assumes "bounded_sends w limit ts" "\<forall>x \<in> set ts. x \<le> now"
    "int (length (filter (\<lambda>x. now - w < x) ts)) < limit"
  shows "bounded_sends w limit (ts @ [now])"
  unfolding bounded_sends_def
proof
  fix t
  show "int (length (filter (\<lambda>x. t - w < x \<and> x \<le> t) (ts @ [now]))) \<le> limit"
  proof (cases "t - w < now \<and> now \<le> t")
    case False
    then show ?thesis using assms(1) by (auto simp: bounded_sends_def)
  next
    case True
    have "length (filter (\<lambda>x. t - w < x \<and> x \<le> t) ts) \<le> length (filter (\<lambda>x. now - w < x) ts)"
    proof -
      have "filter (\<lambda>x. t - w < x \<and> x \<le> t) ts = filter (\<lambda>x. t - w < x \<and> x \<le> t) (filter (\<lambda>x. now - w < x) ts)"
        using True unfolding filter_filter by (intro filter_cong refl) auto
      then show ?thesis by (metis length_filter_le)
    qed
    then show ?thesis using True assms(3) by simp
  qed
qed

lemma window_kept_later:
  assumes "window_kept w n ts raw" "n \<le> now"
  shows "window_kept w now ts raw"
proof -
  have "mset (filter (\<lambda>x. now - w < x) ts) \<subseteq># mset (filter (\<lambda>x. n - w < x) ts)"
  proof -
    have "filter (\<lambda>x. now - w < x) ts = filter (\<lambda>x. now - w < x) (filter (\<lambda>x. n - w < x) ts)"
      using assms(2) unfolding filter_filter by (intro filter_cong refl) auto
    then show ?thesis by (metis mset_filter multiset_filter_subset)
  qed
  with assms show ?thesis by (fastforce simp: window_kept_def intro: subset_mset.trans)
qed

lemma window_kept_kept:
  assumes "window_kept (minutes * 60000) now ts raw" "clock_ok now" "minutes_ok minutes"
  shows "mset (filter (\<lambda>x. now - minutes * 60000 < x) ts) \<subseteq># mset (kept_times now minutes raw)"
proof -
  have "filter_mset (in_window now minutes) (mset (filter (\<lambda>x. now - minutes * 60000 < x) ts))
      \<subseteq># filter_mset (in_window now minutes) (mset (stored_times raw))"
    using assms(1) by (intro multiset_filter_mono) (simp add: window_kept_def)
  moreover have "filter (in_window now minutes) (filter (\<lambda>x. now - minutes * 60000 < x) ts)
      = filter (\<lambda>x. now - minutes * 60000 < x) ts"
    using assms(1) unfolding filter_filter
    by (intro filter_cong refl) (auto simp: in_window_iff [OF assms(2,3)] window_kept_def)
  ultimately show ?thesis
    unfolding kept_times_stored mset_sort mset_filter [symmetric] by (simp only:)
qed


lemma stored_text: "list_all int_range ns \<Longrightarrow> stored_times (Some (times_text ns)) = ns"
  by (simp add: stored_times_def times_round_trip)

lemma admitted:
  assumes "host_now_millis c = Some now" "storage_ok host key store" "settings_ok host store limit minutes"
  shows "\<exists>s'. admit host key c s = (Inr (verdict limit minutes (kept_times now minutes (store s))), s')
    \<and> store s' = store s"
proof -
  obtain s1 where s1: "window_settings host s = (Inr (limit, minutes), s1)" "store s1 = store s"
    using assms(3) unfolding settings_ok_def by blast
  obtain s2 where "kv_get host key s1 = (Inr (store s1), s2)" "store s2 = store s1"
    using assms(2) unfolding storage_ok_def by blast
  then show ?thesis using s1 assms(1) by (simp add: admit_def recent_def)
qed

lemma recorded:
  assumes "host_now_millis c = Some now" "storage_ok host key store" "sv_minutes v = minutes"
  shows "\<exists>s'. record_send host key c v s = (None, s')
    \<and> store s' = Some (times_text (add_time (kept_times now minutes (store s)) now))"
proof -
  obtain s1 where s1: "kv_get host key s = (Inr (store s), s1)" "store s1 = store s"
    using assms(2) unfolding storage_ok_def by blast
  obtain r s2 where "kv_put host key (times_text (add_time (kept_times now minutes (store s)) now)) s1 = (Inr r, s2)"
      "store s2 = Some (times_text (add_time (kept_times now minutes (store s)) now))"
    using assms(2) times_text_ok unfolding storage_ok_def by blast
  then show ?thesis using s1 assms(1,3) by (simp add: record_send_def recent_def)
qed

lemma window_settings_bounds:
  "window_settings host s = (Inr (limit, minutes), s') \<Longrightarrow> 1 \<le> limit \<and> limit \<le> max_send_limit \<and> minutes_ok minutes"
  by (auto simp: window_settings_def minutes_ok_def Let_def split: sum.splits prod.splits if_split_asm)

lemma sends_bounded:
  assumes "storage_ok host key store" "settings_ok host store limit minutes"
    and "\<forall>c \<in> set cs. \<exists>now. host_now_millis c = Some now \<and> clock_ok now" "sorted (n # clocks cs)"
    and "window_kept (minutes * 60000) n ts (store s)" "bounded_sends (minutes * 60000) limit ts"
  shows "bounded_sends (minutes * 60000) limit (ts @ fst (sends host key cs s))"
  using assms(3-6)
proof (induction cs arbitrary: n ts s)
  case (Cons c cs)
  obtain now where now: "host_now_millis c = Some now" "clock_ok now" using Cons.prems(1) by auto
  have srt: "n \<le> now" "sorted (now # clocks cs)" using Cons.prems(2) now(1) by (simp_all add: clocks_def)
  have cl: "\<forall>c \<in> set cs. \<exists>now. host_now_millis c = Some now \<and> clock_ok now" using Cons.prems(1) by simp
  obtain sx where "window_settings host s = (Inr (limit, minutes), sx)" using assms(2) unfolding settings_ok_def by blast
  from window_settings_bounds [OF this] have b: "limit \<le> max_send_limit" "minutes_ok minutes" by simp_all
  define ks where "ks = kept_times now minutes (store s)"
  have wk: "window_kept (minutes * 60000) now ts (store s)" using window_kept_later [OF Cons.prems(3) srt(1)] .
  have sub: "mset (filter (\<lambda>x. now - minutes * 60000 < x) ts) \<subseteq># mset ks"
    unfolding ks_def by (rule window_kept_kept [OF wk now(2) b(2)])
  obtain s1 where a: "admit host key c s = (Inr (verdict limit minutes ks), s1)" "store s1 = store s"
    using admitted [OF now(1) assms(1,2)] unfolding ks_def by blast
  show ?case
  proof (cases "sv_ok (verdict limit minutes ks)")
    case False
    then show ?thesis using Cons.IH [OF cl srt(2), of ts s1] wk Cons.prems(4) a by simp
  next
    case True
    then have len: "int (length ks) < limit" by (simp add: verdict_def Let_def)
    have m: "sv_minutes (verdict limit minutes ks) = minutes" by (simp add: verdict_def Let_def)
    obtain s2 where r: "record_send host key c (verdict limit minutes ks) s1 = (None, s2)"
        "store s2 = Some (times_text (add_time ks now))"
      using recorded [OF now(1) assms(1) m, of s1] a(2) unfolding ks_def by auto
    have at: "add_time ks now = ks @ [now]" using len b(1) by (simp add: add_time_def Let_def)
    have rng: "int_range x" if "x \<in> set (ks @ [now])" for x
      using that now(2) b(2)
      by (auto simp: ks_def kept_times_stored in_window_iff clock_ok_def minutes_ok_def max_send_minutes_def int_range_def)
    then have st: "stored_times (store s2) = ks @ [now]" using r(2) at by (simp add: stored_text list_all_iff)
    have upper: "\<forall>x \<in> set ts. x \<le> now" using wk by (simp add: window_kept_def)
    have "mset (filter (\<lambda>x. now - minutes * 60000 < x) (ts @ [now])) \<subseteq># mset (ks @ [now])"
      using sub b(2) by (simp add: minutes_ok_def)
    then have wk': "window_kept (minutes * 60000) now (ts @ [now]) (store s2)"
      using upper st by (auto simp: window_kept_def)
    have "length (filter (\<lambda>x. now - minutes * 60000 < x) ts) \<le> length ks"
      using size_mset_mono [OF sub] unfolding size_mset .
    then have "bounded_sends (minutes * 60000) limit (ts @ [now])"
      using bounded_snoc [OF Cons.prems(4) upper] len by simp
    from Cons.IH [OF cl srt(2) wk' this] show ?thesis using True a r now(1) by (simp add: split_beta)
  qed
qed simp

section \<open>A host that keeps one value\<close>

definition cell_store :: "bytes option \<Rightarrow> bytes option" where
  "cell_store s = (case s of None \<Rightarrow> None | Some v \<Rightarrow> if json_text_ok v then Some v else None)"

definition cell_settings :: bytes where
  "cell_settings = obj_text [(''send_limit'', itoa 2), (''send_window_minutes'', itoa 1)]"

definition cell_host :: "bytes option host" where
  "cell_host s p =
     (if obj_string p ''operation'' = Some ''kv.get''
      then (Inr (case cell_store s of
                   None \<Rightarrow> failure_result ''failed'' ''KV_NOT_FOUND'' []
                 | Some v \<Rightarrow> success_result (obj_text [(''value'', append_json_string v)])), s)
      else if obj_string p ''operation'' = Some ''kv.put''
      then (Inr (success_result (obj_text [])), obj_string (obj_object p ''arguments'') ''value'')
      else (Inr (success_result (obj_text [(''values'', cell_settings)])), s))"

lemma cell_words [simp]:
  "json_text_ok ''kv.get''" "json_text_ok ''kv.put''" "json_text_ok ''settings.get''" "json_text_ok ''sends''"
  "json_text_ok ''failed''" "json_text_ok ''KV_NOT_FOUND''"
  "no_nul ''values''" "utf8_valid ''values''" "no_nul ''send_limit''" "utf8_valid ''send_limit''"
  "no_nul ''send_window_minutes''" "utf8_valid ''send_window_minutes''"
  using printable_ok by (simp_all add: printable_def)

lemma text_map:
  assumes "json_text_ok v" "no_nul k" "utf8_valid k" "d < max_scan_depth"
  shows "vtext d (obj_text [(k, append_json_string v)])" "utf8_valid (obj_text [(k, append_json_string v)])"
    "obj_string (obj_text [(k, append_json_string v)]) k = Some v"
proof -
  have pm: "plain_members (Suc d) [(k, append_json_string v)]" using assms by simp
  show "vtext d (obj_text [(k, append_json_string v)])" "utf8_valid (obj_text [(k, append_json_string v)])"
    using obj_text_grammar [OF pm assms(4)] .
  show "obj_string (obj_text [(k, append_json_string v)]) k = Some v"
    by (simp add: obj_string_def obj_raw_obj_text [OF pm] decode_json_string_opt_def decode_string_text [OF assms(1)])
qed

lemma depths [simp]: "1 < max_scan_depth" "Suc 0 < max_scan_depth" "2 < max_scan_depth" "Suc (Suc 0) < max_scan_depth"
  by (simp_all add: max_scan_depth_def)

lemma cell_get: "\<exists>s'. kv_get cell_host ''sends'' s = (Inr (cell_store s), s') \<and> cell_store s' = cell_store s"
proof -
  define ms where "ms = [(''operation'', append_json_string ''kv.get''),
    (''target'', obj_text [(''key'', append_json_string ''sends'')])]"
  have pm: "plain_members 2 ms" using text_map [of "''sends''" "''key''" 2] by (simp add: ms_def)
  have ps: "invoke_params ''kv.get'' (Some (GMap [(''key'', GString ''sends'')])) None = Inr (obj_text ms)"
    using invoke_params_obj [of "Some (GMap [(''key'', GString ''sends'')])" _ None]
    by (simp add: value_member_def marshal_text_map ms_def)
  have op: "obj_string (obj_text ms) ''operation'' = Some ''kv.get''"
    using obj_raw_obj_text [OF pm, of "''operation''"] decode_string_text [of "''kv.get''"]
    by (simp add: obj_string_def ms_def decode_json_string_opt_def)
  have call: "invoke_call cell_host ''kv.get'' (Some (GMap [(''key'', GString ''sends'')])) None s =
      (decode_host_reply (case cell_store s of
                   None \<Rightarrow> failure_result ''failed'' ''KV_NOT_FOUND'' []
                 | Some v \<Rightarrow> success_result (obj_text [(''value'', append_json_string v)])), s)"
    by (simp add: invoke_call_def ps cell_host_def op)
  show ?thesis
  proof (cases "cell_store s")
    case None
    then show ?thesis
      using decode_failure_result [of "''failed''" "''KV_NOT_FOUND''" "[]"] call
      by (simp add: kv_get_def has_reason_code_def)
  next
    case (Some v)
    then have v: "json_text_ok v" by (auto simp: cell_store_def split: option.splits if_splits)
    show ?thesis
      using text_map [OF v, of "''value''" 1] call Some decode_success_result
      by (simp add: kv_get_def op_result_def)
  qed
qed

lemma cell_put: "json_text_ok v \<Longrightarrow> \<exists>r s'. kv_put cell_host ''sends'' v s = (Inr r, s') \<and> cell_store s' = Some v"
proof -
  assume v: "json_text_ok v"
  define ms where "ms = [(''operation'', append_json_string ''kv.put''),
    (''target'', obj_text [(''key'', append_json_string ''sends'')]),
    (''arguments'', obj_text [(''value'', append_json_string v)])]"
  have pm: "plain_members 2 ms"
    using text_map [of "''sends''" "''key''" 2] text_map [OF v, of "''value''" 2] by (simp add: ms_def)
  have ps: "invoke_params ''kv.put'' (Some (GMap [(''key'', GString ''sends'')])) (Some (GMap [(''value'', GString v)]))
      = Inr (obj_text ms)"
    using invoke_params_obj [of "Some (GMap [(''key'', GString ''sends'')])" _ "Some (GMap [(''value'', GString v)])"]
    by (simp add: value_member_def marshal_text_map ms_def)
  note raw = obj_raw_obj_text [OF pm]
  have op: "obj_string (obj_text ms) ''operation'' = Some ''kv.put''"
    using raw [of "''operation''"] decode_string_text [of "''kv.put''"]
    by (simp add: obj_string_def ms_def decode_json_string_opt_def)
  have "obj_object (obj_text ms) ''arguments'' = obj_text [(''value'', append_json_string v)]"
    using raw [of "''arguments''"] by (simp add: obj_object_def ms_def) (simp add: obj_text_def)
  then have call: "invoke_call cell_host ''kv.put'' (Some (GMap [(''key'', GString ''sends'')]))
      (Some (GMap [(''value'', GString v)])) s = (decode_host_reply (success_result (obj_text [])), Some v)"
    using text_map [OF v, of "''value''" 1] by (simp add: invoke_call_def ps cell_host_def op)
  show ?thesis
    using call decode_success_result [of "obj_text []"] obj_text_grammar [of 1 "[]"] v
    by (simp add: kv_put_def cell_store_def)
qed

lemma cell_window: "\<exists>s'. window_settings cell_host s = (Inr (2, 1), s') \<and> cell_store s' = cell_store s"
proof -
  have ps: "invoke_params ''settings.get'' None None = Inr (obj_text [(''operation'', append_json_string ''settings.get'')])"
    using invoke_params_obj [of None _ None] by (simp add: value_member_def)
  have op: "obj_string (obj_text [(''operation'', append_json_string ''settings.get'')]) ''operation'' = Some ''settings.get''"
    using text_map [of "''settings.get''" "''operation''" 1] by simp
  have pc: "plain_members 3 [(''send_limit'', itoa 2), (''send_window_minutes'', itoa 1)]"
    using vtext_itoa [of 2 3] vtext_itoa [of 1 3] by (simp add: max_safe_def)
  have cs: "vtext 2 cell_settings" "utf8_valid cell_settings" "cell_settings \<noteq> []"
    using obj_text_grammar [of 2 "[(''send_limit'', itoa 2), (''send_window_minutes'', itoa 1)]"] pc
    by (simp_all add: cell_settings_def numeral_3_eq_3)
  have pv: "plain_members 2 [(''values'', cell_settings)]" using cs by simp
  then have vt: "vtext 1 (obj_text [(''values'', cell_settings)])" "utf8_valid (obj_text [(''values'', cell_settings)])"
    using obj_text_grammar [of 1 "[(''values'', cell_settings)]"] by (simp_all add: numeral_2_eq_2)
  have call: "invoke_call cell_host ''settings.get'' None None s =
      (decode_host_reply (success_result (obj_text [(''values'', cell_settings)])), s)"
    by (simp add: invoke_call_def ps cell_host_def op)
  have ob: "obj_object (obj_text [(''values'', cell_settings)]) ''values'' = cell_settings"
    using obj_raw_obj_text [OF pv, of "''values''"]
    by (simp add: obj_object_def) (simp add: cell_settings_def obj_text_def)
  have l: "settings_load cell_host s = (Inr cell_settings, s)"
    using call decode_success_result [OF vt] cs(3) by (simp add: settings_load_def op_result_def ob)
  have vi: "values_int cell_settings ''send_limit'' = Some 2" "values_int cell_settings ''send_window_minutes'' = Some 1"
    using obj_raw_obj_text [OF pc, of "''send_limit''"] obj_raw_obj_text [OF pc, of "''send_window_minutes''"]
      atoi_itoa [of 2] atoi_itoa [of 1] cs(3)
    by (simp_all add: values_int_def obj_int_def cell_settings_def int_range_def)
  show ?thesis using l vi by (simp add: window_settings_def max_send_limit_def max_send_minutes_def)
qed

definition call_at :: "int \<Rightarrow> call" where
  "call_at now = \<lparr>call_operation = ''send'', call_target = None,
     call_arguments = obj_text [(''_host_now_ms'', itoa now)], call_host_work_session = None\<rparr>"

lemma call_at_clock: "0 \<le> now \<Longrightarrow> now \<le> int max_safe \<Longrightarrow> host_now_millis (call_at now) = Some now"
proof -
  assume n: "0 \<le> now" "now \<le> int max_safe"
  have "no_nul ''_host_now_ms''" "utf8_valid ''_host_now_ms''" using printable_ok by (simp_all add: printable_def)
  then have pm: "plain_members 1 [(''_host_now_ms'', itoa now)]" using n vtext_itoa [of now 1] by simp
  have "int_range now" using n by (simp add: max_safe_def int_range_def)
  then show ?thesis using obj_raw_obj_text [OF pm, of "''_host_now_ms''"] atoi_itoa
    by (simp add: host_now_millis_def call_at_def obj_int_def)
qed

section \<open>The properties of the window\<close>

text \<open>C15: the moment a refused send is told to come back at is the first one it can go at: with no
  send in between, a later call is admitted exactly when its clock has reached it.\<close>

theorem the_retry_time_is_the_first_free_moment:
  assumes "clock_ok now" "now \<le> later" "clock_ok later" "minutes_ok minutes" "1 \<le> limit"
    "\<forall>t \<in> set (stored_times raw). t \<le> now + 60000"
    "sv_retry_at (verdict limit minutes (kept_times now minutes raw)) = Some retry"
  shows "sv_ok (verdict limit minutes (kept_times later minutes raw)) \<longleftrightarrow> retry \<le> later"
proof -
  define ks where "ks = kept_times now minutes raw"
  define w where "w = minutes * 60000"
  define i where "i = length ks - nat limit"
  have w: "0 < w" "w \<le> 86400000" using assms(4) by (auto simp: w_def minutes_ok_def max_send_minutes_def)
  have n: "nat limit \<le> length ks" "0 < nat limit" and r: "retry = wrap_int (ks ! i + wrap_int w)"
    using assms(5,7) by (auto simp: verdict_def Let_def ks_def i_def w_def split: if_split_asm)
  have "i < length ks" using n by (simp add: i_def)
  then have "ks ! i \<in> set ks" by simp
  then have k: "now - w < ks ! i" "ks ! i \<le> now + 60000"
    by (auto simp: ks_def kept_times_stored in_window_iff [OF assms(1,4)] w_def)
  have "int_range w" "int_range (ks ! i + w)" using k w assms(1) by (auto simp: clock_ok_def int_range_def)
  then have r': "retry = ks ! i + w" using r by simp
  have f: "filter (in_window later minutes) (stored_times raw)
      = filter (\<lambda>x. later - w < x) (filter (in_window now minutes) (stored_times raw))"
    using assms(2,6) unfolding filter_filter
    by (intro filter_cong refl) (auto simp: in_window_iff [OF assms(1,4)] in_window_iff [OF assms(3,4)] w_def)
  have "length (kept_times later minutes raw) = length (filter (\<lambda>x. later - w < x) ks)"
    unfolding ks_def kept_times_stored f length_filter_sort by simp
  moreover have "length (filter (\<lambda>x. later - w < x) ks) < nat limit \<longleftrightarrow> ks ! i \<le> later - w"
    using count_above [of ks "nat limit" "later - w"] n by (simp add: ks_def kept_times_stored i_def)
  ultimately show ?thesis using r' assms(5) by (auto simp: verdict_def Let_def)
qed

text \<open>C14: over storage that keeps what it is given and settings that stay as they are, a channel whose
  clock does not run backwards never sends more than the limit in any window of the configured
  minutes, whatever was stored before its first send.\<close>

theorem no_window_holds_more_than_the_limit:
  assumes "storage_ok host key store" "settings_ok host store limit minutes"
    "\<forall>c \<in> set cs. \<exists>now. host_now_millis c = Some now \<and> clock_ok now" "sorted (clocks cs)"
  shows "\<forall>t. int (length (filter (\<lambda>x. t - minutes * 60000 < x \<and> x \<le> t) (fst (sends host key cs s)))) \<le> limit"
proof -
  obtain sx where "window_settings host s = (Inr (limit, minutes), sx)" using assms(2) unfolding settings_ok_def by blast
  from window_settings_bounds [OF this] have b: "bounded_sends (minutes * 60000) limit []"
    by (simp add: bounded_sends_def)
  define n where "n = (if cs = [] then 0 else hd (clocks cs))"
  have "sorted (n # clocks cs)" using assms(4) by (cases cs) (auto simp: n_def clocks_def)
  from sends_bounded [OF assms(1-3) this, of "[]" s] b
  show ?thesis by (simp add: window_kept_def bounded_sends_def)
qed


theorem the_retry_time_is_the_first_free_moment_witness:
  "sv_ok (verdict 1 1 (kept_times 70000 1 (Some (times_text [10000]))))"
proof -
  have t: "times_of (times_text [10000]) = Some [10000]" by (rule times_round_trip) (simp add: int_range_def)
  have r: "sv_retry_at (verdict 1 1 (kept_times 60000 1 (Some (times_text [10000])))) = Some 70000"
    using t by (simp add: kept_times_def in_window_def send_clock_skew_def int_range_def verdict_def)
  have "\<forall>t \<in> set (stored_times (Some (times_text [10000]))). t \<le> 60000 + 60000"
    using t by (simp add: stored_times_def)
  from the_retry_time_is_the_first_free_moment [OF _ _ _ _ _ this r, of 70000] show ?thesis
    by (simp add: clock_ok_def minutes_ok_def max_send_minutes_def)
qed

theorem no_window_holds_more_than_the_limit_witness:
  "int (length (filter (\<lambda>x. 90000 - 1 * 60000 < x \<and> x \<le> 90000)
     (fst (sends cell_host ''sends'' (map call_at [50000, 60000, 70000, 90000]) None)))) \<le> 2"
proof -
  have "storage_ok cell_host ''sends'' cell_store" using cell_get cell_put by (simp add: storage_ok_def)
  moreover have "settings_ok cell_host cell_store 2 1" using cell_window by (simp add: settings_ok_def)
  moreover have n: "host_now_millis (call_at t) = Some t" if "t \<in> {50000, 60000, 70000, 90000}" for t
    using call_at_clock [of t] that by (auto simp: max_safe_def)
  then have "\<forall>c \<in> set (map call_at [50000, 60000, 70000, 90000]). \<exists>now. host_now_millis c = Some now \<and> clock_ok now"
    by (simp add: clock_ok_def)
  moreover have "sorted (clocks (map call_at [50000, 60000, 70000, 90000]))" using n by (simp add: clocks_def)
  ultimately show ?thesis
    using no_window_holds_more_than_the_limit [of cell_host "''sends''" cell_store 2 1
        "map call_at [50000, 60000, 70000, 90000]" None] by blast
qed

end
