(* ===== verification/CanonForm.thy ===== *)
theory CanonForm
  imports CanonJson Complex_Main
begin

text \<open>
  What \<open>CanonicalizeV1\<close> promises: its output is a text of the value it read, it is the same for
  every text of that value, different values have different outputs, and it is a fixed point.
\<close>

section \<open>Strings\<close>

lemma cont_form: "cont c \<longleftrightarrow> (\<exists>q < 64. c = byte_of (128 + q))"
proof
  assume "cont c"
  then have "c = byte_of (128 + (byte_val c - 128))" "byte_val c - 128 < 64" by (auto simp: cont_def)
  then show "\<exists>q < 64. c = byte_of (128 + q)" by blast
qed (auto simp: cont_def)

lemma base64: "(q :: nat) < 64 \<Longrightarrow> (n * 64 + q) div 64 = n" "q < 64 \<Longrightarrow> (n * 64 + q) mod 64 = q"
  by simp_all

lemma encode_digits:
  "2 \<le> a \<Longrightarrow> a < 32 \<Longrightarrow> p < 64 \<Longrightarrow> encode_rune (a * 64 + p) = [byte_of (192 + a), byte_of (128 + p)]"
  "a < 16 \<Longrightarrow> p < 64 \<Longrightarrow> q < 64 \<Longrightarrow> (a = 0 \<Longrightarrow> 32 \<le> p) \<Longrightarrow> (a = 13 \<Longrightarrow> p < 32) \<Longrightarrow>
     encode_rune (a * 4096 + p * 64 + q) = [byte_of (224 + a), byte_of (128 + p), byte_of (128 + q)]"
  "a \<le> 4 \<Longrightarrow> p < 64 \<Longrightarrow> q < 64 \<Longrightarrow> r < 64 \<Longrightarrow> (a = 0 \<Longrightarrow> 16 \<le> p) \<Longrightarrow> (a = 4 \<Longrightarrow> p < 16) \<Longrightarrow>
     encode_rune (a * 262144 + p * 4096 + q * 64 + r)
       = [byte_of (240 + a), byte_of (128 + p), byte_of (128 + q), byte_of (128 + r)]"
proof -
  assume a: "2 \<le> a" "a < 32" "p < 64"
  then have "(a * 64 + p) div 64 = a" "(a * 64 + p) mod 64 = p" "128 \<le> a * 64 + p" "a * 64 + p < 2048" by auto
  then show "encode_rune (a * 64 + p) = [byte_of (192 + a), byte_of (128 + p)]" by (simp add: encode_rune_def)
next
  assume a: "a < 16" "p < 64" "q < 64" "a = 0 \<Longrightarrow> 32 \<le> p" "a = 13 \<Longrightarrow> p < 32"
  let ?r = "a * 4096 + p * 64 + q"
  have e: "?r = (a * 64 + p) * 64 + q" by simp
  have "?r div 64 = a * 64 + p" "?r mod 64 = q" unfolding e by (rule base64 [OF a(3)])+
  moreover from this have "?r div 64 div 64 = a" "?r div 64 mod 64 = p" using a(2) by simp_all
  moreover from this have "?r div 4096 = a" by (simp flip: div_mult2_eq)
  moreover have "2048 \<le> ?r" using a(4) by (cases "a = 0") auto
  moreover have "?r < 65536" using a by auto
  moreover have "scalar ?r"
  proof -
    consider "a < 13" | "a = 13" | "13 < a" by linarith
    then show ?thesis using a by cases (auto simp: scalar_def)
  qed
  ultimately show "encode_rune ?r = [byte_of (224 + a), byte_of (128 + p), byte_of (128 + q)]"
    by (simp add: encode_rune_def)
next
  assume a: "a \<le> 4" "p < 64" "q < 64" "r < 64" "a = 0 \<Longrightarrow> 16 \<le> p" "a = 4 \<Longrightarrow> p < 16"
  let ?r = "a * 262144 + p * 4096 + q * 64 + r"
  have e: "?r = ((a * 64 + p) * 64 + q) * 64 + r" by simp
  have d1: "?r div 64 = (a * 64 + p) * 64 + q" "?r mod 64 = r" unfolding e by (rule base64 [OF a(4)])+
  have d2: "?r div 64 div 64 = a * 64 + p" "?r div 64 mod 64 = q" unfolding d1 by (rule base64 [OF a(3)])+
  have d3: "?r div 64 div 64 div 64 = a" "?r div 64 div 64 mod 64 = p" unfolding d2 by (rule base64 [OF a(2)])+
  have "?r div 4096 mod 64 = p" "?r div 262144 = a" using d3 by (simp_all flip: div_mult2_eq)
  moreover note d1(2) d2(2)
  moreover have "65536 \<le> ?r" using a(5) by (cases "a = 0") auto
  moreover have "?r \<le> 1114111" using a by (cases "a = 4") auto
  ultimately show "encode_rune ?r = [byte_of (240 + a), byte_of (128 + p), byte_of (128 + q), byte_of (128 + r)]"
    by (simp add: encode_rune_def scalar_def)
qed

lemma decode_rune_exact: "decode_rune s = Some (r, t) \<Longrightarrow> s = encode_rune r @ t"
proof -
  assume d: "decode_rune s = Some (r, t)"
  then obtain c0 s1 where s: "s = c0 # s1" by (cases s) auto
  let ?b = "byte_val c0"
  have b: "c0 = byte_of (n + (?b - n))" if "n \<le> ?b" for n using that by simp
  consider "?b < 128" | "194 \<le> ?b" "?b \<le> 223" | "224 \<le> ?b" "?b \<le> 239" | "240 \<le> ?b" "?b \<le> 244"
    using d s by (fastforce simp: decode_rune_def split: if_splits)
  then show ?thesis
  proof cases
    case 1
    with d s have "r = ?b" "s1 = t" by (simp_all add: decode_rune_def)
    with 1 s show ?thesis by (simp add: encode_rune_def)
  next
    case 2
    with d s obtain c1 where c: "s1 = c1 # t" "cont c1" "r = (?b - 192) * 64 + cont_bits c1"
      by (auto simp: decode_rune_def Let_def split: list.splits if_splits)
    from c(2) obtain p where "p < 64" "c1 = byte_of (128 + p)" unfolding cont_form by blast
    with 2 c s show ?thesis
      using encode_digits(1) [of "?b - 192" p] b [of 192] by (simp add: cont_bits_def)
  next
    case 3
    with d s obtain c1 c2 where c: "s1 = c1 # c2 # t" "cont c1" "cont c2"
      "r = (?b - 224) * 4096 + cont_bits c1 * 64 + cont_bits c2"
      "?b = 224 \<longrightarrow> 160 \<le> byte_val c1" "?b = 237 \<longrightarrow> byte_val c1 \<le> 159"
      by (auto simp: decode_rune_def Let_def split: list.splits if_splits)
    from c(2,3) obtain p q where pq: "p < 64" "c1 = byte_of (128 + p)" "q < 64" "c2 = byte_of (128 + q)"
      unfolding cont_form by blast
    have "?b - 224 = 0 \<Longrightarrow> 32 \<le> p" "?b - 224 = 13 \<Longrightarrow> p < 32" using c(5,6) pq 3 by auto
    with 3 c(1,4) pq s show ?thesis
      using encode_digits(2) [of "?b - 224" p q] b [of 224] by (simp add: cont_bits_def)
  next
    case 4
    with d s obtain c1 c2 c3 where c: "s1 = c1 # c2 # c3 # t" "cont c1" "cont c2" "cont c3"
      "r = (?b - 240) * 262144 + cont_bits c1 * 4096 + cont_bits c2 * 64 + cont_bits c3"
      "?b = 240 \<longrightarrow> 144 \<le> byte_val c1" "?b = 244 \<longrightarrow> byte_val c1 \<le> 143"
      by (auto simp: decode_rune_def Let_def split: list.splits if_splits)
    from c(2-4) obtain p q k where pq: "p < 64" "c1 = byte_of (128 + p)" "q < 64" "c2 = byte_of (128 + q)"
      "k < 64" "c3 = byte_of (128 + k)" unfolding cont_form by blast
    have "?b - 240 = 0 \<Longrightarrow> 16 \<le> p" "?b - 240 = 4 \<Longrightarrow> p < 16" using c(6,7) pq 4 by auto
    with 4 c(1,5) pq s show ?thesis
      using encode_digits(3) [of "?b - 240" p q k] b [of 240] by (simp add: cont_bits_def)
  qed
qed

definition canon_byte :: "char \<Rightarrow> bytes" where
  "canon_byte c = (if ascii c then emit_rune (byte_val c) else [c])"

lemma emit_rune_ascii: "ascii c \<Longrightarrow> emit_rune (byte_val c) = canon_byte c"
  by (simp add: canon_byte_def)

lemma emit_runes_bytes: "utf8_valid s \<Longrightarrow> emit_runes s = concat (map canon_byte s)"
proof (induction s rule: emit_runes.induct)
  case (1 s)
  show ?case
  proof (cases s)
    case Nil
    then show ?thesis by (simp add: emit_runes.simps)
  next
    case (Cons c t)
    with "1.prems" obtain r u where d: "decode_rune s = Some (r, u)" and u: "utf8_valid u"
      by (auto simp: utf8_valid_Cons split: option.splits)
    have ih: "emit_runes u = concat (map canon_byte u)" using "1.IH" Cons d u by blast
    show ?thesis
    proof (cases "ascii c")
      case True
      with d Cons have "r = byte_val c" "u = t" by (simp_all add: decode_rune_ascii)
      with Cons d ih True show ?thesis by (simp add: emit_runes.simps [of "c # t"] emit_rune_ascii)
    next
      case False
      then obtain p where p: "s = p @ u" "list_all (\<lambda>c. \<not> ascii c) p"
        using decode_rune_split [OF d Cons] by blast
      have "r \<ge> 128"
      proof (rule ccontr)
        assume "\<not> 128 \<le> r"
        with decode_rune_exact [OF d] Cons have "c = byte_of r" "r < 128" by (simp_all add: encode_rune_def)
        with False show False by (simp add: ascii_def)
      qed
      then have "emit_rune r = encode_rune r" by (simp add: emit_rune_def)
      moreover have "encode_rune r = p" using decode_rune_exact [OF d] p(1) by simp
      moreover have "concat (map canon_byte p) = p" using p(2) by (induction p) (simp_all add: canon_byte_def)
      ultimately have "emit_runes s = concat (map canon_byte p) @ concat (map canon_byte u)"
        using Cons d ih by (simp add: emit_runes.simps [of "c # t"])
      then show ?thesis using p(1) by simp
    qed
  qed
qed

lemma canon_byte_ascii: "ascii c \<Longrightarrow> list_all ascii (canon_byte c)"
proof -
  assume a: "ascii c"
  have h: "ascii (hex_digit n)" if "n < 16" for n
  proof -
    have "\<forall>k \<in> set [0..<16]. ascii (hex_digit k)" by code_simp
    with that show ?thesis by simp
  qed
  have "list_all ascii (emit_rune (byte_val c))"
    using a h [of "byte_val c div 16"] h [of "byte_val c mod 16"]
    by (auto simp: emit_rune_def encode_rune_def) (simp_all add: ascii_def)
  with a show ?thesis by (simp add: canon_byte_def)
qed

lemma canon_byte_utf8: "utf8_valid s \<Longrightarrow> utf8_valid (concat (map canon_byte s))"
  using utf8_valid_concat_map [of canon_byte s, OF canon_byte_ascii] by (simp add: canon_byte_def)

lemma canon_byte_control:
  "c < CHR 0x20 \<Longrightarrow> canon_byte c =
     (case byte_val c of n \<Rightarrow> if n = 8 then [CHR 0x5C, CHR ''b''] else if n = 12 then [CHR 0x5C, CHR ''f'']
       else if n = 10 then [CHR 0x5C, CHR ''n''] else if n = 13 then [CHR 0x5C, CHR ''r'']
       else if n = 9 then [CHR 0x5C, CHR ''t'']
       else [CHR 0x5C, CHR ''u'', CHR ''0'', CHR ''0'', hex_digit (n div 16), hex_digit (n mod 16)])"
  by (simp add: canon_byte_def control_ascii emit_rune_def byte_less_iff)

lemma parse_u16_control:
  assumes "c < CHR 0x20"
  shows "parse_u16 (CHR ''0'' # CHR ''0'' # hex_digit (byte_val c div 16) # hex_digit (byte_val c mod 16) # t)
    = Some (byte_val c)"
  using hex4_control [OF assms] by (simp add: parse_u16_def hex4_def)

lemma go_string_canon: "go_string (concat (map canon_byte s) @ CHR 0x22 # t) = Some (s, t)"
proof (induction s)
  case Nil
  then show ?case by (simp add: go_string.simps)
next
  case (Cons c s)
  have u: "go_string (CHR 0x5C # x) =
      (case go_escape x of None \<Rightarrow> None
       | Some (out, u) \<Rightarrow> (case go_string u of None \<Rightarrow> None | Some (k, v) \<Rightarrow> Some (out @ k, v)))" for x
    by (subst go_string.simps) simp
  show ?case
  proof (cases "c < CHR 0x20")
    case True
    note v = byte_val_inject [of "CHR 0x08" c] byte_val_inject [of "CHR 0x09" c] byte_val_inject [of "CHR 0x0A" c]
      byte_val_inject [of "CHR 0x0C" c] byte_val_inject [of "CHR 0x0D" c]
    have "\<not> is_surrogate (byte_val c)" "encode_rune (byte_val c) = [c]"
      using True by (simp_all add: is_surrogate_def encode_rune_def byte_less_iff)
    then show ?thesis
      using Cons parse_u16_control [OF True] True v by (auto simp: canon_byte_control u go_escape_def)
  next
    case False
    show ?thesis
    proof (cases "c = CHR 0x22 \<or> c = CHR 0x5C")
      case True
      with Cons show ?thesis by (auto simp: canon_byte_def emit_rune_def ascii_def u go_escape_def)
    next
      case False
      have "byte_val c \<noteq> 34" "byte_val c \<noteq> 92"
        using False byte_val_inject [of c "CHR 0x22"] byte_val_inject [of c "CHR 0x5C"] by auto
      with \<open>\<not> c < CHR 0x20\<close> have "canon_byte c = [c]"
        by (simp add: canon_byte_def emit_rune_def encode_rune_def byte_less_iff ascii_def)
      with False \<open>\<not> c < CHR 0x20\<close> Cons show ?thesis by (subst go_string.simps) simp
    qed
  qed
qed

lemma escapes_canon:
  "unicode_escapes True False (concat (map canon_byte s) @ CHR 0x22 # t) = unicode_escapes False False t"
proof (induction s)
  case Nil
  then show ?case by (simp add: unicode_escapes.simps)
next
  case (Cons c s)
  have p: "unicode_escapes True False (d # x) = unicode_escapes (d \<noteq> CHR 0x22) (d = CHR 0x5C) x" for d x
    by (subst unicode_escapes.simps) simp
  have e: "d \<noteq> CHR ''u'' \<Longrightarrow> unicode_escapes True True (d # x) = unicode_escapes True False x" for d x
    by (subst unicode_escapes.simps) simp
  have h: "\<lbrakk>parse_u16 x = Some n; n < 32\<rbrakk> \<Longrightarrow>
    unicode_escapes True True (CHR ''u'' # x) = unicode_escapes True False (drop 4 x)" for n x
    by (subst unicode_escapes.simps) simp
  show ?case
  proof (cases "c < CHR 0x20")
    case True
    then have "byte_val c < 32" by (simp add: byte_less_iff)
    with Cons True show ?thesis
      by (auto simp: canon_byte_control p e h [OF parse_u16_control [OF True]])
  next
    case False
    show ?thesis
    proof (cases "c = CHR 0x22 \<or> c = CHR 0x5C")
      case True
      with Cons show ?thesis by (auto simp: canon_byte_def emit_rune_def ascii_def p e)
    next
      case q: False
      have "byte_val c \<noteq> 34" "byte_val c \<noteq> 92"
        using q byte_val_inject [of c "CHR 0x22"] byte_val_inject [of c "CHR 0x5C"] by auto
      with False have "canon_byte c = [c]"
        by (simp add: canon_byte_def emit_rune_def encode_rune_def byte_less_iff ascii_def)
      with q Cons show ?thesis by (simp add: p)
    qed
  qed
qed

section \<open>Numbers\<close>

definition canon_frac :: "bytes \<Rightarrow> bool" where
  "canon_frac f \<longleftrightarrow> f = [] \<or>
     (\<exists>ds. f = CHR ''.'' # ds \<and> ds \<noteq> [] \<and> list_all is_digit ds \<and> last ds \<noteq> CHR ''0'')"

lemma canonical_frac_shape:
  "canonical_frac i neg f \<Longrightarrow> canon_frac f \<and> \<not> (neg \<and> i = ''0'' \<and> f = [])"
proof -
  assume c: "canonical_frac i neg f"
  show ?thesis
  proof (cases f)
    case Nil
    with c show ?thesis by (simp add: canonical_frac_def canon_frac_def)
  next
    case (Cons d u)
    with c have u: "d = CHR ''.''" "takeWhile is_digit u \<noteq> []" "last (takeWhile is_digit u) \<noteq> CHR ''0''"
      "dropWhile is_digit u = []"
      by (auto simp: canonical_frac_def Let_def split: if_splits)
    then have t: "takeWhile is_digit u = u" using takeWhile_dropWhile_id [of is_digit u] by simp
    then have "list_all is_digit u" by (metis list_all_iff set_takeWhileD)
    with t u(1-3) Cons show ?thesis by (simp only: canon_frac_def) auto
  qed
qed

lemma canonical_number_shape:
  assumes "canonical_number_ok n"
  obtains sg i f where "n = sg @ i @ f" "sg = [] \<or> sg = ''-''" "int_text i" "canon_frac f"
    "\<not> (sg = ''-'' \<and> i = ''0'' \<and> f = [])"
proof -
  define neg where "neg = (hd n = CHR ''-'')"
  define sg where "sg = (if neg then ''-'' else [])"
  define u where "u = (if neg then tl n else n)"
  have n: "n \<noteq> []" and u: "u \<noteq> []" using assms unfolding canonical_number_ok_def neg_def u_def
    by (auto simp: Let_def split: if_splits)
  have nu: "n = sg @ u" using n by (cases n) (auto simp: sg_def u_def neg_def)
  show thesis
  proof (cases "hd u = CHR ''0''")
    case True
    with assms have "canonical_frac ''0'' neg (tl u)"
      unfolding canonical_number_ok_def neg_def u_def by (auto simp: Let_def split: if_splits)
    with True nu u show thesis
      using canonical_frac_shape [of "''0''" neg "tl u"] that [of sg "''0''" "tl u"]
      by (cases u) (auto simp: sg_def int_text_def split: if_splits)
  next
    case False
    with assms have d: "CHR ''1'' \<le> hd u" "hd u \<le> CHR ''9''"
      and f: "canonical_frac (takeWhile is_digit u) neg (dropWhile is_digit u)"
      unfolding canonical_number_ok_def neg_def u_def by (auto simp: Let_def split: if_splits)
    obtain x y where xy: "u = x # y" using u by (cases u) auto
    have "int_text (takeWhile is_digit u)"
      using one_nine_digit [OF d] set_takeWhileD [of _ is_digit y] xy
      by (auto simp: int_text_def list_all_iff)
    with canonical_frac_shape [OF f] nu show thesis
      using that [of sg "takeWhile is_digit u" "dropWhile is_digit u"]
      by (auto simp: sg_def split: if_splits)
  qed
qed

lemma canon_frac_text: "canon_frac f \<Longrightarrow> frac_text f"
  by (auto simp: canon_frac_def frac_text_def)

lemma canonical_number_text: "canonical_number_ok n \<Longrightarrow> number_text n"
proof (erule canonical_number_shape)
  fix sg i f
  assume "n = sg @ i @ f" "sg = [] \<or> sg = ''-''" "int_text i" "canon_frac f"
  then show "number_text n"
    unfolding number_text_def
    by (intro exI [of _ sg] exI [of _ i] exI [of _ f] exI [of _ "[]"]) (simp add: canon_frac_text exp_text_def)
qed

lemma go_int_of_scan_int: "scan_int s = Some t \<Longrightarrow> go_int s = Some t"
  using one_nine_digit [of "hd s"] by (cases s) (auto simp: scan_int_def go_int_def split: if_splits)

lemma go_number_of_number_end: "number_end s = Some t \<Longrightarrow> go_number s = Some t"
proof -
  assume n: "number_end s = Some t"
  define u where "u = (if s \<noteq> [] \<and> hd s = CHR ''-'' then tl s else s)"
  from n obtain s1 where "scan_int u = Some s1"
    by (auto simp: number_end_def u_def [symmetric] split: option.splits)
  with n show ?thesis
    by (simp add: number_end_def go_number_def u_def [symmetric] go_int_of_scan_int)
qed

lemma go_number_complete: "canonical_number_ok n \<Longrightarrow> stop t \<Longrightarrow> go_number (n @ t) = Some t"
  by (intro go_number_of_number_end number_end_complete canonical_number_text)

section \<open>Values\<close>

primrec json_all :: "(bytes \<Rightarrow> bool) \<Rightarrow> ('n \<Rightarrow> bool) \<Rightarrow> 'n json \<Rightarrow> bool" where
  "json_all S N (JObj m) = fmpred (\<lambda>k ok. utf8_valid k \<and> ok) (fmmap (json_all S N) m)"
| "json_all S N (JArr vs) = list_all id (map (json_all S N) vs)"
| "json_all S N (JStr s) = S s"
| "json_all S N (JNum n) = N n"
| "json_all S N (JBool b) = True"
| "json_all S N JNull = True"

lemma json_all_obj: "json_all S N (JObj m) \<longleftrightarrow> (\<forall>k v. fmlookup m k = Some v \<longrightarrow> utf8_valid k \<and> json_all S N v)"
  by (auto simp: fmpred_iff)

lemma json_all_arr: "json_all S N (JArr vs) \<longleftrightarrow> (\<forall>v \<in> set vs. json_all S N v)"
  by (auto simp: list_all_iff)

lemmas json_all_simps = json_all_obj json_all_arr json_all.simps(3-6)

declare json_all.simps [simp del] json_all_simps [simp]

abbreviation good_value :: "canon_value \<Rightarrow> bool" where
  "good_value \<equiv> json_all (\<lambda>s. utf8_valid s \<and> CHR 0x00 \<notin> set s) canonical_number_ok"

abbreviation "parse_value \<equiv> json_value canon_number canon_string"
abbreviation "parse_members \<equiv> json_members canon_number canon_string"
abbreviation "parse_elems \<equiv> json_elems canon_number canon_string"

text \<open>
  \<open>emit_value\<close> with any way \<open>w\<close> of writing a string. A way of writing is a \<open>json_writer\<close> if Go reads the
  string back and the text passes the checks of \<open>CanonicalizeV1\<close>; then values are read back too. The
  writer of canonical text is one instance, what \<open>encoding/json\<close> makes of canonical text another.
\<close>

primrec emit_with :: "(bytes \<Rightarrow> bytes) \<Rightarrow> canon_value \<Rightarrow> bytes" where
  "emit_with w (JObj m) =
     CHR ''{'' # join_with '',''
       (map (\<lambda>key. w key @ CHR '':'' # the (fmlookup (fmmap (emit_with w) m) key)) (sorted_list_of_fset (fmdom m)))
     @ ''}''"
| "emit_with w (JArr vs) = CHR ''['' # join_with '','' (map (emit_with w) vs) @ '']''"
| "emit_with w (JStr s) = w s"
| "emit_with w (JNum n) = n"
| "emit_with w (JBool b) = (if b then ''true'' else ''false'')"
| "emit_with w JNull = ''null''"

definition member_text :: "(bytes \<Rightarrow> bytes) \<Rightarrow> (bytes, canon_value) fmap \<Rightarrow> bytes \<Rightarrow> bytes" where
  "member_text w m key = w key @ CHR '':'' # emit_with w (the (fmlookup m key))"

lemma emit_obj:
  "emit_with w (JObj m) = CHR ''{'' # join_with '','' (map (member_text w m) (sorted_list_of_fset (fmdom m))) @ ''}''"
proof -
  have "map (\<lambda>key. w key @ CHR '':'' # the (fmlookup (fmmap (emit_with w) m) key)) (sorted_list_of_fset (fmdom m))
      = map (member_text w m) (sorted_list_of_fset (fmdom m))"
    by (rule map_cong [OF refl]) (auto simp: member_text_def fmlookup_dom_iff)
  then show ?thesis unfolding emit_with.simps(1) by (simp only:)
qed

declare emit_with.simps(1) [simp del]

lemma emit_value_with: "emit_value v = emit_with emit_string v"
proof (induction v)
  case (JObj m)
  have "map (\<lambda>key. emit_string key @ CHR '':'' # the (fmlookup (fmmap emit_value m) key)) (sorted_list_of_fset (fmdom m))
      = map (member_text emit_string m) (sorted_list_of_fset (fmdom m))"
    by (rule map_cong [OF refl]) (use JObj [OF fmran'I] in \<open>auto simp: member_text_def fmlookup_dom_iff\<close>)
  then show ?case unfolding emit_obj emit_value.simps(1) emit_members_def by (simp only: fmdom_map append.simps)
next
  case (JArr vs)
  then have "map emit_value vs = map (emit_with emit_string) vs" by simp
  then show ?case by (simp only: emit_value.simps emit_with.simps)
qed simp_all

lemma ws_nonspace [simp]: "\<not> is_ws c \<Longrightarrow> ws (c # t) = c # t"
  by (simp add: ws_def)

lemma emit_string_canon: "utf8_valid s \<Longrightarrow> emit_string s = CHR 0x22 # concat (map canon_byte s) @ [CHR 0x22]"
  by (simp add: emit_string_def emit_runes_bytes)

lemma go_string_emit: "utf8_valid s \<Longrightarrow> \<exists>u. emit_string s @ t = CHR 0x22 # u \<and> go_string u = Some (s, t)"
  using go_string_canon [of s t] by (simp add: emit_string_canon)

definition closes :: "bytes \<Rightarrow> bool" where
  "closes t \<longleftrightarrow> t = [] \<or> hd t = CHR '','' \<or> hd t = CHR '']'' \<or> hd t = CHR ''}''"

lemma closes_stop: "closes t \<Longrightarrow> stop t"
  by (auto simp: closes_def stop_def)

lemma join_comma: "join_with '','' (x # xs) = x @ concat (map (\<lambda>y. CHR '','' # y) xs)"
  by (induction xs arbitrary: x) simp_all

definition reads :: "(bytes \<Rightarrow> bytes) \<Rightarrow> canon_value \<Rightarrow> bool" where
  "reads w v \<longleftrightarrow> (\<forall>t. closes t \<longrightarrow> parse_value (emit_with w v @ t) = Inr (v, t))"

lemma readsD: "reads w v \<Longrightarrow> closes t \<Longrightarrow> parse_value (emit_with w v @ t) = Inr (v, t)"
  by (simp add: reads_def)

lemma closes_more: "closes (concat (map (\<lambda>y. CHR '','' # f y) xs) @ CHR ''}'' # t)"
  "closes (concat (map (\<lambda>y. CHR '','' # f y) xs) @ CHR '']'' # t)"
  by (cases xs; simp add: closes_def)+

lemma not_ws_marks [simp]: "\<not> is_ws (CHR '','')" "\<not> is_ws (CHR ''}'')" "\<not> is_ws (CHR '']'')" "\<not> is_ws (CHR 0x22)"
  "\<not> is_ws (CHR '':'')" "\<not> is_ws (CHR ''{'')" "\<not> is_ws (CHR ''['')"
  by (simp_all add: is_ws_def)

lemma fold_lookup:
  "fmlookup (fold (\<lambda>k. fmupd k (the (fmlookup m k))) ks acc) x
     = (if x \<in> set ks then Some (the (fmlookup m x)) else fmlookup acc x)"
  by (induction ks arbitrary: acc) auto

lemma fold_rebuilds: "fold (\<lambda>k. fmupd k (the (fmlookup m k))) (sorted_list_of_fset (fmdom m)) fmempty = m"
  by (rule fmap_ext) (auto simp: fold_lookup fmlookup_dom_iff)

section \<open>The written text passes the checks\<close>

definition quiet :: "bytes \<Rightarrow> bool" where
  "quiet x \<longleftrightarrow> (\<forall>t. unicode_escapes False False (x @ t) = unicode_escapes False False t)"

lemma quiet_Nil [simp]: "quiet []"
  by (simp add: quiet_def)

lemma quiet_Cons: "c \<noteq> CHR 0x22 \<Longrightarrow> quiet (c # x) \<longleftrightarrow> quiet x"
  unfolding quiet_def by (subst unicode_escapes.simps) simp

lemma quiet_append: "quiet x \<Longrightarrow> quiet y \<Longrightarrow> quiet (x @ y)"
  by (simp add: quiet_def)

lemma quiet_plain: "CHR 0x22 \<notin> set x \<Longrightarrow> quiet x"
  by (induction x) (auto simp: quiet_Cons)

lemma quiet_string: "utf8_valid s \<Longrightarrow> quiet (emit_string s)"
  using escapes_canon [of s] unfolding quiet_def
  by (subst unicode_escapes.simps) (simp add: emit_string_canon)

definition passes :: "bytes \<Rightarrow> bool" where
  "passes x \<longleftrightarrow> quiet x \<and> utf8_valid x"

lemma passes_append: "passes x \<Longrightarrow> passes y \<Longrightarrow> passes (x @ y)"
  by (simp add: passes_def quiet_append utf8_valid_append)

lemma passes_ascii: "list_all ascii x \<Longrightarrow> CHR 0x22 \<notin> set x \<Longrightarrow> passes x"
  by (simp add: passes_def quiet_plain utf8_valid_all_ascii)

lemma passes_mark: "c \<noteq> CHR 0x22 \<Longrightarrow> ascii c \<Longrightarrow> passes (c # x) \<longleftrightarrow> passes x"
  by (simp add: passes_def quiet_Cons)

lemma passes_string: "utf8_valid s \<Longrightarrow> passes (emit_string s)"
  using canon_byte_utf8 [of s]
  by (simp add: passes_def quiet_string) (simp add: emit_string_canon utf8_valid_append ascii_def)

lemma passes_join: "\<forall>x \<in> set xs. passes x \<Longrightarrow> passes (join_with '','' xs)"
proof (induction xs)
  case (Cons x xs)
  have "passes (concat (map (\<lambda>y. CHR '','' # y) ys))" if "\<forall>y \<in> set ys. passes y" for ys
    using that by (induction ys) (simp_all add: passes_append passes_mark ascii_def passes_ascii)
  with Cons.prems show ?case by (simp add: join_comma passes_append)
qed (simp add: passes_ascii)

lemma marks_ascii: "ascii (CHR ''{'')" "ascii (CHR ''}'')" "ascii (CHR ''['')" "ascii (CHR '']'')" "ascii (CHR '':'')"
  by (simp_all add: ascii_def)

section \<open>Values are read back\<close>

locale json_writer =
  fixes w :: "bytes \<Rightarrow> bytes"
  assumes w_reads: "utf8_valid s \<Longrightarrow> \<exists>u. w s @ t = CHR 0x22 # u \<and> go_string u = Some (s, t)"
    and w_passes: "utf8_valid s \<Longrightarrow> passes (w s)"
begin

lemma w_hd:
  "good_value v \<Longrightarrow> \<exists>c u. emit_with w v = c # u \<and> \<not> is_ws c \<and> c \<noteq> CHR '']'' \<and> c \<noteq> CHR ''}'' \<and> c \<noteq> CHR '',''"
proof (cases v)
  case (JNum n)
  assume "good_value v"
  with JNum have "number_text n" by (simp add: canonical_number_text)
  then obtain c u where "n = c # u" "c = CHR ''-'' \<or> is_digit c"
    using number_text_hd [of n] by (cases n) auto
  moreover from this have "\<not> is_ws c" using digit_not_ws [of c] by (auto simp: is_ws_def)
  ultimately show ?thesis using JNum by (auto simp: is_digit_def byte_le_iff)
next
  case (JStr s)
  assume "good_value v"
  then show ?thesis using w_reads [of s "[]"] JStr by (auto simp: is_ws_def)
qed (auto simp: emit_obj is_ws_def)

lemma parse_members_one:
  assumes "reads w (the (fmlookup m k))" "utf8_valid k" "k |\<notin>| fmdom acc" "closes t"
  shows "parse_members acc False (CHR '','' # member_text w m k @ t)
      = parse_members (fmupd k (the (fmlookup m k)) acc) False t"
    and "parse_members acc True (member_text w m k @ t)
      = parse_members (fmupd k (the (fmlookup m k)) acc) False t"
proof -
  let ?v = "the (fmlookup m k)"
  obtain u where u: "member_text w m k @ t = CHR 0x22 # u" "go_string u = Some (k, CHR '':'' # emit_with w ?v @ t)"
    using w_reads [OF assms(2), of "CHR '':'' # emit_with w ?v @ t"] by (auto simp: member_text_def)
  have r: "parse_value (emit_with w ?v @ t) = Inr (?v, t)" using assms(1,4) by (rule readsD)
  show "parse_members acc False (CHR '','' # member_text w m k @ t) = parse_members (fmupd k ?v acc) False t"
    using u r assms(3) by (simp add: json_members.simps [of _ _ acc])
  show "parse_members acc True (member_text w m k @ t) = parse_members (fmupd k ?v acc) False t"
    using u r assms(3) by (simp add: json_members.simps [of _ _ acc True])
qed

lemma parse_members_emit:
  assumes "\<forall>k \<in> set ks. reads w (the (fmlookup m k)) \<and> utf8_valid k" "distinct ks" "\<forall>k \<in> set ks. k |\<notin>| fmdom acc"
  shows "parse_members acc False (concat (map (\<lambda>k. CHR '','' # member_text w m k) ks) @ CHR ''}'' # t)
      = Inr (fold (\<lambda>k. fmupd k (the (fmlookup m k))) ks acc, t)"
  using assms
proof (induction ks arbitrary: acc)
  case Nil
  then show ?case by (simp add: json_members.simps)
next
  case (Cons k ks)
  let ?t = "concat (map (\<lambda>k. CHR '','' # member_text w m k) ks) @ CHR ''}'' # t"
  have "parse_members acc False (CHR '','' # member_text w m k @ ?t) = parse_members (fmupd k (the (fmlookup m k)) acc) False ?t"
    using Cons.prems by (intro parse_members_one closes_more) auto
  also have "\<dots> = Inr (fold (\<lambda>k. fmupd k (the (fmlookup m k))) ks (fmupd k (the (fmlookup m k)) acc), t)"
    using Cons.prems by (intro Cons.IH) auto
  finally show ?case by simp
qed

lemma reads_obj:
  assumes "\<forall>k v. fmlookup m k = Some v \<longrightarrow> utf8_valid k \<and> reads w v"
  shows "reads w (JObj m)"
  unfolding reads_def
proof (intro allI impI)
  fix t
  define ks where "ks = sorted_list_of_fset (fmdom m)"
  have ks: "\<forall>k \<in> set ks. reads w (the (fmlookup m k)) \<and> utf8_valid k" "distinct ks"
    using assms by (auto simp: ks_def fmlookup_dom_iff sorted_list_of_fset.rep_eq)
  have "parse_members fmempty True (join_with '','' (map (member_text w m) ks) @ CHR ''}'' # t) = Inr (m, t)"
  proof (cases ks)
    case Nil
    then have "fmdom m = {||}" using sorted_list_of_fset_simps(2) [of "fmdom m"] by (simp add: ks_def)
    then have "m = fmempty" by (metis fmrestrict_fset_dom fmrestrict_fset_null)
    with Nil show ?thesis by (simp add: json_members.simps)
  next
    case (Cons k l)
    let ?t = "concat (map (\<lambda>k. CHR '','' # member_text w m k) l) @ CHR ''}'' # t"
    have "parse_members fmempty True (member_text w m k @ ?t) = parse_members (fmupd k (the (fmlookup m k)) fmempty) False ?t"
      using ks Cons by (intro parse_members_one closes_more) auto
    also have "\<dots> = Inr (fold (\<lambda>k. fmupd k (the (fmlookup m k))) l (fmupd k (the (fmlookup m k)) fmempty), t)"
      using ks Cons by (intro parse_members_emit) auto
    also have "\<dots> = Inr (m, t)"
      using fold_rebuilds [of m] Cons by (simp add: ks_def)
    finally show ?thesis using Cons by (simp add: join_comma o_def)
  qed
  then show "parse_value (emit_with w (JObj m) @ t) = Inr (JObj m, t)"
    by (simp add: emit_obj json_value.simps ks_def)
qed

lemma parse_elems_one:
  assumes "reads w v" "good_value v" "closes t"
  shows "parse_elems vs False (CHR '','' # emit_with w v @ t) = parse_elems (vs @ [v]) False t"
    and "parse_elems vs True (emit_with w v @ t) = parse_elems (vs @ [v]) False t"
proof -
  have r: "parse_value (emit_with w v @ t) = Inr (v, t)" using assms(1,3) by (rule readsD)
  obtain c u where c: "emit_with w v = c # u" "\<not> is_ws c" "c \<noteq> CHR '']''" "c \<noteq> CHR ''}''"
    using w_hd [OF assms(2)] by blast
  show "parse_elems vs False (CHR '','' # emit_with w v @ t) = parse_elems (vs @ [v]) False t"
    using r by (simp add: json_elems.simps [of _ _ vs])
  show "parse_elems vs True (emit_with w v @ t) = parse_elems (vs @ [v]) False t"
    using r c by (simp add: json_elems.simps [of _ _ vs True])
qed

lemma parse_elems_emit:
  "\<forall>v \<in> set us. reads w v \<and> good_value v \<Longrightarrow>
     parse_elems vs False (concat (map (\<lambda>v. CHR '','' # emit_with w v) us) @ CHR '']'' # t) = Inr (vs @ us, t)"
proof (induction us arbitrary: vs)
  case Nil
  then show ?case by (simp add: json_elems.simps)
next
  case (Cons u us)
  let ?t = "concat (map (\<lambda>v. CHR '','' # emit_with w v) us) @ CHR '']'' # t"
  have "parse_elems vs False (CHR '','' # emit_with w u @ ?t) = parse_elems (vs @ [u]) False ?t"
    using Cons.prems by (intro parse_elems_one closes_more) auto
  with Cons show ?case by simp
qed

lemma reads_arr:
  assumes "\<forall>v \<in> set vs. reads w v \<and> good_value v"
  shows "reads w (JArr vs)"
  unfolding reads_def
proof (intro allI impI)
  fix t
  have "parse_elems [] True (join_with '','' (map (emit_with w) vs) @ CHR '']'' # t) = Inr (vs, t)"
  proof (cases vs)
    case Nil
    then show ?thesis by (simp add: json_elems.simps)
  next
    case (Cons v l)
    let ?t = "concat (map (\<lambda>v. CHR '','' # emit_with w v) l) @ CHR '']'' # t"
    have "parse_elems [] True (emit_with w v @ ?t) = parse_elems ([] @ [v]) False ?t"
      using assms Cons by (intro parse_elems_one closes_more) auto
    with Cons assms show ?thesis by (simp add: join_comma parse_elems_emit o_def)
  qed
  then show "parse_value (emit_with w (JArr vs) @ t) = Inr (JArr vs, t)"
    by (simp add: json_value.simps)
qed

lemma reads_str: "utf8_valid s \<Longrightarrow> CHR 0x00 \<notin> set s \<Longrightarrow> reads w (JStr s)"
  unfolding reads_def
proof (intro allI impI)
  fix t
  assume s: "utf8_valid s" "CHR 0x00 \<notin> set s"
  obtain u where "w s @ t = CHR 0x22 # u" "go_string u = Some (s, t)"
    using w_reads [OF s(1)] by blast
  with s(2) show "parse_value (emit_with w (JStr s) @ t) = Inr (JStr s, t)"
    by (simp add: json_value.simps canon_string_def)
qed

lemma reads_num: "canonical_number_ok n \<Longrightarrow> reads w (JNum n)"
  unfolding reads_def
proof (intro allI impI)
  fix t
  assume n: "canonical_number_ok n" and t: "closes t"
  obtain c u where c: "n = c # u" "c = CHR ''-'' \<or> is_digit c"
    using number_text_hd [OF canonical_number_text [OF n]] by (cases n) auto
  then have "\<not> is_ws c" "c \<noteq> CHR ''{''" "c \<noteq> CHR ''[''" "c \<noteq> CHR 0x22"
    using digit_not_ws [of c] by (auto simp: is_ws_def)
  with n c show "parse_value (emit_with w (JNum n) @ t) = Inr (JNum n, t)"
    using go_number_complete [OF n closes_stop [OF t]] by (simp add: json_value.simps canon_number_def)
qed

lemma reads_literals: "reads w (JBool b)" "reads w JNull"
  by (auto simp: reads_def json_value.simps is_ws_def literal_def)

lemma w_reads_value: "good_value v \<Longrightarrow> reads w v"
proof (induction v)
  case (JObj m)
  then show ?case by (intro reads_obj) (auto intro: fmran'I)
next
  case (JArr vs)
  then show ?case by (intro reads_arr) auto
qed (simp_all add: reads_str reads_num reads_literals)

lemma w_passes_value: "good_value v \<Longrightarrow> passes (emit_with w v)"
proof (induction v)
  case (JObj m)
  have "passes (member_text w m k)" if k: "k |\<in>| fmdom m" for k
  proof -
    obtain v where v: "fmlookup m k = Some v" using k by (auto simp: fmlookup_dom_iff)
    then have "passes (emit_with w v)" "utf8_valid k" using JObj by (auto intro: fmran'I)
    then show ?thesis
      using v by (simp add: member_text_def passes_append w_passes passes_mark marks_ascii)
  qed
  then have "passes (join_with '','' (map (member_text w m) (sorted_list_of_fset (fmdom m))))"
    by (intro passes_join) auto
  then show ?case
    by (simp add: emit_obj passes_append passes_mark marks_ascii passes_ascii)
next
  case (JArr vs)
  then have "passes (join_with '','' (map (emit_with w) vs))" by (intro passes_join) auto
  then show ?case by (simp add: passes_append passes_mark marks_ascii passes_ascii)
next
  case (JNum n)
  then have t: "number_text n" by (simp add: canonical_number_text)
  then have "list_all ascii n" by (rule number_text_ascii)
  moreover have q: "CHR 0x22 \<notin> set ds" if "list_all is_digit ds" for ds
    using that by (auto simp: list_all_iff dest: bspec)
  have "CHR 0x22 \<notin> set n"
    using JNum by (auto elim!: canonical_number_shape simp: int_text_def canon_frac_def q)
  ultimately show ?case by (simp add: passes_ascii)
qed (auto simp: w_passes passes_ascii ascii_def)

end

interpretation canon: json_writer emit_string
  by unfold_locales (blast intro: go_string_emit, rule passes_string)

section \<open>What is parsed is good\<close>

lemma encode_rune_utf8: "utf8_valid (encode_rune r)"
  using utf8_valid_encode_rune [of r "[]"] by simp

lemma hex4_loop_ascii: "hex4_loop v x = Some u \<Longrightarrow> list_all ascii x"
  by (induction v x rule: hex4_loop.induct) (auto split: option.splits dest: hex_val_ascii)

lemma parse_u16_ascii: "parse_u16 s = Some u \<Longrightarrow> \<exists>h. s = h @ drop 4 s \<and> list_all ascii h \<and> length h = 4"
  by (intro exI [of _ "take 4 s"]) (auto simp: parse_u16_def split: if_splits dest: hex4_loop_ascii)

lemma utf8_drop_ascii: "utf8_valid (h @ t) \<Longrightarrow> list_all ascii h \<Longrightarrow> utf8_valid t"
  using utf8_valid_append [OF utf8_valid_all_ascii] by blast

lemma go_escape_utf8:
  assumes "go_escape s = Some (out, t)" "utf8_valid s"
  shows "utf8_valid out \<and> utf8_valid t"
proof -
  obtain c u where s: "s = c # u" using assms(1) by (cases s) (auto simp: go_escape_def)
  have drop4: "utf8_valid (drop 4 u)" if "parse_u16 u = Some x" "utf8_valid u" for x
    using parse_u16_ascii [OF that(1)] that(2) utf8_drop_ascii by metis
  show ?thesis
  proof (cases "c = CHR ''u''")
    case False
    then have "ascii c" "t = u" "list_all ascii out"
      using assms(1) s by (auto simp: go_escape_def ascii_def split: if_splits)
    with assms(2) s show ?thesis by (simp add: utf8_valid_all_ascii)
  next
    case True
    then have u: "utf8_valid u" using assms(2) s by (simp add: ascii_def)
    from True assms(1) s obtain x where x: "parse_u16 u = Some x"
      by (auto simp: go_escape_def split: option.splits)
    have out: "\<exists>r. out = encode_rune r"
      using True assms(1) s by (auto simp: go_escape_def split: option.splits if_splits)
    consider "t = drop 4 u" | y where "t = drop 10 u" "6 \<le> length (drop 4 u)" "u ! 4 = CHR 0x5C" "u ! 5 = CHR ''u''"
      "parse_u16 (drop 6 u) = Some y"
      using True assms(1) s by (auto simp: go_escape_def split: option.splits if_splits)
    then have "utf8_valid t"
    proof cases
      case 1
      then show ?thesis using drop4 [OF x u] by simp
    next
      case 2
      have "drop 4 u = u ! 4 # u ! 5 # drop 6 u"
        using 2(2) by (simp add: Cons_nth_drop_Suc numeral_eq_Suc)
      then have d6: "utf8_valid (drop 6 u)" using drop4 [OF x u] 2(3,4) by (simp add: ascii_def)
      obtain h where h: "drop 6 u = h @ drop 4 (drop 6 u)" "list_all ascii h" using parse_u16_ascii [OF 2(5)] by blast
      then have "utf8_valid (drop 4 (drop 6 u))" using d6 utf8_drop_ascii by metis
      then show ?thesis using 2(1) by simp
    qed
    with out show ?thesis using encode_rune_utf8 by auto
  qed
qed

lemma go_string_skip:
  "list_all (\<lambda>c. \<not> ascii c) p \<Longrightarrow>
     go_string (p @ t) = (case go_string t of None \<Rightarrow> None | Some (k, v) \<Rightarrow> Some (p @ k, v))"
proof (induction p)
  case Nil
  then show ?case by (simp split: option.splits)
next
  case (Cons c p)
  then have "c \<noteq> CHR 0x22" "c \<noteq> CHR 0x5C" "\<not> c < CHR 0x20" using control_ascii [of c] by (auto simp: ascii_def)
  with Cons show ?case by (subst go_string.simps) (simp split: option.splits)
qed

lemma go_string_utf8:
  "go_string s = Some (k, t) \<Longrightarrow> utf8_valid s \<Longrightarrow> utf8_valid k \<and> utf8_valid t"
proof (induction s arbitrary: k rule: length_induct)
  case (1 s)
  note ih = "1.IH" [rule_format]
  obtain c s' where s: "s = c # s'" using "1.prems"(1) by (cases s) (auto simp: go_string.simps)
  show ?case
  proof (cases "ascii c")
    case False
    obtain r u where d: "decode_rune s = Some (r, u)" and u: "utf8_valid u"
      using "1.prems"(2) s by (auto simp: utf8_valid_Cons split: option.splits)
    obtain p where p: "s = p @ u" "list_all (\<lambda>c. \<not> ascii c) p" "decode_rune (p @ []) = Some (r, [])"
      using decode_rune_split [OF d s False, of "[]"] by blast
    obtain k' where k: "go_string u = Some (k', t)" "k = p @ k'"
      using "1.prems"(1) go_string_skip [OF p(2), of u] p(1) by (auto split: option.splits)
    have "utf8_valid p" using utf8_valid_decode [OF p(3)] by simp
    with ih [OF decode_rune_shrinks [OF d] k(1) u] k(2) show ?thesis by (simp add: utf8_valid_append)
  next
    case True
    then have s': "utf8_valid s'" using "1.prems"(2) s by simp
    consider "c = CHR 0x22" | "c = CHR 0x5C" | "c \<noteq> CHR 0x22" "c \<noteq> CHR 0x5C" by blast
    then show ?thesis
    proof cases
      case 1
      with "1.prems"(1) s s' show ?thesis by (simp add: go_string.simps)
    next
      case 2
      then obtain out u k' where e: "go_escape s' = Some (out, u)" "go_string u = Some (k', t)" "k = out @ k'"
        using "1.prems"(1) s go_string.simps [of "c # s'"] by (auto split: option.splits)
      have "utf8_valid out" "utf8_valid u" using go_escape_utf8 [OF e(1) s'] by auto
      moreover have "length u < length s" using go_escape_shrinks [OF e(1)] s by simp
      ultimately show ?thesis using ih [OF _ e(2)] e(3) by (simp add: utf8_valid_append)
    next
      case 3
      then obtain k' where e: "go_string s' = Some (k', t)" "k = c # k'"
        using "1.prems"(1) s go_string.simps [of "c # s'"] by (auto split: option.splits if_splits)
      have "length s' < length s" using s by simp
      with ih [OF this e(1) s'] e(2) True show ?thesis by simp
    qed
  qed
qed

lemma utf8_ws: "utf8_valid s \<Longrightarrow> utf8_valid (ws s)"
proof -
  assume v: "utf8_valid s"
  obtain p where p: "s = p @ ws s" "list_all is_ws p" using dropWhile_prefix [of s is_ws] by (auto simp: ws_def)
  have "list_all ascii p" using p(2) is_ws_ascii by (auto simp: list_all_iff)
  with p(1) v show ?thesis using utf8_drop_ascii by metis
qed

lemma go_number_ascii: "go_number s = Some t \<Longrightarrow> \<exists>n. s = n @ t \<and> list_all ascii n"
proof -
  assume g: "go_number s = Some t"
  define u where "u = (if s \<noteq> [] \<and> hd s = CHR ''-'' then tl s else s)"
  obtain s1 s2 where n: "go_int u = Some s1" "scan_frac s1 = Some s2" "scan_exp s2 = Some t"
    using g by (auto simp: go_number_def u_def [symmetric] split: option.splits)
  have digits: "list_all ascii ds" if "list_all is_digit ds" for ds
    using that by (auto simp: list_all_iff is_digit_val ascii_def)
  have "\<exists>i. u = i @ s1 \<and> list_all ascii i"
  proof (cases u)
    case (Cons c x)
    show ?thesis
    proof (cases "c = CHR ''0''")
      case True
      with n(1) Cons show ?thesis by (intro exI [of _ "[c]"]) (simp add: go_int_def ascii_def)
    next
      case False
      with n(1) Cons have "s1 = dropWhile is_digit u" by (auto simp: go_int_def split: if_splits)
      then show ?thesis using digits_split [of u] digits by metis
    qed
  qed (use n(1) in \<open>simp add: go_int_def\<close>)
  then obtain i where i: "u = i @ s1" "list_all ascii i" by blast
  obtain f where f: "s1 = f @ s2" "frac_text f" using frac_sound [OF n(2)] by blast
  obtain e where e: "s2 = e @ t" "exp_text e" using exp_sound [OF n(3)] by blast
  have "list_all ascii f" using f(2) digits by (auto simp: frac_text_def ascii_def)
  moreover have "list_all ascii e" using e(2) digits by (auto simp: exp_text_def ascii_def)
  moreover have "\<exists>sg. s = sg @ u \<and> list_all ascii sg"
    by (cases s) (auto simp: u_def ascii_def intro: exI [of _ "''-''"] exI [of _ "[]"])
  ultimately show ?thesis using i f(1) e(1) by (metis append.assoc list_all_append)
qed

lemma literal_rest: "literal lit s = Some t \<Longrightarrow> s = lit @ t"
  by (auto simp: literal_def split: if_splits) (metis append_take_drop_id)

definition leaf_good ::
  "(bytes \<Rightarrow> bool) \<Rightarrow> ('n \<Rightarrow> bool) \<Rightarrow> 'n json_leaf \<Rightarrow> 'n json_leaf \<Rightarrow> bool" where
  "leaf_good S N num str \<longleftrightarrow> (\<forall>tok v. num tok = Inr v \<longrightarrow> json_all S N v)
     \<and> (\<forall>k v. str k = Inr v \<longrightarrow> utf8_valid k \<longrightarrow> json_all S N v)"

lemma json_good:
  "leaf_good S N num str \<Longrightarrow> utf8_valid s \<Longrightarrow> json_value num str s = Inr (v, t) \<Longrightarrow>
     json_all S N v \<and> utf8_valid t"
  "leaf_good S N num str \<Longrightarrow> utf8_valid s \<Longrightarrow> json_members num str ms first s = Inr (m, t) \<Longrightarrow>
     json_all S N (JObj ms) \<Longrightarrow> json_all S N (JObj m) \<and> utf8_valid t"
  "leaf_good S N num str \<Longrightarrow> utf8_valid s \<Longrightarrow> json_elems num str vs first s = Inr (us, t) \<Longrightarrow>
     json_all S N (JArr vs) \<Longrightarrow> json_all S N (JArr us) \<and> utf8_valid t"
proof (induction num str s and num str ms first s and num str vs first s arbitrary: v t and m t and us t
    rule: json_value_json_members_json_elems.induct)
  case (1 num str s)
  from "1.prems"(3) obtain c u where w: "ws s = c # u"
    by (cases "ws s") (simp_all add: json_value.simps [of num str s])
  have cu: "utf8_valid (c # u)" using utf8_ws [OF "1.prems"(2)] w by simp
  note p = "1.prems"(3) [unfolded json_value.simps [of num str s] w list.case]
  have u: "utf8_valid u" if "ascii c" using cu that by simp
  consider "c = CHR ''{''" | "c = CHR ''[''" | "c = CHR 0x22" | "c = CHR ''-'' \<or> is_digit c"
    | "c = CHR ''t''" | "c = CHR ''f''" | "c = CHR ''n''"
    using p by (auto split: if_splits)
  then show ?case
  proof cases
    case 1
    with p obtain m where m: "json_members num str fmempty True u = Inr (m, t)" "v = JObj m"
      by (auto split: sum.splits)
    show ?thesis using "1.IH"(1) [OF w 1 "1.prems"(1) _ m(1)] u 1 m(2) by (simp add: ascii_def)
  next
    case 2
    with p obtain m where m: "json_elems num str [] True u = Inr (m, t)" "v = JArr m"
      by (auto split: sum.splits)
    show ?thesis using "1.IH"(2) [OF w _ 2 "1.prems"(1) _ m(1)] u 2 m(2) by (simp add: ascii_def)
  next
    case 3
    with p obtain k where k: "go_string u = Some (k, t)" "str k = Inr v"
      by (auto split: option.splits sum.splits)
    with go_string_utf8 [OF k(1)] u 3 "1.prems"(1) show ?thesis by (simp add: ascii_def leaf_good_def)
  next
    case 4
    then have "c \<noteq> CHR ''{''" "c \<noteq> CHR ''[''" "c \<noteq> CHR 0x22" by auto
    with 4 p obtain k where k: "go_number (c # u) = Some t" "num k = Inr v"
      by (auto split: option.splits sum.splits)
    obtain n where "c # u = n @ t" "list_all ascii n" using go_number_ascii [OF k(1)] by blast
    with k(2) cu "1.prems"(1) show ?thesis using utf8_drop_ascii by (auto simp: leaf_good_def)
  next
    case 5
    with p have "literal ''true'' (c # u) = Some t" "v = JBool True" by (auto split: option.splits)
    with literal_rest [of "''true''"] cu show ?thesis by (fastforce simp: ascii_def)
  next
    case 6
    with p have "literal ''false'' (c # u) = Some t" "v = JBool False" by (auto split: option.splits)
    with literal_rest [of "''false''"] cu show ?thesis by (fastforce simp: ascii_def)
  next
    case 7
    with p have "literal ''null'' (c # u) = Some t" "v = JNull" by (auto split: option.splits)
    with literal_rest [of "''null''"] cu show ?thesis by (fastforce simp: ascii_def)
  qed
next
  case (2 num str ms first s)
  from "2.prems"(3) obtain c u where w: "ws s = c # u"
    by (cases "ws s") (simp_all add: json_members.simps [of num str ms first s])
  have cu: "utf8_valid (c # u)" using utf8_ws [OF "2.prems"(2)] w by simp
  note p = "2.prems"(3) [unfolded json_members.simps [of num str ms first s] w list.case]
  have c: "c \<noteq> CHR '']''" using p by auto
  show ?case
  proof (cases "c = CHR ''}''")
    case True
    with p "2.prems"(4) cu show ?thesis by (simp add: ascii_def)
  next
    case False
    have nf: "\<not> (\<not> first \<and> c \<noteq> CHR '','')" by (rule ccontr) (use p False c in simp)
    from p False c nf obtain q t1 key v0 d v1 x w1 where a:
      "ws (if first then c # u else u) = q # t1" "q = CHR 0x22" "go_string t1 = Some (key, v0)"
      "key |\<notin>| fmdom ms" "ws v0 = d # v1" "d = CHR '':''" "json_value num str v1 = Inr (x, w1)"
      "json_members num str (fmupd key x ms) False w1 = Inr (m, t)"
      by (auto split: list.splits if_splits option.splits sum.splits)
    have "utf8_valid (if first then c # u else u)" using cu nf by (auto simp: ascii_def)
    then have "utf8_valid t1" using utf8_ws [of "if first then c # u else u"] a(1,2) by (simp add: ascii_def)
    then have k: "utf8_valid key" "utf8_valid v0" using go_string_utf8 [OF a(3)] by auto
    then have v1: "utf8_valid v1" using utf8_ws [of v0] a(5,6) by (simp add: ascii_def)
    have x: "json_all S N x" "utf8_valid w1"
      using "2.IH"(1) [OF w False c nf a(1) _ a(3) refl a(4) a(5) _ "2.prems"(1) v1 a(7)] a(2,6) by auto
    have "json_all S N (JObj (fmupd key x ms))" using "2.prems"(4) k x by simp
    then show ?thesis
      using "2.IH"(2) [OF w False c nf a(1) _ a(3) refl a(4) a(5) _ a(7) refl "2.prems"(1) x(2) a(8)] a(2,6) by simp
  qed
next
  case (3 num str vs first s)
  from "3.prems"(3) obtain c u where w: "ws s = c # u"
    by (cases "ws s") (simp_all add: json_elems.simps [of num str vs first s])
  have cu: "utf8_valid (c # u)" using utf8_ws [OF "3.prems"(2)] w by simp
  note p = "3.prems"(3) [unfolded json_elems.simps [of num str vs first s] w list.case]
  have c: "c \<noteq> CHR ''}''" using p by auto
  show ?case
  proof (cases "c = CHR '']''")
    case True
    with p "3.prems"(4) cu show ?thesis by (simp add: ascii_def)
  next
    case False
    have nf: "\<not> (\<not> first \<and> c \<noteq> CHR '','')" by (rule ccontr) (use p False c in simp)
    from p False c nf obtain x w1 where a:
      "json_value num str (if first then c # u else u) = Inr (x, w1)" "json_elems num str (vs @ [x]) False w1 = Inr (us, t)"
      by (auto split: if_splits sum.splits)
    have f: "utf8_valid (if first then c # u else u)" using cu nf by (auto simp: ascii_def)
    have x: "json_all S N x" "utf8_valid w1" using "3.IH"(1) [OF w False c nf "3.prems"(1) f a(1)] by auto
    have "json_all S N (JArr (vs @ [x]))" using "3.prems"(4) x by simp
    then show ?thesis using "3.IH"(2) [OF w False c nf a(1) refl "3.prems"(1) x(2) a(2)] by simp
  qed
qed

section \<open>The properties\<close>

lemma canon_leaf_good: "leaf_good (\<lambda>s. utf8_valid s \<and> CHR 0x00 \<notin> set s) canonical_number_ok canon_number canon_string"
  by (auto simp: leaf_good_def canon_number_def canon_string_def split: if_splits)

lemma canonical_value_good: "canonical_value s = Inr v \<Longrightarrow> good_value v"
  using json_good(1) [OF canon_leaf_good, of s]
  by (auto simp: canonical_value_def parse_canon_value_def split: if_splits option.splits sum.splits)

lemma passes_validate: "passes x \<Longrightarrow> validate_unicode_escapes x = None \<and> utf8_valid x"
proof -
  assume p: "passes x"
  then have "unicode_escapes False False (x @ []) = unicode_escapes False False []"
    by (simp only: passes_def quiet_def)
  also have "\<dots> = None" by (subst unicode_escapes.simps) simp
  finally show ?thesis using p by (simp add: validate_unicode_escapes_def passes_def)
qed

lemma canonical_value_emit:
  assumes "good_value v"
  shows "canonical_value (emit_value v) = Inr v"
proof -
  note passes_validate [OF canon.w_passes_value [OF assms], folded emit_value_with]
  moreover have "parse_value (emit_value v) = Inr (v, [])"
    using readsD [OF canon.w_reads_value [OF assms], of "[]"] by (simp add: closes_def emit_value_with)
  ultimately show ?thesis by (simp add: canonical_value_def parse_canon_value_def ws_def)
qed

lemma canonicalize_value:
  "canonicalize_v1 s = Inr t \<longleftrightarrow> (\<exists>v. canonical_value s = Inr v \<and> t = emit_value v)"
  by (auto simp: canonicalize_v1_def split: sum.splits)

text \<open>C24: the canonical text identifies the value. Two inputs of \<open>CanonicalizeV1\<close> get the same
  bytes exactly when they denote the same JSON value (objects as finite maps, so member order, white
  space and the spelling of escapes do not count; nothing else is forgotten), and the canonical text is
  its own canonical text. So a hash or a signature over it covers the value, no more and no less.\<close>

theorem canonical_text_identifies_the_value:
  assumes "canonicalize_v1 s = Inr t" "canonicalize_v1 s' = Inr t'"
  shows "(t = t' \<longleftrightarrow> canonical_value s = canonical_value s') \<and> canonicalize_v1 t = Inr t"
proof -
  obtain v where v: "canonical_value s = Inr v" "t = emit_value v"
    using assms(1) unfolding canonicalize_value by blast
  obtain v' where v': "canonical_value s' = Inr v'" "t' = emit_value v'"
    using assms(2) unfolding canonicalize_value by blast
  have c: "canonical_value t = Inr v" "canonical_value t' = Inr v'"
    unfolding v(2) v'(2) by (rule canonical_value_emit, rule canonical_value_good, rule v v')+
  have "canonicalize_v1 t = Inr t" unfolding canonicalize_v1_def c(1) by (simp add: v(2))
  moreover have "t = t' \<longleftrightarrow> canonical_value s = canonical_value s'"
  proof
    assume "t = t'"
    then show "canonical_value s = canonical_value s'" using c v(1) v'(1) by simp
  next
    assume "canonical_value s = canonical_value s'"
    then show "t = t'" using v v' by simp
  qed
  ultimately show ?thesis by blast
qed

theorem canonical_text_identifies_the_value_witness:
  "canonical_value (CHR ''{'' # append_json_string ''b'' @ '': 1, '' @ append_json_string ''a'' @ '':[true ]}'')
   = canonical_value (CHR ''{'' # append_json_string ''a'' @ '':[true],'' @ append_json_string ''b'' @ '':1}'')"
proof -
  let ?s = "CHR ''{'' # append_json_string ''b'' @ '': 1, '' @ append_json_string ''a'' @ '':[true ]}''"
  let ?t = "CHR ''{'' # append_json_string ''a'' @ '':[true],'' @ append_json_string ''b'' @ '':1}''"
  have "canonicalize_v1 ?s = Inr ?t" "canonicalize_v1 ?t = Inr ?t" by code_simp+
  from canonical_text_identifies_the_value [OF this] show ?thesis by simp
qed

section \<open>Canonical numbers\<close>

definition decimal_value :: "bytes \<Rightarrow> rat" where
  "decimal_value n =
     (let negative = (n \<noteq> [] \<and> hd n = CHR ''-'');
          u = (if negative then tl n else n);
          i = takeWhile is_digit u;
          f = tl (dropWhile is_digit u);
          m = of_nat (digits_value (i @ f)) / 10 ^ length f
      in if negative then - m else m)"

lemma digits_value_inject:
  "length a = length b \<Longrightarrow> list_all is_digit a \<Longrightarrow> list_all is_digit b \<Longrightarrow>
     digits_value a = digits_value b \<Longrightarrow> a = b"
  using digits_le_iff [of a b] digits_le_iff [of b a] by simp

lemma int_text_inject:
  assumes "int_text a" "int_text b" "digits_value a = digits_value b"
  shows "a = b"
proof -
  have pos: "10 ^ (length x - 1) \<le> digits_value x" if "int_text x" "x \<noteq> ''0''" for x
    using digits_value_ge [of x] that by (auto simp: int_text_def)
  have zero: "x = ''0''" if "int_text x" "digits_value x = 0" for x
    using pos [OF that(1)] that(2) by (cases "x = ''0''") simp_all
  show ?thesis
  proof (cases "digits_value a = 0")
    case True
    then show ?thesis using zero assms by metis
  next
    case False
    then have n: "a \<noteq> ''0''" "b \<noteq> ''0''" using assms(3) by (auto simp: digits_value_Cons)
    have d: "list_all is_digit a" "list_all is_digit b" "a \<noteq> []" "b \<noteq> []" using assms n by (auto simp: int_text_def)
    have "(10 :: nat) ^ (length a - 1) < 10 ^ length b" "(10 :: nat) ^ (length b - 1) < 10 ^ length a"
      using pos [OF assms(1) n(1)] pos [OF assms(2) n(2)] digits_value_less [OF d(1)] digits_value_less [OF d(2)] assms(3)
      by linarith+
    then have "length a - 1 < length b" "length b - 1 < length a" by simp_all
    then have "length a = length b" by linarith
    then show ?thesis using digits_value_inject d(1,2) assms(3) by blast
  qed
qed

definition fraction_digits :: "bytes \<Rightarrow> bool" where
  "fraction_digits f \<longleftrightarrow> list_all is_digit f \<and> (f \<noteq> [] \<longrightarrow> last f \<noteq> CHR ''0'')"

text \<open>A mantissa over a power of ten, written without a last zero, is determined by its value.\<close>

lemma same_decimal:
  assumes "int_text i" "fraction_digits f" "int_text j" "fraction_digits g"
    and eq: "digits_value (i @ f) * 10 ^ length g = digits_value (j @ g) * 10 ^ length f"
  shows "i = j \<and> f = g"
proof -
  have le: "length y \<le> length x"
    if "fraction_digits y" "int_text k" "digits_value (k @ y) * 10 ^ length x = m * 10 ^ length y" for x y k m
  proof (rule ccontr)
    assume "\<not> length y \<le> length x"
    then obtain d where d: "length y = length x + Suc d" using less_imp_Suc_add by (metis add_Suc_right not_le)
    then have "digits_value (k @ y) * 10 ^ length x = (m * 10 ^ Suc d) * 10 ^ length x"
      using that(3) by (simp add: power_add mult.assoc mult.commute)
    then have v: "digits_value (k @ y) = m * 10 ^ Suc d" by simp
    have "y \<noteq> []" using d by auto
    then have "\<not> 10 dvd digits_value (k @ y)"
      using that(1,2) by (intro last_digit_not_dvd) (auto simp: fraction_digits_def int_text_def)
    with v show False by simp
  qed
  have l: "length f = length g" using le [OF assms(2,1) eq] le [OF assms(4,3) eq [symmetric]] by simp
  then have v: "digits_value i * 10 ^ length f + digits_value f = digits_value j * 10 ^ length f + digits_value g"
    using eq by (simp add: digits_value_append)
  have lt: "digits_value f < 10 ^ length f" "digits_value g < 10 ^ length f"
    using digits_value_less [of f] digits_value_less [of g] assms(2,4) l by (simp_all add: fraction_digits_def)
  have "digits_value i = digits_value j"
    using arg_cong [OF v, of "\<lambda>n. n div 10 ^ length f"] lt by simp
  with v have "digits_value f = digits_value g" by simp
  with \<open>digits_value i = digits_value j\<close> show ?thesis
    using int_text_inject [OF assms(1,3)] digits_value_inject [OF l] assms(2,4)
    by (simp add: fraction_digits_def)
qed

lemma decimal_value_pieces:
  assumes "int_text i" "canon_frac f" "sg = [] \<or> sg = ''-''"
  shows "decimal_value (sg @ i @ f) = (if sg = [] then 1 else - 1) * of_nat (digits_value (i @ tl f)) / 10 ^ length (tl f)"
proof -
  have i: "list_all is_digit i" "i \<noteq> []" "hd i \<noteq> CHR ''-''" using assms(1) int_text_hd [OF assms(1)] by (auto simp: int_text_def)
  have "f = [] \<or> \<not> is_digit (hd f)" using assms(2) by (auto simp: canon_frac_def)
  then have "takeWhile is_digit (i @ f) = i" "dropWhile is_digit (i @ f) = f"
    using takeWhile_append_stop [OF i(1)] by auto
  with i assms(3) show ?thesis by (auto simp: decimal_value_def Let_def)
qed

text \<open>a number has one spelling. Two number texts that \<open>canonicalNumberOK\<close> accepts denote the
  same decimal number only when they are the same text: there is no other way to write it with more
  zeros, an exponent, or a negative zero.\<close>

theorem canonical_numbers_are_unique:
  assumes "canonical_number_ok a" "canonical_number_ok b"
  shows "decimal_value a = decimal_value b \<longleftrightarrow> a = b"
proof
  assume eq: "decimal_value a = decimal_value b"
  obtain sa i f where a: "a = sa @ i @ f" "sa = [] \<or> sa = ''-''" "int_text i" "canon_frac f"
    "\<not> (sa = ''-'' \<and> i = ''0'' \<and> f = [])" using assms(1) by (rule canonical_number_shape)
  obtain sb j g where b: "b = sb @ j @ g" "sb = [] \<or> sb = ''-''" "int_text j" "canon_frac g"
    "\<not> (sb = ''-'' \<and> j = ''0'' \<and> g = [])" using assms(2) by (rule canonical_number_shape)
  let ?m = "digits_value (i @ tl f)" and ?n = "digits_value (j @ tl g)"
  have d: "fraction_digits (tl f)" "fraction_digits (tl g)"
    using a(4) b(4) by (auto simp: canon_frac_def fraction_digits_def)
  define x y where "x = (if sa = [] then 1 else - 1 :: int)" and "y = (if sb = [] then 1 else - 1 :: int)"
  have "of_int x * of_nat ?m / 10 ^ length (tl f) = (of_int y * of_nat ?n / 10 ^ length (tl g) :: rat)"
  proof -
    have "decimal_value a = of_int x * of_nat ?m / 10 ^ length (tl f)"
      unfolding a(1) decimal_value_pieces [OF a(3,4,2)] x_def by (cases "sa = []") simp_all
    moreover have "decimal_value b = of_int y * of_nat ?n / 10 ^ length (tl g)"
      unfolding b(1) decimal_value_pieces [OF b(3,4,2)] y_def by (cases "sb = []") simp_all
    ultimately show ?thesis using eq by simp
  qed
  then have "of_int x * of_nat ?m * 10 ^ length (tl g) = (of_int y * of_nat ?n * 10 ^ length (tl f) :: rat)"
    by (simp add: frac_eq_eq)
  then have "(of_int (x * (int ?m * 10 ^ length (tl g))) :: rat) = of_int (y * (int ?n * 10 ^ length (tl f)))"
    by (simp add: mult.assoc)
  then have e: "x * (int ?m * 10 ^ length (tl g)) = y * (int ?n * 10 ^ length (tl f))" by (simp only: of_int_eq_iff)
  have "\<bar>x\<bar> = 1" "\<bar>y\<bar> = 1" by (simp_all add: x_def y_def)
  with arg_cong [OF e, of abs] have "int ?m * 10 ^ length (tl g) = int ?n * 10 ^ length (tl f)" by (simp add: abs_mult)
  then have "int (?m * 10 ^ length (tl g)) = int (?n * 10 ^ length (tl f))" by simp
  then have nat_eq: "?m * 10 ^ length (tl g) = ?n * 10 ^ length (tl f)" by (simp only: of_nat_eq_iff)
  then have same: "i = j" "tl f = tl g" using same_decimal [OF a(3) d(1) b(3) d(2)] by auto
  have fg: "f = g" using same(2) a(4) b(4) by (auto simp: canon_frac_def)
  have "sa = sb"
  proof (cases "?m = 0")
    case True
    then have "digits_value i = 0" "digits_value (tl f) = 0" by (simp_all add: digits_value_append)
    then have "i = ''0''" using int_text_inject [OF a(3), of "''0''"] by (simp add: int_text_def digits_value_Cons)
    moreover have "tl f = []"
      using last_digit_not_dvd [of "tl f"] d(1) \<open>digits_value (tl f) = 0\<close> by (auto simp: fraction_digits_def)
    ultimately show ?thesis using a(2,4,5) b(2,5) same fg by (auto simp: canon_frac_def)
  next
    case False
    with e same have "x = y" by simp
    then show ?thesis using a(2) b(2) by (auto simp: x_def y_def split: if_splits)
  qed
  with same fg a(1) b(1) show "a = b" by simp
qed simp

theorem canonical_numbers_are_unique_witness:
  "decimal_value ''-0.25'' \<noteq> decimal_value ''0.25''"
proof -
  have "canonical_number_ok ''-0.25''" "canonical_number_ok ''0.25''" by code_simp+
  from canonical_numbers_are_unique [OF this] show ?thesis by (simp only: list.inject) simp
qed

text \<open>A NUL is refused in a string value, but not in a key.\<close>

lemma nul_in_a_key_passes:
  defines "v \<equiv> JObj (fmupd [CHR 0x00] JNull fmempty)"
  shows "canonicalize_v1 (emit_value v) = Inr (emit_value v)"
    and "canonicalize_v1 (emit_value (JStr [CHR 0x00])) = Inl NulCodePoint"
proof -
  have "good_value v" by (simp add: v_def ascii_def)
  then show "canonicalize_v1 (emit_value v) = Inr (emit_value v)"
    by (simp add: canonicalize_v1_def canonical_value_emit)
  have p: "passes (emit_string [CHR 0x00])" by (rule passes_string) (simp add: ascii_def)
  obtain u where u: "emit_string [CHR 0x00] @ [] = CHR 0x22 # u" "go_string u = Some ([CHR 0x00], [])"
    using go_string_emit [of "[CHR 0x00]" "[]"] by (auto simp: ascii_def)
  note passes_validate [OF p]
  moreover have "parse_value (emit_string [CHR 0x00]) = Inl NulCodePoint" using u by (simp add: json_value.simps canon_string_def)
  ultimately show "canonicalize_v1 (emit_value (JStr [CHR 0x00])) = Inl NulCodePoint"
    by (simp add: canonicalize_v1_def canonical_value_def parse_canon_value_def)
qed

end
