(* ===== verification/EnvelopeJson.thy ===== *)
theory EnvelopeJson
  imports CanonForm
begin

text \<open>
  The JSON of a signed envelope: what \<open>json.Marshal\<close> makes of the structures \<open>Envelope\<close> and
  \<open>SignatureEntry\<close> of \<open>pkg/aiiospkg/envelope.go\<close>, and what \<open>json.Unmarshal\<close> makes of any bytes.
  \<open>encoding/json\<close> replaces bytes that are not UTF-8 by U+FFFD both ways, escapes the letters of HTML,
  and writes a raw message without its white space; it matches members to fields without regard to
  case, skips the members it does not know, leaves a field alone at \<open>null\<close>, and refuses nesting
  deeper than 10000. The lemmas show that an envelope of UTF-8 strings survives the trip.
\<close>

section \<open>Texts made valid\<close>

function to_utf8 :: "bytes \<Rightarrow> bytes" where
  "to_utf8 s =
     (case s of
        [] \<Rightarrow> []
      | c # t \<Rightarrow> (case decode_rune s of
                   Some (r, u) \<Rightarrow> encode_rune r @ to_utf8 u
                 | None \<Rightarrow> encode_rune 0xFFFD @ to_utf8 t))"
  by pat_completeness auto
termination
  by (relation "measure length") (auto dest: decode_rune_shrinks)

declare to_utf8.simps [simp del]

section \<open>Strings\<close>

definition unicode_escape :: "nat \<Rightarrow> bytes" where
  "unicode_escape r =
     [CHR 0x5C, CHR ''u'', hex_digit (r div 4096), hex_digit (r div 256 mod 16), hex_digit (r div 16 mod 16),
      hex_digit (r mod 16)]"

definition html_byte :: "char \<Rightarrow> bool" where
  "html_byte c \<longleftrightarrow> c = CHR ''<'' \<or> c = CHR ''>'' \<or> c = CHR ''&''"

definition quote_byte :: "char \<Rightarrow> bytes" where
  "quote_byte c =
     (if c = CHR 0x22 \<or> c = CHR 0x5C then [CHR 0x5C, c]
      else if c = CHR 0x08 then [CHR 0x5C, CHR ''b'']
      else if c = CHR 0x0C then [CHR 0x5C, CHR ''f'']
      else if c = CHR 0x0A then [CHR 0x5C, CHR ''n'']
      else if c = CHR 0x0D then [CHR 0x5C, CHR ''r'']
      else if c = CHR 0x09 then [CHR 0x5C, CHR ''t'']
      else if c < CHR 0x20 \<or> html_byte c then unicode_escape (byte_val c)
      else [c])"

function quote_runes :: "bytes \<Rightarrow> bytes" where
  "quote_runes s =
     (case s of
        [] \<Rightarrow> []
      | c # t \<Rightarrow>
          if ascii c then quote_byte c @ quote_runes t
          else (case decode_rune s of
                  None \<Rightarrow> unicode_escape 0xFFFD @ quote_runes t
                | Some (r, u) \<Rightarrow>
                    if r = 0x2028 \<or> r = 0x2029 then unicode_escape r @ quote_runes u
                    else encode_rune r @ quote_runes u))"
  by pat_completeness auto
termination
  by (relation "measure length") (auto dest: decode_rune_shrinks)

declare quote_runes.simps [simp del]

definition go_quote :: "bytes \<Rightarrow> bytes" where
  "go_quote s = CHR 0x22 # quote_runes s @ [CHR 0x22]"

section \<open>The scanner\<close>

text \<open>
  The scanner of \<open>encoding/json\<close> with its stack of open brackets, \<open>True\<close> for an object; \<open>go_scan\<close> gives
  what follows one value.
\<close>

datatype awaited = Value | FirstElement | FirstKey | Key | AfterValue

definition max_nesting :: nat where
  "max_nesting = 10000"

function go_scan :: "awaited \<Rightarrow> bool list \<Rightarrow> bytes \<Rightarrow> bytes option" where
  "go_scan state st s =
     (if state = AfterValue \<and> st = [] then Some s
      else case ws s of
        [] \<Rightarrow> None
      | c # t \<Rightarrow>
          (case state of
             AfterValue \<Rightarrow>
               if c = CHR '','' then go_scan (if hd st then Key else Value) st t
               else if c = (if hd st then CHR ''}'' else CHR '']'') then go_scan AfterValue (tl st) t
               else None
           | FirstKey \<Rightarrow>
               if c = CHR ''}'' then go_scan AfterValue (tl st) t
               else if c \<noteq> CHR 0x22 then None
               else (case go_string t of
                       None \<Rightarrow> None
                     | Some (k, u) \<Rightarrow>
                         (case ws u of
                            [] \<Rightarrow> None
                          | d # v \<Rightarrow> if d = CHR '':'' then go_scan Value st v else None))
           | Key \<Rightarrow>
               if c \<noteq> CHR 0x22 then None
               else (case go_string t of
                       None \<Rightarrow> None
                     | Some (k, u) \<Rightarrow>
                         (case ws u of
                            [] \<Rightarrow> None
                          | d # v \<Rightarrow> if d = CHR '':'' then go_scan Value st v else None))
           | _ \<Rightarrow>
               if state = FirstElement \<and> c = CHR '']'' then go_scan AfterValue (tl st) t
               else if c = CHR ''{'' then
                 (if max_nesting \<le> length st then None else go_scan FirstKey (True # st) t)
               else if c = CHR ''['' then
                 (if max_nesting \<le> length st then None else go_scan FirstElement (False # st) t)
               else if c = CHR 0x22 then
                 (case go_string t of None \<Rightarrow> None | Some (k, u) \<Rightarrow> go_scan AfterValue st u)
               else if c = CHR ''-'' \<or> is_digit c then
                 (case go_number (c # t) of None \<Rightarrow> None | Some u \<Rightarrow> go_scan AfterValue st u)
               else (case (if c = CHR ''t'' then literal ''true'' (c # t)
                           else if c = CHR ''f'' then literal ''false'' (c # t)
                           else if c = CHR ''n'' then literal ''null'' (c # t) else None) of
                       None \<Rightarrow> None
                     | Some u \<Rightarrow> go_scan AfterValue st u)))"
  by pat_completeness auto
termination
proof (relation "measure (\<lambda>(state, st, s). length s)", goal_cases)
  case 1 then show ?case by simp
qed (auto dest!: ws_Cons_shrinks go_string_shrinks go_number_shrinks literal_shrinks split: if_splits)

declare go_scan.simps [simp del]

definition go_valid :: "bytes \<Rightarrow> bool" where
  "go_valid s \<longleftrightarrow> (case go_scan Value [] s of None \<Rightarrow> False | Some t \<Rightarrow> ws t = [])"

lemma go_scan_step:
  assumes "go_scan state st s = Some t" "\<not> (state = AfterValue \<and> st = [])"
  shows "\<exists>state' st' s'. length s' < length s \<and> go_scan state' st' s' = Some t"
proof (rule ccontr)
  assume n: "\<not> ?thesis"
  obtain c u where c: "ws s = c # u" using assms by (cases "ws s") (simp_all add: go_scan.simps)
  have l: "length (c # u) \<le> length s" using ws_Cons_shrinks [OF c] by simp
  have no: "go_scan state' st' s' \<noteq> Some t" if "length s' \<le> length u" for state' st' s'
    using n that l by auto
  have str: "length v \<le> length u" if "go_string u = Some (k, v)" for k v using go_string_shrinks [OF that] by simp
  have key: "length v \<le> length u" if "go_string u = Some (k, x)" "ws x = d # v" for k x d v
    using go_string_shrinks [OF that(1)] ws_Cons_shrinks [OF that(2)] by simp
  have num: "length v \<le> length u" if "go_number (c # u) = Some v" for v using go_number_shrinks [OF that] by simp
  have lit: "length v \<le> length u" if "literal x (c # u) = Some v" "x \<noteq> []" for x v
    using literal_shrinks [OF that] by simp
  show False
    using assms c no str key num lit
    by (cases state) (auto simp: go_scan.simps [of _ st s] split: option.splits if_splits list.splits)
qed

lemma go_scan_shrinks: "go_scan state st s = Some t \<Longrightarrow> length t \<le> length s \<and> (state \<noteq> AfterValue \<longrightarrow> length t < length s)"
proof (induction s arbitrary: state st rule: length_induct)
  case (1 s)
  show ?case
  proof (cases "state = AfterValue \<and> st = []")
    case True
    then show ?thesis using 1(2) by (simp add: go_scan.simps)
  next
    case False
    then obtain state' st' s' where "length s' < length s" "go_scan state' st' s' = Some t"
      using go_scan_step [OF 1(2)] by blast
    then show ?thesis using 1(1) by fastforce
  qed
qed

lemma ws_less: "n < length (ws s) \<Longrightarrow> n < length s"
  using ws_shrinks [of s] by simp

section \<open>Compaction\<close>

datatype text_state = Outside | Inside | Escaped

definition next_state :: "text_state \<Rightarrow> char \<Rightarrow> text_state" where
  "next_state st c =
     (case st of
        Outside \<Rightarrow> if c = CHR 0x22 then Inside else Outside
      | Inside \<Rightarrow> if c = CHR 0x22 then Outside else if c = CHR 0x5C then Escaped else Inside
      | Escaped \<Rightarrow> Inside)"

definition separator :: "bytes \<Rightarrow> bool" where
  "separator s \<longleftrightarrow> take 3 s = [CHR 0xE2, CHR 0x80, CHR 0xA8] \<or> take 3 s = [CHR 0xE2, CHR 0x80, CHR 0xA9]"

function compact_text :: "text_state \<Rightarrow> bytes \<Rightarrow> bytes" where
  "compact_text st s =
     (case s of
        [] \<Rightarrow> []
      | c # t \<Rightarrow>
          if html_byte c then unicode_escape (byte_val c) @ compact_text (next_state st c) t
          else if separator s then
            unicode_escape (0x2020 + byte_val (s ! 2) mod 16) @ compact_text (next_state st c) (drop 2 t)
          else if st = Outside \<and> is_ws c then compact_text st t
          else c # compact_text (next_state st c) t)"
  by pat_completeness auto
termination
  by (relation "measure (\<lambda>(st, s). length s)") auto

declare compact_text.simps [simp del]

section \<open>Marshal\<close>

definition go_object :: "(bytes \<times> bytes) list \<Rightarrow> bytes" where
  "go_object kvs = CHR ''{'' # join_with '','' (map (\<lambda>kv. go_quote (fst kv) @ CHR '':'' # snd kv) kvs) @ ''}''"

definition go_array :: "bytes list \<Rightarrow> bytes" where
  "go_array vs = CHR ''['' # join_with '','' vs @ '']''"

record signature_entry =
  se_alg :: bytes
  se_key_id :: bytes
  se_fingerprint :: bytes
  se_input_sha :: bytes
  se_sig_b64 :: bytes

record envelope =
  en_kind :: bytes
  en_payload :: bytes
  en_payload_sha :: bytes
  en_canonicalization :: bytes
  en_profile :: bytes
  en_signatures :: "signature_entry list"

definition marshal_entry :: "signature_entry \<Rightarrow> bytes" where
  "marshal_entry e =
     go_object [(''alg'', go_quote (se_alg e)), (''key_id'', go_quote (se_key_id e)),
       (''public_key_fingerprint'', go_quote (se_fingerprint e)),
       (''signature_input_sha256'', go_quote (se_input_sha e)), (''sig_b64'', go_quote (se_sig_b64 e))]"

text \<open>A raw message must be JSON; a nil one, and a nil slice, is \<open>null\<close>.\<close>

definition marshal_envelope :: "envelope \<Rightarrow> bytes option" where
  "marshal_envelope env =
     (if en_payload env \<noteq> [] \<and> \<not> go_valid (en_payload env) then None
      else Some (go_object
        [(''artifact_kind'', go_quote (en_kind env)),
         (''payload'', if en_payload env = [] then ''null'' else compact_text Outside (en_payload env)),
         (''payload_sha256'', go_quote (en_payload_sha env)),
         (''canonicalization'', go_quote (en_canonicalization env)),
         (''signature_profile'', go_quote (en_profile env)),
         (''signatures'', if en_signatures env = [] then ''null'' else go_array (map marshal_entry (en_signatures env)))]))"

section \<open>Unmarshal\<close>

text \<open>
  The members of an object and the elements of an array, each value as its bytes; the text is valid
  when the decoder looks at it.
\<close>

function go_members :: "bool \<Rightarrow> bytes \<Rightarrow> (bytes \<times> bytes) list option" where
  "go_members first s =
     (case ws s of
        [] \<Rightarrow> None
      | c # t \<Rightarrow>
          if c = CHR ''}'' then Some []
          else (case ws (if first then c # t else t) of
                  [] \<Rightarrow> None
                | q # t1 \<Rightarrow>
                    (case go_string t1 of
                       None \<Rightarrow> None
                     | Some (key, u) \<Rightarrow>
                         (case ws u of
                            [] \<Rightarrow> None
                          | d # v \<Rightarrow>
                              (case go_scan Value [] (ws v) of
                                 None \<Rightarrow> None
                               | Some x \<Rightarrow>
                                   (case go_members False x of
                                      None \<Rightarrow> None
                                    | Some ms \<Rightarrow> Some ((to_utf8 key, take (length (ws v) - length x) (ws v)) # ms)))))))"
  by pat_completeness auto
termination
proof (relation "measure (\<lambda>(first, s). length s)", goal_cases)
  case (2 first s c t q t1 p key u d v x)
  have "length x < length (ws v)" using go_scan_shrinks [OF 2(7)] by simp
  then have "length x < length v" by (rule ws_less)
  moreover have "length v < length u" using ws_Cons_shrinks [OF 2(6)] by simp
  moreover have "length u < length t1" using go_string_shrinks [of t1 key u] 2(4,5) by simp
  moreover have "length t1 \<le> length t" using ws_Cons_shrinks [OF 2(3)] by (simp split: if_splits)
  moreover have "length t < length s" using ws_Cons_shrinks [OF 2(1)] by simp
  ultimately show ?case by simp
qed simp

function go_elements :: "bool \<Rightarrow> bytes \<Rightarrow> bytes list option" where
  "go_elements first s =
     (case ws s of
        [] \<Rightarrow> None
      | c # t \<Rightarrow>
          if c = CHR '']'' then Some []
          else (case go_scan Value [] (ws (if first then c # t else t)) of
                  None \<Rightarrow> None
                | Some x \<Rightarrow>
                    (case go_elements False x of
                       None \<Rightarrow> None
                     | Some vs \<Rightarrow>
                         Some (take (length (ws (if first then c # t else t)) - length x) (ws (if first then c # t else t)) # vs))))"
  by pat_completeness auto
termination
proof (relation "measure (\<lambda>(first, s). length s)", goal_cases)
  case (2 first s c t x)
  have "length x < length (ws (if first then c # t else t))" using go_scan_shrinks [OF 2(3)] by simp
  then have "length x < length (if first then c # t else t)" by (rule ws_less)
  moreover have "length t < length s" using ws_Cons_shrinks [OF 2(1)] by simp
  ultimately show ?case by (simp split: if_splits)
qed simp

declare go_members.simps [simp del] go_elements.simps [simp del]

text \<open>
  \<open>foldName\<close>: lower case letters become upper case, and the two runes outside ASCII that fold to a
  letter, U+017F and U+212A, become it. Other runes stay outside ASCII and match no field.
\<close>

function fold_name :: "bytes \<Rightarrow> bytes" where
  "fold_name s =
     (case s of
        [] \<Rightarrow> []
      | c # t \<Rightarrow>
          if take 2 s = [CHR 0xC5, CHR 0xBF] then CHR ''S'' # fold_name (drop 2 s)
          else if take 3 s = [CHR 0xE2, CHR 0x84, CHR 0xAA] then CHR ''K'' # fold_name (drop 3 s)
          else (if is_lower c then byte_of (byte_val c - 32) else c) # fold_name t)"
  by pat_completeness auto
termination
  by (relation "measure length") auto

declare fold_name.simps [simp del]

definition go_unquote :: "bytes \<Rightarrow> bytes option" where
  "go_unquote raw =
     (case raw of
        [] \<Rightarrow> None
      | c # t \<Rightarrow>
          if c \<noteq> CHR 0x22 then None
          else (case go_string t of None \<Rightarrow> None | Some (k, u) \<Rightarrow> Some (to_utf8 k)))"

definition set_text :: "((bytes \<Rightarrow> bytes) \<Rightarrow> 'r \<Rightarrow> 'r) \<Rightarrow> bytes \<Rightarrow> 'r \<Rightarrow> 'r option" where
  "set_text upd raw v =
     (if raw = ''null'' then Some v
      else (case go_unquote raw of None \<Rightarrow> None | Some s \<Rightarrow> Some (upd (\<lambda>_. s) v)))"

fun set_members :: "(bytes \<Rightarrow> bytes \<Rightarrow> 'r \<Rightarrow> 'r option) \<Rightarrow> (bytes \<times> bytes) list \<Rightarrow> 'r \<Rightarrow> 'r option" where
  "set_members put [] v = Some v"
| "set_members put ((key, raw) # ms) v =
     (case put (fold_name key) raw v of None \<Rightarrow> None | Some v' \<Rightarrow> set_members put ms v')"

definition set_object :: "(bytes \<Rightarrow> bytes \<Rightarrow> 'r \<Rightarrow> 'r option) \<Rightarrow> bytes \<Rightarrow> 'r \<Rightarrow> 'r option" where
  "set_object put raw v =
     (if raw = ''null'' then Some v
      else case raw of
        [] \<Rightarrow> None
      | c # t \<Rightarrow>
          if c \<noteq> CHR ''{'' then None
          else (case go_members True t of None \<Rightarrow> None | Some ms \<Rightarrow> set_members put ms v))"

definition entry_field :: "bytes \<Rightarrow> bytes \<Rightarrow> signature_entry \<Rightarrow> signature_entry option" where
  "entry_field name raw e =
     (if name = ''ALG'' then set_text se_alg_update raw e
      else if name = ''KEY_ID'' then set_text se_key_id_update raw e
      else if name = ''PUBLIC_KEY_FINGERPRINT'' then set_text se_fingerprint_update raw e
      else if name = ''SIGNATURE_INPUT_SHA256'' then set_text se_input_sha_update raw e
      else if name = ''SIG_B64'' then set_text se_sig_b64_update raw e
      else Some e)"

definition new_entry :: signature_entry where
  "new_entry = \<lparr>se_alg = [], se_key_id = [], se_fingerprint = [], se_input_sha = [], se_sig_b64 = []\<rparr>"

text \<open>
  A slice is decoded onto the elements its array already holds: they are the \<open>slots\<close>, which a
  repeated member finds as the earlier one left them. An empty array or \<open>null\<close> starts afresh.
\<close>

fun set_slots :: "signature_entry list \<Rightarrow> bytes list \<Rightarrow> signature_entry list option" where
  "set_slots slots [] = Some slots"
| "set_slots slots (raw # raws) =
     (case set_object entry_field raw (if slots = [] then new_entry else hd slots) of
        None \<Rightarrow> None
      | Some e \<Rightarrow> (case set_slots (tl slots) raws of None \<Rightarrow> None | Some es \<Rightarrow> Some (e # es)))"

type_synonym envelope_slots = "envelope \<times> signature_entry list"

definition set_signatures :: "bytes \<Rightarrow> envelope_slots \<Rightarrow> envelope_slots option" where
  "set_signatures raw x =
     (if raw = ''null'' then Some ((fst x)\<lparr>en_signatures := []\<rparr>, [])
      else case raw of
        [] \<Rightarrow> None
      | c # t \<Rightarrow>
          if c \<noteq> CHR ''['' then None
          else (case go_elements True t of
                  None \<Rightarrow> None
                | Some raws \<Rightarrow>
                    if raws = [] then Some ((fst x)\<lparr>en_signatures := []\<rparr>, [])
                    else (case set_slots (snd x) raws of
                            None \<Rightarrow> None
                          | Some es \<Rightarrow> Some ((fst x)\<lparr>en_signatures := take (length raws) es\<rparr>, es))))"

definition envelope_text :: "((bytes \<Rightarrow> bytes) \<Rightarrow> envelope \<Rightarrow> envelope) \<Rightarrow> bytes \<Rightarrow> envelope_slots \<Rightarrow> envelope_slots option" where
  "envelope_text upd raw x = (case set_text upd raw (fst x) of None \<Rightarrow> None | Some env \<Rightarrow> Some (env, snd x))"

definition envelope_field :: "bytes \<Rightarrow> bytes \<Rightarrow> envelope_slots \<Rightarrow> envelope_slots option" where
  "envelope_field name raw x =
     (if name = ''ARTIFACT_KIND'' then envelope_text en_kind_update raw x
      else if name = ''PAYLOAD'' then Some ((fst x)\<lparr>en_payload := raw\<rparr>, snd x)
      else if name = ''PAYLOAD_SHA256'' then envelope_text en_payload_sha_update raw x
      else if name = ''CANONICALIZATION'' then envelope_text en_canonicalization_update raw x
      else if name = ''SIGNATURE_PROFILE'' then envelope_text en_profile_update raw x
      else if name = ''SIGNATURES'' then set_signatures raw x
      else Some x)"

definition new_envelope :: envelope where
  "new_envelope = \<lparr>en_kind = [], en_payload = [], en_payload_sha = [], en_canonicalization = [],
     en_profile = [], en_signatures = []\<rparr>"

definition value_text :: "bytes \<Rightarrow> bytes" where
  "value_text s = (case go_scan Value [] (ws s) of None \<Rightarrow> [] | Some t \<Rightarrow> take (length (ws s) - length t) (ws s))"

text \<open>A member of another type is an error of the whole, though the decoder goes on to the end.\<close>

definition unmarshal_envelope :: "bytes \<Rightarrow> envelope option" where
  "unmarshal_envelope bundle =
     (if \<not> go_valid bundle then None
      else map_option fst (set_object envelope_field (value_text bundle) (new_envelope, [])))"

section \<open>Strings survive\<close>

lemma decode_encoded: "decode_rune s = Some (r, u) \<Longrightarrow> s = encode_rune r @ u"
  by (rule decode_rune_exact)

lemma to_utf8_valid [simp]: "utf8_valid (to_utf8 s)"
proof (induction s rule: to_utf8.induct)
  case (1 s)
  then show ?case
    by (simp add: to_utf8.simps [of s] utf8_valid_encode_rune split: list.split option.split)
qed

lemma to_utf8_same: "utf8_valid s \<Longrightarrow> to_utf8 s = s"
proof (induction s rule: to_utf8.induct)
  case (1 s)
  show ?case
  proof (cases s)
    case Nil
    then show ?thesis by (simp add: to_utf8.simps)
  next
    case (Cons c t)
    with 1(3) obtain r u where d: "decode_rune s = Some (r, u)" "utf8_valid u"
      by (auto simp: utf8_valid_Cons split: option.splits)
    then have "to_utf8 u = u" using 1(2) [OF Cons d(1) refl] by simp
    then have "to_utf8 s = encode_rune r @ u" using Cons d by (simp add: to_utf8.simps [of "c # t"])
    then show ?thesis using decode_encoded [OF d(1)] by simp
  qed
qed

lemma to_utf8_iff: "to_utf8 s = s \<longleftrightarrow> utf8_valid s"
  using to_utf8_same to_utf8_valid [of s] by metis

lemma go_string_backslash: "go_string (CHR 0x5C # x) =
    (case go_escape x of None \<Rightarrow> None
     | Some (out, u) \<Rightarrow> (case go_string u of None \<Rightarrow> None | Some (k, v) \<Rightarrow> Some (out @ k, v)))"
  by (subst go_string.simps) simp

definition reads_as :: "bytes \<Rightarrow> bytes \<Rightarrow> bool" where
  "reads_as x k \<longleftrightarrow> (\<forall>t. go_string (x @ t) = (case go_string t of None \<Rightarrow> None | Some (l, u) \<Rightarrow> Some (k @ l, u)))"

lemma reads_as_Nil: "reads_as [] []"
  by (simp add: reads_as_def split: option.split)

lemma reads_as_append: "reads_as x k \<Longrightarrow> reads_as y l \<Longrightarrow> reads_as (x @ y) (k @ l)"
  by (simp add: reads_as_def split: option.split)

lemma reads_as_closed: "reads_as x k \<Longrightarrow> go_string (x @ CHR 0x22 # t) = Some (k, t)"
  by (simp add: reads_as_def) (simp add: go_string.simps)

lemma reads_as_plain: "c \<noteq> CHR 0x22 \<Longrightarrow> c \<noteq> CHR 0x5C \<Longrightarrow> \<not> c < CHR 0x20 \<Longrightarrow> reads_as [c] [c]"
  unfolding reads_as_def by (subst go_string.simps) (simp split: option.split)

lemma reads_as_high: "list_all (\<lambda>c. \<not> ascii c) p \<Longrightarrow> reads_as p p"
proof (induction p)
  case (Cons c p)
  have "c \<noteq> CHR 0x22" "c \<noteq> CHR 0x5C" "\<not> c < CHR 0x20" using Cons.prems control_ascii by (auto simp: ascii_def)
  then show ?case using Cons reads_as_append [OF reads_as_plain [of c], of p p] by simp
qed (rule reads_as_Nil)

lemma parse_u16_digits:
  "r < 65536 \<Longrightarrow> parse_u16 (hex_digit (r div 4096) # hex_digit (r div 256 mod 16) # hex_digit (r div 16 mod 16)
     # hex_digit (r mod 16) # t) = Some r"
proof -
  assume r: "r < 65536"
  then have d: "r div 4096 < 16" by (simp add: less_mult_imp_div_less)
  have "r div 256 = r div 16 div 16" "r div 4096 = r div 256 div 16" by (simp_all add: div_mult2_eq [symmetric])
  then have "((r div 4096 * 16 + r div 256 mod 16) * 16 + r div 16 mod 16) * 16 + r mod 16 = r"
    using div_mult_mod_eq [of "r div 256" 16] div_mult_mod_eq [of "r div 16" 16] div_mult_mod_eq [of r 16] by simp
  with d show ?thesis by (simp add: parse_u16_def)
qed

lemma reads_as_escape: "r < 65536 \<Longrightarrow> \<not> is_surrogate r \<Longrightarrow> reads_as (unicode_escape r) (encode_rune r)"
  using parse_u16_digits [of r]
  by (simp add: reads_as_def unicode_escape_def go_string_backslash go_escape_def)

lemma small_rune: "r < 128 \<Longrightarrow> r < 65536 \<and> \<not> is_surrogate r \<and> encode_rune r = [byte_of r]"
  by (simp add: is_surrogate_def encode_rune_def)

lemma reads_as_quote_byte: "ascii c \<Longrightarrow> reads_as (quote_byte c) [c]"
proof -
  assume a: "ascii c"
  have e: "reads_as (unicode_escape (byte_val c)) [c]"
    using reads_as_escape [of "byte_val c"] small_rune [of "byte_val c"] a by (simp add: ascii_def)
  have n: "reads_as [CHR 0x5C, d] [e]" if "\<And>t. go_escape (d # t) = Some ([e], t)" for d e
    using that by (simp add: reads_as_def go_string_backslash)
  have q: "reads_as [CHR 0x5C, CHR 0x22] [CHR 0x22]" "reads_as [CHR 0x5C, CHR 0x5C] [CHR 0x5C]"
    "reads_as [CHR 0x5C, CHR ''b''] [CHR 0x08]" "reads_as [CHR 0x5C, CHR ''f''] [CHR 0x0C]"
    "reads_as [CHR 0x5C, CHR ''n''] [CHR 0x0A]" "reads_as [CHR 0x5C, CHR ''r''] [CHR 0x0D]"
    "reads_as [CHR 0x5C, CHR ''t''] [CHR 0x09]"
    by (rule n, simp add: go_escape_def)+
  show ?thesis
    using e q reads_as_plain [of c] by (simp add: quote_byte_def)
qed

lemma rune_bytes:
  assumes "decode_rune s = Some (r, u)" "s = c # t" "\<not> ascii c"
  shows "list_all (\<lambda>c. \<not> ascii c) (encode_rune r)"
proof -
  obtain p where "s = p @ u" "list_all (\<lambda>c. \<not> ascii c) p" using decode_rune_split [OF assms(1,2)] assms(3) by blast
  then show ?thesis using decode_encoded [OF assms(1)] by simp
qed

lemma reads_as_quote: "reads_as (quote_runes s) (to_utf8 s)"
proof (induction s rule: quote_runes.induct)
  case (1 s)
  show ?case
  proof (cases s)
    case Nil
    then show ?thesis by (simp add: quote_runes.simps to_utf8.simps reads_as_Nil)
  next
    case (Cons c t)
    show ?thesis
    proof (cases "ascii c")
      case True
      have "to_utf8 s = [c] @ to_utf8 t"
        using Cons True encode_rune_byte [OF True] by (simp add: to_utf8.simps [of "c # t"] decode_rune_ascii)
      then show ?thesis using Cons True reads_as_append [OF reads_as_quote_byte 1(1)]
        by (simp add: quote_runes.simps [of "c # t"])
    next
      case False
      show ?thesis
      proof (cases "decode_rune s")
        case None
        have "reads_as (unicode_escape 0xFFFD) (encode_rune 0xFFFD)" by (rule reads_as_escape) (simp_all add: is_surrogate_def)
        then show ?thesis using Cons False None reads_as_append [OF _ 1(2)]
          by (simp add: quote_runes.simps [of "c # t"] to_utf8.simps [of "c # t"])
      next
        case (Some ru)
        then obtain r u where d: "decode_rune s = Some (r, u)" by (cases ru) simp
        have "reads_as (if r = 0x2028 \<or> r = 0x2029 then unicode_escape r else encode_rune r) (encode_rune r)"
        proof (cases "r = 0x2028 \<or> r = 0x2029")
          case True
          then show ?thesis using reads_as_escape [of r] by (auto simp: is_surrogate_def)
        next
          case False
          then show ?thesis using reads_as_high [OF rune_bytes [OF d Cons \<open>\<not> ascii c\<close>]] by simp
        qed
        moreover have "reads_as (quote_runes u) (to_utf8 u)"
          using 1(3,4) [OF Cons False d refl] by (cases "r = 0x2028 \<or> r = 0x2029") simp_all
        ultimately have "reads_as ((if r = 0x2028 \<or> r = 0x2029 then unicode_escape r else encode_rune r) @ quote_runes u)
            (encode_rune r @ to_utf8 u)" by (rule reads_as_append)
        moreover have "quote_runes s = (if r = 0x2028 \<or> r = 0x2029 then unicode_escape r else encode_rune r) @ quote_runes u"
          using Cons False d by (simp add: quote_runes.simps [of "c # t"])
        ultimately show ?thesis using Cons d by (simp add: to_utf8.simps [of "c # t"])
      qed
    qed
  qed
qed

lemma go_unquote_quote: "go_unquote (go_quote s) = Some (to_utf8 s)"
  using reads_as_closed [OF reads_as_quote, of s "[]"] by (simp add: go_unquote_def go_quote_def to_utf8_same)

section \<open>What compaction makes of canonical text\<close>

function html_body :: "bytes \<Rightarrow> bytes" where
  "html_body s =
     (case s of
        [] \<Rightarrow> []
      | c # t \<Rightarrow>
          if html_byte c then unicode_escape (byte_val c) @ html_body t
          else if separator s then unicode_escape (0x2020 + byte_val (s ! 2) mod 16) @ html_body (drop 2 t)
          else canon_byte c @ html_body t)"
  by pat_completeness auto
termination
  by (relation "measure length") auto

declare html_body.simps [simp del]

definition html_string :: "bytes \<Rightarrow> bytes" where
  "html_string s = CHR 0x22 # html_body s @ [CHR 0x22]"

lemma byte_val_char: "byte_val c = byte_val d \<longleftrightarrow> c = d"
  by (simp add: byte_val_inject)

lemma canon_byte_cases:
  assumes "ascii c"
  obtains (plain) "canon_byte c = [c]" "c \<noteq> CHR 0x22" "c \<noteq> CHR 0x5C" "\<not> c < CHR 0x20"
    | (short) d where "canon_byte c = [CHR 0x5C, d]" "\<And>t. go_escape (d # t) = Some ([c], t)" "d \<noteq> CHR ''u''"
        "ascii d" "\<not> html_byte d"
    | (unicode) "canon_byte c = unicode_escape (byte_val c)" "byte_val c < 32"
proof (cases "c < CHR 0x20")
  case False
  show ?thesis
  proof (cases "c = CHR 0x22 \<or> c = CHR 0x5C")
    case True
    then show ?thesis
      by (intro short [of c]) (auto simp: canon_byte_def emit_rune_def ascii_def go_escape_def html_byte_def)
  next
    case q: False
    have "byte_val c \<noteq> 34" "byte_val c \<noteq> 92"
      using q byte_val_inject [of c "CHR 0x22"] byte_val_inject [of c "CHR 0x5C"] by auto
    then have "canon_byte c = [c]"
      using False by (simp add: canon_byte_def emit_rune_def encode_rune_def byte_less_iff ascii_def)
    then show ?thesis using plain q False by blast
  qed
next
  case True
  then have l: "byte_val c < 32" by (simp add: byte_less_iff)
  consider "c = CHR 0x08" | "c = CHR 0x0C" | "c = CHR 0x0A" | "c = CHR 0x0D" | "c = CHR 0x09"
    | (other) "c \<noteq> CHR 0x08" "c \<noteq> CHR 0x0C" "c \<noteq> CHR 0x0A" "c \<noteq> CHR 0x0D" "c \<noteq> CHR 0x09" by blast
  then show ?thesis
  proof cases
    case other
    then have "byte_val c \<notin> {8, 12, 10, 13, 9}"
      using byte_val_inject [of c "CHR 0x08"] byte_val_inject [of c "CHR 0x0C"] byte_val_inject [of c "CHR 0x0A"]
        byte_val_inject [of c "CHR 0x0D"] byte_val_inject [of c "CHR 0x09"] by auto
    moreover have "hex_digit 0 = CHR ''0''" by code_simp
    ultimately have "canon_byte c = unicode_escape (byte_val c)"
      using l by (simp add: canon_byte_control [OF True] unicode_escape_def)
    then show ?thesis using unicode l by blast
  qed (use short canon_byte_control [OF True] in \<open>simp_all add: go_escape_def ascii_def html_byte_def\<close>)
qed

lemma reads_as_canon: "ascii c \<Longrightarrow> reads_as (canon_byte c) [c]"
proof (erule canon_byte_cases)
  assume "canon_byte c = [c]" "c \<noteq> CHR 0x22" "c \<noteq> CHR 0x5C" "\<not> c < CHR 0x20"
  then show ?thesis by (simp add: reads_as_plain)
next
  fix d
  assume "canon_byte c = [CHR 0x5C, d]" "\<And>t. go_escape (d # t) = Some ([c], t)"
  then show ?thesis by (simp add: reads_as_def go_string_backslash)
next
  assume "canon_byte c = unicode_escape (byte_val c)" "byte_val c < 32"
  then show ?thesis using reads_as_escape [of "byte_val c"] small_rune [of "byte_val c"] by simp
qed

lemma separatorE:
  assumes "separator s"
  obtains u where "s = [CHR 0xE2, CHR 0x80, CHR 0xA8] @ u" | u where "s = [CHR 0xE2, CHR 0x80, CHR 0xA9] @ u"
  using assms unfolding separator_def by (metis append_take_drop_id)

lemma html_byte_ascii: "html_byte c \<Longrightarrow> ascii c"
  by (auto simp: html_byte_def ascii_def)

lemma html_body_induct [case_names Nil html sep1 sep2 plain]:
  assumes "P []"
    and "\<And>c t. html_byte c \<Longrightarrow> P t \<Longrightarrow> P (c # t)"
    and "\<And>t. P t \<Longrightarrow> P ([CHR 0xE2, CHR 0x80, CHR 0xA8] @ t)"
    and "\<And>t. P t \<Longrightarrow> P ([CHR 0xE2, CHR 0x80, CHR 0xA9] @ t)"
    and "\<And>c t. \<not> html_byte c \<Longrightarrow> \<not> separator (c # t) \<Longrightarrow> P t \<Longrightarrow> P (c # t)"
  shows "P s"
proof (induction s rule: html_body.induct)
  case (1 s)
  show ?case
  proof (cases s)
    case Nil
    then show ?thesis using assms(1) by simp
  next
    case (Cons c t)
    show ?thesis
    proof (cases "html_byte c")
      case True
      then show ?thesis using assms(2) 1(1) Cons by blast
    next
      case False
      show ?thesis
      proof (cases "separator s")
        case True
        then have "P (drop 2 t)" using 1(2) Cons False by blast
        then show ?thesis using assms(3,4) Cons by (cases rule: separatorE [OF True]) auto
      next
        case nsep: False
        then show ?thesis using assms(5) 1(3) Cons False by blast
      qed
    qed
  qed
qed

lemma sep_values: "(0x2020 + byte_val (CHR 0xA8) mod 16 :: nat) = 0x2028" "(0x2020 + byte_val (CHR 0xA9) mod 16 :: nat) = 0x2029"
  by code_simp+

lemma html_body_sep:
  "html_body ([CHR 0xE2, CHR 0x80, CHR 0xA8] @ t) = unicode_escape 0x2028 @ html_body t"
  "html_body ([CHR 0xE2, CHR 0x80, CHR 0xA9] @ t) = unicode_escape 0x2029 @ html_body t"
  using sep_values by (simp_all add: html_body.simps [of "_ # _"] separator_def html_byte_def)

lemma html_body_Nil: "html_body [] = []"
  by (simp add: html_body.simps)

lemma html_body_html: "html_byte c \<Longrightarrow> html_body (c # t) = unicode_escape (byte_val c) @ html_body t"
  by (simp add: html_body.simps [of "c # t"])

lemma html_body_plain: "\<not> html_byte c \<Longrightarrow> \<not> separator (c # t) \<Longrightarrow> html_body (c # t) = canon_byte c @ html_body t"
  by (simp add: html_body.simps [of "c # t"])

lemma byte_of_eq: "byte_of n = c \<longleftrightarrow> n mod 256 = byte_val c"
  by (metis byte_of_val byte_val_of byte_val_inject)

lemma separator_runes:
  "encode_rune 0x2028 = [CHR 0xE2, CHR 0x80, CHR 0xA8]" "encode_rune 0x2029 = [CHR 0xE2, CHR 0x80, CHR 0xA9]"
  by (simp_all add: encode_rune_def scalar_def byte_of_eq)

lemma reads_as_separators:
  "reads_as (unicode_escape 0x2028) [CHR 0xE2, CHR 0x80, CHR 0xA8]"
  "reads_as (unicode_escape 0x2029) [CHR 0xE2, CHR 0x80, CHR 0xA9]"
  unfolding separator_runes [symmetric] by (rule reads_as_escape; simp add: is_surrogate_def)+

lemma reads_as_html: "reads_as (html_body s) s"
proof (induction s rule: html_body_induct)
  case (html c t)
  have "reads_as (unicode_escape (byte_val c)) [c]"
    using reads_as_escape [of "byte_val c"] small_rune [of "byte_val c"] html_byte_ascii [OF html(1)] by (simp add: ascii_def)
  from reads_as_append [OF this html(2)] html(1) show ?case by (simp add: html_body_html)
next
  case (sep1 t)
  show ?case unfolding html_body_sep by (rule reads_as_append [OF reads_as_separators(1) sep1])
next
  case (sep2 t)
  show ?case unfolding html_body_sep by (rule reads_as_append [OF reads_as_separators(2) sep2])
next
  case (plain c t)
  have "reads_as (canon_byte c) [c]"
    using reads_as_canon [of c] reads_as_high [of "[c]"] by (cases "ascii c") (simp_all add: canon_byte_def)
  from reads_as_append [OF this plain(3)] plain(1,2) show ?case by (simp add: html_body_plain)
qed (simp add: html_body_Nil reads_as_Nil)

lemma conts_of_rune: "list_all cont (tl (encode_rune r))"
proof -
  have "cont (byte_of (128 + n mod 64))" for n
  proof -
    have "128 + n mod 64 < 192" by simp
    then show ?thesis by (simp add: cont_def)
  qed
  then show ?thesis by (simp add: encode_rune_def cont_def)
qed

lemma separator_E2: "separator (c # t) \<Longrightarrow> c = CHR 0xE2"
  by (auto simp: separator_def)

lemma html_body_conts: "list_all cont p \<Longrightarrow> html_body (p @ u) = p @ html_body u"
proof (induction p)
  case (Cons c p)
  have c: "128 \<le> byte_val c" "byte_val c \<le> 191" using Cons.prems by (auto simp: cont_def)
  then have "\<not> ascii c" "c \<noteq> CHR 0xE2" by (auto simp: ascii_def)
  moreover from this have "\<not> html_byte c" using html_byte_ascii by blast
  moreover have "\<not> separator (c # p @ u)" using separator_E2 \<open>c \<noteq> CHR 0xE2\<close> by blast
  ultimately show ?case using Cons by (simp add: html_body_plain canon_byte_def)
qed simp

lemma separator_decoded: "decode_rune s = Some (r, u) \<Longrightarrow> separator s \<longleftrightarrow> r = 0x2028 \<or> r = 0x2029"
proof -
  assume d: "decode_rune s = Some (r, u)"
  have "r = 0x2028 \<or> r = 0x2029 \<Longrightarrow> separator s"
    using decode_encoded [OF d] separator_runes by (auto simp: separator_def)
  moreover have "r = 0x2028 \<or> r = 0x2029" if "separator s"
    using that
  proof (cases rule: separatorE)
    case (1 v)
    have "decode_rune ([CHR 0xE2, CHR 0x80, CHR 0xA8] @ v) = Some (0x2028, v)"
      by (simp add: decode_rune_def cont_def cont_bits_def)
    then show ?thesis using d 1 by simp
  next
    case (2 v)
    have "decode_rune ([CHR 0xE2, CHR 0x80, CHR 0xA9] @ v) = Some (0x2029, v)"
      by (simp add: decode_rune_def cont_def cont_bits_def)
    then show ?thesis using d 2 by simp
  qed
  ultimately show ?thesis by blast
qed

lemma hex_digit_ascii: "n < 16 \<Longrightarrow> ascii (hex_digit n) \<and> hex_digit n \<noteq> CHR 0x22 \<and> hex_digit n \<noteq> CHR 0x5C
    \<and> \<not> html_byte (hex_digit n)"
proof -
  have "\<forall>k \<in> set [0..<16]. ascii (hex_digit k) \<and> hex_digit k \<noteq> CHR 0x22 \<and> hex_digit k \<noteq> CHR 0x5C \<and> \<not> html_byte (hex_digit k)"
    by code_simp
  then show "n < 16 \<Longrightarrow> ?thesis" by simp
qed

lemma unicode_escape_ascii: "r < 65536 \<Longrightarrow> list_all ascii (unicode_escape r)"
proof -
  assume "r < 65536"
  then have "r div 4096 < 16" by (simp add: less_mult_imp_div_less)
  then show ?thesis using hex_digit_ascii by (simp add: unicode_escape_def) (simp add: ascii_def)
qed

lemma html_body_utf8: "utf8_valid s \<Longrightarrow> utf8_valid (html_body s)"
proof (induction s rule: to_utf8.induct)
  case (1 s)
  show ?case
  proof (cases s)
    case Nil
    then show ?thesis by (simp add: html_body_Nil)
  next
    case (Cons c t)
    with 1(3) obtain r u where d: "decode_rune s = Some (r, u)" "utf8_valid u"
      by (auto simp: utf8_valid_Cons split: option.splits)
    have ih: "utf8_valid (html_body u)" using 1(2) [OF Cons d(1) refl d(2)] .
    show ?thesis
    proof (cases "ascii c")
      case True
      then have u: "u = t" using d Cons by (simp add: decode_rune_ascii)
      have "\<not> separator (c # t)" using separator_E2 [of c t] True by (auto simp: ascii_def)
      moreover have "byte_val c < 65536" using True by (simp add: ascii_def)
      ultimately have "\<exists>x. list_all ascii x \<and> html_body s = x @ html_body u"
        using Cons u canon_byte_ascii [OF True] unicode_escape_ascii [of "byte_val c"]
        by (cases "html_byte c") (auto simp: html_body_html html_body_plain)
      then show ?thesis using ih by (auto simp: utf8_valid_append utf8_valid_all_ascii)
    next
      case False
      show ?thesis
      proof (cases "r = 0x2028 \<or> r = 0x2029")
        case True
        then have "html_body s = unicode_escape r @ html_body u"
          using decode_encoded [OF d(1)] html_body_sep [of u] separator_runes by auto
        moreover have "list_all ascii (unicode_escape r)" using True by (intro unicode_escape_ascii) auto
        ultimately show ?thesis using ih by (simp add: utf8_valid_append utf8_valid_all_ascii)
      next
        case nsep: False
        have s: "s = encode_rune r @ u" by (rule decode_encoded [OF d(1)])
        then have e: "encode_rune r = c # tl (encode_rune r)" "t = tl (encode_rune r) @ u"
          using Cons by (cases "encode_rune r"; simp)+
        have "\<not> separator (c # t)" using separator_decoded [OF d(1)] nsep Cons by simp
        moreover have "\<not> html_byte c" using False html_byte_ascii by blast
        ultimately have "html_body (c # t) = c # tl (encode_rune r) @ html_body u"
          using False html_body_conts [OF conts_of_rune [of r], of u] e(2)
          by (simp add: html_body_plain canon_byte_def)
        then have "html_body s = encode_rune r @ html_body u" using Cons e(1) by simp
        then show ?thesis using ih by (simp add: utf8_valid_encode_rune)
      qed
    qed
  qed
qed

text \<open>The escapes compaction writes name no half of a surrogate pair.\<close>

definition inside_quiet :: "bytes \<Rightarrow> bool" where
  "inside_quiet x \<longleftrightarrow> (\<forall>t. unicode_escapes True False (x @ t) = unicode_escapes True False t)"

lemma inside_quiet_append: "inside_quiet x \<Longrightarrow> inside_quiet y \<Longrightarrow> inside_quiet (x @ y)"
  by (simp add: inside_quiet_def)

lemma inside_step: "unicode_escapes True False (d # x) = unicode_escapes (d \<noteq> CHR 0x22) (d = CHR 0x5C) x"
  by (subst unicode_escapes.simps) simp

lemma inside_quiet_plain: "c \<noteq> CHR 0x22 \<Longrightarrow> c \<noteq> CHR 0x5C \<Longrightarrow> inside_quiet [c]"
  by (simp add: inside_quiet_def inside_step)

lemma inside_quiet_short: "d \<noteq> CHR ''u'' \<Longrightarrow> inside_quiet [CHR 0x5C, d]"
  by (simp add: inside_quiet_def inside_step) (simp add: unicode_escapes.simps [of True True])

lemma inside_quiet_escape:
  assumes "r < 65536" "\<not> is_surrogate r"
  shows "inside_quiet (unicode_escape r)"
proof -
  consider "r < 0xD800" | "0xDFFF < r" using assms(2) by (auto simp: is_surrogate_def)
  then show ?thesis
    using parse_u16_digits [OF assms(1)]
    by cases (simp_all add: inside_quiet_def unicode_escape_def inside_step unicode_escapes.simps [of True True])
qed

lemma inside_quiet_html: "inside_quiet (html_body s)"
proof (induction s rule: html_body_induct)
  case (html c t)
  have "inside_quiet (unicode_escape (byte_val c))"
    using inside_quiet_escape [of "byte_val c"] small_rune [of "byte_val c"] html_byte_ascii [OF html(1)] by (simp add: ascii_def)
  from inside_quiet_append [OF this html(2)] html(1) show ?case by (simp add: html_body_html)
next
  case (sep1 t)
  have "inside_quiet (unicode_escape 0x2028)" by (rule inside_quiet_escape) (simp_all add: is_surrogate_def)
  then show ?case unfolding html_body_sep by (rule inside_quiet_append [OF _ sep1])
next
  case (sep2 t)
  have "inside_quiet (unicode_escape 0x2029)" by (rule inside_quiet_escape) (simp_all add: is_surrogate_def)
  then show ?case unfolding html_body_sep by (rule inside_quiet_append [OF _ sep2])
next
  case (plain c t)
  have "inside_quiet (canon_byte c)"
  proof (cases "ascii c")
    case True
    then show ?thesis
      by (cases rule: canon_byte_cases)
        (use inside_quiet_escape [of "byte_val c"] small_rune [of "byte_val c"] in
          \<open>simp_all add: inside_quiet_plain inside_quiet_short\<close>)
  next
    case False
    then have "c \<noteq> CHR 0x22" "c \<noteq> CHR 0x5C" by (auto simp: ascii_def)
    then show ?thesis using inside_quiet_plain [of c] False by (simp add: canon_byte_def)
  qed
  from inside_quiet_append [OF this plain(3)] plain(1,2) show ?case by (simp add: html_body_plain)
qed (simp add: html_body_Nil inside_quiet_def)

lemma html_passes: "utf8_valid s \<Longrightarrow> passes (html_string s)"
proof -
  assume "utf8_valid s"
  then have "utf8_valid (html_string s)"
    using html_body_utf8 [of s] by (simp add: html_string_def utf8_valid_append ascii_def)
  moreover have "quiet (html_string s)"
    using inside_quiet_html [of s]
    by (simp add: quiet_def html_string_def unicode_escapes.simps [of False False "CHR 0x22 # _"] inside_quiet_def inside_step)
  ultimately show ?thesis by (simp add: passes_def)
qed

interpretation html: json_writer html_string
proof
  show "\<exists>u. html_string s @ t = CHR 0x22 # u \<and> go_string u = Some (s, t)" for s t
    using reads_as_closed [OF reads_as_html, of s t] by (simp add: html_string_def)
  show "utf8_valid s \<Longrightarrow> passes (html_string s)" for s by (rule html_passes)
qed

lemma compact_escape_step:
  "\<not> html_byte c \<Longrightarrow> c \<noteq> CHR 0xE2 \<Longrightarrow> st \<noteq> Outside \<or> \<not> is_ws c \<Longrightarrow> compact_text st (c # t) = c # compact_text (next_state st c) t"
  using separator_E2 [of c t] by (auto simp: compact_text.simps [of st "c # t"])

lemma compact_ascii:
  "list_all ascii x \<Longrightarrow> list_all (\<lambda>c. \<not> html_byte c \<and> c \<noteq> CHR 0x22 \<and> c \<noteq> CHR 0x5C) x
     \<Longrightarrow> compact_text Inside (x @ t) = x @ compact_text Inside t"
proof (induction x)
  case (Cons c x)
  then have "c \<noteq> CHR 0xE2" by (auto simp: ascii_def)
  with Cons show ?case by (simp add: compact_escape_step next_state_def)
qed simp

lemma compact_canon_byte:
  assumes "ascii c" "\<not> html_byte c"
  shows "compact_text Inside (canon_byte c @ t) = canon_byte c @ compact_text Inside t"
  using assms(1)
proof (cases rule: canon_byte_cases)
  case plain
  then show ?thesis using compact_ascii [of "[c]" t] assms by simp
next
  case (short d)
  have "\<not> html_byte (CHR 0x5C)" by (simp add: html_byte_def)
  moreover have "d \<noteq> CHR 0xE2" using short(4) by (auto simp: ascii_def)
  ultimately show ?thesis using short by (simp add: compact_escape_step next_state_def)
next
  case unicode
  have "byte_val c div 4096 < 16" using unicode(2) by (simp add: less_mult_imp_div_less)
  moreover have "\<not> html_byte (CHR 0x5C)" "\<not> html_byte (CHR ''u'')" by (simp_all add: html_byte_def)
  moreover have "compact_text Inside ([a, b, d, e] @ t) = [a, b, d, e] @ compact_text Inside t"
    if "list_all (\<lambda>c. ascii c \<and> \<not> html_byte c \<and> c \<noteq> CHR 0x22 \<and> c \<noteq> CHR 0x5C) [a, b, d, e]" for a b d e
    using that by (intro compact_ascii) simp_all
  ultimately show ?thesis
    using hex_digit_ascii by (simp add: unicode(1) unicode_escape_def compact_escape_step next_state_def)
qed

lemma separator_canon:
  assumes "separator (c # concat (map canon_byte t) @ CHR 0x22 # x)"
  shows "separator (c # t)"
proof -
  have hd: "\<exists>u. concat (map canon_byte t) @ CHR 0x22 # x = d # u \<and> \<not> ascii d
      \<Longrightarrow> \<exists>t'. t = d # t' \<and> concat (map canon_byte t) @ CHR 0x22 # x = d # concat (map canon_byte t') @ CHR 0x22 # x" for d t
  proof (cases t)
    case Nil
    assume "\<exists>u. concat (map canon_byte t) @ CHR 0x22 # x = d # u \<and> \<not> ascii d"
    then show ?thesis using Nil by (auto simp: ascii_def)
  next
    case (Cons e t')
    assume u: "\<exists>u. concat (map canon_byte t) @ CHR 0x22 # x = d # u \<and> \<not> ascii d"
    show ?thesis
    proof (cases "ascii e")
      case True
      have "canon_byte e \<noteq> []" by (cases rule: canon_byte_cases [OF True]) (simp_all add: unicode_escape_def)
      then have "ascii d" using u Cons canon_byte_ascii [OF True] by (cases "canon_byte e") auto
      then show ?thesis using u by blast
    next
      case False
      then show ?thesis using u Cons by (auto simp: canon_byte_def)
    qed
  qed
  obtain d e u where c: "c = CHR 0xE2" and de: "d = CHR 0x80" "e = CHR 0xA8 \<or> e = CHR 0xA9"
    and y: "concat (map canon_byte t) @ CHR 0x22 # x = d # e # u"
    using assms unfolding separator_def by (cases "concat (map canon_byte t) @ CHR 0x22 # x" rule: remdups_adj.cases) auto
  have na: "\<not> ascii d" "\<not> ascii e" using de by (auto simp: ascii_def)
  obtain t' where t': "t = d # t'" "concat (map canon_byte t) @ CHR 0x22 # x = d # concat (map canon_byte t') @ CHR 0x22 # x"
    using hd [of t d] y na by blast
  then have "concat (map canon_byte t') @ CHR 0x22 # x = e # u" using y by simp
  then obtain t'' where "t' = e # t''" using hd [of t' e] na by blast
  then show ?thesis using t' c de by (auto simp: separator_def)
qed

lemma compact_body:
  "compact_text Inside (concat (map canon_byte s) @ CHR 0x22 # t) = html_body s @ CHR 0x22 # compact_text Outside t"
proof (induction s rule: html_body_induct)
  case Nil
  have "\<not> html_byte (CHR 0x22)" by (simp add: html_byte_def)
  then show ?case by (simp add: html_body_Nil compact_escape_step next_state_def)
next
  case (html c s)
  then have "canon_byte c = [c]" "next_state Inside c = Inside"
    by (auto simp: html_byte_def canon_byte_def emit_rune_def encode_rune_def next_state_def ascii_def)
  with html show ?case by (simp add: html_body_html compact_text.simps [of Inside "c # _"])
next
  case (sep1 s)
  have "\<not> html_byte (CHR 0xE2)" by (simp add: html_byte_def)
  then show ?case using sep1 sep_values
    by (simp add: html_body_sep [simplified] compact_text.simps [of Inside "CHR 0xE2 # _"] separator_def next_state_def canon_byte_def ascii_def)
next
  case (sep2 s)
  have "\<not> html_byte (CHR 0xE2)" by (simp add: html_byte_def)
  then show ?case using sep2 sep_values
    by (simp add: html_body_sep [simplified] compact_text.simps [of Inside "CHR 0xE2 # _"] separator_def next_state_def canon_byte_def ascii_def)
next
  case (plain c s)
  show ?case
  proof (cases "ascii c")
    case True
    then show ?thesis using plain compact_canon_byte [OF True plain(1)] by (simp add: html_body_plain)
  next
    case False
    then have "canon_byte c = [c]" "c \<noteq> CHR 0x22" "c \<noteq> CHR 0x5C" by (auto simp: canon_byte_def ascii_def)
    moreover have "\<not> separator (c # concat (map canon_byte s) @ CHR 0x22 # t)"
      using separator_canon plain(2) by blast
    ultimately show ?thesis using plain
      by (simp add: html_body_plain compact_text.simps [of Inside "c # _"] next_state_def)
  qed
qed

lemma compact_outside: "\<not> html_byte c \<Longrightarrow> c \<noteq> CHR 0x22 \<Longrightarrow> ascii c \<Longrightarrow> \<not> is_ws c \<Longrightarrow>
    compact_text Outside (c # t) = c # compact_text Outside t"
proof -
  assume c: "\<not> html_byte c" "c \<noteq> CHR 0x22" "ascii c" "\<not> is_ws c"
  then have "c \<noteq> CHR 0xE2" by (auto simp: ascii_def)
  then show ?thesis using c compact_escape_step [of c Outside t] by (simp add: next_state_def)
qed

lemma compact_string: "utf8_valid s \<Longrightarrow> compact_text Outside (emit_string s @ t) = html_string s @ compact_text Outside t"
proof -
  have "compact_text Outside (CHR 0x22 # x) = CHR 0x22 # compact_text Inside x" for x
    using compact_escape_step [of "CHR 0x22" Outside x] by (simp add: html_byte_def is_ws_def next_state_def)
  then show "utf8_valid s \<Longrightarrow> ?thesis" by (simp add: emit_string_canon html_string_def compact_body)
qed

lemma compact_mark: "c \<in> {CHR ''{'', CHR ''}'', CHR ''['', CHR '']'', CHR '','', CHR '':''} \<Longrightarrow>
    compact_text Outside (c # t) = c # compact_text Outside t"
  by (rule compact_outside) (auto simp: html_byte_def ascii_def is_ws_def)

definition compacts :: "bytes \<Rightarrow> bytes \<Rightarrow> bool" where
  "compacts x y \<longleftrightarrow> (\<forall>t. compact_text Outside (x @ t) = y @ compact_text Outside t)"

lemma compacts_join: "list_all2 compacts xs ys \<Longrightarrow> compacts (join_with '','' xs) (join_with '','' ys)"
proof (induction xs ys rule: list_all2_induct)
  case (Cons x xs y ys)
  have "compacts (concat (map (\<lambda>y. CHR '','' # y) xs)) (concat (map (\<lambda>y. CHR '','' # y) ys))"
    using Cons(2) by (induction xs ys rule: list_all2_induct) (simp_all add: compacts_def compact_mark)
  then show ?case using Cons(1) by (simp add: join_comma compacts_def)
qed (simp add: compacts_def)

lemma compact_value: "good_value v \<Longrightarrow> compacts (emit_with emit_string v) (emit_with html_string v)"
proof (induction v)
  case (JObj m)
  define ks where "ks = sorted_list_of_fset (fmdom m)"
  have "list_all2 compacts (map (member_text emit_string m) ks) (map (member_text html_string m) ks)"
  proof (simp add: list.rel_map, rule list.rel_refl_strong)
    fix k
    assume "k \<in> set ks"
    then obtain v where v: "fmlookup m k = Some v" by (auto simp: ks_def fmlookup_dom_iff)
    then have "compacts (emit_with emit_string v) (emit_with html_string v)" "utf8_valid k" using JObj by (auto intro: fmran'I)
    then show "compacts (member_text emit_string m k) (member_text html_string m k)"
      using v compact_string [of k] by (simp add: compacts_def member_text_def compact_mark)
  qed
  then have "compacts (join_with '','' (map (member_text emit_string m) ks)) (join_with '','' (map (member_text html_string m) ks))"
    by (rule compacts_join)
  then show ?case by (simp add: compacts_def emit_obj ks_def compact_mark)
next
  case (JArr vs)
  then have "list_all2 compacts (map (emit_with emit_string) vs) (map (emit_with html_string) vs)"
    by (auto simp: list.rel_map intro: list.rel_refl_strong)
  then have "compacts (join_with '','' (map (emit_with emit_string) vs)) (join_with '','' (map (emit_with html_string) vs))"
    by (rule compacts_join)
  then show ?case by (simp add: compacts_def compact_mark)
next
  case (JNum n)
  then have n: "canonical_number_ok n" by simp
  have p: "compacts x x" if "list_all (\<lambda>c. is_digit c \<or> c = CHR ''-'' \<or> c = CHR ''.'') x" for x
    using that
  proof (induction x)
    case (Cons c x)
    have "\<not> html_byte c \<and> c \<noteq> CHR 0x22 \<and> ascii c \<and> \<not> is_ws c"
      using Cons(2) by (auto simp: html_byte_def is_digit_def byte_le_iff ascii_def is_ws_def)
    then show ?case using Cons by (simp add: compacts_def compact_outside)
  qed (simp add: compacts_def)
  have d: "list_all is_digit ds \<Longrightarrow> list_all (\<lambda>c. is_digit c \<or> c = CHR ''-'' \<or> c = CHR ''.'') ds" for ds
    by (auto simp: list_all_iff)
  have z: "is_digit (CHR ''0'')" by (simp add: is_digit_def)
  have "list_all (\<lambda>c. is_digit c \<or> c = CHR ''-'' \<or> c = CHR ''.'') n"
    using n z by (auto elim!: canonical_number_shape simp: int_text_def canon_frac_def d)
  then show ?case using p by simp
next
  case (JStr s)
  then show ?case by (simp add: compacts_def compact_string)
next
  case (JBool b)
  have "compacts x x" if "list_all is_lower x" for x
    using that
  proof (induction x)
    case (Cons c x)
    have "\<not> html_byte c \<and> c \<noteq> CHR 0x22 \<and> ascii c \<and> \<not> is_ws c"
      using Cons(2) by (auto simp: html_byte_def is_lower_def byte_le_iff ascii_def is_ws_def)
    then show ?case using Cons by (simp add: compacts_def compact_outside)
  qed (simp add: compacts_def)
  then show ?case by (simp add: is_lower_def)
next
  case JNull
  then show ?case by (simp add: compacts_def compact_outside html_byte_def ascii_def is_ws_def)
qed

lemma compact_canonical: "good_value v \<Longrightarrow> compact_text Outside (emit_value v) = emit_with html_string v"
  using compact_value [of v] by (auto simp: compacts_def emit_value_with compact_text.simps [of _ "[]"] dest: spec [of _ "[]"])

section \<open>Scanning what was written\<close>

text \<open>
  \<open>spans d x\<close>: the text \<open>x\<close> is one value that opens at most \<open>d\<close> brackets at once, and the scanner
  passes over it wherever it stands.
\<close>

definition spans :: "nat \<Rightarrow> bytes \<Rightarrow> bool" where
  "spans d x \<longleftrightarrow>
     (\<exists>c u. x = c # u \<and> \<not> is_ws c \<and> c \<noteq> CHR '']'')
     \<and> (\<forall>st t. length st + d \<le> max_nesting \<longrightarrow> closes t \<longrightarrow> go_scan Value st (x @ t) = go_scan AfterValue st t)"

lemma spansD: "spans d x \<Longrightarrow> length st + d \<le> max_nesting \<Longrightarrow> closes t \<Longrightarrow> go_scan Value st (x @ t) = go_scan AfterValue st t"
  by (simp add: spans_def)

lemma spans_hd: "spans d x \<Longrightarrow> \<exists>c u. x = c # u \<and> \<not> is_ws c \<and> c \<noteq> CHR '']''"
  by (simp add: spans_def)

lemma spans_mono: "spans d x \<Longrightarrow> d \<le> e \<Longrightarrow> spans e x"
  by (simp add: spans_def)

definition spells :: "bytes \<Rightarrow> bytes \<Rightarrow> bool" where
  "spells x k \<longleftrightarrow> (\<forall>t. \<exists>u. x @ t = CHR 0x22 # u \<and> go_string u = Some (k, t))"

lemma spells_quote: "spells (go_quote s) (to_utf8 s)"
  using reads_as_closed [OF reads_as_quote] by (simp add: spells_def go_quote_def)

lemma scan_done: "go_scan AfterValue [] t = Some t"
  by (simp add: go_scan.simps)

lemma scan_string: "go_string u = Some (k, t) \<Longrightarrow> go_scan Value st (CHR 0x22 # u) = go_scan AfterValue st t"
  by (simp add: go_scan.simps [of Value])

lemma spans_string: "spells x k \<Longrightarrow> spans 0 x"
proof -
  assume s: "spells x k"
  obtain u where "x = CHR 0x22 # u" using s [unfolded spells_def, THEN spec [of _ "[]"]] by auto
  moreover have "go_scan Value st (x @ t) = go_scan AfterValue st t" for st t
    using s [unfolded spells_def, THEN spec [of _ t]] scan_string by auto
  ultimately show ?thesis by (simp add: spans_def)
qed

lemma scan_first_element: "spans d x \<Longrightarrow> go_scan FirstElement st (x @ t) = go_scan Value st (x @ t)"
  using spans_hd [of d x] by (auto simp: go_scan.simps [of FirstElement] go_scan.simps [of Value])

lemma scan_key: "spells k key \<Longrightarrow> go_scan Key st (k @ CHR '':'' # t) = go_scan Value st t"
  "spells k key \<Longrightarrow> go_scan FirstKey st (k @ CHR '':'' # t) = go_scan Value st t"
proof -
  assume "spells k key"
  then obtain u where u: "k @ CHR '':'' # t = CHR 0x22 # u" "go_string u = Some (key, CHR '':'' # t)"
    unfolding spells_def by blast
  then show "go_scan Key st (k @ CHR '':'' # t) = go_scan Value st t"
    "go_scan FirstKey st (k @ CHR '':'' # t) = go_scan Value st t"
    by (simp_all add: go_scan.simps [of Key] go_scan.simps [of FirstKey])
qed

lemma scan_comma: "go_scan AfterValue (True # st) (CHR '','' # t) = go_scan Key (True # st) t"
  "go_scan AfterValue (False # st) (CHR '','' # t) = go_scan Value (False # st) t"
  by (simp_all add: go_scan.simps [of AfterValue])

lemma scan_close: "go_scan AfterValue (True # st) (CHR ''}'' # t) = go_scan AfterValue st t"
  "go_scan AfterValue (False # st) (CHR '']'' # t) = go_scan AfterValue st t"
  "go_scan FirstKey (True # st) (CHR ''}'' # t) = go_scan AfterValue st t"
  "go_scan FirstElement (False # st) (CHR '']'' # t) = go_scan AfterValue st t"
  by (simp_all add: go_scan.simps [of _ "_ # _" "_ # _"])

lemma scan_open: "length st < max_nesting \<Longrightarrow> go_scan Value st (CHR ''{'' # t) = go_scan FirstKey (True # st) t"
  "length st < max_nesting \<Longrightarrow> go_scan Value st (CHR ''['' # t) = go_scan FirstElement (False # st) t"
  by (simp_all add: go_scan.simps [of Value])

definition member_of :: "bytes \<times> bytes \<Rightarrow> bytes" where
  "member_of kv = fst kv @ CHR '':'' # snd kv"

lemma closes_members: "closes (concat (map (\<lambda>y. CHR '','' # y) xs) @ CHR ''}'' # t)"
  "closes (concat (map (\<lambda>y. CHR '','' # y) xs) @ CHR '']'' # t)"
  by (cases xs; simp add: closes_def)+

lemma scan_members:
  assumes "\<forall>kv \<in> set kvs. spans d (snd kv) \<and> (\<exists>k. spells (fst kv) k)" "length st + Suc d \<le> max_nesting"
  shows "go_scan AfterValue (True # st) (concat (map (\<lambda>y. CHR '','' # y) (map member_of kvs)) @ CHR ''}'' # t)
    = go_scan AfterValue st t"
  using assms(1)
proof (induction kvs)
  case Nil
  then show ?case by (simp add: scan_close)
next
  case (Cons kv kvs)
  let ?t = "concat (map (\<lambda>y. CHR '','' # y) (map member_of kvs)) @ CHR ''}'' # t"
  obtain k where k: "spells (fst kv) k" using Cons.prems by auto
  have "go_scan Value (True # st) (snd kv @ ?t) = go_scan AfterValue (True # st) ?t"
    using Cons.prems assms(2) by (intro spansD [of d] closes_members) auto
  then show ?case using Cons scan_key(1) [OF k] by (simp add: scan_comma member_of_def [of kv])
qed

lemma spans_object:
  assumes "\<forall>kv \<in> set kvs. spans d (snd kv) \<and> (\<exists>k. spells (fst kv) k)"
  shows "spans (Suc d) (CHR ''{'' # join_with '','' (map member_of kvs) @ ''}'')"
proof -
  have "go_scan Value st (CHR ''{'' # join_with '','' (map member_of kvs) @ CHR ''}'' # t) = go_scan AfterValue st t"
    if st: "length st + Suc d \<le> max_nesting" for st t
  proof (cases kvs)
    case Nil
    then show ?thesis using st by (simp add: scan_open scan_close)
  next
    case (Cons kv r)
    obtain k where k: "spells (fst kv) k" using assms Cons by auto
    let ?t = "concat (map (\<lambda>y. CHR '','' # y) (map member_of r)) @ CHR ''}'' # t"
    have "go_scan Value st (CHR ''{'' # join_with '','' (map member_of kvs) @ CHR ''}'' # t)
        = go_scan Value (True # st) (snd kv @ ?t)"
      using st scan_key(2) [OF k] by (simp add: Cons join_comma scan_open member_of_def [of kv])
    also have "\<dots> = go_scan AfterValue (True # st) ?t"
      using assms st Cons by (intro spansD [of d] closes_members) auto
    also have "\<dots> = go_scan AfterValue st t" using assms st Cons by (intro scan_members [of _ d]) auto
    finally show ?thesis .
  qed
  then show ?thesis by (simp add: spans_def)
qed

lemma scan_elements:
  assumes "\<forall>v \<in> set vs. spans d v" "length st + Suc d \<le> max_nesting"
  shows "go_scan AfterValue (False # st) (concat (map (\<lambda>y. CHR '','' # y) vs) @ CHR '']'' # t) = go_scan AfterValue st t"
  using assms(1)
proof (induction vs)
  case Nil
  then show ?case by (simp add: scan_close)
next
  case (Cons v vs)
  have "go_scan Value (False # st) (v @ concat (map (\<lambda>y. CHR '','' # y) vs) @ CHR '']'' # t)
      = go_scan AfterValue (False # st) (concat (map (\<lambda>y. CHR '','' # y) vs) @ CHR '']'' # t)"
    using Cons.prems assms(2) by (intro spansD [of d] closes_members) auto
  then show ?case using Cons by (simp add: scan_comma)
qed

lemma spans_array:
  assumes "\<forall>v \<in> set vs. spans d v"
  shows "spans (Suc d) (CHR ''['' # join_with '','' vs @ '']'')"
proof -
  have "go_scan Value st (CHR ''['' # join_with '','' vs @ CHR '']'' # t) = go_scan AfterValue st t"
    if st: "length st + Suc d \<le> max_nesting" for st t
  proof (cases vs)
    case Nil
    then show ?thesis using st by (simp add: scan_open scan_close)
  next
    case (Cons v r)
    let ?t = "concat (map (\<lambda>y. CHR '','' # y) r) @ CHR '']'' # t"
    have "go_scan Value st (CHR ''['' # join_with '','' vs @ CHR '']'' # t) = go_scan Value (False # st) (v @ ?t)"
      using st scan_first_element [of d v] assms by (simp add: Cons join_comma scan_open)
    also have "\<dots> = go_scan AfterValue (False # st) ?t"
      using assms st Cons by (intro spansD [of d] closes_members) auto
    also have "\<dots> = go_scan AfterValue st t" using assms st Cons by (intro scan_elements [of _ d]) auto
    finally show ?thesis .
  qed
  then show ?thesis by (simp add: spans_def)
qed

section \<open>Nesting\<close>

text \<open>A value that opens at most \<open>d\<close> brackets at once.\<close>

primrec json_within :: "'n json \<Rightarrow> nat \<Rightarrow> bool" where
  "json_within (JObj m) = (\<lambda>d. 0 < d \<and> fmpred (\<lambda>k ok. ok (d - 1)) (fmmap json_within m))"
| "json_within (JArr vs) = (\<lambda>d. 0 < d \<and> list_all (\<lambda>ok. ok (d - 1)) (map json_within vs))"
| "json_within (JStr s) = (\<lambda>d. True)"
| "json_within (JNum n) = (\<lambda>d. True)"
| "json_within (JBool b) = (\<lambda>d. True)"
| "json_within JNull = (\<lambda>d. True)"

lemma json_within_obj: "json_within (JObj m) d \<longleftrightarrow> 0 < d \<and> (\<forall>k v. fmlookup m k = Some v \<longrightarrow> json_within v (d - 1))"
  by (auto simp: fmpred_iff)

lemma json_within_arr: "json_within (JArr vs) d \<longleftrightarrow> 0 < d \<and> (\<forall>v \<in> set vs. json_within v (d - 1))"
  by (auto simp: list_all_iff)

lemma scan_word:
  "go_scan Value st (''true'' @ t) = go_scan AfterValue st t" "go_scan Value st (''false'' @ t) = go_scan AfterValue st t"
  "go_scan Value st (''null'' @ t) = go_scan AfterValue st t"
  by (simp_all add: go_scan.simps [of Value] is_ws_def is_digit_def literal_def)

context json_writer
begin

lemma w_spells: "utf8_valid s \<Longrightarrow> spells (w s) s"
  using w_reads [of s] by (simp add: spells_def)

lemma w_spans: "good_value v \<Longrightarrow> json_within v d \<Longrightarrow> spans d (emit_with w v)"
proof (induction v arbitrary: d)
  case (JObj m)
  obtain e where d: "d = Suc e" using JObj(3) by (cases d) auto
  define ks where "ks = sorted_list_of_fset (fmdom m)"
  define kvs where "kvs = map (\<lambda>k. (w k, emit_with w (the (fmlookup m k)))) ks"
  have "spans e (snd kv) \<and> (\<exists>k. spells (fst kv) k)" if kv: "kv \<in> set kvs" for kv
  proof -
    obtain k where kk: "k \<in> set ks" "kv = (w k, emit_with w (the (fmlookup m k)))"
      using kv by (auto simp: kvs_def)
    then obtain v where k: "fmlookup m k = Some v" "kv = (w k, emit_with w v)" by (auto simp: ks_def fmlookup_dom_iff)
    moreover have "utf8_valid k" "good_value v" using JObj(2) k(1) by (simp_all only: json_all_obj)
    moreover have "json_within v e" using JObj(3) k(1) d by (simp only: json_within_obj diff_Suc_1)
    ultimately show ?thesis using JObj(1) [OF fmran'I] w_spells [of k] by auto
  qed
  then have "spans (Suc e) (CHR ''{'' # join_with '','' (map member_of kvs) @ ''}'')" by (intro spans_object) blast
  moreover have "map member_of kvs = map (member_text w m) ks"
    by (simp add: kvs_def member_of_def member_text_def)
  ultimately show ?case by (simp only: emit_obj ks_def d)
next
  case (JArr vs)
  obtain e where d: "d = Suc e" using JArr(3) by (cases d) auto
  have "spans e x" if "x \<in> set (map (emit_with w) vs)" for x
    using that JArr d by (auto simp: json_within_arr simp del: json_within.simps)
  then show ?case using spans_array [of "map (emit_with w) vs" e] d by simp
next
  case (JStr s)
  then have "spans 0 (w s)" using spans_string [OF w_spells] by simp
  then show ?case using spans_mono [of 0] by simp
next
  case (JNum n)
  then have n: "canonical_number_ok n" by simp
  obtain c u where c: "n = c # u" "c = CHR ''-'' \<or> is_digit c"
    using number_text_hd [OF canonical_number_text [OF n]] by (cases n) auto
  then have h: "\<not> is_ws c" "c \<noteq> CHR ''{''" "c \<noteq> CHR ''[''" "c \<noteq> CHR 0x22" "c \<noteq> CHR '']''"
    using digit_not_ws [of c] by (auto simp: is_ws_def)
  have "go_scan Value st (n @ t) = go_scan AfterValue st t" if "closes t" for st t
    using go_number_complete [OF n closes_stop [OF that]] c h by (simp add: go_scan.simps [of Value])
  then show ?case using c h by (simp add: spans_def)
next
  case (JBool b)
  show ?case using scan_word by (cases b) (simp_all add: spans_def is_ws_def)
next
  case JNull
  show ?case using scan_word by (simp add: spans_def is_ws_def)
qed

end

lemma spans_valid: "spans d x \<Longrightarrow> d \<le> max_nesting \<Longrightarrow> go_valid x"
  using spansD [of d x "[]" "[]"] by (simp add: go_valid_def scan_done closes_def ws_def)

section \<open>An envelope survives\<close>

lemma take_value: "take (length (x @ t) - length t) (x @ t) = x"
  by simp

lemma ws_spans: "spans d x \<Longrightarrow> ws (x @ t) = x @ t"
  using spans_hd [of d x] by auto

lemma scan_value: "spans d x \<Longrightarrow> d \<le> max_nesting \<Longrightarrow> closes t \<Longrightarrow> go_scan Value [] (x @ t) = Some t"
  using spansD [of d x "[]" t] by (simp add: scan_done)

lemma go_members_one:
  assumes "spells k key" "spans d v" "d \<le> max_nesting" "closes t"
  shows "go_members False (CHR '','' # member_of (k, v) @ t) =
      (case go_members False t of None \<Rightarrow> None | Some ms \<Rightarrow> Some ((to_utf8 key, v) # ms))"
    and "go_members True (member_of (k, v) @ t) =
      (case go_members False t of None \<Rightarrow> None | Some ms \<Rightarrow> Some ((to_utf8 key, v) # ms))"
proof -
  obtain u where u: "k @ CHR '':'' # v @ t = CHR 0x22 # u" "go_string u = Some (key, CHR '':'' # v @ t)"
    using assms(1) unfolding spells_def by blast
  note facts = u(2) ws_spans [OF assms(2), of t] scan_value [OF assms(2,3,4)] take_value [of v t]
  have m: "member_of (k, v) @ t = CHR 0x22 # u" using u(1) by (simp add: member_of_def)
  show "go_members False (CHR '','' # member_of (k, v) @ t) =
      (case go_members False t of None \<Rightarrow> None | Some ms \<Rightarrow> Some ((to_utf8 key, v) # ms))"
    unfolding m using facts by (simp add: go_members.simps [of False "CHR '','' # _"] split: option.split)
  show "go_members True (member_of (k, v) @ t) =
      (case go_members False t of None \<Rightarrow> None | Some ms \<Rightarrow> Some ((to_utf8 key, v) # ms))"
    unfolding m using facts by (simp add: go_members.simps [of True] split: option.split)
qed

definition raw_pair :: "bytes \<times> bytes \<Rightarrow> bytes \<times> bytes" where
  "raw_pair kv = (go_quote (fst kv), snd kv)"

lemma go_object_members: "go_object kvs = CHR ''{'' # join_with '','' (map member_of (map raw_pair kvs)) @ ''}''"
  by (simp add: go_object_def member_of_def raw_pair_def comp_def)

lemma go_members_written:
  assumes "\<forall>kv \<in> set kvs. spans d (snd kv) \<and> utf8_valid (fst kv)" "d \<le> max_nesting"
  shows "go_members False (concat (map (\<lambda>y. CHR '','' # y) (map member_of (map raw_pair kvs))) @ CHR ''}'' # t) = Some kvs"
  using assms(1)
proof (induction kvs)
  case Nil
  then show ?case by (simp add: go_members.simps)
next
  case (Cons kv kvs)
  obtain k v where kv: "kv = (k, v)" by (cases kv)
  then have v: "spans d v" "to_utf8 k = k" using Cons.prems by (simp_all add: to_utf8_same)
  let ?t = "concat (map (\<lambda>y. CHR '','' # y) (map member_of (map raw_pair kvs))) @ CHR ''}'' # t"
  have "go_members False ?t = Some kvs" using Cons by simp
  moreover have "concat (map (\<lambda>y. CHR '','' # y) (map member_of (map raw_pair (kv # kvs)))) @ CHR ''}'' # t
      = CHR '','' # member_of (go_quote k, v) @ ?t" by (simp add: kv raw_pair_def [of "(k, v)"])
  ultimately show ?case
    using go_members_one(1) [OF spells_quote [of k] v(1) assms(2) closes_members(1)] v(2)
    by (simp only: kv option.case to_utf8_same [OF to_utf8_valid])
qed

lemma go_members_object:
  assumes "\<forall>kv \<in> set kvs. spans d (snd kv) \<and> utf8_valid (fst kv)" "d \<le> max_nesting"
  shows "go_members True (tl (go_object kvs)) = Some kvs"
proof (cases kvs)
  case Nil
  then show ?thesis by (simp add: go_object_def go_members.simps)
next
  case (Cons kv r)
  obtain k v where kv: "kv = (k, v)" by (cases kv)
  then have v: "spans d v" "to_utf8 k = k" using assms(1) Cons by (simp_all add: to_utf8_same)
  let ?t = "concat (map (\<lambda>y. CHR '','' # y) (map member_of (map raw_pair r))) @ CHR ''}'' # []"
  have "go_members False ?t = Some r" using assms Cons by (intro go_members_written) auto
  moreover have "tl (go_object kvs) = member_of (go_quote k, v) @ ?t"
    by (simp add: go_object_members Cons kv join_comma raw_pair_def [of "(k, v)"])
  ultimately show ?thesis
    using go_members_one(2) [OF spells_quote [of k] v(1) assms(2) closes_members(1)] v(2)
    by (simp only: Cons kv option.case to_utf8_same [OF to_utf8_valid])
qed

lemma spans_go_object:
  assumes "\<forall>kv \<in> set kvs. spans d (snd kv)"
  shows "spans (Suc d) (go_object kvs)"
  unfolding go_object_members by (rule spans_object) (use assms spells_quote in \<open>auto simp: raw_pair_def\<close>)

lemma go_elements_one:
  assumes "spans d v" "d \<le> max_nesting" "closes t"
  shows "go_elements False (CHR '','' # v @ t) = (case go_elements False t of None \<Rightarrow> None | Some vs \<Rightarrow> Some (v # vs))"
    and "go_elements True (v @ t) = (case go_elements False t of None \<Rightarrow> None | Some vs \<Rightarrow> Some (v # vs))"
proof -
  note facts = ws_spans [OF assms(1), of t] scan_value [OF assms] take_value [of v t]
  obtain c u where c: "v = c # u" "\<not> is_ws c" "c \<noteq> CHR '']''" using spans_hd [OF assms(1)] by blast
  show "go_elements False (CHR '','' # v @ t) = (case go_elements False t of None \<Rightarrow> None | Some vs \<Rightarrow> Some (v # vs))"
    using facts by (simp add: go_elements.simps [of False "CHR '','' # _"] split: option.split)
  show "go_elements True (v @ t) = (case go_elements False t of None \<Rightarrow> None | Some vs \<Rightarrow> Some (v # vs))"
    using facts c by (simp add: go_elements.simps [of True] split: option.split)
qed

lemma go_elements_written:
  "\<forall>v \<in> set vs. spans d v \<Longrightarrow> d \<le> max_nesting \<Longrightarrow>
     go_elements False (concat (map (\<lambda>y. CHR '','' # y) vs) @ CHR '']'' # t) = Some vs"
proof (induction vs)
  case Nil
  then show ?case by (simp add: go_elements.simps)
next
  case (Cons v vs)
  then show ?case
    using go_elements_one(1) [of d v, OF _ Cons.prems(2) closes_members(2) [of vs]] by simp
qed

lemma go_elements_array:
  assumes "\<forall>v \<in> set vs. spans d v" "d \<le> max_nesting"
  shows "go_elements True (tl (go_array vs)) = Some vs"
proof (cases vs)
  case Nil
  then show ?thesis by (simp add: go_array_def go_elements.simps)
next
  case (Cons v r)
  then show ?thesis
    using go_elements_one(2) [of d v, OF _ assms(2) closes_members(2) [of r]] go_elements_written [of r d "[]"] assms
    by (simp add: go_array_def join_comma)
qed

lemma fold_name_ascii:
  "list_all ascii s \<Longrightarrow> fold_name s = map (\<lambda>c. if is_lower c then byte_of (byte_val c - 32) else c) s"
proof (induction s)
  case (Cons c s)
  have "c \<noteq> CHR 0xC5" "c \<noteq> CHR 0xE2" using Cons.prems by (auto simp: ascii_def)
  then show ?case using Cons by (simp add: fold_name.simps [of "c # s"])
qed (simp add: fold_name.simps)

lemma field_names:
  "fold_name ''artifact_kind'' = ''ARTIFACT_KIND''" "fold_name ''payload'' = ''PAYLOAD''"
  "fold_name ''payload_sha256'' = ''PAYLOAD_SHA256''" "fold_name ''canonicalization'' = ''CANONICALIZATION''"
  "fold_name ''signature_profile'' = ''SIGNATURE_PROFILE''" "fold_name ''signatures'' = ''SIGNATURES''"
  "fold_name ''alg'' = ''ALG''" "fold_name ''key_id'' = ''KEY_ID''"
  "fold_name ''public_key_fingerprint'' = ''PUBLIC_KEY_FINGERPRINT''"
  "fold_name ''signature_input_sha256'' = ''SIGNATURE_INPUT_SHA256''" "fold_name ''sig_b64'' = ''SIG_B64''"
  by (subst fold_name_ascii; simp add: ascii_def is_lower_def byte_le_iff byte_of_eq)+

definition utf8_entry :: "signature_entry \<Rightarrow> signature_entry" where
  "utf8_entry e = \<lparr>se_alg = to_utf8 (se_alg e), se_key_id = to_utf8 (se_key_id e),
     se_fingerprint = to_utf8 (se_fingerprint e), se_input_sha = to_utf8 (se_input_sha e),
     se_sig_b64 = to_utf8 (se_sig_b64 e)\<rparr>"

lemma set_text_quote: "set_text upd (go_quote s) v = Some (upd (\<lambda>_. to_utf8 s) v)"
  by (simp add: set_text_def go_unquote_quote) (simp add: go_quote_def)

lemma spans_quote: "spans d (go_quote s)"
  using spans_mono [OF spans_string [OF spells_quote]] by simp

lemma spans_null: "spans d ''null''"
  using scan_word(3) by (simp add: spans_def is_ws_def)

lemma spans_entry: "spans 1 (marshal_entry e)"
  using spans_go_object [of _ 0] by (simp add: marshal_entry_def spans_quote)

lemma set_object_written:
  assumes "\<forall>kv \<in> set kvs. spans d (snd kv) \<and> utf8_valid (fst kv)" "d \<le> max_nesting"
  shows "set_object put (go_object kvs) v = set_members put kvs v"
  using go_members_object [OF assms] by (simp add: set_object_def go_object_def)

lemma plain_names:
  "utf8_valid ''artifact_kind''" "utf8_valid ''payload''" "utf8_valid ''payload_sha256''" "utf8_valid ''canonicalization''"
  "utf8_valid ''signature_profile''" "utf8_valid ''signatures''" "utf8_valid ''alg''" "utf8_valid ''key_id''"
  "utf8_valid ''public_key_fingerprint''" "utf8_valid ''signature_input_sha256''" "utf8_valid ''sig_b64''"
  by (simp_all add: ascii_def)

lemma set_entry: "set_object entry_field (marshal_entry e) new_entry = Some (utf8_entry e)"
proof -
  have "set_object entry_field (marshal_entry e) new_entry = set_members entry_field
      [(''alg'', go_quote (se_alg e)), (''key_id'', go_quote (se_key_id e)),
       (''public_key_fingerprint'', go_quote (se_fingerprint e)),
       (''signature_input_sha256'', go_quote (se_input_sha e)), (''sig_b64'', go_quote (se_sig_b64 e))] new_entry"
    unfolding marshal_entry_def
    by (rule set_object_written [of _ 0]) (simp_all add: spans_quote plain_names max_nesting_def)
  then show ?thesis by (simp add: field_names entry_field_def set_text_quote new_entry_def utf8_entry_def)
qed

lemma set_slots_written: "set_slots [] (map marshal_entry es) = Some (map utf8_entry es)"
  by (induction es) (simp_all add: set_entry)

lemma set_signatures_written:
  "set_signatures (if es = [] then ''null'' else go_array (map marshal_entry es)) (env, [])
     = Some (env\<lparr>en_signatures := map utf8_entry es\<rparr>, map utf8_entry es)"
proof (cases "es = []")
  case False
  have "go_elements True (tl (go_array (map marshal_entry es))) = Some (map marshal_entry es)"
    by (rule go_elements_array [of _ 1]) (use spans_entry in \<open>auto simp: max_nesting_def\<close>)
  then show ?thesis using False set_slots_written [of es]
    by (simp add: set_signatures_def) (simp add: go_array_def)
qed (simp add: set_signatures_def)

definition utf8_envelope :: "bytes \<Rightarrow> envelope \<Rightarrow> envelope" where
  "utf8_envelope payload env = \<lparr>en_kind = to_utf8 (en_kind env), en_payload = payload,
     en_payload_sha = to_utf8 (en_payload_sha env), en_canonicalization = to_utf8 (en_canonicalization env),
     en_profile = to_utf8 (en_profile env), en_signatures = map utf8_entry (en_signatures env)\<rparr>"

lemma emit_nonempty: "good_value v \<Longrightarrow> emit_value v \<noteq> []"
  using canon.w_hd [of v] by (auto simp: emit_value_with)

text \<open>
  What is read back of a written envelope: the strings as UTF-8, and the payload as \<open>encoding/json\<close>
  respells it, which has the same canonical text.
\<close>

lemma envelope_read_back:
  assumes "good_value v" "json_within v 9999" "en_payload env = emit_value v"
  shows "\<exists>bundle. marshal_envelope env = Some bundle
    \<and> unmarshal_envelope bundle = Some (utf8_envelope (emit_with html_string v) env)"
proof -
  define kvs where "kvs =
    [(''artifact_kind'', go_quote (en_kind env)), (''payload'', emit_with html_string v),
     (''payload_sha256'', go_quote (en_payload_sha env)), (''canonicalization'', go_quote (en_canonicalization env)),
     (''signature_profile'', go_quote (en_profile env)),
     (''signatures'', if en_signatures env = [] then ''null'' else go_array (map marshal_entry (en_signatures env)))]"
  have valid: "go_valid (en_payload env)"
    using spans_valid [OF canon.w_spans [OF assms(1,2)]] assms(3) by (simp add: emit_value_with max_nesting_def)
  have m: "marshal_envelope env = Some (go_object kvs)"
    using valid assms(1,3) emit_nonempty by (simp add: marshal_envelope_def kvs_def compact_canonical)
  have "spans 2 (go_array (map marshal_entry (en_signatures env)))"
    using spans_array [of "map marshal_entry (en_signatures env)" 1] spans_entry by (simp add: go_array_def numeral_2_eq_2)
  then have sig: "spans 9999 (go_array (map marshal_entry (en_signatures env)))" by (rule spans_mono) simp
  have s: "\<forall>kv \<in> set kvs. spans 9999 (snd kv) \<and> utf8_valid (fst kv)"
    using html.w_spans [OF assms(1,2)] sig by (simp add: kvs_def spans_quote spans_null plain_names)
  then have sp: "spans 10000 (go_object kvs)" using spans_go_object [of kvs 9999] by simp
  then have scan: "go_scan Value [] (go_object kvs) = Some []"
    using scan_value [OF sp, of "[]"] by (simp add: closes_def max_nesting_def)
  have w: "ws (go_object kvs) = go_object kvs" using ws_spans [OF sp, of "[]"] by simp
  have "go_valid (go_object kvs)" using scan by (simp add: go_valid_def ws_def)
  moreover have "value_text (go_object kvs) = go_object kvs" by (simp add: value_text_def w scan)
  moreover have "set_object envelope_field (go_object kvs) (new_envelope, []) = set_members envelope_field kvs (new_envelope, [])"
    by (rule set_object_written [OF s]) (simp add: max_nesting_def)
  moreover have "set_members envelope_field kvs (new_envelope, []) =
      Some (utf8_envelope (emit_with html_string v) env, map utf8_entry (en_signatures env))"
    by (simp add: kvs_def field_names envelope_field_def envelope_text_def set_text_quote set_signatures_written
        new_envelope_def utf8_envelope_def)
  ultimately have "unmarshal_envelope (go_object kvs) = Some (utf8_envelope (emit_with html_string v) env)"
    by (simp add: unmarshal_envelope_def)
  then show ?thesis using m by blast
qed

lemma respelled_payload: "good_value v \<Longrightarrow> canonicalize_v1 (emit_with html_string v) = Inr (emit_value v)"
proof -
  assume g: "good_value v"
  have "parse_value (emit_with html_string v) = Inr (v, [])"
    using readsD [OF html.w_reads_value [OF g], of "[]"] by (simp add: closes_def)
  then have "canonical_value (emit_with html_string v) = Inr v"
    using passes_validate [OF html.w_passes_value [OF g]] by (simp add: canonical_value_def parse_canon_value_def ws_def)
  then show ?thesis by (simp add: canonicalize_v1_def)
qed

end
