(* ===== verification/Native.thy ===== *)
theory Native
  imports Declarations
begin

text \<open>
  Native variants: accelerator profiles and models (\<open>native.go\<close>), the declarations and ceilings of
  runtime trees (\<open>runtime.go\<close>), the source-of-vectors declaration after its decoding
  (\<open>ValidateEmbeddings\<close> of \<open>embeddings.go\<close>) and the partition of operations among interfaces
  (\<open>manifest.go\<close>). \<open>int\<close> and \<open>int64\<close> fields are integers; the sums here stay far
  below their range for every input that passes the checks before them.
\<close>

section \<open>Models\<close>

definition token_char :: "char \<Rightarrow> bool" where
  "token_char c \<longleftrightarrow> is_lower c \<or> is_digit c \<or> c \<in> {CHR ''.'', CHR ''_'', CHR ''+'', CHR ''-''}"

definition re_token :: "bytes \<Rightarrow> bool" where
  "re_token = re_class (\<lambda>c. is_lower c \<or> is_digit c) token_char 63"

definition re_model_name :: "bytes \<Rightarrow> bool" where
  "re_model_name = re_class (\<lambda>c. is_lower c \<or> is_digit c) token_char 127"

definition re_model_segment :: "bytes \<Rightarrow> bool" where
  "re_model_segment = re_class (\<lambda>c. is_upper c \<or> is_lower c \<or> is_digit c \<or> c = CHR ''.'') component_byte 127"

definition re_sha256 :: "bytes \<Rightarrow> bool" where
  "re_sha256 s \<longleftrightarrow> length s = 64 \<and> list_all (\<lambda>c. is_digit c \<or> CHR ''a'' \<le> c \<and> c \<le> CHR ''f'') s"

record model_when =
  when_setting :: bytes
  when_values :: "bytes list"

record model_decl =
  md_name :: bytes
  md_path :: bytes
  md_url :: bytes
  md_sha256 :: bytes
  md_size :: int
  md_when :: "model_when option"

definition max_models :: nat where "max_models = 256"
definition max_model_bytes :: int where "max_model_bytes = 16 * 2 ^ 30"
definition max_model_when_values :: nat where "max_model_when_values = 64"
definition max_model_path_bytes :: nat where "max_model_path_bytes = 255"
definition max_model_path_depth :: nat where "max_model_path_depth = 8"
definition model_when_min_host :: bytes where "model_when_min_host = ''0.1.15''"

definition model_dest :: "model_decl \<Rightarrow> bytes" where
  "model_dest d = (if md_path d \<noteq> [] then md_path d else md_name d)"

definition has_suffix :: "bytes \<Rightarrow> bytes \<Rightarrow> bool" where
  "has_suffix s t \<longleftrightarrow> length t \<le> length s \<and> drop (length s - length t) s = t"

definition has_prefix :: "bytes \<Rightarrow> bytes \<Rightarrow> bool" where
  "has_prefix s t \<longleftrightarrow> take (length t) s = t"

fun contains_sub :: "bytes \<Rightarrow> bytes \<Rightarrow> bool" where
  "contains_sub [] t = (t = [])"
| "contains_sub (c # s) t = (take (length t) (c # s) = t \<or> contains_sub s t)"

datatype model_path_error = PathTooLong | PathTooDeep | SegmentNotPortable bytes | SegmentDevice bytes | PartialSuffix

definition validate_model_path :: "bytes \<Rightarrow> model_path_error option" where
  "validate_model_path dest =
     (let segs = split_on (CHR ''/'') dest
      in if max_model_path_bytes < length dest then Some PathTooLong
         else if max_model_path_depth < length segs then Some PathTooDeep
         else (case first_error (\<lambda>s. if \<not> re_model_segment s \<or> has_suffix s ''.'' then Some (SegmentNotPortable s)
                      else if re_windows_device s then Some (SegmentDevice s) else None) segs of
                 Some e \<Rightarrow> Some e
               | None \<Rightarrow> if has_suffix dest ''.partial'' then Some PartialSuffix else None))"

datatype model_error =
    TooManyModels nat
  | ModelName bytes
  | ModelTwice bytes
  | ModelPath bytes model_path_error
  | ModelCollides bytes bytes
  | ModelUrl bytes
  | ModelSha bytes
  | ModelSize bytes
  | WhenSetting bytes
  | WhenCount bytes
  | WhenValue bytes bytes
  | PathIsDirectory bytes bytes
  | WhenHost bytes
  | WhenUndeclared bytes bytes
  | WhenNotEnum bytes bytes
  | WhenNotAValue bytes bytes

fun when_values_loop :: "bytes \<Rightarrow> bytes set \<Rightarrow> bytes list \<Rightarrow> model_error option" where
  "when_values_loop name named [] = None"
| "when_values_loop name named (v # vs) =
     (if v = [] \<or> v \<in> named then Some (WhenValue name v) else when_values_loop name (insert v named) vs)"

definition check_when :: "bytes \<Rightarrow> model_when option \<Rightarrow> model_error option" where
  "check_when name w =
     (case w of
        None \<Rightarrow> None
      | Some u \<Rightarrow>
          if \<not> re_setting_key (when_setting u) then Some (WhenSetting name)
          else if when_values u = [] \<or> max_model_when_values < length (when_values u) then Some (WhenCount name)
          else when_values_loop name {} (when_values u))"

fun models_loop ::
  "bytes set \<Rightarrow> (bytes \<times> model_decl) list \<Rightarrow> model_decl list \<Rightarrow> model_error + (bytes \<times> model_decl) list" where
  "models_loop seen dests [] = Inr dests"
| "models_loop seen dests (d # ds) =
     (if \<not> re_model_name (md_name d) \<or> contains_sub (md_name d) ''..'' then Inl (ModelName (md_name d))
      else if md_name d \<in> seen then Inl (ModelTwice (md_name d))
      else (case validate_model_path (model_dest d) of
              Some e \<Rightarrow> Inl (ModelPath (md_name d) e)
            | None \<Rightarrow>
                (case map_of dests (lower_bytes (model_dest d)) of
                   Some other \<Rightarrow> Inl (ModelCollides (md_name d) (md_name other))
                 | None \<Rightarrow>
                     if \<not> has_prefix (md_url d) ''https://'' \<or> 1024 < length (md_url d) then Inl (ModelUrl (md_name d))
                     else if \<not> re_sha256 (md_sha256 d) then Inl (ModelSha (md_name d))
                     else if md_size d \<le> 0 \<or> max_model_bytes < md_size d then Inl (ModelSize (md_name d))
                     else (case check_when (md_name d) (md_when d) of
                             Some e \<Rightarrow> Inl e
                           | None \<Rightarrow>
                               models_loop (insert (md_name d) seen)
                                 ((lower_bytes (model_dest d), d) # dests) ds))))"

definition validate_models :: "model_decl list \<Rightarrow> model_error option" where
  "validate_models decls =
     (if max_models < length decls then Some (TooManyModels (length decls))
      else (case models_loop {} [] decls of
              Inl e \<Rightarrow> Some e
            | Inr dests \<Rightarrow>
                first_error (\<lambda>(a, da). first_error (\<lambda>(b, db).
                    if has_prefix b (a @ ''/'') then Some (PathIsDirectory (md_name da) (md_name db)) else None)
                  dests) dests))"

definition validate_model_conditions ::
  "model_decl list \<Rightarrow> setting_decl list \<Rightarrow> bytes \<Rightarrow> model_error option" where
  "validate_model_conditions decls settings min_host =
     first_error (\<lambda>d. case md_when d of
          None \<Rightarrow> None
        | Some w \<Rightarrow>
            if \<not> valid_host_version min_host \<or> compare_host_version min_host model_when_min_host < 0
            then Some (WhenHost (md_name d))
            else (case find (\<lambda>s. s_key s = when_setting w) (rev settings) of
                    None \<Rightarrow> Some (WhenUndeclared (md_name d) (when_setting w))
                  | Some s \<Rightarrow>
                      if s_type s \<noteq> ''enum'' then Some (WhenNotEnum (md_name d) (when_setting w))
                      else first_error (\<lambda>v. if v \<notin> set (s_values s) then Some (WhenNotAValue (md_name d) v) else None)
                             (when_values w))) decls"

section \<open>Accelerator profiles\<close>

record accelerator_profile =
  ap_os :: bytes
  ap_arch :: bytes
  ap_backend :: bytes
  ap_operators :: "bytes list"
  ap_runtime_libraries :: "bytes list"
  ap_precision :: bytes
  ap_models :: "bytes list"
  ap_memory_bytes :: int
  ap_device_memory_bytes :: "int option"
  ap_required_accelerators :: "bytes list"
  ap_startup_ms :: "int option"
  ap_session_limit :: int
  ap_fallback :: bytes

definition max_profile_models :: nat where "max_profile_models = 128"
definition max_startup_ms :: int where "max_startup_ms = 3600000"

datatype profile_error =
    TooManyRequired | RequiredTokens | OsArchBackend | Precision | ProfileCounts | ListEntry bytes
  | MemoryAndSessions | DeviceMemory | Startup | Fallback

fun required_loop :: "bytes set \<Rightarrow> bytes list \<Rightarrow> profile_error option" where
  "required_loop seen [] = None"
| "required_loop seen (n # ns) =
     (if \<not> re_token n \<or> n \<in> seen then Some RequiredTokens else required_loop (insert n seen) ns)"

definition profile_entry_bad :: "bytes \<Rightarrow> bool" where
  "profile_entry_bad s \<longleftrightarrow> s = [] \<or> 128 < length s
     \<or> (\<exists>c \<in> set s. c \<in> {CHR 0x00, CHR 0x0D, CHR 0x0A})"

definition validate_accelerator_profile :: "accelerator_profile option \<Rightarrow> profile_error option" where
  "validate_accelerator_profile profile =
     (case profile of
        None \<Rightarrow> None
      | Some p \<Rightarrow>
          if 16 < length (ap_required_accelerators p) then Some TooManyRequired
          else (case required_loop {} (ap_required_accelerators p) of
                  Some e \<Rightarrow> Some e
                | None \<Rightarrow>
                    if \<not> re_token (ap_os p) \<or> \<not> re_token (ap_arch p) \<or> \<not> re_token (ap_backend p)
                    then Some OsArchBackend
                    else if \<not> re_token (ap_precision p) then Some Precision
                    else if 64 < length (ap_operators p) \<or> 32 < length (ap_runtime_libraries p)
                            \<or> max_profile_models < length (ap_models p) \<or> ap_models p = []
                    then Some ProfileCounts
                    else (case first_error (\<lambda>s. if profile_entry_bad s then Some (ListEntry s) else None)
                                 (concat [ap_operators p, ap_runtime_libraries p, ap_models p]) of
                            Some e \<Rightarrow> Some e
                          | None \<Rightarrow>
                              if ap_memory_bytes p \<le> 0 \<or> ap_session_limit p \<le> 0 then Some MemoryAndSessions
                              else if (case ap_device_memory_bytes p of Some n \<Rightarrow> n < 0 | None \<Rightarrow> False)
                              then Some DeviceMemory
                              else if (case ap_startup_ms p of Some n \<Rightarrow> n \<le> 0 \<or> max_startup_ms < n | None \<Rightarrow> False)
                              then Some Startup
                              else if ap_fallback p \<noteq> ''none'' \<and> ap_fallback p \<noteq> ''reported'' then Some Fallback
                              else None)))"

section \<open>Runtime trees\<close>

record tree_limits =
  max_installed_bytes :: int
  max_files :: int
  max_file_bytes :: int
  max_compressed_bytes :: int
  max_depth :: int
  max_inventory_bytes :: int

definition runtime_limits :: tree_limits where
  "runtime_limits = \<lparr>max_installed_bytes = 0, max_files = 32768, max_file_bytes = 0, max_compressed_bytes = 0,
     max_depth = 24, max_inventory_bytes = 16 * 2 ^ 20\<rparr>"

definition filled :: "tree_limits \<Rightarrow> tree_limits" where
  "filled l =
     (let d = runtime_limits; pick = (\<lambda>f. if f l \<le> 0 then f d else f l)
      in \<lparr>max_installed_bytes = pick max_installed_bytes, max_files = pick max_files,
          max_file_bytes = pick max_file_bytes, max_compressed_bytes = pick max_compressed_bytes,
          max_depth = pick max_depth, max_inventory_bytes = pick max_inventory_bytes\<rparr>)"

record runtime_decl =
  rt_variant_id :: bytes
  rt_url :: bytes
  rt_sha256 :: bytes
  rt_size :: int
  rt_installed_bytes :: int
  rt_files :: int
  rt_inventory_sha256 :: bytes
  rt_largest_file_bytes :: "int option"
  rt_depth :: "int option"

definition max_runtimes :: nat where "max_runtimes = 8"
definition max_tree_path_bytes :: int where "max_tree_path_bytes = 511"
definition max_runtime_depth :: int where "max_runtime_depth = (max_tree_path_bytes - 1) div 2"
definition runtime_extent_min_host :: bytes where "runtime_extent_min_host = ''0.1.14''"

datatype runtime_error =
    TooManyRuntimes nat
  | RuntimeVariant bytes
  | RuntimeTwice bytes
  | RuntimeUrl bytes
  | RuntimeSha bytes
  | RuntimePositive bytes
  | ExtentTogether bytes
  | ExtentLargest bytes
  | ExtentDepth bytes
  | ExtentTooNew bytes
  | ExtentMissing bytes

definition valid_extent :: "runtime_decl \<Rightarrow> runtime_error option" where
  "valid_extent d =
     (case (rt_largest_file_bytes d, rt_depth d) of
        (None, None) \<Rightarrow> None
      | (Some largest, Some depth) \<Rightarrow>
          (let mean = (rt_installed_bytes d - 1) div rt_files d + 1
           in if largest \<le> 0 \<or> rt_installed_bytes d < largest \<or> largest < mean
              then Some (ExtentLargest (rt_variant_id d))
              else if depth < 1 \<or> max_runtime_depth < depth then Some (ExtentDepth (rt_variant_id d))
              else None)
      | _ \<Rightarrow> Some (ExtentTogether (rt_variant_id d)))"

fun runtimes_loop :: "bytes set \<Rightarrow> bytes set \<Rightarrow> runtime_decl list \<Rightarrow> runtime_error option" where
  "runtimes_loop known seen [] = None"
| "runtimes_loop known seen (d # ds) =
     (if rt_variant_id d \<notin> known then Some (RuntimeVariant (rt_variant_id d))
      else if rt_variant_id d \<in> seen then Some (RuntimeTwice (rt_variant_id d))
      else if \<not> has_prefix (rt_url d) ''https://'' then Some (RuntimeUrl (rt_variant_id d))
      else if \<not> re_sha256 (rt_sha256 d) \<or> \<not> re_sha256 (rt_inventory_sha256 d) then Some (RuntimeSha (rt_variant_id d))
      else if rt_size d \<le> 0 \<or> rt_installed_bytes d \<le> 0 \<or> rt_files d \<le> 0 then Some (RuntimePositive (rt_variant_id d))
      else (case valid_extent d of
              Some e \<Rightarrow> Some e
            | None \<Rightarrow> runtimes_loop known (insert (rt_variant_id d) seen) ds))"

definition validate_runtimes :: "runtime_decl list \<Rightarrow> bytes list \<Rightarrow> runtime_error option" where
  "validate_runtimes decls variants =
     (if max_runtimes < length decls then Some (TooManyRuntimes (length decls))
      else runtimes_loop (set variants) {} decls)"

definition extent_floor :: "bytes \<Rightarrow> bool" where
  "extent_floor min_host \<longleftrightarrow>
     valid_host_version min_host \<and> 0 \<le> compare_host_version min_host runtime_extent_min_host"

definition validate_runtime_extent :: "runtime_decl list \<Rightarrow> bytes \<Rightarrow> runtime_error option" where
  "validate_runtime_extent decls min_host =
     first_error (\<lambda>d. if (rt_largest_file_bytes d \<noteq> None \<or> rt_depth d \<noteq> None) \<and> \<not> extent_floor min_host
                      then Some (ExtentTooNew (rt_variant_id d)) else None) decls"

definition require_runtime_extent :: "runtime_decl list \<Rightarrow> bytes \<Rightarrow> runtime_error option" where
  "require_runtime_extent decls min_host =
     first_error (\<lambda>d. if rt_largest_file_bytes d = None \<and> rt_depth d = None \<and> extent_floor min_host
                      then Some (ExtentMissing (rt_variant_id d)) else None) decls"

definition for_decl :: "int \<Rightarrow> int \<Rightarrow> tree_limits \<Rightarrow> tree_limits" where
  "for_decl size_bytes installed l0 =
     (let l = filled l0
      in l\<lparr>max_compressed_bytes := (if max_compressed_bytes l \<le> 0 then size_bytes else max_compressed_bytes l),
           max_installed_bytes := (if max_installed_bytes l \<le> 0 then installed else max_installed_bytes l),
           max_file_bytes := (if max_file_bytes l \<le> 0 then installed else max_file_bytes l)\<rparr>)"

definition exceeded_ceilings :: "runtime_decl \<Rightarrow> tree_limits \<Rightarrow> (bytes \<times> int) list" where
  "exceeded_ceilings d limits =
     (let l = for_decl (rt_size d) (rt_installed_bytes d) limits
      in (if max_installed_bytes l < rt_installed_bytes d
          then [(''plugins.runtime.max_installed_bytes'', rt_installed_bytes d)] else [])
       @ (if max_files l < rt_files d then [(''plugins.runtime.max_files'', rt_files d)] else [])
       @ (if max_compressed_bytes l < rt_size d then [(''plugins.runtime.max_compressed_bytes'', rt_size d)] else [])
       @ (case rt_largest_file_bytes d of
            Some n \<Rightarrow> if max_file_bytes l < n then [(''plugins.runtime.max_file_bytes'', n)] else []
          | None \<Rightarrow> [])
       @ (case rt_depth d of
            Some n \<Rightarrow> if max_depth l < n then [(''plugins.runtime.max_depth'', n)] else []
          | None \<Rightarrow> []))"

definition member_allowance :: "nat \<Rightarrow> nat" where
  "member_allowance n = n + n div 4"

function raise_ceiling :: "nat \<Rightarrow> nat \<Rightarrow> nat" where
  "raise_ceiling needed m = (if member_allowance m < needed then raise_ceiling needed (m + 1) else m)"
  by pat_completeness auto

termination
  by (relation "measure (\<lambda>(needed, m). needed - m)") (auto simp: member_allowance_def)

declare raise_ceiling.simps [simp del]

definition least_files_ceiling :: "nat \<Rightarrow> nat \<Rightarrow> nat" where
  "least_files_ceiling files dirs =
     raise_ceiling (files + dirs) (max files ((files + dirs) * 4 div 5))"

record runtime_archive =
  ra_size :: int
  ra_installed_bytes :: int
  ra_files :: nat
  ra_largest_file_bytes :: int
  ra_depth :: int
  ra_directories :: nat

definition required_ceilings :: "runtime_archive \<Rightarrow> (bytes \<times> int) list" where
  "required_ceilings a =
     (let d = for_decl (ra_size a) (ra_installed_bytes a) runtime_limits;
          need = int (least_files_ceiling (ra_files a) (ra_directories a))
      in (if max_installed_bytes d < ra_installed_bytes a
          then [(''plugins.runtime.max_installed_bytes'', ra_installed_bytes a)] else [])
       @ (if max_files d < need then [(''plugins.runtime.max_files'', need)] else [])
       @ (if max_file_bytes d < ra_largest_file_bytes a
          then [(''plugins.runtime.max_file_bytes'', ra_largest_file_bytes a)] else [])
       @ (if max_compressed_bytes d < ra_size a
          then [(''plugins.runtime.max_compressed_bytes'', ra_size a)] else [])
       @ (if max_depth d < ra_depth a then [(''plugins.runtime.max_depth'', ra_depth a)] else []))"

section \<open>Interfaces\<close>

record author_interface =
  if_id :: bytes
  if_version :: int
  if_methods :: "bytes list"

datatype partition_error =
    NoInterface
  | NoMethods bytes
  | UnknownMethod bytes bytes
  | ClaimedTwice bytes bytes bytes
  | Orphans "bytes list"
  | MethodCount bytes nat
  | InterfaceCount nat

definition check_method_counts ::
  "author_interface list \<Rightarrow> (bytes \<times> bytes list) list \<Rightarrow> partition_error option" where
  "check_method_counts ifaces by_iface =
     (case first_error (\<lambda>i. let n = (case map_of by_iface (if_id i) of Some ms \<Rightarrow> length ms | None \<Rightarrow> 0)
                            in if n = 0 \<or> 16 < n then Some (MethodCount (if_id i) n) else None) ifaces of
        Some e \<Rightarrow> Some e
      | None \<Rightarrow> if 16 < length ifaces then Some (InterfaceCount (length ifaces)) else None)"

fun claim_methods :: "bytes set \<Rightarrow> bytes \<Rightarrow> (bytes \<times> bytes) list \<Rightarrow> bytes list \<Rightarrow> partition_error + (bytes \<times> bytes) list" where
  "claim_methods known iface declared [] = Inr declared"
| "claim_methods known iface declared (m # ms) =
     (if m \<notin> known then Inl (UnknownMethod iface m)
      else (case map_of declared m of
              Some prior \<Rightarrow> Inl (ClaimedTwice m prior iface)
            | None \<Rightarrow> claim_methods known iface ((m, iface) # declared) ms))"

fun claim_interfaces :: "bytes set \<Rightarrow> (bytes \<times> bytes) list \<Rightarrow> (bytes \<times> bytes list) list \<Rightarrow> author_interface list
    \<Rightarrow> partition_error + (bytes \<times> bytes) list \<times> (bytes \<times> bytes list) list" where
  "claim_interfaces known declared out [] = Inr (declared, out)"
| "claim_interfaces known declared out (i # is) =
     (if if_methods i = [] then Inl (NoMethods (if_id i))
      else (case claim_methods known (if_id i) declared (if_methods i) of
              Inl e \<Rightarrow> Inl e
            | Inr declared1 \<Rightarrow> claim_interfaces known declared1 (AList.update (if_id i) (if_methods i) out) is))"

definition partition_methods ::
  "author_interface list \<Rightarrow> bytes list \<Rightarrow> partition_error + (bytes \<times> bytes list) list" where
  "partition_methods ifaces ids =
     (let counted = (\<lambda>out. case check_method_counts ifaces out of Some e \<Rightarrow> Inl e | None \<Rightarrow> Inr out)
      in if ifaces = [] then Inl NoInterface
         else if length ifaces = 1 \<and> if_methods (hd ifaces) = [] then counted [(if_id (hd ifaces), ids)]
         else (case claim_interfaces (set ids) [] [] ifaces of
                 Inl e \<Rightarrow> Inl e
               | Inr (declared, out) \<Rightarrow>
                   (let orphans = filter (\<lambda>i. case map_of declared i of None \<Rightarrow> True | Some o1 \<Rightarrow> o1 = []) ids
                    in if orphans \<noteq> [] then Inl (Orphans orphans) else counted out)))"

section \<open>Properties\<close>

lemma raise_ceiling_least:
  "member_allowance (raise_ceiling needed m) \<ge> needed \<and> m \<le> raise_ceiling needed m
   \<and> (\<forall>k. m \<le> k \<and> needed \<le> member_allowance k \<longrightarrow> raise_ceiling needed m \<le> k)"
proof (induction needed m rule: raise_ceiling.induct)
  case (1 needed m)
  show ?case
  proof (cases "member_allowance m < needed")
    case True
    have "m \<noteq> k" if "needed \<le> member_allowance k" for k using that True by auto
    then show ?thesis using 1 [OF True] True by (simp add: raise_ceiling.simps [of needed m] Suc_le_eq le_neq_implies_less)
  next
    case False
    then show ?thesis by (simp add: raise_ceiling.simps [of needed m])
  qed
qed

text \<open>the ceiling \<open>aiisdk\<close> names for a tree's files is the least one: the loop ends, the
  ceiling admits the tree's files and its files and directories together, and no smaller ceiling
  does. So an operator told to raise \<open>max_files\<close> is never told a number that is too small,
  nor one larger than needed.\<close>

theorem least_ceiling_is_least:
  "files \<le> least_files_ceiling files dirs \<and> files + dirs \<le> member_allowance (least_files_ceiling files dirs)
   \<and> (\<forall>k. files \<le> k \<and> files + dirs \<le> member_allowance k \<longrightarrow> least_files_ceiling files dirs \<le> k)"
proof -
  let ?n = "files + dirs"
  have start: "?n * 4 div 5 \<le> k" if "?n \<le> member_allowance k" for k
  proof -
    have "4 * (k div 4) \<le> k" by simp
    then have "4 * ?n \<le> 5 * k" using that by (simp add: member_allowance_def)
    then have "?n * 4 \<le> k * 5" by (simp add: mult.commute)
    then have "?n * 4 div 5 \<le> k * 5 div 5" by (rule div_le_mono)
    then show ?thesis by simp
  qed
  note l = raise_ceiling_least [of ?n "max files (?n * 4 div 5)"]
  have "files \<le> least_files_ceiling files dirs" "?n \<le> member_allowance (least_files_ceiling files dirs)"
    using l unfolding least_files_ceiling_def by auto
  moreover have "least_files_ceiling files dirs \<le> k" if "files \<le> k" "?n \<le> member_allowance k" for k
    using l that start [OF that(2)] unfolding least_files_ceiling_def by auto
  ultimately show ?thesis by simp
qed

theorem least_ceiling_is_least_witness:
  "6 \<le> member_allowance (least_files_ceiling 4 2) \<and> least_files_ceiling 4 2 \<le> (5 :: nat)"
  using least_ceiling_is_least [of 4 2] by (simp add: member_allowance_def)

lemma claim_methods_ok:
  "claim_methods known i declared ms = Inr d \<Longrightarrow>
     set ms \<subseteq> known \<and> distinct ms \<and> (\<forall>m \<in> set ms. map_of declared m = None)
     \<and> (\<forall>x. map_of d x = (if x \<in> set ms then Some i else map_of declared x))"
proof (induction known i declared ms rule: claim_methods.induct)
  case (2 known i declared m ms)
  then have m: "m \<in> known" "map_of declared m = None"
    and r: "claim_methods known i ((m, i) # declared) ms = Inr d"
    by (auto split: if_splits option.splits)
  have ih: "set ms \<subseteq> known" "distinct ms" "\<forall>k \<in> set ms. map_of ((m, i) # declared) k = None"
    "\<forall>x. map_of d x = (if x \<in> set ms then Some i else map_of ((m, i) # declared) x)"
    using "2.IH" [OF _ m(2) r] m(1) by blast+
  have "m \<notin> set ms" using ih(3) by auto
  moreover have "\<forall>k \<in> set ms. map_of declared k = None" using ih(3) calculation by (metis map_of_Cons_code(2))
  ultimately show ?case using ih m by auto
qed simp

text \<open>After claiming: each declared method belongs to the one interface that lists it.\<close>

definition claims_agree :: "bytes set \<Rightarrow> (bytes \<times> bytes) list \<Rightarrow> (bytes \<times> bytes list) list \<Rightarrow> bool" where
  "claims_agree known declared out \<longleftrightarrow>
     (\<forall>m i. map_of declared m = Some i \<longleftrightarrow> (\<exists>ms. map_of out i = Some ms \<and> m \<in> set ms))
     \<and> dom (map_of declared) \<subseteq> known \<and> (\<forall>i ms. map_of out i = Some ms \<longrightarrow> distinct ms)"

lemma claim_interfaces_ok:
  assumes "claim_interfaces known declared out is = Inr (d, o1)" "claims_agree known declared out"
    "distinct (map if_id is)" "\<forall>i \<in> set is. map_of out (if_id i) = None"
  shows "claims_agree known d o1"
  using assms
proof (induction known declared out "is" rule: claim_interfaces.induct)
  case (2 known declared out i rest)
  have ne: "if_methods i \<noteq> []"
  proof
    assume "if_methods i = []"
    then show False using "2.prems"(1) by simp
  qed
  obtain d1 where d1: "claim_methods known (if_id i) declared (if_methods i) = Inr d1"
    using ne "2.prems"(1) by (cases "claim_methods known (if_id i) declared (if_methods i)") simp_all
  have r: "claim_interfaces known d1 (AList.update (if_id i) (if_methods i) out) rest = Inr (d, o1)"
    using ne d1 "2.prems"(1) by simp
  note c = claim_methods_ok [OF d1]
  have c4: "map_of d1 x = (if x \<in> set (if_methods i) then Some (if_id i) else map_of declared x)" for x
    using c by blast
  have mo: "map_of (AList.update (if_id i) (if_methods i) out) j
      = (if j = if_id i then Some (if_methods i) else map_of out j)" for j
    by (simp add: update_conv')
  have fresh: "map_of out (if_id i) = None" using "2.prems"(4) by simp
  have agree: "map_of d1 m = Some j \<longleftrightarrow>
      (\<exists>ms. map_of (AList.update (if_id i) (if_methods i) out) j = Some ms \<and> m \<in> set ms)" for m j
  proof (cases "j = if_id i")
    case True
    have "map_of declared m \<noteq> Some (if_id i)"
    proof
      assume "map_of declared m = Some (if_id i)"
      then obtain ms where "map_of out (if_id i) = Some ms" using "2.prems"(2) unfolding claims_agree_def by blast
      then show False using fresh by simp
    qed
    then show ?thesis using True by (auto simp: mo c4)
  next
    case False
    have "map_of declared m = None" if "m \<in> set (if_methods i)" using c that by blast
    then have "map_of d1 m = Some j \<longleftrightarrow> map_of declared m = Some j" using False by (auto simp: c4)
    also have "\<dots> \<longleftrightarrow> (\<exists>ms. map_of out j = Some ms \<and> m \<in> set ms)"
      using "2.prems"(2) unfolding claims_agree_def by blast
    finally show ?thesis using False by (simp add: mo)
  qed
  have old: "dom (map_of declared) \<subseteq> known" "\<And>j ms. map_of out j = Some ms \<Longrightarrow> distinct ms"
    using "2.prems"(2) unfolding claims_agree_def by blast+
  have "dom (map_of d1) \<subseteq> known" using c old(1) by (auto simp: dom_def c4 split: if_splits)
  moreover have "distinct ms" if "map_of (AList.update (if_id i) (if_methods i) out) j = Some ms" for j ms
    using that c old(2) [of j ms] by (simp add: mo split: if_splits)
  ultimately have "claims_agree known d1 (AList.update (if_id i) (if_methods i) out)"
    using agree unfolding claims_agree_def by blast
  moreover have "\<forall>j \<in> set rest. map_of (AList.update (if_id i) (if_methods i) out) (if_id j) = None"
  proof
    fix j
    assume j: "j \<in> set rest"
    then have "if_id j \<noteq> if_id i" using "2.prems"(3) by (auto simp: rev_image_eqI)
    then show "map_of (AList.update (if_id i) (if_methods i) out) (if_id j) = None"
      unfolding mo using "2.prems"(4) j by simp
  qed
  ultimately show ?case using "2.IH" [OF ne d1 r] "2.prems"(3) by simp
qed simp

text \<open>C36: the partition gives every operation exactly one interface. When the declared interfaces
  have distinct ids and the partition succeeds, each operation the plugin describes is in the
  method list of exactly one interface, so none is unreachable and none has two owners, and every
  interface has between 1 and 16 methods.\<close>

theorem every_operation_has_one_interface:
  assumes "partition_methods ifaces ids = Inr out" "distinct (map if_id ifaces)"
  shows "(\<forall>m \<in> set ids. \<exists>!i. \<exists>ms. map_of out i = Some ms \<and> m \<in> set ms)
    \<and> (\<forall>i \<in> set ifaces. \<exists>ms. map_of out (if_id i) = Some ms \<and> 1 \<le> length ms \<and> length ms \<le> 16
         \<and> set ms \<subseteq> set ids)
    \<and> length ifaces \<le> 16"
proof (cases "length ifaces = 1 \<and> if_methods (hd ifaces) = []")
  case True
  then obtain i where i: "ifaces = [i]" "if_methods i = []" by (cases ifaces) auto
  then have out: "out = [(if_id i, ids)]" and n: "check_method_counts ifaces out = None"
    using assms(1) by (auto simp: partition_methods_def split: option.splits)
  then have "1 \<le> length ids" "length ids \<le> 16"
    using i by (auto simp: check_method_counts_def Let_def Suc_le_eq split: option.splits if_splits)
  moreover have "\<exists>!j. \<exists>ms. map_of out j = Some ms \<and> m \<in> set ms" if "m \<in> set ids" for m
    using that by (intro ex1I [of _ "if_id i"]) (auto simp: out split: if_splits)
  ultimately show ?thesis using i out by auto
next
  case False
  then obtain d where d: "claim_interfaces (set ids) [] [] ifaces = Inr (d, out)"
    and orphans: "\<forall>m \<in> set ids. \<exists>j. map_of d m = Some j"
    and n: "check_method_counts ifaces out = None"
    using assms(1)
    by (fastforce simp: partition_methods_def Let_def filter_empty_conv split: option.splits sum.splits if_splits)
  have agree: "claims_agree (set ids) d out"
    by (rule claim_interfaces_ok [OF d _ assms(2)]) (simp_all add: claims_agree_def)
  have "\<exists>!j. \<exists>ms. map_of out j = Some ms \<and> m \<in> set ms" if "m \<in> set ids" for m
    using agree orphans that unfolding claims_agree_def by (metis option.inject)
  moreover have "length ifaces \<le> 16"
    using n by (auto simp: check_method_counts_def split: option.splits if_splits)
  moreover have "\<exists>ms. map_of out (if_id i) = Some ms \<and> 1 \<le> length ms \<and> length ms \<le> 16 \<and> set ms \<subseteq> set ids"
    if "i \<in> set ifaces" for i
  proof -
    have "first_error (\<lambda>i. let n = (case map_of out (if_id i) of Some ms \<Rightarrow> length ms | None \<Rightarrow> 0)
        in if n = 0 \<or> 16 < n then Some (MethodCount (if_id i) n) else None) ifaces = None"
      using n by (simp add: check_method_counts_def split: option.splits)
    then have one: "(let n = (case map_of out (if_id i) of Some ms \<Rightarrow> length ms | None \<Rightarrow> 0)
        in if n = 0 \<or> 16 < n then Some (MethodCount (if_id i) n) else None) = None"
      using that unfolding first_error_None by blast
    have "case map_of out (if_id i) of Some ms \<Rightarrow> 1 \<le> length ms \<and> length ms \<le> 16 | None \<Rightarrow> False"
      using one by (cases "map_of out (if_id i)") (simp_all add: Let_def Suc_le_eq split: if_splits)
    then obtain ms where ms: "map_of out (if_id i) = Some ms" "1 \<le> length ms" "length ms \<le> 16"
      by (auto split: option.splits)
    moreover have "set ms \<subseteq> set ids" using agree ms(1) unfolding claims_agree_def by blast
    ultimately show ?thesis by blast
  qed
  ultimately show ?thesis by blast
qed

theorem every_operation_has_one_interface_witness:
  "\<exists>!i. \<exists>ms. map_of [(''a.b'', [''x'']), (''c.d'', [''y'', ''z''])] i = Some ms \<and> ''y'' \<in> set ms"
proof -
  have "partition_methods [\<lparr>if_id = ''a.b'', if_version = 1, if_methods = [''x'']\<rparr>,
      \<lparr>if_id = ''c.d'', if_version = 1, if_methods = [''y'', ''z'']\<rparr>] [''x'', ''y'', ''z'']
    = Inr [(''a.b'', [''x'']), (''c.d'', [''y'', ''z''])]"
    by (simp add: partition_methods_def check_method_counts_def Let_def)
  from every_operation_has_one_interface [OF this] show ?thesis by simp
qed

lemma models_loop_ok:
  "models_loop seen dests ds = Inr r \<Longrightarrow>
     r = rev (map (\<lambda>d. (lower_bytes (model_dest d), d)) ds) @ dests
     \<and> distinct (map md_name ds) \<and> distinct (map (\<lambda>d. lower_bytes (model_dest d)) ds)
     \<and> (\<forall>d \<in> set ds. md_name d \<notin> seen \<and> map_of dests (lower_bytes (model_dest d)) = None
          \<and> validate_model_path (model_dest d) = None \<and> has_prefix (md_url d) ''https://''
          \<and> re_sha256 (md_sha256 d) \<and> 0 < md_size d \<and> md_size d \<le> max_model_bytes)"
proof (induction seen dests ds rule: models_loop.induct)
  case (2 seen dests d ds)
  have g: "re_model_name (md_name d) \<and> \<not> contains_sub (md_name d) ''..''" "md_name d \<notin> seen"
    "validate_model_path (model_dest d) = None" "map_of dests (lower_bytes (model_dest d)) = None"
    "has_prefix (md_url d) ''https://'' \<and> length (md_url d) \<le> 1024" "re_sha256 (md_sha256 d)"
    "0 < md_size d \<and> md_size d \<le> max_model_bytes" "check_when (md_name d) (md_when d) = None"
    and r: "models_loop (insert (md_name d) seen) ((lower_bytes (model_dest d), d) # dests) ds = Inr r"
    using "2.prems" by (auto split: if_splits option.splits)
  have ih: "r = rev (map (\<lambda>d. (lower_bytes (model_dest d), d)) ds) @ (lower_bytes (model_dest d), d) # dests"
    "distinct (map md_name ds)" "distinct (map (\<lambda>d. lower_bytes (model_dest d)) ds)"
    "\<forall>e \<in> set ds. md_name e \<notin> insert (md_name d) seen
       \<and> map_of ((lower_bytes (model_dest d), d) # dests) (lower_bytes (model_dest e)) = None
       \<and> validate_model_path (model_dest e) = None \<and> has_prefix (md_url e) ''https://''
       \<and> re_sha256 (md_sha256 e) \<and> 0 < md_size e \<and> md_size e \<le> max_model_bytes"
    using "2.IH" [OF _ g(2-4) _ _ _ g(8) r] g by (auto simp: not_less)
  have "md_name d \<notin> set (map md_name ds)" using ih(4) by auto
  moreover have "lower_bytes (model_dest d) \<notin> set (map (\<lambda>d. lower_bytes (model_dest d)) ds)"
    using ih(4) by (auto simp: image_iff)
  moreover have "\<forall>e \<in> set ds. map_of dests (lower_bytes (model_dest e)) = None"
    using ih(4) by (auto split: if_splits)
  ultimately show ?case using ih g by simp
qed simp

text \<open>the models of an accepted package can all be fetched and written beside one another: each
  has its own name, an https address, a digest and a positive size, and no two paths are the same
  or one a directory of the other, also on a file system that folds case.\<close>

theorem accepted_models_can_be_written:
  assumes "validate_models decls = None"
  shows "distinct (map md_name decls) \<and> distinct (map (\<lambda>d. lower_bytes (model_dest d)) decls)
    \<and> (\<forall>d \<in> set decls. has_prefix (md_url d) ''https://'' \<and> re_sha256 (md_sha256 d) \<and> 0 < md_size d
         \<and> validate_model_path (model_dest d) = None)
    \<and> (\<forall>d \<in> set decls. \<forall>e \<in> set decls.
         \<not> has_prefix (lower_bytes (model_dest e)) (lower_bytes (model_dest d) @ ''/''))"
proof -
  obtain r where r: "models_loop {} [] decls = Inr r"
    and p: "first_error (\<lambda>(a, da). first_error (\<lambda>(b, db).
        if has_prefix b (a @ ''/'') then Some (PathIsDirectory (md_name da) (md_name db)) else None) r) r = None"
    using assms by (auto simp: validate_models_def split: if_splits sum.splits)
  note ok = models_loop_ok [OF r]
  have "\<forall>d \<in> set decls. \<forall>e \<in> set decls. \<not> has_prefix (lower_bytes (model_dest e)) (lower_bytes (model_dest d) @ ''/'')"
  proof (intro ballI)
    fix d e
    assume "d \<in> set decls" "e \<in> set decls"
    then have "(lower_bytes (model_dest d), d) \<in> set r" "(lower_bytes (model_dest e), e) \<in> set r"
      using ok by auto
    moreover have "\<forall>x \<in> set r. \<forall>y \<in> set r. \<not> has_prefix (fst y) (fst x @ ''/'')"
      using p unfolding first_error_None case_prod_beta by (metis option.distinct(1))
    ultimately show "\<not> has_prefix (lower_bytes (model_dest e)) (lower_bytes (model_dest d) @ ''/'')"
      by fastforce
  qed
  then show ?thesis using ok by auto
qed

definition one_model :: model_decl where
  "one_model = \<lparr>md_name = ''m'', md_path = [], md_url = ''https://x'', md_sha256 = replicate 64 (CHR ''0''),
     md_size = 1, md_when = None\<rparr>"

theorem accepted_models_can_be_written_witness: "has_prefix (md_url one_model) ''https://''"
proof -
  have "validate_models [one_model] = None"
    by (simp add: validate_models_def one_model_def max_models_def re_model_name_def re_class_def byte_defs
        less_eq_char_def model_dest_def validate_model_path_def max_model_path_bytes_def max_model_path_depth_def
        re_model_segment_def has_suffix_def has_prefix_def re_windows_device_def windows_device_stem_def
        lower_bytes_def ascii_lower_def max_model_bytes_def re_sha256_def check_when_def Let_def list_all_iff)
  from accepted_models_can_be_written [OF this] show ?thesis by simp
qed

end
