(* ===== verification/Author.thy ===== *)
theory Author
  imports Native Validation
begin

text \<open>
  The authoring file \<open>plugin.json\<close> once it is read: the rules of \<open>pkg/aiiospkg/author.go\<close> over its
  identity, interfaces, capabilities, requirements and variants, and the order in which it asks the
  declarations of the other theories; and the embeddings declaration of \<open>embeddings.go\<close> with the
  rules for a package that is a source of vectors. A nil slice is \<open>None\<close> where the code tests for it.
\<close>

section \<open>The authoring file\<close>

record author_requirements =
  rq_required :: "bytes list"
  rq_optional :: "bytes list"

record author_variant =
  av_id :: bytes
  av_platform :: bytes
  av_arch :: bytes
  av_topology :: bytes
  av_runtime :: bytes
  av_profile :: bytes
  av_capabilities :: "bytes list option"
  av_requirements :: "author_requirements option"
  av_accelerator :: "accelerator_profile option"
  av_artifact :: bytes

record author_config =
  ac_id :: bytes
  ac_version :: bytes
  ac_family :: bytes
  ac_min_host :: bytes
  ac_max_host :: bytes
  ac_publisher :: bytes
  ac_title :: bytes
  ac_description :: bytes
  ac_license :: bytes
  ac_homepage :: bytes
  ac_interface :: author_interface
  ac_interfaces :: "author_interface list"
  ac_capabilities :: "bytes list option"
  ac_requirements :: "author_requirements option"
  ac_default_variant :: bytes
  ac_preference :: "bytes list option"
  ac_variants :: "author_variant list"
  ac_settings :: "setting_decl list"
  ac_webhooks :: "webhook_decl list"
  ac_schedule :: "schedule_decl list"
  ac_subscriptions :: "subscription_decl list"
  ac_models :: "model_decl list"
  ac_runtimes :: "runtime_decl list"
  ac_embeddings_file :: bytes
  ac_validation_file :: bytes

definition author_root :: "author_config \<Rightarrow> bytes" where
  "author_root c = ac_id c @ ''-'' @ ac_version c"

definition interface_list :: "author_config \<Rightarrow> author_interface list" where
  "interface_list c = (if ac_interfaces c \<noteq> [] then ac_interfaces c else [ac_interface c])"

definition requires_own_artifact :: "author_variant \<Rightarrow> bool" where
  "requires_own_artifact v \<longleftrightarrow> av_runtime v \<noteq> ''wasm_component'' \<and> av_runtime v \<noteq> ''wasm_aot_component''"

definition is_t3 :: "author_variant \<Rightarrow> bool" where
  "is_t3 v \<longleftrightarrow> av_profile v = ''platform_reserved''
     \<or> av_runtime v = ''inprocess_component'' \<and> av_profile v = ''certified_native''"

section \<open>Grammars\<close>

definition lower_alnum :: "char \<Rightarrow> bool" where
  "lower_alnum c \<longleftrightarrow> is_lower c \<or> is_digit c"

text \<open>
  \<open>reManifestID\<close>: runs of lower case letters and digits with one of \<open>.\<close>, \<open>_\<close>, \<open>-\<close> between two runs.
\<close>

fun re_manifest_id :: "bytes \<Rightarrow> bool" where
  "re_manifest_id [] = False"
| "re_manifest_id [c] = lower_alnum c"
| "re_manifest_id (c # d # s) =
     (lower_alnum c \<and>
      (if d \<in> {CHR ''.'', CHR ''_'', CHR ''-''} then re_manifest_id s else re_manifest_id (d # s)))"

definition dotted_part :: "bytes \<Rightarrow> bool" where
  "dotted_part s \<longleftrightarrow>
     (case s of [] \<Rightarrow> False | c # cs \<Rightarrow> is_lower c \<and> list_all (\<lambda>x. lower_alnum x \<or> x = CHR ''_'') cs)"

definition re_interface_id :: "bytes \<Rightarrow> bool" where
  "re_interface_id s \<longleftrightarrow>
     1 < length (split_on (CHR ''.'') s) \<and> list_all dotted_part (split_on (CHR ''.'') s)"

text \<open>The \<open>.\<close> of a Go regular expression is any character but a line feed.\<close>

definition re_capability :: "bytes \<Rightarrow> bool" where
  "re_capability s \<longleftrightarrow>
     re_interface_id (takeWhile (\<lambda>c. c \<noteq> CHR '':'') s)
     \<and> (case dropWhile (\<lambda>c. c \<noteq> CHR '':'') s of
          [] \<Rightarrow> True
        | c # r \<Rightarrow> r \<noteq> [] \<and> CHR 0x0A \<notin> set r)"

definition predicate_classes :: "bytes list" where
  "predicate_classes = [''facility'', ''runtime'', ''distribution'', ''backend'', ''permission'', ''topology'']"

definition re_predicate :: "bytes \<Rightarrow> bool" where
  "re_predicate s \<longleftrightarrow>
     takeWhile (\<lambda>c. c \<noteq> CHR '':'') s \<in> set predicate_classes
     \<and> (case dropWhile (\<lambda>c. c \<noteq> CHR '':'') s of
          [] \<Rightarrow> False
        | c # r \<Rightarrow> r \<noteq> []
            \<and> list_all (\<lambda>x. lower_alnum x \<or> x \<in> {CHR ''.'', CHR ''_'', CHR ''/'', CHR ''-''}) r)"

section \<open>Errors\<close>

datatype identity_error =
    IdGrammar bytes
  | VersionRequired
  | VersionComponent bytes
  | VersionInvalid bytes component_error
  | HostWindow window_error
  | FamilyUnknown bytes

datatype interface_error =
    BothInterfaces
  | OneOfInterfaces
  | InterfaceGrammar bytes
  | InterfaceVersion bytes int
  | InterfaceTwice bytes

datatype entry_error = TooManyEntries | EntryGrammar bytes | EntryTwice bytes

datatype source_error =
    NotASourceFile
  | SourceFamily bytes
  | SourceVersion int
  | SourceNotAlone
  | SourceHost
  | SourceCapability bytes
  | SourceSettings | SourceWebhooks | SourceSchedule | SourceSubscriptions
  | SourceFileMissing
  | SourceVariantNative bytes
  | SourceVariantCapability bytes bytes

datatype variant_error =
    VariantGrammar | VariantPlatform | VariantArch | VariantTopology | VariantRuntime | VariantProfile
  | VariantPairing
  | CapabilitiesRequired
  | CapabilityEntry entry_error
  | RequirementEntry bytes entry_error

datatype profile_fault =
    PreferenceNeedsProfile
  | ProfileNotNative
  | ProfileBad profile_error
  | RequiredNeedsPreference
  | ProfileCoordinates
  | DeviceMemoryMissing
  | DeviceNeedsRequired
  | ProfileModelUndeclared bytes
  | ProfileModelConditional bytes

datatype author_error =
    IdentityBad identity_error
  | InterfacesBad interface_error
  | EnvelopeRequired
  | EnvelopeEntry entry_error
  | PredicateEntry bytes entry_error
  | SourceBad source_error
  | NoVariants
  | VariantBad bytes variant_error
  | VariantTwice bytes
  | NoBaseline
  | DefaultUndeclared bytes
  | PreferenceBad preference_error
  | RuntimesBad runtime_error
  | SettingsBad setting_error
  | WebhooksBad webhook_error
  | ScheduleBad schedule_error
  | SubscriptionsBad subscription_error
  | ModelsBad model_error
  | VariantProfileBad bytes profile_fault

definition valid_version :: "bytes \<Rightarrow> identity_error option" where
  "valid_version v =
     (if CHR ''/'' \<in> set v \<or> CHR 0x5C \<in> set v then Some (VersionComponent v)
      else map_option (VersionInvalid v) (validate_component v))"

section \<open>Capabilities and requirements\<close>

fun entries_loop :: "(bytes \<Rightarrow> bool) \<Rightarrow> bytes set \<Rightarrow> bytes list \<Rightarrow> entry_error option" where
  "entries_loop ok seen [] = None"
| "entries_loop ok seen (c # cs) =
     (if \<not> ok c then Some (EntryGrammar c)
      else if c \<in> seen then Some (EntryTwice c)
      else entries_loop ok (insert c seen) cs)"

definition validate_capability_list :: "bytes list \<Rightarrow> entry_error option" where
  "validate_capability_list caps =
     (if 32 < length caps then Some TooManyEntries else entries_loop re_capability {} caps)"

definition validate_author_requirements :: "author_requirements option \<Rightarrow> (bytes \<times> entry_error) option" where
  "validate_author_requirements r =
     (case r of
        None \<Rightarrow> None
      | Some q \<Rightarrow>
          first_error (\<lambda>(label, entries). map_option (Pair label)
              (if 16 < length entries then Some TooManyEntries else entries_loop re_predicate {} entries))
            [(''required'', rq_required q), (''optional'', rq_optional q)])"

section \<open>Variants\<close>

definition pairing_ok :: "author_variant \<Rightarrow> bool" where
  "pairing_ok v \<longleftrightarrow>
     (if av_runtime v = ''service_process'' then av_profile v \<in> {''standard'', ''certified_native''}
      else if av_runtime v = ''wasm_component'' \<or> av_runtime v = ''wasm_aot_component''
      then av_profile v = ''wasm_sandbox''
      else if av_runtime v = ''inprocess_component''
      then av_profile v = ''certified_native'' \<and> av_platform v \<in> {''android'', ''ios''}
        \<and> av_topology v = ''mobile_app_host''
      else if av_runtime v = ''native_t3_component'' then av_profile v = ''platform_reserved''
      else False)"

definition validate_variant :: "author_variant \<Rightarrow> variant_error option" where
  "validate_variant v =
     (if \<not> re_variant_id (av_id v) then Some VariantGrammar
      else if av_platform v \<notin> {''linux'', ''macos'', ''windows'', ''android'', ''ios''} then Some VariantPlatform
      else if av_arch v \<notin> {''x86_64'', ''arm64''} then Some VariantArch
      else if av_topology v \<notin> {''full_identity_host'', ''mobile_app_host''} then Some VariantTopology
      else if av_runtime v \<notin> {''service_process'', ''wasm_component'', ''wasm_aot_component'',
                ''inprocess_component'', ''native_t3_component''} then Some VariantRuntime
      else if av_profile v \<notin> {''standard'', ''wasm_sandbox'', ''certified_native'', ''platform_reserved''}
      then Some VariantProfile
      else if \<not> pairing_ok v then Some VariantPairing
      else (case av_capabilities v of
              None \<Rightarrow> Some CapabilitiesRequired
            | Some caps \<Rightarrow>
                (case validate_capability_list caps of
                   Some e \<Rightarrow> Some (CapabilityEntry e)
                 | None \<Rightarrow>
                     map_option (\<lambda>(label, e). RequirementEntry label e)
                       (validate_author_requirements (av_requirements v)))))"

definition is_wasm :: "author_variant \<Rightarrow> bool" where
  "is_wasm v \<longleftrightarrow> av_runtime v = ''wasm_component'' \<or> av_runtime v = ''wasm_aot_component''"

fun variants_loop :: "bytes set \<Rightarrow> bool \<Rightarrow> author_variant list \<Rightarrow> author_error + bytes set \<times> bool" where
  "variants_loop seen has_wasm [] = Inr (seen, has_wasm)"
| "variants_loop seen has_wasm (v # vs) =
     (case validate_variant v of
        Some e \<Rightarrow> Inl (VariantBad (av_id v) e)
      | None \<Rightarrow>
          if av_id v \<in> seen then Inl (VariantTwice (av_id v))
          else variants_loop (insert (av_id v) seen) (has_wasm \<or> is_wasm v) vs)"

section \<open>A source of vectors\<close>

definition embeddings_interface_id :: bytes where "embeddings_interface_id = ''aii.embeddings''"
definition embeddings_interface_version :: int where "embeddings_interface_version = 1"
definition embeddings_family :: bytes where "embeddings_family = ''provider_bridge''"
definition embeddings_min_host :: bytes where "embeddings_min_host = ''0.1.15''"

definition declares_embeddings :: "author_config \<Rightarrow> author_interface option" where
  "declares_embeddings c = find (\<lambda>i. if_id i = embeddings_interface_id) (interface_list c)"

definition source_refusal :: "author_config \<Rightarrow> author_interface \<Rightarrow> source_error option" where
  "source_refusal c iface =
     (if ac_family c \<noteq> embeddings_family then Some (SourceFamily (ac_family c))
      else if if_version iface \<noteq> embeddings_interface_version then Some (SourceVersion (if_version iface))
      else if length (interface_list c) \<noteq> 1 then Some SourceNotAlone
      else if \<not> valid_host_version (ac_min_host c) \<or> compare_host_version (ac_min_host c) embeddings_min_host < 0
      then Some SourceHost
      else if ac_capabilities c \<noteq> None \<and> ac_capabilities c \<noteq> Some []
      then Some (SourceCapability (hd (the (ac_capabilities c))))
      else if ac_settings c \<noteq> [] then Some SourceSettings
      else if ac_webhooks c \<noteq> [] then Some SourceWebhooks
      else if ac_schedule c \<noteq> [] then Some SourceSchedule
      else if ac_subscriptions c \<noteq> [] then Some SourceSubscriptions
      else if ac_embeddings_file c = [] then Some SourceFileMissing
      else None)"

definition source_variant_refusal :: "author_variant \<Rightarrow> source_error option" where
  "source_variant_refusal v =
     (if av_runtime v \<noteq> ''native_t3_component'' then Some (SourceVariantNative (av_id v))
      else if av_capabilities v \<noteq> None \<and> av_capabilities v \<noteq> Some []
      then Some (SourceVariantCapability (av_id v) (hd (the (av_capabilities v))))
      else None)"

definition validate_embeddings_source :: "author_config \<Rightarrow> source_error option" where
  "validate_embeddings_source c =
     (case declares_embeddings c of
        None \<Rightarrow> if ac_embeddings_file c \<noteq> [] then Some NotASourceFile else None
      | Some iface \<Rightarrow>
          (case source_refusal c iface of
             Some e \<Rightarrow> Some e
           | None \<Rightarrow> first_error source_variant_refusal (ac_variants c)))"

section \<open>The whole file\<close>

definition validate_identity :: "author_config \<Rightarrow> identity_error option" where
  "validate_identity c =
     (if \<not> re_manifest_id (ac_id c) then Some (IdGrammar (ac_id c))
      else if ac_version c = [] then Some VersionRequired
      else (case valid_version (ac_version c) of
              Some e \<Rightarrow> Some e
            | None \<Rightarrow>
                (case valid_host_window (ac_min_host c) (ac_max_host c) of
                   Some e \<Rightarrow> Some (HostWindow e)
                 | None \<Rightarrow>
                     if ac_family c \<notin> {''channel_adapter'', ''provider_bridge'', ''tool_bridge'', ''voice_interface''}
                     then Some (FamilyUnknown (ac_family c)) else None)))"

fun interfaces_loop :: "bytes set \<Rightarrow> author_interface list \<Rightarrow> interface_error option" where
  "interfaces_loop seen [] = None"
| "interfaces_loop seen (i # is) =
     (if \<not> re_interface_id (if_id i) then Some (InterfaceGrammar (if_id i))
      else if if_version i < 1 then Some (InterfaceVersion (if_id i) (if_version i))
      else if if_id i \<in> seen then Some (InterfaceTwice (if_id i))
      else interfaces_loop (insert (if_id i) seen) is)"

definition validate_interfaces :: "author_config \<Rightarrow> interface_error option" where
  "validate_interfaces c =
     (if ac_interfaces c \<noteq> [] \<and> if_id (ac_interface c) \<noteq> [] then Some BothInterfaces
      else if length (ac_interfaces c) = 1 then Some OneOfInterfaces
      else interfaces_loop {} (interface_list c))"

definition validate_envelope :: "author_config \<Rightarrow> author_error option" where
  "validate_envelope c =
     (case ac_capabilities c of
        None \<Rightarrow> Some EnvelopeRequired
      | Some caps \<Rightarrow>
          (case validate_capability_list caps of
             Some e \<Rightarrow> Some (EnvelopeEntry e)
           | None \<Rightarrow>
               map_option (\<lambda>(label, e). PredicateEntry label e)
                 (validate_author_requirements (ac_requirements c))))"

definition validate_variants :: "author_config \<Rightarrow> author_error + bytes set" where
  "validate_variants c =
     (if ac_variants c = [] then Inl NoVariants
      else (case variants_loop {} False (ac_variants c) of
              Inl e \<Rightarrow> Inl e
            | Inr (seen, has_wasm) \<Rightarrow>
                if (\<exists>v \<in> set (ac_variants c). \<not> is_t3 v) \<and> \<not> has_wasm then Inl NoBaseline
                else if ac_default_variant c \<noteq> [] \<and> ac_default_variant c \<notin> seen
                then Inl (DefaultUndeclared (ac_default_variant c))
                else (case ac_preference c of
                        None \<Rightarrow> Inr seen
                      | Some order \<Rightarrow>
                          (case validate_variant_preference order (ac_min_host c) seen of
                             Some e \<Rightarrow> Inl (PreferenceBad e)
                           | None \<Rightarrow> Inr seen))))"

definition validate_declarations :: "author_config \<Rightarrow> author_error option" where
  "validate_declarations c =
     first_error id
       [map_option RuntimesBad (validate_runtime_extent (ac_runtimes c) (ac_min_host c)),
        map_option RuntimesBad (require_runtime_extent (ac_runtimes c) (ac_min_host c)),
        map_option SettingsBad (validate_settings (ac_settings c)),
        map_option WebhooksBad (validate_webhooks (ac_webhooks c) (ac_settings c)),
        map_option ScheduleBad (validate_schedule (ac_schedule c)),
        map_option SubscriptionsBad (validate_subscriptions (ac_subscriptions c)),
        map_option ModelsBad (validate_models (ac_models c)),
        map_option ModelsBad (validate_model_conditions (ac_models c) (ac_settings c) (ac_min_host c))]"

definition model_conditional :: "model_decl list \<Rightarrow> bytes \<Rightarrow> bool" where
  "model_conditional models name =
     (case map_of (rev (map (\<lambda>m. (md_name m, md_when m \<noteq> None)) models)) name of
        None \<Rightarrow> False | Some b \<Rightarrow> b)"

definition profile_model_refusal :: "model_decl list \<Rightarrow> bytes \<Rightarrow> profile_fault option" where
  "profile_model_refusal models name =
     (if name \<notin> md_name ` set models then Some (ProfileModelUndeclared name)
      else if model_conditional models name then Some (ProfileModelConditional name)
      else None)"

definition preferred_profile_refusal :: "author_variant \<Rightarrow> accelerator_profile \<Rightarrow> profile_fault option" where
  "preferred_profile_refusal v a =
     (if ap_os a \<noteq> av_platform v \<or> ap_arch a \<noteq> av_arch v then Some ProfileCoordinates
      else (case ap_device_memory_bytes a of
              None \<Rightarrow> Some DeviceMemoryMissing
            | Some n \<Rightarrow>
                if 0 < n \<and> ap_required_accelerators a = [] then Some DeviceNeedsRequired else None))"

definition profile_refusal :: "author_config \<Rightarrow> author_variant \<Rightarrow> profile_fault option" where
  "profile_refusal c v =
     (case av_accelerator v of
        None \<Rightarrow>
          if ac_preference c \<noteq> None \<and> av_runtime v = ''native_t3_component''
          then Some PreferenceNeedsProfile else None
      | Some a \<Rightarrow>
          if av_runtime v \<noteq> ''native_t3_component'' then Some ProfileNotNative
          else (case validate_accelerator_profile (Some a) of
                  Some e \<Rightarrow> Some (ProfileBad e)
                | None \<Rightarrow>
                    if ac_preference c = None \<and> ap_required_accelerators a \<noteq> []
                    then Some RequiredNeedsPreference
                    else (case (if ac_preference c \<noteq> None then preferred_profile_refusal v a else None) of
                            Some e \<Rightarrow> Some e
                          | None \<Rightarrow> first_error (profile_model_refusal (ac_models c)) (ap_models a))))"

definition author_validate :: "author_config \<Rightarrow> author_error option" where
  "author_validate c =
     (case first_error id [map_option IdentityBad (validate_identity c), map_option InterfacesBad (validate_interfaces c),
                           validate_envelope c, map_option SourceBad (validate_embeddings_source c)] of
        Some e \<Rightarrow> Some e
      | None \<Rightarrow>
          (case validate_variants c of
             Inl e \<Rightarrow> Some e
           | Inr seen \<Rightarrow>
               (case validate_declarations c of
                  Some e \<Rightarrow> Some e
                | None \<Rightarrow> first_error (\<lambda>v. map_option (VariantProfileBad (av_id v)) (profile_refusal c v)) (ac_variants c))))"

section \<open>What the loops decide\<close>

lemma entries_loop_ok:
  "entries_loop ok seen cs = None \<longleftrightarrow> list_all ok cs \<and> distinct cs \<and> set cs \<inter> seen = {}"
  by (induction cs arbitrary: seen) auto

lemma interfaces_loop_ok:
  "interfaces_loop seen is = None \<longleftrightarrow>
     (\<forall>i \<in> set is. re_interface_id (if_id i) \<and> 1 \<le> if_version i) \<and> distinct (map if_id is)
     \<and> if_id ` set is \<inter> seen = {}"
  by (induction "is" arbitrary: seen) auto

lemma variants_loop_ok:
  "variants_loop seen w vs = Inr (seen', w') \<longleftrightarrow>
     (\<forall>v \<in> set vs. validate_variant v = None) \<and> distinct (map av_id vs) \<and> av_id ` set vs \<inter> seen = {}
     \<and> seen' = seen \<union> av_id ` set vs \<and> (w' \<longleftrightarrow> w \<or> (\<exists>v \<in> set vs. is_wasm v))"
proof (induction vs arbitrary: seen w)
  case Nil
  then show ?case by auto
next
  case (Cons v vs)
  show ?case
  proof (cases "validate_variant v = None \<and> av_id v \<notin> seen")
    case True
    then show ?thesis by (simp add: Cons.IH) blast
  next
    case False
    then show ?thesis by (auto split: option.split)
  qed
qed

definition entries_formed :: "nat \<Rightarrow> (bytes \<Rightarrow> bool) \<Rightarrow> bytes list \<Rightarrow> bool" where
  "entries_formed n ok es \<longleftrightarrow> length es \<le> n \<and> distinct es \<and> list_all ok es"

definition requirements_formed :: "author_requirements option \<Rightarrow> bool" where
  "requirements_formed r \<longleftrightarrow>
     (\<forall>q. r = Some q \<longrightarrow> entries_formed 16 re_predicate (rq_required q) \<and> entries_formed 16 re_predicate (rq_optional q))"

definition capabilities_formed :: "bytes list option \<Rightarrow> bool" where
  "capabilities_formed caps \<longleftrightarrow> (\<exists>cs. caps = Some cs \<and> entries_formed 32 re_capability cs)"

lemma validate_capability_list_ok: "validate_capability_list cs = None \<longleftrightarrow> entries_formed 32 re_capability cs"
  by (auto simp: validate_capability_list_def entries_formed_def entries_loop_ok)

lemma validate_requirements_ok: "validate_author_requirements r = None \<longleftrightarrow> requirements_formed r"
  by (cases r) (auto simp: validate_author_requirements_def requirements_formed_def entries_formed_def entries_loop_ok
      simp del: first_error.simps)

text \<open>The runtimes of a variant, with the admission profile each can have.\<close>

definition variant_formed :: "author_variant \<Rightarrow> bool" where
  "variant_formed v \<longleftrightarrow>
     re_variant_id (av_id v) \<and> av_platform v \<in> {''linux'', ''macos'', ''windows'', ''android'', ''ios''}
     \<and> av_arch v \<in> {''x86_64'', ''arm64''} \<and> av_topology v \<in> {''full_identity_host'', ''mobile_app_host''}
     \<and> (av_runtime v, av_profile v) \<in> {(''service_process'', ''standard''), (''service_process'', ''certified_native''),
          (''wasm_component'', ''wasm_sandbox''), (''wasm_aot_component'', ''wasm_sandbox''),
          (''inprocess_component'', ''certified_native''), (''native_t3_component'', ''platform_reserved'')}
     \<and> (av_runtime v = ''inprocess_component'' \<longrightarrow>
          av_platform v \<in> {''android'', ''ios''} \<and> av_topology v = ''mobile_app_host'')
     \<and> capabilities_formed (av_capabilities v) \<and> requirements_formed (av_requirements v)"

lemma validate_capabilities_ok:
  "(case caps of None \<Rightarrow> Some CapabilitiesRequired
    | Some cs \<Rightarrow> (case validate_capability_list cs of
          Some e \<Rightarrow> Some (CapabilityEntry e)
        | None \<Rightarrow> map_option (\<lambda>(label, e). RequirementEntry label e) (validate_author_requirements r))) = None
    \<longleftrightarrow> capabilities_formed caps \<and> requirements_formed r"
  by (cases caps)
    (auto simp: capabilities_formed_def validate_capability_list_ok [symmetric] validate_requirements_ok [symmetric]
      split: option.split)

lemma pairing_formed:
  "av_runtime v \<in> {''service_process'', ''wasm_component'', ''wasm_aot_component'', ''inprocess_component'', ''native_t3_component''}
     \<and> av_profile v \<in> {''standard'', ''wasm_sandbox'', ''certified_native'', ''platform_reserved''} \<and> pairing_ok v
   \<longleftrightarrow> (av_runtime v, av_profile v) \<in> {(''service_process'', ''standard''), (''service_process'', ''certified_native''),
          (''wasm_component'', ''wasm_sandbox''), (''wasm_aot_component'', ''wasm_sandbox''),
          (''inprocess_component'', ''certified_native''), (''native_t3_component'', ''platform_reserved'')}
     \<and> (av_runtime v = ''inprocess_component'' \<longrightarrow>
          av_platform v \<in> {''android'', ''ios''} \<and> av_topology v = ''mobile_app_host'')"
  by (auto simp: pairing_ok_def)

lemma validate_variant_ok: "validate_variant v = None \<longleftrightarrow> variant_formed v"
proof -
  have "validate_variant v = None \<longleftrightarrow>
     re_variant_id (av_id v) \<and> av_platform v \<in> {''linux'', ''macos'', ''windows'', ''android'', ''ios''}
     \<and> av_arch v \<in> {''x86_64'', ''arm64''} \<and> av_topology v \<in> {''full_identity_host'', ''mobile_app_host''}
     \<and> (av_runtime v \<in> {''service_process'', ''wasm_component'', ''wasm_aot_component'', ''inprocess_component'',
            ''native_t3_component''}
        \<and> av_profile v \<in> {''standard'', ''wasm_sandbox'', ''certified_native'', ''platform_reserved''} \<and> pairing_ok v)
     \<and> capabilities_formed (av_capabilities v) \<and> requirements_formed (av_requirements v)"
    unfolding validate_capabilities_ok [symmetric] validate_variant_def by (simp del: insert_iff split del: if_split)
      (simp del: insert_iff)
  then show ?thesis unfolding pairing_formed variant_formed_def by blast
qed

section \<open>The form of an accepted file\<close>

definition identity_formed :: "author_config \<Rightarrow> bool" where
  "identity_formed c \<longleftrightarrow>
     re_manifest_id (ac_id c) \<and> validate_component (ac_version c) = None
     \<and> valid_host_window (ac_min_host c) (ac_max_host c) = None
     \<and> ac_family c \<in> {''channel_adapter'', ''provider_bridge'', ''tool_bridge'', ''voice_interface''}"

definition interfaces_formed :: "author_config \<Rightarrow> bool" where
  "interfaces_formed c \<longleftrightarrow>
     (ac_interfaces c = [] \<or> 2 \<le> length (ac_interfaces c) \<and> if_id (ac_interface c) = [])
     \<and> (\<forall>i \<in> set (interface_list c). re_interface_id (if_id i) \<and> 1 \<le> if_version i)
     \<and> distinct (map if_id (interface_list c))"

definition variants_formed :: "author_config \<Rightarrow> bool" where
  "variants_formed c \<longleftrightarrow>
     ac_variants c \<noteq> [] \<and> (\<forall>v \<in> set (ac_variants c). variant_formed v) \<and> distinct (map av_id (ac_variants c))
     \<and> ((\<forall>v \<in> set (ac_variants c). is_t3 v) \<or> (\<exists>v \<in> set (ac_variants c). is_wasm v))
     \<and> (ac_default_variant c \<noteq> [] \<longrightarrow> ac_default_variant c \<in> av_id ` set (ac_variants c))
     \<and> (\<forall>order. ac_preference c = Some order \<longrightarrow>
          validate_variant_preference order (ac_min_host c) (av_id ` set (ac_variants c)) = None)"

definition source_formed :: "author_config \<Rightarrow> bool" where
  "source_formed c \<longleftrightarrow>
     (case declares_embeddings c of
        None \<Rightarrow> ac_embeddings_file c = []
      | Some i \<Rightarrow>
          ac_family c = ''provider_bridge'' \<and> if_version i = 1 \<and> interface_list c = [i]
          \<and> valid_host_version (ac_min_host c) \<and> 0 \<le> compare_host_version (ac_min_host c) ''0.1.15''
          \<and> (ac_capabilities c = None \<or> ac_capabilities c = Some [])
          \<and> ac_settings c = [] \<and> ac_webhooks c = [] \<and> ac_schedule c = [] \<and> ac_subscriptions c = []
          \<and> ac_embeddings_file c \<noteq> []
          \<and> (\<forall>v \<in> set (ac_variants c). av_runtime v = ''native_t3_component''
                \<and> (av_capabilities v = None \<or> av_capabilities v = Some [])))"

definition declarations_formed :: "author_config \<Rightarrow> bool" where
  "declarations_formed c \<longleftrightarrow>
     validate_runtime_extent (ac_runtimes c) (ac_min_host c) = None
     \<and> require_runtime_extent (ac_runtimes c) (ac_min_host c) = None
     \<and> validate_settings (ac_settings c) = None \<and> validate_webhooks (ac_webhooks c) (ac_settings c) = None
     \<and> validate_schedule (ac_schedule c) = None \<and> validate_subscriptions (ac_subscriptions c) = None
     \<and> validate_models (ac_models c) = None
     \<and> validate_model_conditions (ac_models c) (ac_settings c) (ac_min_host c) = None"

definition profile_formed :: "author_config \<Rightarrow> author_variant \<Rightarrow> bool" where
  "profile_formed c v \<longleftrightarrow>
     (case av_accelerator v of
        None \<Rightarrow> ac_preference c = None \<or> av_runtime v \<noteq> ''native_t3_component''
      | Some a \<Rightarrow>
          av_runtime v = ''native_t3_component'' \<and> validate_accelerator_profile (Some a) = None
          \<and> (ac_preference c = None \<longrightarrow> ap_required_accelerators a = [])
          \<and> (ac_preference c \<noteq> None \<longrightarrow> ap_os a = av_platform v \<and> ap_arch a = av_arch v
               \<and> (\<exists>n. ap_device_memory_bytes a = Some n \<and> (0 < n \<longrightarrow> ap_required_accelerators a \<noteq> [])))
          \<and> (\<forall>name \<in> set (ap_models a). (\<exists>m \<in> set (ac_models c). md_name m = name)
               \<and> \<not> model_conditional (ac_models c) name))"

definition author_formed :: "author_config \<Rightarrow> bool" where
  "author_formed c \<longleftrightarrow>
     identity_formed c \<and> interfaces_formed c \<and> capabilities_formed (ac_capabilities c)
     \<and> requirements_formed (ac_requirements c) \<and> source_formed c \<and> variants_formed c \<and> declarations_formed c
     \<and> (\<forall>v \<in> set (ac_variants c). profile_formed c v)"

lemma component_bytes: "validate_component s = None \<Longrightarrow> s \<noteq> [] \<and> list_all component_byte s \<and> last s \<noteq> CHR ''.'' \<and> length s \<le> 255"
  by (auto simp: validate_component_def max_component_bytes_def split: if_split_asm)

lemma component_byte_slash: "component_byte c \<Longrightarrow> c \<noteq> CHR ''/'' \<and> c \<noteq> CHR 0x5C"
  by (auto simp: component_byte_def byte_defs)

lemma valid_version_ok: "v \<noteq> [] \<and> valid_version v = None \<longleftrightarrow> validate_component v = None"
proof -
  have "CHR ''/'' \<notin> set v \<and> CHR 0x5C \<notin> set v" if "validate_component v = None"
    using component_bytes [OF that] component_byte_slash unfolding list_all_iff by blast
  then show ?thesis using component_bytes [of v] by (auto simp: valid_version_def)
qed

lemma validate_identity_ok: "validate_identity c = None \<longleftrightarrow> identity_formed c"
proof -
  have "validate_identity c = None \<longleftrightarrow> re_manifest_id (ac_id c) \<and> (ac_version c \<noteq> [] \<and> valid_version (ac_version c) = None)
     \<and> valid_host_window (ac_min_host c) (ac_max_host c) = None
     \<and> ac_family c \<in> {''channel_adapter'', ''provider_bridge'', ''tool_bridge'', ''voice_interface''}"
    unfolding validate_identity_def by (simp del: insert_iff split: option.split)
  then show ?thesis unfolding valid_version_ok identity_formed_def .
qed

lemma validate_interfaces_ok: "validate_interfaces c = None \<longleftrightarrow> interfaces_formed c"
proof -
  have "(\<not> (ac_interfaces c \<noteq> [] \<and> if_id (ac_interface c) \<noteq> []) \<and> length (ac_interfaces c) \<noteq> 1) \<longleftrightarrow>
      (ac_interfaces c = [] \<or> 2 \<le> length (ac_interfaces c) \<and> if_id (ac_interface c) = [])"
    by (cases "ac_interfaces c"; cases "tl (ac_interfaces c)") auto
  then show ?thesis
    using interfaces_loop_ok [of "{}" "interface_list c"]
    by (auto simp: validate_interfaces_def interfaces_formed_def)
qed

lemma validate_envelope_ok:
  "validate_envelope c = None \<longleftrightarrow> capabilities_formed (ac_capabilities c) \<and> requirements_formed (ac_requirements c)"
  by (cases "ac_capabilities c")
    (auto simp: validate_envelope_def capabilities_formed_def validate_capability_list_ok [symmetric]
      validate_requirements_ok [symmetric] split: option.split)

lemma find_interface: "declares_embeddings c = Some i \<Longrightarrow> length (interface_list c) = 1 \<longleftrightarrow> interface_list c = [i]"
  by (cases "interface_list c"; cases "tl (interface_list c)")
    (auto simp: declares_embeddings_def find_Some_iff split: if_split_asm)

lemma source_variant_ok:
  "source_variant_refusal v = None \<longleftrightarrow> av_runtime v = ''native_t3_component''
     \<and> (av_capabilities v = None \<or> av_capabilities v = Some [])"
  by (auto simp: source_variant_refusal_def)

lemma validate_source_ok: "validate_embeddings_source c = None \<longleftrightarrow> source_formed c"
proof (cases "declares_embeddings c")
  case None
  then show ?thesis by (simp add: validate_embeddings_source_def source_formed_def)
next
  case (Some i)
  have "source_refusal c i = None \<longleftrightarrow> ac_family c = ''provider_bridge'' \<and> if_version i = 1 \<and> interface_list c = [i]
          \<and> valid_host_version (ac_min_host c) \<and> 0 \<le> compare_host_version (ac_min_host c) ''0.1.15''
          \<and> (ac_capabilities c = None \<or> ac_capabilities c = Some [])
          \<and> ac_settings c = [] \<and> ac_webhooks c = [] \<and> ac_schedule c = [] \<and> ac_subscriptions c = []
          \<and> ac_embeddings_file c \<noteq> []"
    using find_interface [OF Some]
    by (simp add: source_refusal_def embeddings_family_def embeddings_interface_version_def
        embeddings_min_host_def linorder_not_less) (auto split: if_split_asm)
  then show ?thesis using Some
    by (auto simp: validate_embeddings_source_def source_formed_def source_variant_ok split: option.split)
qed

lemma validate_variants_ok:
  "(\<exists>seen. validate_variants c = Inr seen) \<longleftrightarrow> variants_formed c"
proof (cases "\<exists>seen w. variants_loop {} False (ac_variants c) = Inr (seen, w)")
  case False
  then have "\<not> variants_formed c"
    using variants_loop_ok [of "{}" False "ac_variants c" "av_id ` set (ac_variants c)" "\<exists>v \<in> set (ac_variants c). is_wasm v"]
    by (auto simp: variants_formed_def validate_variant_ok)
  moreover obtain e where "variants_loop {} False (ac_variants c) = Inl e"
    using False by (cases "variants_loop {} False (ac_variants c)") auto
  ultimately show ?thesis by (simp add: validate_variants_def)
next
  case True
  then obtain seen w where l: "variants_loop {} False (ac_variants c) = Inr (seen, w)" by blast
  note p = l [unfolded variants_loop_ok]
  show ?thesis using p l
    by (auto simp: validate_variants_def variants_formed_def validate_variant_ok split: option.split)
qed

lemma validate_declarations_ok: "validate_declarations c = None \<longleftrightarrow> declarations_formed c"
  by (simp add: validate_declarations_def declarations_formed_def del: first_error.simps)

lemma preferred_profile_ok:
  "preferred_profile_refusal v a = None \<longleftrightarrow> ap_os a = av_platform v \<and> ap_arch a = av_arch v
     \<and> (\<exists>n. ap_device_memory_bytes a = Some n \<and> (0 < n \<longrightarrow> ap_required_accelerators a \<noteq> []))"
  by (auto simp: preferred_profile_refusal_def split: option.split)

lemma profile_model_ok:
  "profile_model_refusal models name = None \<longleftrightarrow> (\<exists>m \<in> set models. md_name m = name) \<and> \<not> model_conditional models name"
  by (auto simp: profile_model_refusal_def)

lemma profile_refusal_ok: "profile_refusal c v = None \<longleftrightarrow> profile_formed c v"
proof (cases "av_accelerator v")
  case None
  then show ?thesis by (simp add: profile_refusal_def profile_formed_def)
next
  case (Some a)
  show ?thesis
    unfolding profile_formed_def preferred_profile_ok [symmetric] profile_model_ok [symmetric]
    by (cases "ac_preference c"; cases "preferred_profile_refusal v a")
      (auto simp: Some profile_refusal_def split: option.split)
qed

section \<open>The name of the bundle\<close>

lemma manifest_id_bytes: "re_manifest_id s \<Longrightarrow> s \<noteq> [] \<and> list_all component_byte s"
  by (induction s rule: re_manifest_id.induct)
    (auto simp: lower_alnum_def component_byte_def split: if_split_asm)

lemma four_long: "length l = 4 \<Longrightarrow> \<exists>a b c d. l = [a, b, c, d]"
  by (auto simp: eval_nat_numeral length_Suc_conv)

lemma dash_no_device: "CHR ''-'' \<in> set (takeWhile (\<lambda>c. c \<noteq> CHR ''.'') s) \<Longrightarrow> \<not> windows_device_stem s"
proof
  let ?l = "lower_bytes (takeWhile (\<lambda>c. c \<noteq> CHR ''.'') s)"
  assume d: "CHR ''-'' \<in> set (takeWhile (\<lambda>c. c \<noteq> CHR ''.'') s)" and w: "windows_device_stem s"
  have "ascii_lower (CHR ''-'') = CHR ''-''" by (simp add: ascii_lower_def byte_defs)
  then have "CHR ''-'' \<in> set ?l" using d by (force simp: lower_bytes_def)
  moreover have "CHR ''-'' \<notin> set ?l"
    if n: "length ?l = 4" "take 3 ?l = ''com'' \<or> take 3 ?l = ''lpt''" "CHR ''1'' \<le> ?l ! 3"
  proof -
    obtain a b c d where l: "?l = [a, b, c, d]" using four_long [OF n(1)] by blast
    then have "d \<noteq> CHR ''-''" using that(3) by (auto simp: eval_nat_numeral)
    then show ?thesis using that(2) by (auto simp: l eval_nat_numeral)
  qed
  ultimately show False using w by (auto simp: windows_device_stem_def Let_def)
qed

lemma root_device:
  "windows_device_stem (i @ ''-'' @ v) \<longleftrightarrow> CHR ''.'' \<in> set i \<and> windows_device_stem i"
proof (cases "CHR ''.'' \<in> set i")
  case True
  then have "takeWhile (\<lambda>c. c \<noteq> CHR ''.'') (i @ ''-'' @ v) = takeWhile (\<lambda>c. c \<noteq> CHR ''.'') i"
    by (auto simp: takeWhile_append)
  then show ?thesis using True by (simp add: windows_device_stem_def)
next
  case False
  then have "takeWhile (\<lambda>c. c \<noteq> CHR ''.'') (i @ ''-'' @ v) = i @ takeWhile (\<lambda>c. c \<noteq> CHR ''.'') (''-'' @ v)"
    by (intro takeWhile_append2) auto
  then have "CHR ''-'' \<in> set (takeWhile (\<lambda>c. c \<noteq> CHR ''.'') (i @ ''-'' @ v))" by simp
  from dash_no_device [OF this] show ?thesis using False by simp
qed

section \<open>The properties of an accepted file\<close>

text \<open>C30: \<open>Validate\<close> accepts exactly the authoring files that are well formed: the identity and
  its window, interfaces named once, capabilities and requirements within their grammars and counts,
  variants of distinct names with a runtime and profile that go together, a WASM baseline unless every
  variant is exempt, declarations each accepted by its own rules, profiles whose models are declared
  and always needed, and, for a source of vectors, nothing but its one interface.\<close>

theorem accepted_authoring_is_well_formed: "author_validate c = None \<longleftrightarrow> author_formed c"
proof (cases "validate_variants c")
  case (Inl e)
  then have "\<not> variants_formed c" using validate_variants_ok [of c] by simp
  with Inl show ?thesis by (auto simp: author_validate_def author_formed_def split: option.split)
next
  case (Inr seen)
  then have "variants_formed c" using validate_variants_ok [of c] by blast
  moreover define f where "f = first_error id [map_option IdentityBad (validate_identity c),
      map_option InterfacesBad (validate_interfaces c), validate_envelope c,
      map_option SourceBad (validate_embeddings_source c)]"
  have f: "f = None \<longleftrightarrow> identity_formed c \<and> interfaces_formed c \<and> (capabilities_formed (ac_capabilities c)
     \<and> requirements_formed (ac_requirements c)) \<and> source_formed c"
    by (simp add: f_def validate_identity_ok validate_interfaces_ok validate_envelope_ok validate_source_ok
        del: first_error.simps)
  have "author_validate c = None \<longleftrightarrow>
      f = None \<and> validate_declarations c = None \<and> (\<forall>v \<in> set (ac_variants c). profile_refusal c v = None)"
    unfolding author_validate_def f_def [symmetric] Inr
    by (cases f; cases "validate_declarations c") simp_all
  ultimately show ?thesis unfolding author_formed_def f validate_declarations_ok profile_refusal_ok by blast
qed

text \<open>C38: the root of an accepted package, its id and version joined by a dash, is a component a
  package path may have exactly when it is short enough and its id does not begin with a dotted part
  that is the name of a Windows device. \<open>Validate\<close> checks neither.\<close>

theorem the_root_of_an_accepted_package:
  assumes "author_validate c = None"
  shows "validate_component (author_root c) = None \<longleftrightarrow>
    length (author_root c) \<le> 255 \<and> \<not> (CHR ''.'' \<in> set (ac_id c) \<and> windows_device_stem (ac_id c))"
proof -
  have v: "re_manifest_id (ac_id c)" "validate_component (ac_version c) = None"
  proof -
    have "validate_identity c = None" using assms by (auto simp: author_validate_def split: option.split_asm)
    then show "re_manifest_id (ac_id c)" "validate_component (ac_version c) = None"
      by (simp_all add: validate_identity_ok identity_formed_def)
  qed
  note b = manifest_id_bytes [OF v(1)] component_bytes [OF v(2)]
  have "component_byte (CHR ''-'')" by (simp add: component_byte_def)
  then have all: "list_all component_byte (author_root c)" using b by (simp add: author_root_def)
  have "author_root c \<noteq> []" "last (author_root c) \<noteq> CHR ''.''" "author_root c \<noteq> ''.''" "author_root c \<noteq> ''..''"
    using b by (auto simp: author_root_def append_eq_Cons_conv)
  with all show ?thesis
    using root_device [of "ac_id c" "ac_version c"]
    by (auto simp: validate_component_def max_component_bytes_def author_root_def)
qed

definition con_variant :: author_variant where
  "con_variant = \<lparr>av_id = ''wasm'', av_platform = ''linux'', av_arch = ''x86_64'', av_topology = ''full_identity_host'',
     av_runtime = ''wasm_component'', av_profile = ''wasm_sandbox'', av_capabilities = Some [], av_requirements = None,
     av_accelerator = None, av_artifact = []\<rparr>"

definition con_config :: author_config where
  "con_config = \<lparr>ac_id = ''con.hello'', ac_version = ''1.0.0'', ac_family = ''tool_bridge'', ac_min_host = [],
     ac_max_host = [], ac_publisher = [], ac_title = [], ac_description = [], ac_license = [], ac_homepage = [],
     ac_interface = \<lparr>if_id = ''con.hello'', if_version = 1, if_methods = []\<rparr>, ac_interfaces = [],
     ac_capabilities = Some [], ac_requirements = None, ac_default_variant = [], ac_preference = None,
     ac_variants = [con_variant], ac_settings = [], ac_webhooks = [], ac_schedule = [], ac_subscriptions = [],
     ac_models = [], ac_runtimes = [], ac_embeddings_file = [], ac_validation_file = []\<rparr>"

lemma con_variant_fields:
  "av_id con_variant = ''wasm''"
  "av_platform con_variant = ''linux''"
  "av_arch con_variant = ''x86_64''"
  "av_topology con_variant = ''full_identity_host''"
  "av_runtime con_variant = ''wasm_component''"
  "av_profile con_variant = ''wasm_sandbox''"
  "av_capabilities con_variant = Some []"
  "av_requirements con_variant = None"
  "av_accelerator con_variant = None"
  "av_artifact con_variant = []"
  by (simp_all add: con_variant_def)

lemma con_config_fields:
  "ac_id con_config = ''con.hello''"
  "ac_version con_config = ''1.0.0''"
  "ac_family con_config = ''tool_bridge''"
  "ac_min_host con_config = []"
  "ac_max_host con_config = []"
  "ac_publisher con_config = []"
  "ac_title con_config = []"
  "ac_description con_config = []"
  "ac_license con_config = []"
  "ac_homepage con_config = []"
  "ac_interface con_config = \<lparr>if_id = ''con.hello'', if_version = 1, if_methods = []\<rparr>"
  "ac_interfaces con_config = []"
  "ac_capabilities con_config = Some []"
  "ac_requirements con_config = None"
  "ac_default_variant con_config = []"
  "ac_preference con_config = None"
  "ac_variants con_config = [con_variant]"
  "ac_settings con_config = []"
  "ac_webhooks con_config = []"
  "ac_schedule con_config = []"
  "ac_subscriptions con_config = []"
  "ac_models con_config = []"
  "ac_runtimes con_config = []"
  "ac_embeddings_file con_config = []"
  "ac_validation_file con_config = []"
  by (simp_all add: con_config_def)

lemma con_variant_ok: "validate_variant con_variant = None"
  by (simp add: validate_variant_def con_variant_fields re_variant_id_def pairing_ok_def validate_capability_list_def
      validate_author_requirements_def byte_defs)

lemma con_config_ok: "author_validate con_config = None"
proof -
  have i: "validate_identity con_config = None"
    by (simp add: validate_identity_def con_config_fields lower_alnum_def valid_version_def validate_component_def
        max_component_bytes_def windows_device_stem_def lower_bytes_def ascii_lower_def component_byte_def
        valid_host_window_def byte_defs)
  have f: "validate_interfaces con_config = None"
    by (simp add: validate_interfaces_def interface_list_def con_config_fields re_interface_id_def dotted_part_def
        lower_alnum_def byte_defs)
  have e: "validate_envelope con_config = None"
    by (simp add: validate_envelope_def con_config_fields validate_capability_list_def validate_author_requirements_def)
  have s: "validate_embeddings_source con_config = None"
    by (simp add: validate_embeddings_source_def declares_embeddings_def interface_list_def con_config_fields
        embeddings_interface_id_def)
  have "validate_variants con_config = Inr {''wasm''}"
    using con_variant_ok by (simp add: validate_variants_def con_config_fields is_wasm_def con_variant_fields)
  moreover have "validate_declarations con_config = None"
    by (simp add: validate_declarations_def con_config_fields validate_runtime_extent_def require_runtime_extent_def
        validate_settings_def validate_webhooks_def validate_schedule_def validate_subscriptions_def
        validate_models_def validate_model_conditions_def)
  moreover have "profile_refusal con_config con_variant = None"
    by (simp add: profile_refusal_def con_config_fields con_variant_fields)
  moreover have "ac_variants con_config = [con_variant]" by (simp add: con_config_fields)
  ultimately show ?thesis by (simp add: author_validate_def i f e s)
qed

theorem the_root_of_an_accepted_package_witness: "validate_component (author_root con_config) \<noteq> None"
proof -
  have "windows_device_stem (ac_id con_config)" "CHR ''.'' \<in> set (ac_id con_config)"
    by (simp_all add: con_config_fields windows_device_stem_def lower_bytes_def ascii_lower_def byte_defs)
  then show ?thesis using the_root_of_an_accepted_package [OF con_config_ok] by blast
qed

end
