(* ===== verification/Signing.thy ===== *)
theory Signing
  imports EnvelopeJson Author HostCall "HOL-Library.Product_Lexorder"
begin

text \<open>
  What a package is signed over: the hashes of \<open>pkg/aiiospkg/digest.go\<close> and \<open>canonjson.go\<close>, the texts
  of \<open>envelope.go\<close> that fingerprints and signatures are taken of, \<open>Sign\<close> and \<open>VerifyOwnEnvelope\<close> of
  \<open>keys.go\<close>, and the revocation snapshot of \<open>revocation.go\<close>. SHA-256 and the two signature schemes are
  arguments: a function of the bytes, and for a role's keys what signing gives and verifying accepts.
  \<open>Sign\<close> gives the bytes of an envelope and \<open>VerifyOwnEnvelope\<close> reads bytes; \<open>sign_envelope\<close> and
  \<open>verify_envelope\<close> are the two without the JSON of \<open>EnvelopeJson\<close>. The payload is the bytes
  \<open>json.Marshal\<close> made of it.
\<close>

section \<open>Hashes\<close>

definition hex_encode :: "bytes \<Rightarrow> bytes" where
  "hex_encode s = concat (map (\<lambda>c. [hex_digit (byte_val c div 16), hex_digit (byte_val c mod 16)]) s)"

definition sha256_prefixed :: "(bytes \<Rightarrow> bytes) \<Rightarrow> bytes \<Rightarrow> bytes" where
  "sha256_prefixed sha s = ''sha256:'' @ hex_encode (sha s)"

definition hash_line :: "(bytes \<Rightarrow> bytes) \<Rightarrow> (bytes, bytes) fmap \<Rightarrow> bytes \<Rightarrow> bytes" where
  "hash_line sha files p = p @ CHR 0x00 # hex_encode (sha (the (fmlookup files p))) @ [CHR 0x0A]"

definition hash_input :: "(bytes \<Rightarrow> bytes) \<Rightarrow> (bytes, bytes) fmap \<Rightarrow> bytes" where
  "hash_input sha files = concat (map (hash_line sha files) (sorted_list_of_fset (fmdom files)))"

definition package_hash :: "(bytes \<Rightarrow> bytes) \<Rightarrow> (bytes, bytes) fmap \<Rightarrow> bytes" where
  "package_hash sha files = ''sha256:'' @ hex_encode (sha (hash_input sha files))"

section \<open>Envelopes\<close>

definition profile_root :: bytes where "profile_root = ''AIII-PQ-SIGNATURE-V1-ROOT''"
definition canonicalization_v1 :: bytes where "canonicalization_v1 = ''AIII-CANONICAL-JSON-V1''"
definition alg_ml :: bytes where "alg_ml = ''ML-DSA-87''"
definition alg_slh :: bytes where "alg_slh = ''SLH-DSA-SHA2-256s''"
definition kind_publisher_cert :: bytes where "kind_publisher_cert = ''plugin.publisher_certificate''"
definition kind_manifest :: bytes where "kind_manifest = ''plugin.manifest''"

record key_material =
  km_alg :: bytes
  km_public_b64 :: bytes
  km_fingerprint :: bytes

definition line :: "bytes \<Rightarrow> bytes \<Rightarrow> bytes" where
  "line label v = label @ v @ [CHR 0x0A]"

definition public_key_fingerprint :: "(bytes \<Rightarrow> bytes) \<Rightarrow> bytes \<Rightarrow> bytes \<Rightarrow> bytes \<Rightarrow> bytes" where
  "public_key_fingerprint sha alg key_id public_b64 =
     sha256_prefixed sha (line ''AIII-PUBLIC-KEY-FINGERPRINT-V1'' [] @ line ''alg:'' alg @ line ''key_id:'' key_id
       @ line ''public_key_b64:'' public_b64)"

definition signature_input :: "bytes \<Rightarrow> bytes \<Rightarrow> bytes \<Rightarrow> bytes \<Rightarrow> bytes \<Rightarrow> bytes \<Rightarrow> bytes" where
  "signature_input kind profile alg key_id fingerprint payload_sha =
     line ''AIII-SIGNATURE-V1'' [] @ line ''artifact_kind:'' kind @ line ''canonicalization:'' canonicalization_v1
     @ line ''signature_profile:'' profile @ line ''alg:'' alg @ line ''key_id:'' key_id
     @ line ''public_key_fingerprint:'' fingerprint @ line ''payload_sha256:'' payload_sha"

section \<open>Base64\<close>

definition base64_char :: "nat \<Rightarrow> char" where
  "base64_char n =
     (if n < 26 then byte_of (n + 65) else if n < 52 then byte_of (n + 71) else if n < 62 then byte_of (n - 4)
      else if n = 62 then CHR ''+'' else CHR ''/'')"

fun base64_encode :: "bytes \<Rightarrow> bytes" where
  "base64_encode [] = []"
| "base64_encode [a] =
     (let n = byte_val a * 16
      in [base64_char (n div 64), base64_char (n mod 64), CHR ''='', CHR ''=''])"
| "base64_encode [a, b] =
     (let n = (byte_val a * 256 + byte_val b) * 4
      in [base64_char (n div 4096), base64_char (n div 64 mod 64), base64_char (n mod 64), CHR ''=''])"
| "base64_encode (a # b # c # s) =
     (let n = (byte_val a * 256 + byte_val b) * 256 + byte_val c
      in [base64_char (n div 262144), base64_char (n div 4096 mod 64), base64_char (n div 64 mod 64),
          base64_char (n mod 64)] @ base64_encode s)"

section \<open>Roles\<close>

text \<open>
  The keys of a role: what they are as bytes, what signing with them gives (one draw of the
  randomness each scheme uses), and what verifying with them accepts.
\<close>

record signer =
  sg_sha :: "bytes \<Rightarrow> bytes"
  sg_key_id :: bytes
  sg_ml_public :: bytes
  sg_slh_public :: bytes
  sg_ml_sign :: "bytes \<Rightarrow> bytes option"
  sg_slh_sign :: "bytes \<Rightarrow> bytes option"
  sg_ml_verify :: "bytes \<Rightarrow> bytes \<Rightarrow> bool"
  sg_slh_verify :: "bytes \<Rightarrow> bytes \<Rightarrow> bool"

definition material :: "signer \<Rightarrow> bytes \<Rightarrow> bytes \<Rightarrow> key_material" where
  "material r alg public_key =
     \<lparr>km_alg = alg, km_public_b64 = base64_encode public_key,
      km_fingerprint = public_key_fingerprint (sg_sha r) alg (sg_key_id r) (base64_encode public_key)\<rparr>"

definition public_keys :: "signer \<Rightarrow> key_material list" where
  "public_keys r = [material r alg_ml (sg_ml_public r), material r alg_slh (sg_slh_public r)]"

datatype sign_error = NotCanonical json_error | SignFailed bytes | EnvelopeNotWritten

definition raw_signature :: "signer \<Rightarrow> bytes \<Rightarrow> bytes \<Rightarrow> sign_error + bytes" where
  "raw_signature r alg input =
     (if alg = alg_ml then (case sg_ml_sign r input of None \<Rightarrow> Inl (SignFailed alg) | Some s \<Rightarrow> Inr s)
      else if alg = alg_slh then (case sg_slh_sign r input of None \<Rightarrow> Inl (SignFailed alg) | Some s \<Rightarrow> Inr s)
      else Inr [])"

fun sign_keys :: "signer \<Rightarrow> bytes \<Rightarrow> bytes \<Rightarrow> key_material list \<Rightarrow> sign_error + signature_entry list" where
  "sign_keys r kind payload_sha [] = Inr []"
| "sign_keys r kind payload_sha (k # ks) =
     (let input = signature_input kind profile_root (km_alg k) (sg_key_id r) (km_fingerprint k) payload_sha
      in case raw_signature r (km_alg k) input of
           Inl e \<Rightarrow> Inl e
         | Inr raw \<Rightarrow>
             (case sign_keys r kind payload_sha ks of
                Inl e \<Rightarrow> Inl e
              | Inr sigs \<Rightarrow>
                  Inr (\<lparr>se_alg = km_alg k, se_key_id = sg_key_id r, se_fingerprint = km_fingerprint k,
                        se_input_sha = sha256_prefixed (sg_sha r) input, se_sig_b64 = base64_encode raw\<rparr> # sigs)))"

definition sign_envelope :: "signer \<Rightarrow> bytes \<Rightarrow> bytes \<Rightarrow> sign_error + envelope" where
  "sign_envelope r kind payload_raw =
     (case canonicalize_v1 payload_raw of
        Inl e \<Rightarrow> Inl (NotCanonical e)
      | Inr canonical \<Rightarrow>
          (let payload_sha = sha256_prefixed (sg_sha r) canonical
           in case sign_keys r kind payload_sha (public_keys r) of
                Inl e \<Rightarrow> Inl e
              | Inr sigs \<Rightarrow>
                  Inr \<lparr>en_kind = kind, en_payload = canonical, en_payload_sha = payload_sha,
                       en_canonicalization = canonicalization_v1, en_profile = profile_root,
                       en_signatures = sigs\<rparr>))"

definition sign :: "signer \<Rightarrow> bytes \<Rightarrow> bytes \<Rightarrow> sign_error + bytes" where
  "sign r kind payload_raw =
     (case sign_envelope r kind payload_raw of
        Inl e \<Rightarrow> Inl e
      | Inr env \<Rightarrow> (case marshal_envelope env of None \<Rightarrow> Inl EnvelopeNotWritten | Some bundle \<Rightarrow> Inr bundle))"

section \<open>Verifying one's own envelope\<close>

datatype verify_error =
    BundleNotRead
  | KindMismatch bytes bytes
  | PayloadNotCanonical json_error
  | PayloadHashMismatch
  | SignatureCount nat
  | NoMaterial bytes
  | InputHashMismatch bytes
  | SignatureNotBase64
  | MlFailed
  | SlhFailed
  | UnexpectedAlgorithm bytes

definition verify_signature :: "signer \<Rightarrow> envelope \<Rightarrow> signature_entry \<Rightarrow> verify_error option" where
  "verify_signature r env sig =
     (if find (\<lambda>k. km_alg k = se_alg sig) (rev (public_keys r)) = None then Some (NoMaterial (se_alg sig))
      else (let input = signature_input (en_kind env) (en_profile env) (se_alg sig) (se_key_id sig)
                          (se_fingerprint sig) (en_payload_sha env)
            in if sha256_prefixed (sg_sha r) input \<noteq> se_input_sha sig then Some (InputHashMismatch (se_alg sig))
               else (case base64_decode (se_sig_b64 sig) of
                       None \<Rightarrow> Some SignatureNotBase64
                     | Some raw \<Rightarrow>
                         if se_alg sig = alg_ml then (if sg_ml_verify r input raw then None else Some MlFailed)
                         else if se_alg sig = alg_slh then (if sg_slh_verify r input raw then None else Some SlhFailed)
                         else Some (UnexpectedAlgorithm (se_alg sig)))))"

definition verify_envelope :: "signer \<Rightarrow> envelope \<Rightarrow> bytes \<Rightarrow> verify_error option" where
  "verify_envelope r env expected =
     (if en_kind env \<noteq> expected then Some (KindMismatch (en_kind env) expected)
      else (case canonicalize_v1 (en_payload env) of
              Inl e \<Rightarrow> Some (PayloadNotCanonical e)
            | Inr canonical \<Rightarrow>
                if sha256_prefixed (sg_sha r) canonical \<noteq> en_payload_sha env then Some PayloadHashMismatch
                else if length (en_signatures env) \<noteq> 2 then Some (SignatureCount (length (en_signatures env)))
                else first_error (verify_signature r env) (en_signatures env)))"

definition verify_own_envelope :: "signer \<Rightarrow> bytes \<Rightarrow> bytes \<Rightarrow> verify_error option" where
  "verify_own_envelope r bundle expected =
     (case unmarshal_envelope bundle of
        None \<Rightarrow> Some BundleNotRead
      | Some env \<Rightarrow> verify_envelope r env expected)"

section \<open>Revocation snapshots\<close>

text \<open>
  The result shares the array the loop reads: it is the first \<open>k\<close> entries, and keeping an entry
  writes it there. Later reads of the loop see those writes.
\<close>

record revocation_entry =
  rv_kind :: bytes
  rv_digest :: bytes

datatype revocation_error =
    EpochNotPositive int
  | KindOutside bytes
  | DigestPrefix bytes
  | DigestLength nat
  | DigestHex

definition certifier_may_revoke :: "bytes \<Rightarrow> bool" where
  "certifier_may_revoke kind \<longleftrightarrow> kind = kind_publisher_cert \<or> kind = kind_manifest"

definition validate_revocation_digest :: "bytes \<Rightarrow> revocation_error option" where
  "validate_revocation_digest v =
     (if \<not> has_prefix v ''sha256:'' then Some (DigestPrefix v)
      else if length (drop 7 v) \<noteq> 64 then Some (DigestLength (length (drop 7 v)))
      else if \<not> list_all (\<lambda>c. is_digit c \<or> CHR ''a'' \<le> c \<and> c \<le> CHR ''f'') (drop 7 v) then Some DigestHex
      else None)"

definition validate_revocation_entry :: "revocation_entry \<Rightarrow> revocation_error option" where
  "validate_revocation_entry e =
     (if \<not> certifier_may_revoke (rv_kind e) then Some (KindOutside (rv_kind e))
      else validate_revocation_digest (rv_digest e))"

definition entry_key :: "revocation_entry \<Rightarrow> bytes \<times> bytes" where
  "entry_key e = (rv_kind e, rv_digest e)"

function dedupe_loop :: "revocation_entry list \<Rightarrow> nat \<Rightarrow> nat \<Rightarrow> revocation_error + revocation_entry list" where
  "dedupe_loop arr k i =
     (if i < length arr
      then (case validate_revocation_entry (arr ! i) of
              Some e \<Rightarrow> Inl e
            | None \<Rightarrow>
                if 0 < i \<and> arr ! i = arr ! (i - 1) then dedupe_loop arr k (i + 1)
                else dedupe_loop (arr[k := arr ! i]) (k + 1) (i + 1))
      else Inr (take k arr))"
  by pat_completeness auto
termination
  by (relation "measure (\<lambda>(arr, k, i). length arr - i)") auto

declare dedupe_loop.simps [simp del]

definition build_revocation_status :: "int \<Rightarrow> revocation_entry list \<Rightarrow> revocation_error + revocation_entry list" where
  "build_revocation_status epoch entries =
     (if epoch < 1 then Inl (EpochNotPositive epoch)
      else dedupe_loop (sort_key entry_key entries) 0 0)"

section \<open>Hexadecimal and lines\<close>

lemma hex_encode_Cons: "hex_encode (c # s) = hex_digit (byte_val c div 16) # hex_digit (byte_val c mod 16) # hex_encode s"
  by (simp add: hex_encode_def)

lemma hex_encode_Nil [simp]: "hex_encode [] = []"
  by (simp add: hex_encode_def)

lemma hex_digit_inject: "m < 16 \<Longrightarrow> n < 16 \<Longrightarrow> hex_digit m = hex_digit n \<longleftrightarrow> m = n"
  by (metis hex_val_digit option.inject)

lemma hex_byte: "hex_digit (byte_val c div 16) = hex_digit (byte_val d div 16) \<Longrightarrow>
    hex_digit (byte_val c mod 16) = hex_digit (byte_val d mod 16) \<Longrightarrow> c = d"
proof -
  assume h: "hex_digit (byte_val c div 16) = hex_digit (byte_val d div 16)"
    "hex_digit (byte_val c mod 16) = hex_digit (byte_val d mod 16)"
  then have "byte_val c div 16 = byte_val d div 16" "byte_val c mod 16 = byte_val d mod 16"
    by (simp_all add: hex_digit_inject byte_split)
  then have "byte_val c = byte_val d" by (metis div_mult_mod_eq)
  then show "c = d" by (simp add: byte_val_inject)
qed

lemma hex_encode_inject: "hex_encode s = hex_encode t \<longleftrightarrow> s = t"
proof
  show "hex_encode s = hex_encode t \<Longrightarrow> s = t"
  proof (induction s arbitrary: t)
    case Nil
    then show ?case by (cases t) (simp_all add: hex_encode_Cons)
  next
    case (Cons c s)
    then obtain d u where t: "t = d # u" by (cases t) (simp_all add: hex_encode_Cons)
    have e: "hex_digit (byte_val c div 16) = hex_digit (byte_val d div 16)"
      "hex_digit (byte_val c mod 16) = hex_digit (byte_val d mod 16)" "hex_encode s = hex_encode u"
      using Cons.prems unfolding t hex_encode_Cons by simp_all
    show ?case using hex_byte [OF e(1,2)] Cons.IH [OF e(3)] t by simp
  qed
qed simp

lemma hex_encode_plain: "CHR 0x0A \<notin> set (hex_encode s) \<and> CHR 0x00 \<notin> set (hex_encode s)"
proof -
  have "\<forall>k \<in> set [0..<16]. hex_digit k \<noteq> CHR 0x0A \<and> hex_digit k \<noteq> CHR 0x00"
    by (simp add: hex_digit_def upt_rec)
  then have d: "n < 16 \<Longrightarrow> hex_digit n \<noteq> CHR 0x0A \<and> hex_digit n \<noteq> CHR 0x00" for n by simp
  show ?thesis
  proof (induction s)
    case (Cons c s)
    then show ?case using d [OF byte_split(1) [of c]] d [OF byte_split(2) [of c]] by (auto simp: hex_encode_Cons)
  qed simp
qed

lemma split_at_mark:
  assumes "m \<notin> set a" "m \<notin> set b" "a @ m # s = b @ m # t"
  shows "a = b \<and> s = t"
  using assms
proof (induction a arbitrary: b)
  case Nil
  then show ?case by (cases b) auto
next
  case (Cons x a)
  then show ?case by (cases b) auto
qed

lemma line_inject:
  "CHR 0x0A \<notin> set v \<Longrightarrow> CHR 0x0A \<notin> set w \<Longrightarrow> line label v @ s = line label w @ t \<longleftrightarrow> v = w \<and> s = t"
  using split_at_mark [of "CHR 0x0A" v w s t] by (auto simp: line_def)

lemma line_eq: "line label v = line label w \<longleftrightarrow> v = w"
  by (simp add: line_def)

section \<open>The hash of a package\<close>

definition files_inject :: "(bytes \<Rightarrow> bytes) \<Rightarrow> (bytes, bytes) fmap \<Rightarrow> (bytes, bytes) fmap \<Rightarrow> bool" where
  "files_inject sha f g \<longleftrightarrow>
     inj_on sha (insert (hash_input sha f) (insert (hash_input sha g) (fmran' f \<union> fmran' g)))"

lemma hash_lines_inject:
  assumes "\<forall>p \<in> set ps. CHR 0x00 \<notin> set p" "\<forall>q \<in> set qs. CHR 0x00 \<notin> set q"
    "concat (map (hash_line sha f) ps) = concat (map (hash_line sha g) qs)"
  shows "ps = qs \<and> (\<forall>p \<in> set ps. sha (the (fmlookup f p)) = sha (the (fmlookup g p)))"
  using assms
proof (induction ps arbitrary: qs)
  case Nil
  then show ?case by (cases qs) (simp_all add: hash_line_def)
next
  case (Cons p ps)
  then obtain q qs' where q: "qs = q # qs'" by (cases qs) (simp_all add: hash_line_def)
  define hf where "hf = hex_encode (sha (the (fmlookup f p)))"
  define hg where "hg = hex_encode (sha (the (fmlookup g q)))"
  define rf where "rf = concat (map (hash_line sha f) ps)"
  define rg where "rg = concat (map (hash_line sha g) qs')"
  have "p @ CHR 0x00 # (hf @ CHR 0x0A # rf) = q @ CHR 0x00 # (hg @ CHR 0x0A # rg)"
    using Cons.prems(3) by (simp add: q hash_line_def [of sha f p] hash_line_def [of sha g q] hf_def hg_def rf_def rg_def)
  moreover have "CHR 0x00 \<notin> set p" "CHR 0x00 \<notin> set q" using Cons.prems(1,2) q by simp_all
  ultimately have pq: "p = q" "hf @ CHR 0x0A # rf = hg @ CHR 0x0A # rg"
    using split_at_mark [of "CHR 0x00" p q "hf @ CHR 0x0A # rf" "hg @ CHR 0x0A # rg"] by blast+
  have h: "hf = hg" "rf = rg"
    using split_at_mark [OF _ _ pq(2)] hex_encode_plain unfolding hf_def hg_def by blast+
  have "ps = qs' \<and> (\<forall>p \<in> set ps. sha (the (fmlookup f p)) = sha (the (fmlookup g p)))"
    using Cons.IH [of qs'] Cons.prems(1,2) h(2) q by (simp add: rf_def rg_def)
  then show ?case using pq h(1) q by (simp add: hf_def hg_def hex_encode_inject)
qed

section \<open>Base64 is read back\<close>

lemma base64_char_digit: "n < 64 \<Longrightarrow> base64_digit (base64_char n) = Some n \<and> base64_char n \<noteq> CHR ''=''
    \<and> base64_char n \<noteq> CHR 0x0A \<and> base64_char n \<noteq> CHR 0x0D"
proof -
  assume n: "n < 64"
  consider "n < 26" | "26 \<le> n" "n < 52" | "52 \<le> n" "n < 62" | "n = 62" | "n = 63" using n by linarith
  then show ?thesis
    by cases (simp_all add: base64_char_def base64_digit_def byte_of_eq byte_le_iff is_digit_val Let_def, arith)
qed

lemma base64_group_chars:
  "i < 64 \<Longrightarrow> j < 64 \<Longrightarrow> k < 64 \<Longrightarrow> l < 64 \<Longrightarrow>
     base64_group (base64_char i) (base64_char j) (base64_char k) (base64_char l)
       = Some (three_bytes (((i * 64 + j) * 64 + k) * 64 + l))"
  by (simp add: base64_group_def base64_char_digit)

lemma three_bytes_three: "three_bytes ((byte_val a * 256 + byte_val b) * 256 + byte_val c) = [a, b, c]"
proof -
  define x y z where xyz: "x = byte_val a" "y = byte_val b" "z = byte_val c"
  have l: "x < 256" "y < 256" "z < 256" by (simp_all add: xyz)
  have m: "(q * 256 + r) mod 256 = r" "(q * 256 + r) div 256 = q" if "r < 256" for q r :: nat using that by simp_all
  have d: "((x * 256 + y) * 256 + z) div 65536 = x" using l by auto
  have "byte_of (((x * 256 + y) * 256 + z) div 65536) = a" unfolding d using l(1) by (simp add: byte_of_eq xyz)
  moreover have "byte_of (((x * 256 + y) * 256 + z) div 256) = b"
    unfolding m(2) [OF l(3)] byte_of_eq m(1) [OF l(2)] by (simp add: xyz)
  moreover have "byte_of ((x * 256 + y) * 256 + z) = c" unfolding byte_of_eq m(1) [OF l(3)] by (simp add: xyz)
  ultimately show ?thesis unfolding three_bytes_def xyz [symmetric] by simp
qed

lemma base64_parts:
  "n < 16777216 \<Longrightarrow> ((n div 262144 * 64 + n div 4096 mod 64) * 64 + n div 64 mod 64) * 64 + n mod 64 = (n :: nat)
     \<and> n div 262144 < 64"
proof -
  assume n: "n < 16777216"
  have "n div 262144 = n div 4096 div 64" "n div 4096 = n div 64 div 64" by (simp_all add: div_mult2_eq [symmetric])
  moreover have "n div 262144 < 64" using n by (intro less_mult_imp_div_less) simp
  ultimately show ?thesis using div_mult_mod_eq [of "n div 4096" 64] div_mult_mod_eq [of "n div 64" 64] div_mult_mod_eq [of n 64]
    by simp
qed

lemma base64_triple_less: "(byte_val a * 256 + byte_val b) * 256 + byte_val c < 16777216"
proof -
  have le: "byte_val x \<le> 255" for x using byte_val_less [of x] by linarith
  have "byte_val a * 256 + byte_val b \<le> 65535" using le [of a] le [of b] by linarith
  then have "(byte_val a * 256 + byte_val b) * 256 \<le> 16776960" by simp
  then show ?thesis using le [of c] by linarith
qed

lemma base64_groups_encode:
  "base64_groups (base64_encode s) = Some s \<and> list_all (\<lambda>c. c \<noteq> CHR 0x0A \<and> c \<noteq> CHR 0x0D) (base64_encode s)"
proof (induction s rule: base64_encode.induct)
  case 1
  then show ?case by simp
next
  case (2 a)
  define n where "n = byte_val a * 16"
  have "n < 64 * 64" using byte_val_less [of a] by (simp add: n_def)
  then have n: "n div 64 < 64" "n mod 64 < 64" by (simp_all add: less_mult_imp_div_less)
  have v: "((n div 64 * 64 + n mod 64) * 64 + 0) * 64 + 0 = (byte_val a * 256 + byte_val (CHR 0x00)) * 256 + byte_val (CHR 0x00)"
    unfolding div_mult_mod_eq by (simp add: n_def)
  have z: "base64_char 0 = CHR ''A''" by (simp add: base64_char_def byte_of_eq)
  have "base64_group (base64_char (n div 64)) (base64_char (n mod 64)) (base64_char 0) (base64_char 0) =
      Some [a, CHR 0x00, CHR 0x00]"
    using base64_group_chars [OF n, of 0 0] unfolding v three_bytes_three by simp
  moreover have "base64_encode [a] = [base64_char (n div 64), base64_char (n mod 64), CHR ''='', CHR ''='']"
    unfolding base64_encode.simps Let_def n_def ..
  ultimately show ?case using n base64_char_digit by (simp add: base64_last_def z)
next
  case (3 a b)
  define n where "n = (byte_val a * 256 + byte_val b) * 4"
  have "n < 64 * 4096" using base64_triple_less [of a b "CHR 0x00"] by (simp add: n_def)
  then have n: "n div 4096 < 64" "n div 64 mod 64 < 64" "n mod 64 < 64" by (simp_all add: less_mult_imp_div_less)
  have "n div 4096 = n div 64 div 64" by (simp add: div_mult2_eq [symmetric])
  then have e: "(n div 4096 * 64 + n div 64 mod 64) * 64 + n mod 64 = n"
    using div_mult_mod_eq [of "n div 64" 64] div_mult_mod_eq [of n 64] by simp
  have v: "((n div 4096 * 64 + n div 64 mod 64) * 64 + n mod 64) * 64 + 0 =
      (byte_val a * 256 + byte_val b) * 256 + byte_val (CHR 0x00)"
    unfolding e by (simp add: n_def)
  have z: "base64_char 0 = CHR ''A''" by (simp add: base64_char_def byte_of_eq)
  have "base64_group (base64_char (n div 4096)) (base64_char (n div 64 mod 64)) (base64_char (n mod 64)) (base64_char 0) =
      Some [a, b, CHR 0x00]"
    using base64_group_chars [OF n, of 0] unfolding v three_bytes_three by simp
  moreover have "base64_encode [a, b] = [base64_char (n div 4096), base64_char (n div 64 mod 64), base64_char (n mod 64), CHR ''='']"
    unfolding base64_encode.simps Let_def n_def ..
  ultimately show ?case using n base64_char_digit by (simp add: base64_last_def z)
next
  case (4 a b c s)
  define n where "n = (byte_val a * 256 + byte_val b) * 256 + byte_val c"
  note l = base64_parts [OF base64_triple_less [of a b c, folded n_def]]
  have g: "base64_group (base64_char (n div 262144)) (base64_char (n div 4096 mod 64)) (base64_char (n div 64 mod 64))
      (base64_char (n mod 64)) = Some [a, b, c]"
    using base64_group_chars [of "n div 262144" "n div 4096 mod 64" "n div 64 mod 64" "n mod 64"] l three_bytes_three [of a b c]
    by (simp add: n_def)
  have d: "base64_char (n mod 64) \<noteq> CHR ''=''" using base64_char_digit by simp
  have enc: "base64_encode (a # b # c # s) = [base64_char (n div 262144), base64_char (n div 4096 mod 64),
      base64_char (n div 64 mod 64), base64_char (n mod 64)] @ base64_encode s"
    unfolding base64_encode.simps Let_def n_def ..
  have "base64_groups (base64_encode (a # b # c # s)) = Some (a # b # c # s)"
  proof (cases "base64_encode s")
    case Nil
    then have "s = []" using 4 by simp
    then show ?thesis unfolding enc Nil using g d by (simp add: base64_last_def)
  next
    case (Cons e r)
    then show ?thesis unfolding enc using g 4 by simp
  qed
  then show ?case unfolding enc using 4 l base64_char_digit by simp
qed

lemma base64_round_trip: "base64_decode (base64_encode s) = Some s"
proof -
  have "filter (\<lambda>c. c \<noteq> CHR 0x0A \<and> c \<noteq> CHR 0x0D) (base64_encode s) = base64_encode s"
    using base64_groups_encode [of s] by (auto simp: filter_id_conv list_all_iff)
  then show ?thesis using base64_groups_encode [of s] by (simp add: base64_decode_def)
qed

section \<open>The loop that drops repeated entries\<close>

lemma remdups_adj_take:
  assumes "i < length a"
  shows "remdups_adj (take (Suc i) a) =
    (if 0 < i \<and> a ! i = a ! (i - 1) then remdups_adj (take i a) else remdups_adj (take i a) @ [a ! i])"
proof (cases i)
  case 0
  then show ?thesis using assms by (simp add: take_Suc_conv_app_nth)
next
  case (Suc j)
  have "take (Suc (Suc j)) a = take j a @ [a ! j, a ! Suc j]" "take (Suc j) a = take j a @ [a ! j]"
    using assms Suc by (simp_all add: take_Suc_conv_app_nth)
  then show ?thesis using Suc by (auto simp: remdups_adj_append_two)
qed

lemma dedupe_loop_is_remdups:
  assumes "length arr = length a" "k \<le> i" "i \<le> length a" "take k arr = remdups_adj (take i a)"
    "drop i arr = drop i a" "0 < i \<longrightarrow> arr ! (i - 1) = a ! (i - 1)"
  shows "dedupe_loop arr k i =
    (case first_error validate_revocation_entry (drop i a) of Some e \<Rightarrow> Inl e | None \<Rightarrow> Inr (remdups_adj a))"
  using assms
proof (induction arr k i rule: dedupe_loop.induct)
  case (1 arr k i)
  show ?case
  proof (cases "i < length arr")
    case False
    then have "i = length a" using 1(3,5) by simp
    then show ?thesis using 1(6) False by (simp add: dedupe_loop.simps)
  next
    case True
    then have il: "i < length a" using 1(3) by simp
    have ai: "arr ! i = a ! i"
      using 1(7) True il by (metis Cons_nth_drop_Suc list.inject)
    have d: "drop i a = a ! i # drop (Suc i) a" using il by (simp add: Cons_nth_drop_Suc)
    have d': "drop (Suc i) arr = drop (Suc i) a"
      using 1(7) by (metis drop_Suc tl_drop)
    show ?thesis
    proof (cases "validate_revocation_entry (a ! i)")
      case (Some e)
      then show ?thesis using True ai d by (simp add: dedupe_loop.simps)
    next
      case None
      show ?thesis
      proof (cases "0 < i \<and> arr ! i = arr ! (i - 1)")
        case same: True
        then have "a ! i = a ! (i - 1)" using ai 1(8) by simp
        then have "take k arr = remdups_adj (take (Suc i) a)" using remdups_adj_take [OF il] same 1(6) by simp
        then show ?thesis
          using 1(1) [OF True _ same] None ai 1(3,4) il d d' same True
          by (simp add: dedupe_loop.simps [of arr k i])
      next
        case new: False
        then have nw: "\<not> (0 < i \<and> a ! i = a ! (i - 1))" using ai 1(8) by auto
        have kl: "k < length arr" using 1(4) True by simp
        have t: "take (k + 1) (arr[k := arr ! i]) = remdups_adj (take (Suc i) a)"
          using remdups_adj_take [OF il] nw 1(6) kl ai by (simp add: take_Suc_conv_app_nth)
        have dr: "drop (Suc i) (arr[k := arr ! i]) = drop (Suc i) a" using d' 1(4) by simp
        have nth: "arr[k := arr ! i] ! i = a ! i" using ai kl by (cases "k = i") simp_all
        show ?thesis
          using 1(2) [OF True _ new] None ai 1(3,4) il d t dr nth new True
          by (auto simp: dedupe_loop.simps [of arr k i])
      qed
    qed
  qed
qed

lemma build_revocation:
  "build_revocation_status epoch es =
     (if epoch < 1 then Inl (EpochNotPositive epoch)
      else case first_error validate_revocation_entry (sort_key entry_key es) of
             Some e \<Rightarrow> Inl e | None \<Rightarrow> Inr (remdups_adj (sort_key entry_key es)))"
  using dedupe_loop_is_remdups [of "sort_key entry_key es" "sort_key entry_key es" 0 0]
  by (simp add: build_revocation_status_def)

lemma entry_key_inject: "entry_key e = entry_key f \<longleftrightarrow> e = f"
  by (cases e; cases f) (simp add: entry_key_def)

lemma sorted_remdups: "sorted (map entry_key xs) \<Longrightarrow> sorted_wrt (<) (map entry_key (remdups_adj xs))"
proof (induction xs rule: remdups_adj.induct)
  case (3 x y xs)
  show ?case
  proof (cases "x = y")
    case True
    then show ?thesis using 3 by simp
  next
    case False
    then have lt: "entry_key x < entry_key y" using 3(3) entry_key_inject [of x y] by (simp add: order.strict_iff_order)
    have IH: "sorted_wrt (<) (map entry_key (remdups_adj (y # xs)))" using 3(2) [OF False] 3(3) by simp
    have "entry_key x < entry_key z" if "z \<in> set (remdups_adj (y # xs))" for z
    proof -
      have "z = y \<or> z \<in> set xs" using that by (simp add: remdups_adj_set)
      then have "entry_key y \<le> entry_key z" using 3(3) by auto
      with lt show ?thesis by (rule order.strict_trans2)
    qed
    with IH False show ?thesis by simp
  qed
qed simp_all

lemma same_snapshot:
  assumes "set xs = set ys"
  shows "remdups_adj (sort_key entry_key xs) = remdups_adj (sort_key entry_key ys)"
proof -
  let ?x = "map entry_key (remdups_adj (sort_key entry_key xs))"
  let ?y = "map entry_key (remdups_adj (sort_key entry_key ys))"
  have "sorted_wrt (<) ?x" "sorted_wrt (<) ?y" by (simp_all add: sorted_remdups)
  moreover have "set ?x = set ?y" using assms by (simp add: remdups_adj_set)
  ultimately have "?x = ?y" by (simp add: strict_sorted_equal)
  moreover have "inj entry_key" by (simp add: inj_def entry_key_inject)
  ultimately show ?thesis by (simp add: inj_map_eq_map)
qed

section \<open>Signatures\<close>

definition keys_work :: "signer \<Rightarrow> bool" where
  "keys_work r \<longleftrightarrow>
     (\<forall>m s. sg_ml_sign r m = Some s \<longrightarrow> sg_ml_verify r m s) \<and> (\<forall>m s. sg_slh_sign r m = Some s \<longrightarrow> sg_slh_verify r m s)"

lemma alg_distinct [simp]: "alg_ml \<noteq> alg_slh" "alg_slh \<noteq> alg_ml"
  by (simp_all add: alg_ml_def alg_slh_def)

lemma sign_keys_verify:
  assumes "sign_keys r kind payload_sha ks = Inr sigs" "keys_work r" "\<forall>k \<in> set ks. km_alg k = alg_ml \<or> km_alg k = alg_slh"
    "en_kind env = kind" "en_profile env = profile_root" "en_payload_sha env = payload_sha" "sig \<in> set sigs"
  shows "verify_signature r env sig = None"
  using assms(1,3,7)
proof (induction ks arbitrary: sigs)
  case (Cons k ks)
  define input where "input = signature_input kind profile_root (km_alg k) (sg_key_id r) (km_fingerprint k) payload_sha"
  obtain raw rest where raw: "raw_signature r (km_alg k) input = Inr raw" "sign_keys r kind payload_sha ks = Inr rest"
    and sigs: "sigs = \<lparr>se_alg = km_alg k, se_key_id = sg_key_id r, se_fingerprint = km_fingerprint k,
       se_input_sha = sha256_prefixed (sg_sha r) input, se_sig_b64 = base64_encode raw\<rparr> # rest"
    using Cons.prems(1) by (auto simp: Let_def input_def split: sum.splits)
  show ?case
  proof (cases "sig \<in> set rest")
    case True
    then show ?thesis using Cons.IH [OF raw(2)] Cons.prems(2) by simp
  next
    case False
    then have s: "sig = hd sigs" using Cons.prems(3) sigs by simp
    have alg: "km_alg k = alg_ml \<or> km_alg k = alg_slh" using Cons.prems(2) by simp
    then have "find (\<lambda>x. km_alg x = km_alg k) (rev (public_keys r)) \<noteq> None"
      by (auto simp: public_keys_def material_def)
    moreover have "(km_alg k = alg_ml \<longrightarrow> sg_ml_verify r input raw) \<and> (km_alg k = alg_slh \<longrightarrow> sg_slh_verify r input raw)"
      using raw(1) assms(2) by (auto simp: raw_signature_def keys_work_def split: option.splits)
    ultimately show ?thesis using alg s sigs assms(4-6) base64_round_trip
      by (auto simp: verify_signature_def Let_def input_def)
  qed
qed simp

lemma signed:
  assumes "sign_envelope r kind payload_raw = Inr env"
  shows "\<exists>canonical. canonicalize_v1 payload_raw = Inr canonical
    \<and> en_kind env = kind \<and> en_payload env = canonical \<and> en_payload_sha env = sha256_prefixed (sg_sha r) canonical
    \<and> en_profile env = profile_root \<and> length (en_signatures env) = 2
    \<and> map se_alg (en_signatures env) = [alg_ml, alg_slh]
    \<and> sign_keys r kind (en_payload_sha env) (public_keys r) = Inr (en_signatures env)"
  using assms
  by (auto simp: sign_envelope_def Let_def public_keys_def material_def split: sum.splits)

lemma canonical_again: "canonicalize_v1 raw = Inr canonical \<Longrightarrow> canonicalize_v1 canonical = Inr canonical"
  using canonical_value_emit canonical_value_good by (auto simp: canonicalize_value)

lemma signed_entries_verify:
  assumes "sign_envelope r kind payload_raw = Inr env" "keys_work r" "set sigs \<subseteq> set (en_signatures env)" "length sigs = 2"
  shows "verify_envelope r (env\<lparr>en_signatures := sigs\<rparr>) kind = None"
proof -
  obtain canonical where c: "canonicalize_v1 payload_raw = Inr canonical" "en_kind env = kind" "en_payload env = canonical"
      "en_payload_sha env = sha256_prefixed (sg_sha r) canonical" "en_profile env = profile_root"
      "sign_keys r kind (en_payload_sha env) (public_keys r) = Inr (en_signatures env)"
    using signed [OF assms(1)] by blast
  have "verify_signature r (env\<lparr>en_signatures := sigs\<rparr>) sig = None" if "sig \<in> set sigs" for sig
  proof (rule sign_keys_verify [OF c(6) assms(2)])
    show "\<forall>k \<in> set (public_keys r). km_alg k = alg_ml \<or> km_alg k = alg_slh"
      by (simp add: public_keys_def material_def)
    show "sig \<in> set (en_signatures env)" using that assms(3) by blast
  qed (use c in simp_all)
  then show ?thesis using c canonical_again [OF c(1)] assms(4) by (simp add: verify_envelope_def)
qed

section \<open>The bytes of an envelope\<close>

lemma hex_encode_ascii: "list_all ascii (hex_encode s)"
  by (induction s) (simp_all add: hex_encode_Cons hex_digit_ascii byte_split)

lemma base64_char_ascii: "n < 64 \<Longrightarrow> ascii (base64_char n)"
  by (auto simp: base64_char_def ascii_def)

lemma base64_encode_ascii: "list_all ascii (base64_encode s)"
proof (induction s rule: base64_encode.induct)
  case (2 a)
  have "byte_val a * 16 div 64 < 64" using byte_val_less [of a] by (intro less_mult_imp_div_less) simp
  then show ?case by (simp add: Let_def base64_char_ascii) (simp add: ascii_def)
next
  case (3 a b)
  have "(byte_val a * 256 + byte_val b) * 4 div 4096 < 64"
    using base64_triple_less [of a b "CHR 0x00"] by (intro less_mult_imp_div_less) simp
  then show ?case by (simp add: Let_def base64_char_ascii) (simp add: ascii_def)
next
  case (4 a b c s)
  note l = base64_parts [OF base64_triple_less [of a b c]]
  show ?case using l 4 by (simp only: base64_encode.simps Let_def) (simp add: base64_char_ascii)
qed simp

lemma sha256_text_utf8 [simp]: "utf8_valid (sha256_prefixed sha s)"
  using hex_encode_ascii [of "sha s"] by (simp add: sha256_prefixed_def utf8_valid_all_ascii ascii_def)

lemma signed_entries_utf8:
  "sign_keys r kind payload_sha ks = Inr sigs \<Longrightarrow> utf8_valid (sg_key_id r) \<Longrightarrow>
     \<forall>k \<in> set ks. utf8_valid (km_alg k) \<and> utf8_valid (km_fingerprint k) \<Longrightarrow> map utf8_entry sigs = sigs"
proof (induction ks arbitrary: sigs)
  case (Cons k ks)
  define input where "input = signature_input kind profile_root (km_alg k) (sg_key_id r) (km_fingerprint k) payload_sha"
  obtain raw rest where "sign_keys r kind payload_sha ks = Inr rest"
    and sigs: "sigs = \<lparr>se_alg = km_alg k, se_key_id = sg_key_id r, se_fingerprint = km_fingerprint k,
       se_input_sha = sha256_prefixed (sg_sha r) input, se_sig_b64 = base64_encode raw\<rparr> # rest"
    using Cons.prems(1) by (auto simp: Let_def input_def split: sum.splits)
  then show ?case using Cons base64_encode_ascii [of raw]
    by (simp add: utf8_entry_def to_utf8_same utf8_valid_all_ascii)
qed simp

lemma public_keys_utf8: "\<forall>k \<in> set (public_keys r). utf8_valid (km_alg k) \<and> utf8_valid (km_fingerprint k)"
  by (simp add: public_keys_def material_def public_key_fingerprint_def alg_ml_def alg_slh_def ascii_def)

lemma written_envelope:
  assumes "sign_envelope r kind payload_raw = Inr env" "utf8_valid (sg_key_id r)"
    "canonical_value payload_raw = Inr v" "json_within v 9999" "set sigs \<subseteq> set (en_signatures env)"
  shows "\<exists>bundle. marshal_envelope (env\<lparr>en_signatures := sigs\<rparr>) = Some bundle
    \<and> unmarshal_envelope bundle =
       Some (env\<lparr>en_signatures := sigs, en_kind := to_utf8 kind, en_payload := emit_with html_string v\<rparr>)"
proof -
  have c: "canonicalize_v1 payload_raw = Inr (emit_value v)" using assms(3) by (simp add: canonicalize_v1_def)
  have e: "en_kind env = kind" "en_payload env = emit_value v" "en_canonicalization env = canonicalization_v1"
    "en_profile env = profile_root" "utf8_valid (en_payload_sha env)"
    "sign_keys r kind (en_payload_sha env) (public_keys r) = Inr (en_signatures env)"
    using assms(1) c by (auto simp: sign_envelope_def Let_def split: sum.splits)
  have "map utf8_entry (en_signatures env) = map id (en_signatures env)"
    using signed_entries_utf8 [OF e(6) assms(2) public_keys_utf8] by simp
  then have "\<forall>sig \<in> set (en_signatures env). utf8_entry sig = sig" by (simp only: map_eq_conv id_apply)
  then have s: "map utf8_entry sigs = sigs" using assms(5) by (intro map_idI) blast
  have "utf8_valid canonicalization_v1" "utf8_valid profile_root"
    by (simp_all add: canonicalization_v1_def profile_root_def ascii_def)
  then have "utf8_envelope x (env\<lparr>en_signatures := sigs\<rparr>) =
      env\<lparr>en_signatures := sigs, en_kind := to_utf8 kind, en_payload := x\<rparr>" for x
    using e s by (cases env) (simp add: utf8_envelope_def to_utf8_same)
  moreover have "en_payload (env\<lparr>en_signatures := sigs\<rparr>) = emit_value v" using e(2) by simp
  ultimately show ?thesis
    using envelope_read_back [OF canonical_value_good [OF assms(3)] assms(4)] by metis
qed

lemma signed_bundle:
  assumes "sign r kind payload_raw = Inr bundle" "utf8_valid (sg_key_id r)"
    "canonical_value payload_raw = Inr v" "json_within v 9999"
  shows "\<exists>env. sign_envelope r kind payload_raw = Inr env
    \<and> unmarshal_envelope bundle = Some (env\<lparr>en_kind := to_utf8 kind, en_payload := emit_with html_string v\<rparr>)"
proof -
  obtain env where env: "sign_envelope r kind payload_raw = Inr env" "marshal_envelope env = Some bundle"
    using assms(1) by (auto simp: sign_def split: sum.splits option.splits)
  from written_envelope [OF env(1) assms(2-4) order_refl] env show ?thesis by auto
qed

lemma same_verdict:
  "en_kind env' = en_kind env \<Longrightarrow> en_profile env' = en_profile env \<Longrightarrow> en_payload_sha env' = en_payload_sha env \<Longrightarrow>
     verify_signature r env' sig = verify_signature r env sig"
  by (simp add: verify_signature_def)

lemma respelled_verdict:
  assumes "canonical_value payload_raw = Inr v" "en_payload env = emit_value v"
  shows "verify_envelope r (env\<lparr>en_payload := emit_with html_string v\<rparr>) expected = verify_envelope r env expected"
proof -
  note g = canonical_value_good [OF assms(1)]
  have "canonicalize_v1 (emit_with html_string v) = canonicalize_v1 (en_payload env)"
    using respelled_payload [OF g] canonical_value_emit [OF g] assms(2) by (simp add: canonicalize_v1_def)
  moreover have "verify_signature r (env\<lparr>en_payload := emit_with html_string v\<rparr>) = verify_signature r env"
    by (rule ext, rule same_verdict) simp_all
  ultimately show ?thesis by (simp add: verify_envelope_def split: sum.split)
qed

section \<open>The properties\<close>

text \<open>C25: the package hash fixes the files: two trees whose paths hold no NUL and which have the same
  package hash have the same paths and the same contents, as far as the hash function tells the bytes
  it is given apart.\<close>

theorem the_package_hash_fixes_the_files:
  assumes "\<forall>p. p |\<in>| fmdom f \<longrightarrow> CHR 0x00 \<notin> set p" "\<forall>p. p |\<in>| fmdom g \<longrightarrow> CHR 0x00 \<notin> set p"
    "files_inject sha f g" "package_hash sha f = package_hash sha g"
  shows "f = g"
proof -
  have "sha (hash_input sha f) = sha (hash_input sha g)"
    using assms(4) by (simp add: package_hash_def hex_encode_inject)
  then have "hash_input sha f = hash_input sha g"
    using assms(3) unfolding files_inject_def inj_on_def by blast
  then have "concat (map (hash_line sha f) (sorted_list_of_fset (fmdom f))) =
      concat (map (hash_line sha g) (sorted_list_of_fset (fmdom g)))" unfolding hash_input_def .
  moreover have "\<forall>p \<in> set (sorted_list_of_fset (fmdom f)). CHR 0x00 \<notin> set p"
    "\<forall>p \<in> set (sorted_list_of_fset (fmdom g)). CHR 0x00 \<notin> set p"
    using assms(1,2) by simp_all
  ultimately have l: "sorted_list_of_fset (fmdom f) = sorted_list_of_fset (fmdom g) \<and>
      (\<forall>p \<in> set (sorted_list_of_fset (fmdom f)). sha (the (fmlookup f p)) = sha (the (fmlookup g p)))"
    by (intro hash_lines_inject)
  then have d: "fmdom f = fmdom g" by (metis sorted_list_of_fset_simps(2))
  show ?thesis
  proof (rule fmap_ext)
    fix p
    show "fmlookup f p = fmlookup g p"
    proof (cases "p |\<in>| fmdom f")
      case False
      then show ?thesis using d by (simp add: fmdom_notD)
    next
      case True
      then obtain x y where xy: "fmlookup f p = Some x" "fmlookup g p = Some y" using d by (metis fmlookup_dom_iff)
      then have "sha x = sha y" using conjunct2 [OF l] True by fastforce
      moreover have "x \<in> fmran' f" "y \<in> fmran' g" using xy by (auto simp: fmran'_alt_def intro: fmranI)
      ultimately have "x = y" using assms(3) unfolding files_inject_def inj_on_def by blast
      then show ?thesis using xy by simp
    qed
  qed
qed

theorem the_package_hash_fixes_the_files_witness:
  "package_hash (\<lambda>s. s) (fmupd ''a'' ''x'' fmempty) \<noteq> package_hash (\<lambda>s. s) (fmupd ''a'' ''y'' fmempty)"
proof
  assume h: "package_hash (\<lambda>s. s) (fmupd ''a'' ''x'' fmempty) = package_hash (\<lambda>s. s) (fmupd ''a'' ''y'' fmempty)"
  have "fmupd ''a'' ''x'' fmempty = fmupd ''a'' ''y'' (fmempty :: (bytes, bytes) fmap)"
    by (rule the_package_hash_fixes_the_files [OF _ _ _ h]) (simp_all add: files_inject_def)
  then have "fmlookup (fmupd ''a'' ''x'' fmempty) ''a'' = fmlookup (fmupd ''a'' ''y'' (fmempty :: (bytes, bytes) fmap)) ''a''"
    by simp
  then show False by simp
qed

text \<open>a signature names its context: two signature inputs are the same bytes only if the kind of
  artifact, the profile, the algorithm, the key, its fingerprint and the payload's hash are the same,
  when none of them holds a line feed.\<close>

theorem signatures_name_their_context:
  assumes "\<forall>v \<in> {kind, profile, alg, key_id, fingerprint, sha}. CHR 0x0A \<notin> set v"
    "\<forall>v \<in> {kind', profile', alg', key_id', fingerprint', sha'}. CHR 0x0A \<notin> set v"
    "signature_input kind profile alg key_id fingerprint sha =
     signature_input kind' profile' alg' key_id' fingerprint' sha'"
  shows "kind = kind' \<and> profile = profile' \<and> alg = alg' \<and> key_id = key_id' \<and> fingerprint = fingerprint' \<and> sha = sha'"
proof -
  have c: "CHR 0x0A \<notin> set canonicalization_v1" by (simp add: canonicalization_v1_def)
  have "line ''AIII-SIGNATURE-V1'' [] @ line ''artifact_kind:'' kind @ line ''canonicalization:'' canonicalization_v1
     @ line ''signature_profile:'' profile @ line ''alg:'' alg @ line ''key_id:'' key_id
     @ line ''public_key_fingerprint:'' fingerprint @ line ''payload_sha256:'' sha @ [] =
     line ''AIII-SIGNATURE-V1'' [] @ line ''artifact_kind:'' kind' @ line ''canonicalization:'' canonicalization_v1
     @ line ''signature_profile:'' profile' @ line ''alg:'' alg' @ line ''key_id:'' key_id'
     @ line ''public_key_fingerprint:'' fingerprint' @ line ''payload_sha256:'' sha' @ []"
    using assms(3) by (simp only: signature_input_def append_Nil2)
  then show ?thesis using assms(1,2) c by (simp add: line_inject line_eq)
qed

theorem signatures_name_their_context_witness:
  "signature_input kind_manifest profile_root alg_ml ''k'' ''f'' ''s''
   \<noteq> signature_input kind_publisher_cert profile_root alg_ml ''k'' ''f'' ''s''"
proof
  assume h: "signature_input kind_manifest profile_root alg_ml ''k'' ''f'' ''s''
    = signature_input kind_publisher_cert profile_root alg_ml ''k'' ''f'' ''s''"
  have "kind_manifest = kind_publisher_cert"
    by (rule signatures_name_their_context [OF _ _ h, THEN conjunct1])
      (simp_all add: kind_manifest_def kind_publisher_cert_def profile_root_def alg_ml_def)
  then show False by (simp add: kind_manifest_def kind_publisher_cert_def)
qed

text \<open>C26: what a role signs it verifies, from bytes to bytes: if its keys verify what they sign and its
  key id is UTF-8, then the bytes \<open>Sign\<close> gives for a payload pass \<open>VerifyOwnEnvelope\<close> for the kind they
  were signed as exactly when that kind is UTF-8, and then for no other kind; although the payload the
  verifier reads is respelled by \<open>encoding/json\<close> (HTML letters and line separators escaped). A kind that is not
  UTF-8 is replaced on the way and refused. The payload opens at most 9999 brackets at once: the
  envelope is one more and the decoder stops at 10000.\<close>

theorem signing_then_verifying:
  assumes "sign r kind payload_raw = Inr bundle" "keys_work r" "utf8_valid (sg_key_id r)"
    "canonical_value payload_raw = Inr v" "json_within v 9999"
  shows "(verify_own_envelope r bundle kind = None \<longleftrightarrow> utf8_valid kind)
    \<and> (utf8_valid kind \<longrightarrow> (\<forall>other. other \<noteq> kind \<longrightarrow> verify_own_envelope r bundle other \<noteq> None))"
proof -
  obtain env where env: "sign_envelope r kind payload_raw = Inr env"
      "unmarshal_envelope bundle = Some (env\<lparr>en_kind := to_utf8 kind, en_payload := emit_with html_string v\<rparr>)"
    using signed_bundle [OF assms(1,3,4,5)] by blast
  have e: "en_kind env = kind" "en_payload env = emit_value v"
    using signed [OF env(1)] assms(4) by (auto simp: canonicalize_v1_def)
  have ok: "verify_envelope r env kind = None"
    using signed_entries_verify [OF env(1) assms(2) order_refl] signed [OF env(1)] by simp
  show ?thesis
  proof (cases "utf8_valid kind")
    case True
    then have "env\<lparr>en_kind := to_utf8 kind, en_payload := x\<rparr> = env\<lparr>en_payload := x\<rparr>" for x
      using e by (cases env) (simp add: to_utf8_same)
    then have "verify_own_envelope r bundle other = verify_envelope r env other" for other
      using env(2) respelled_verdict [OF assms(4) e(2)] by (simp add: verify_own_envelope_def)
    then show ?thesis using ok True e(1) by (auto simp: verify_envelope_def)
  next
    case False
    then have "to_utf8 kind \<noteq> kind" using to_utf8_iff by blast
    then show ?thesis using False env(2) by (simp add: verify_own_envelope_def verify_envelope_def)
  qed
qed

text \<open>C27: \<open>VerifyOwnEnvelope\<close> counts the signatures without looking at which they are: two copies of
  either one pass, so the envelope may lack the other algorithm's signature altogether. That holds of
  the checks after decoding, and, where the kind and the key id are UTF-8, of the bundle written of
  such an envelope.\<close>

theorem two_copies_of_a_signature_pass:
  assumes "sign_envelope r kind payload_raw = Inr env" "keys_work r" "sig \<in> set (en_signatures env)"
  shows "verify_envelope r (env\<lparr>en_signatures := [sig, sig]\<rparr>) kind = None
    \<and> (utf8_valid kind \<and> utf8_valid (sg_key_id r) \<and> (\<exists>v. canonical_value payload_raw = Inr v \<and> json_within v 9999)
       \<longrightarrow> (\<exists>bundle. marshal_envelope (env\<lparr>en_signatures := [sig, sig]\<rparr>) = Some bundle
              \<and> verify_own_envelope r bundle kind = None))"
proof -
  let ?env = "env\<lparr>en_signatures := [sig, sig]\<rparr>"
  have ok: "verify_envelope r ?env kind = None"
    using assms(3) by (intro signed_entries_verify [OF assms(1,2)]) simp_all
  moreover have "\<exists>bundle. marshal_envelope ?env = Some bundle \<and> verify_own_envelope r bundle kind = None"
    if u: "utf8_valid kind" "utf8_valid (sg_key_id r)" and v: "canonical_value payload_raw = Inr v" "json_within v 9999" for v
  proof -
    have e: "en_kind env = kind" "en_payload ?env = emit_value v"
      using signed [OF assms(1)] v(1) by (auto simp: canonicalize_v1_def)
    obtain x where x: "marshal_envelope ?env = Some x"
        "unmarshal_envelope x = Some (?env\<lparr>en_kind := to_utf8 kind, en_payload := emit_with html_string v\<rparr>)"
      using written_envelope [OF assms(1) u(2) v, of "[sig, sig]"] assms(3) by auto
    have "?env\<lparr>en_kind := to_utf8 kind, en_payload := y\<rparr> = ?env\<lparr>en_payload := y\<rparr>" for y
      using e(1) u(1) by (cases env) (simp add: to_utf8_same)
    then show ?thesis using x ok respelled_verdict [OF v(1) e(2)] by (simp add: verify_own_envelope_def)
  qed
  ultimately show ?thesis by blast
qed

definition plain_signer :: signer where
  "plain_signer = \<lparr>sg_sha = (\<lambda>s. s), sg_key_id = ''k'', sg_ml_public = ''m'', sg_slh_public = ''s'',
     sg_ml_sign = Some, sg_slh_sign = Some, sg_ml_verify = (=), sg_slh_verify = (=)\<rparr>"

lemma plain_signed: "\<exists>env. sign_envelope plain_signer kind_manifest ''true'' = Inr env"
proof -
  have "canonicalize_v1 ''true'' = Inr ''true''"
    using canonical_value_emit [of "JBool True"] by (simp add: canonicalize_v1_def)
  then show ?thesis
    by (simp add: sign_envelope_def public_keys_def material_def raw_signature_def plain_signer_def Let_def)
qed

lemma plain_keys: "keys_work plain_signer"
  by (simp add: keys_work_def plain_signer_def)

lemma plain_bundle: "\<exists>bundle. sign plain_signer kind_manifest ''true'' = Inr bundle"
proof -
  obtain env where env: "sign_envelope plain_signer kind_manifest ''true'' = Inr env" using plain_signed by blast
  have "canonicalize_v1 ''true'' = Inr ''true''"
    using canonical_value_emit [of "JBool True"] by (simp add: canonicalize_v1_def)
  then have "en_payload env = emit_value (JBool True)" using signed [OF env] by auto
  then obtain x where "marshal_envelope env = Some x"
    using envelope_read_back [of "JBool True" env] by auto
  then show ?thesis using env by (simp add: sign_def)
qed

theorem signing_then_verifying_witness:
  "\<exists>bundle. sign plain_signer kind_manifest ''true'' = Inr bundle \<and> verify_own_envelope plain_signer bundle kind_manifest = None
     \<and> verify_own_envelope plain_signer bundle kind_publisher_cert \<noteq> None"
proof -
  obtain x where b: "sign plain_signer kind_manifest ''true'' = Inr x" using plain_bundle by blast
  have "canonical_value ''true'' = Inr (JBool True)" using canonical_value_emit [of "JBool True"] by simp
  moreover have "utf8_valid (sg_key_id plain_signer)" by (simp add: plain_signer_def ascii_def)
  moreover have "utf8_valid kind_manifest" "kind_publisher_cert \<noteq> kind_manifest"
    by (simp_all add: kind_manifest_def kind_publisher_cert_def ascii_def)
  ultimately show ?thesis using signing_then_verifying [OF b plain_keys, of "JBool True"] b by auto
qed

theorem two_copies_of_a_signature_pass_witness:
  "\<exists>env sig bundle. sign_envelope plain_signer kind_manifest ''true'' = Inr env \<and> se_alg sig = alg_ml
     \<and> verify_envelope plain_signer (env\<lparr>en_signatures := [sig, sig]\<rparr>) kind_manifest = None
     \<and> marshal_envelope (env\<lparr>en_signatures := [sig, sig]\<rparr>) = Some bundle
     \<and> verify_own_envelope plain_signer bundle kind_manifest = None"
proof -
  obtain env where env: "sign_envelope plain_signer kind_manifest ''true'' = Inr env" using plain_signed by blast
  then have "map se_alg (en_signatures env) = [alg_ml, alg_slh]" using signed by blast
  then obtain sig where "sig \<in> set (en_signatures env)" "se_alg sig = alg_ml"
    by (cases "en_signatures env") auto
  moreover have "canonical_value ''true'' = Inr (JBool True)" using canonical_value_emit [of "JBool True"] by simp
  moreover have "utf8_valid kind_manifest" "utf8_valid (sg_key_id plain_signer)" "json_within (JBool True) 9999"
    by (simp_all add: kind_manifest_def plain_signer_def ascii_def)
  ultimately show ?thesis using env two_copies_of_a_signature_pass [OF env plain_keys, of sig] by blast
qed

lemma snapshot_parts:
  assumes "1 \<le> epoch"
  shows "(\<forall>e \<in> set es. validate_revocation_entry e = None) \<longrightarrow>
      (\<exists>out. build_revocation_status epoch es = Inr out \<and> set out = set es
         \<and> sorted_wrt (<) (map entry_key out)
         \<and> (\<forall>es'. set es' = set es \<longrightarrow> build_revocation_status epoch es' = Inr out))"
    "(\<exists>e \<in> set es. validate_revocation_entry e \<noteq> None) \<longrightarrow>
      (\<exists>e err. e \<in> set es \<and> validate_revocation_entry e = Some err \<and> build_revocation_status epoch es = Inl err)"
proof -
  have e: "\<not> epoch < 1" using assms by simp
  show "(\<forall>e \<in> set es. validate_revocation_entry e = None) \<longrightarrow>
      (\<exists>out. build_revocation_status epoch es = Inr out \<and> set out = set es
         \<and> sorted_wrt (<) (map entry_key out)
         \<and> (\<forall>es'. set es' = set es \<longrightarrow> build_revocation_status epoch es' = Inr out))"
  proof
    assume v: "\<forall>e \<in> set es. validate_revocation_entry e = None"
    have b: "build_revocation_status epoch es' = Inr (remdups_adj (sort_key entry_key es'))" if "set es' = set es" for es'
    proof -
      have "first_error validate_revocation_entry (sort_key entry_key es') = None" using v that by simp
      then show ?thesis unfolding build_revocation by (simp only: e if_False option.case)
    qed
    have "build_revocation_status epoch es' = Inr (remdups_adj (sort_key entry_key es))" if "set es' = set es" for es'
      using b [OF that] same_snapshot [OF that] by simp
    then show "\<exists>out. build_revocation_status epoch es = Inr out \<and> set out = set es
         \<and> sorted_wrt (<) (map entry_key out)
         \<and> (\<forall>es'. set es' = set es \<longrightarrow> build_revocation_status epoch es' = Inr out)"
      by (intro exI [of _ "remdups_adj (sort_key entry_key es)"]) (simp add: sorted_remdups remdups_adj_set)
  qed
  show "(\<exists>e \<in> set es. validate_revocation_entry e \<noteq> None) \<longrightarrow>
      (\<exists>e err. e \<in> set es \<and> validate_revocation_entry e = Some err \<and> build_revocation_status epoch es = Inl err)"
  proof
    assume "\<exists>e \<in> set es. validate_revocation_entry e \<noteq> None"
    then obtain err where f: "first_error validate_revocation_entry (sort_key entry_key es) = Some err"
      by (cases "first_error validate_revocation_entry (sort_key entry_key es)") auto
    from first_error_Some [OF this] obtain x where "x \<in> set es" "validate_revocation_entry x = Some err" by auto
    then show "\<exists>e err. e \<in> set es \<and> validate_revocation_entry e = Some err \<and> build_revocation_status epoch es = Inl err"
      using f e by (intro exI [of _ x] exI [of _ err]) (simp add: build_revocation)
  qed
qed

text \<open>C37: a snapshot lists each entry once, in order, whatever order and repetition it was given: if
  every entry is one the certifier may revoke, the result holds exactly the entries given, strictly
  sorted by kind and digest, and any other list of the same entries gives the same result; if one is
  not, there is no snapshot. Dropping repeats inside the array it reads loses nothing.\<close>

theorem snapshots_list_each_entry_once:
  assumes "1 \<le> epoch"
  shows "((\<forall>e \<in> set es. validate_revocation_entry e = None) \<longrightarrow>
      (\<exists>out. build_revocation_status epoch es = Inr out \<and> set out = set es
         \<and> sorted_wrt (<) (map entry_key out)
         \<and> (\<forall>es'. set es' = set es \<longrightarrow> build_revocation_status epoch es' = Inr out)))
    \<and> ((\<exists>e \<in> set es. validate_revocation_entry e \<noteq> None) \<longrightarrow>
      (\<exists>e err. e \<in> set es \<and> validate_revocation_entry e = Some err \<and> build_revocation_status epoch es = Inl err))"
  using snapshot_parts [OF assms, of es] by (rule conjI)

definition zero_digest :: bytes where
  "zero_digest = ''sha256:'' @ replicate 64 (CHR ''0'')"

theorem snapshots_list_each_entry_once_witness:
  "\<exists>out. build_revocation_status 1
      [\<lparr>rv_kind = kind_publisher_cert, rv_digest = zero_digest\<rparr>, \<lparr>rv_kind = kind_manifest, rv_digest = zero_digest\<rparr>,
       \<lparr>rv_kind = kind_publisher_cert, rv_digest = zero_digest\<rparr>] = Inr out \<and> length out = 2"
proof -
  define a b where ab: "a = \<lparr>rv_kind = kind_publisher_cert, rv_digest = zero_digest\<rparr>"
    "b = \<lparr>rv_kind = kind_manifest, rv_digest = zero_digest\<rparr>"
  have d: "validate_revocation_digest zero_digest = None"
    by (simp add: validate_revocation_digest_def zero_digest_def has_prefix_def list_all_iff is_digit_val)
  then have "\<forall>e \<in> set [a, b, a]. validate_revocation_entry e = None"
    by (simp add: ab validate_revocation_entry_def certifier_may_revoke_def)
  then obtain out where out: "build_revocation_status 1 [a, b, a] = Inr out" "set out = set [a, b, a]"
      "sorted_wrt (<) (map entry_key out)"
    using snapshots_list_each_entry_once [of 1 "[a, b, a]"] by auto
  have "distinct (map entry_key out)" using out(3) strict_sorted_iff by blast
  then have "length out = card (set out)" by (metis distinct_card distinct_map)
  also have "set out = {a, b}" using out(2) by auto
  also have "card {a, b} = 2" by (simp add: ab kind_publisher_cert_def kind_manifest_def)
  finally show ?thesis using out(1) unfolding ab by blast
qed

end
