(* ===== verification/Spec2Isabelle.thy ===== *)
theory Spec2Isabelle
  imports Audio SessionFifo Tar ChecksFormed SendWindow Signing
begin

text \<open>
  The AII plugin SDK, \<open>src/pkg/aiiosdk\<close> (what runs inside a plugin) and
  \<open>src/pkg/aiiospkg\<close> (what builds and checks a package), as definitions and theorems.

  \<^bold>\<open>The program.\<close> A plugin is a process the AII OS host starts. It announces itself with one
  line, then answers framed JSON-RPC requests on its control stream: \<open>ReadFrame\<close>, \<open>respond\<close>,
  \<open>WriteFrame\<close>. Every payload passes the strict JSON scanner on the way in and on the way out.
  While it answers, it may call its host back for storage, settings, HTTP and embeddings.
  A resident session runs the same frames through a lane with one writer, a bounded queue, host
  calls in flight and admissions to answer, with raw audio on a second stream. Before any of that
  a package is authored: its declarations and its own checks are validated, its tree is checked,
  hashed and signed, and written as one canonical tar archive.

  \<^bold>\<open>Theories and the files they model: the kit inside a plugin.\<close>
  \<^item> \<open>Prelude\<close>: bytes, decimal and hexadecimal digits, splitting, first-error loops. \<open>Utf8\<close>:
    \<open>unicode/utf8\<close> and \<open>unicode/utf16\<close> as used.
  \<^item> \<open>StrictJson\<close>: \<open>strictjson.go\<close>. \<open>StrictGrammar\<close>: a grammar of the strict domain and the
    proof that the scanner decides it. \<open>NumberDomain\<close>: what \<open>numberDomainOK\<close> decides, and where
    its arithmetic wraps.
  \<^item> \<open>JsonWrite\<close>: \<open>marshal.go\<close> and the string writer of \<open>plugin.go\<close>. \<open>JsonObject\<close>,
    \<open>JsonNumber\<close>: \<open>object.go\<close>, \<open>arrays.go\<close>. \<open>JsonText\<close>: the texts written member by member
    and read back, shared by the components below.
  \<^item> \<open>PluginRpc\<close>: \<open>plugin.go\<close>, \<open>errors.go\<close>. \<open>Frame\<close>: \<open>frame.go\<close>, \<open>serve.go\<close> and the locale
    \<open>stream_codec\<close> (what one side writes, the other reads back and no more), extended by
    \<open>framed_stream\<close> (a cut frame is an error); both kinds of control frame, the audio frames and
    the members of an archive are interpretations. \<open>Audio\<close>: \<open>audio.go\<close>, \<open>session_audio.go\<close>.
  \<^item> \<open>HostCall\<close>: \<open>hostcall.go\<close> and \<open>settings.go\<close>: what a plugin asks of its host, the reply it
    decodes, and streamed bodies. \<open>SendWindow\<close>: \<open>sendwindow.go\<close>, \<open>hostnow.go\<close>, the counting of
    sends in the plugin's storage.
  \<^item> \<open>Session\<close>: the lane of \<open>session.go\<close> as a step relation, each step one critical section.
    \<open>SessionLane\<close>, \<open>SessionTruth\<close>: its invariants by rule induction. \<open>SessionFifo\<close>: the lane
    against an abstract queue, the bytes on the wire, and the writer left to itself.

  \<^bold>\<open>Theories and the files they model: the package.\<close>
  \<^item> \<open>Versions\<close>: \<open>semver.go\<close>, \<open>variant_preference.go\<close>, \<open>schedule.go\<close>. \<open>PkgTree\<close>: \<open>tree.go\<close>
    and the path rules of \<open>runtime.go\<close>. \<open>Tar\<close>: \<open>tar.go\<close>. \<open>Declarations\<close>: \<open>settings.go\<close>,
    \<open>webhooks.go\<close>, \<open>subscriptions.go\<close>. \<open>Native\<close>: \<open>native.go\<close>, the declarations and ceilings of
    \<open>runtime.go\<close>, and \<open>PartitionMethods\<close> of \<open>manifest.go\<close>. \<open>Author\<close>: the rules of \<open>author.go\<close>
    over all of these, and those of \<open>embeddings.go\<close> for a source of vectors.
  \<^item> \<open>GoJson\<close>: \<open>encoding/json\<close> as a stream of tokens. \<open>CanonJson\<close>: \<open>canonjson.go\<close>, its checks, its
    parser and its writer. \<open>CanonForm\<close>: the locale \<open>json_writer\<close> (a way to write strings that the
    parser reads back), from which the reading back of whole values follows for any such writer;
    the canonical writer is one interpretation, and gives that the canonical text is the value.
  \<^item> \<open>EnvelopeJson\<close>: \<open>json.Marshal\<close> and \<open>json.Unmarshal\<close> of the signed envelopes of
    \<open>envelope.go\<close>: replacement of bytes that are not UTF-8, HTML escapes, compaction of a raw
    payload, the scanner with its limit of 10000 brackets, members matched without regard to case,
    members of other types and repeated members. The writer of strings with HTML escapes is the
    second interpretation of \<open>json_writer\<close>. \<open>Signing\<close>: \<open>digest.go\<close>, the texts that are signed,
    \<open>Sign\<close> and \<open>VerifyOwnEnvelope\<close> of \<open>keys.go\<close> from bytes to bytes, and the snapshots of
    \<open>revocation.go\<close>.
  \<^item> \<open>GoText\<close>: \<open>strings\<close>, \<open>unicode\<close> and \<open>path\<close> as used. \<open>CheckDoc\<close>: documents, JSON pointers and the
    resolver with its caches, from \<open>validation.go\<close>. \<open>Recording\<close>, \<open>SessionJudge\<close>:
    \<open>session_checks.go\<close>. \<open>Validation\<close>: \<open>ParseValidation\<close> with all it calls. \<open>PackageChecks\<close>:
    \<open>ValidatePackageChecks\<close>, and that no iteration order of a Go map decides what is accepted.
    \<open>ChecksFormed\<close>: what a package whose checks are accepted is known to hold.

  \<^bold>\<open>Conventions.\<close> A Go string or byte slice is a list of bytes. A Go error is \<open>Inl\<close> or
  \<open>Some\<close> with a constructor per message; its text is not modelled except where it is sent. A map
  used as a set is a set; a map that is iterated is an association list in whatever order the
  iteration takes, or an \<open>fmap\<close> with the order as an argument, and the theorems hold for every
  order. A regular expression is the predicate it stands for. Indices that only grow are suffixes of
  the input. Lengths are naturals: a Go \<open>int\<close> that counts bytes in memory cannot wrap. Machine
  arithmetic that can wrap is written out (\<open>numberDomainOK\<close>, frame headers, audio fields, times).

  \<^bold>\<open>Arguments of the model.\<close> The host and its storage (a function that answers a call), the reader
  of a package's members, the order of a map, the tables of the \<open>unicode\<close> package, SHA-256 and the
  two signature schemes are arguments. What a theorem relies on them for is a hypothesis of it: that
  a write to storage is read back, that the hash tells the strings at hand apart, that a key verifies
  what it signs.

  \<^bold>\<open>Loops.\<close> Recursive definitions are total, by structure or by the length of the input, with two
  exceptions. \<open>pax_digits\<close> (the length of a PAX record that counts itself) and \<open>read_all_loop\<close> (the
  chunks of a stream until it ends) are \<open>partial_function\<close>s, as their loops have no bound of their
  own; the first is proved to end for every admitted path, the second on every stream that ends or
  passes the limit. The rounds of the padding loop of \<open>numberDomainOK\<close> are kept beside its result by
  \<open>number_run\<close>, and are shown to become astronomical for exponents that wrap. No fuel is used anywhere.

  \<^bold>\<open>Not modelled.\<close> Of the modelled files: \<open>Serve\<close> and \<open>ServeReady\<close> with the environment,
  \<open>ReadTree\<close>, \<open>writeRuntimeTree\<close>, gzip and its CRC, \<open>BuildManifest\<close> and \<open>ManifestHash\<close>, the files keys
  are kept in, \<open>LoadAuthorConfig\<close> and the other readers and writers of declarations through
  \<open>encoding/json\<close>, \<open>ParseRevocationStatusPayload\<close>, levels in decibels, the words of errors. Files left
  out: \<open>memory.go\<close>, \<open>files.go\<close>, \<open>interactions.go\<close> with its decoders, \<open>webhook.go\<close>, \<open>tools.go\<close>,
  \<open>channel.go\<close>, \<open>voice.go\<close>, \<open>worksession.go\<close> (calls to the host and readers of its replies),
  \<open>descriptor.go\<close> and \<open>schema.go\<close> (documents of reflected structures), \<open>guest.go\<close> (WebAssembly
  memory), \<open>cmd/aiisdk\<close>, \<open>internal\<close> and the examples. The goroutines and timers of \<open>serveSession\<close> are
  the free interleaving of \<open>lane_step\<close>; time does not pass in it.
\<close>

end
